(* ===== verification/Prelude.thy ===== *)
theory Prelude
  imports Main "HOL-Library.Word"
begin

unbundle bit_operations_syntax

text \<open>
  What the component theories share: the error values of the model, the error monad and its
  for-loops, the index types, the 64-bit masks the engine uses for selections and validity,
  and lemmas on lists and words.

  The integer types are those of \<^verbatim>\<open>src/src/include/duckdb/common/constants.hpp\<close> and
  \<^verbatim>\<open>typedefs.hpp\<close>: \<open>idx_t\<close> is a 64-bit unsigned count or position. It is a \<open>nat\<close>
  wherever the code only counts elements that are in memory, and a \<open>64 word\<close> wherever the
  code can wrap it around. \<open>sel_t\<close> is a 32-bit unsigned row position; a store into one is
  written with its \<open>mod 2 ^ 32\<close>.
\<close>

section \<open>Collections\<close>

named_theorems res_simps \<open>equations that evaluate the error monad\<close>
named_theorems sel_simps \<open>selection vectors and managed selections\<close>

section \<open>Errors as values\<close>

text \<open>
  The first four constructors are undefined behaviour of the C++ source that the model makes
  visible (an access outside a buffer, a read of a cell that was never written, a dereference
  of a null pointer, a dynamic type that does not match); the others are the exceptions the
  code throws. A function that returns \<open>Inr\<close> therefore performed no invalid memory access.
\<close>

datatype exc =
    OutOfBounds
  | Uninitialised
  | NullPointer
  | BadCast
  | InternalException
  | NotImplementedException
  | InvalidTypeException
  | TransactionException
  | SerializationException
  | InvalidUnicodeError

type_synonym idx_t = nat
type_synonym sel_t = nat
type_synonym u64 = "64 word"

definition bind_res :: "exc + 'a \<Rightarrow> ('a \<Rightarrow> exc + 'b) \<Rightarrow> exc + 'b" where
  "bind_res m f = (case m of Inl e \<Rightarrow> Inl e | Inr x \<Rightarrow> f x)"

lemma bind_res_Inl [simp, res_simps]: "bind_res (Inl e) f = Inl e"
  by (simp add: bind_res_def)

lemma bind_res_Inr [simp, res_simps]: "bind_res (Inr x) f = f x"
  by (simp add: bind_res_def)

lemma bind_res_eq_Inr: "bind_res m f = Inr y \<longleftrightarrow> (\<exists>x. m = Inr x \<and> f x = Inr y)"
  by (cases m) auto

lemma bind_res_Inr_right [simp]: "bind_res m Inr = m"
  by (cases m) auto

text \<open>
  \<open>fold_res body [a..<b] s\<close> is the loop \<open>for (i = a; i < b; i++) body\<close> on the loop
  state \<open>s\<close>; it stops at the first error.
\<close>

fun fold_res :: "('i \<Rightarrow> 's \<Rightarrow> exc + 's) \<Rightarrow> 'i list \<Rightarrow> 's \<Rightarrow> exc + 's" where
  "fold_res body [] s = Inr s"
| "fold_res body (i # is) s = bind_res (body i s) (fold_res body is)"

lemma fold_res_cong:
  "is = js \<Longrightarrow> (\<And>i s. i \<in> set js \<Longrightarrow> f i s = g i s) \<Longrightarrow> fold_res f is s = fold_res g js s"
proof (induction "is" arbitrary: js s)
  case (Cons i "is")
  then show ?case by (cases "f i s") auto
qed simp

lemma fold_res_map: "fold_res f (map g is) s = fold_res (\<lambda>i. f (g i)) is s"
proof (induction "is" arbitrary: s)
  case (Cons i "is")
  then show ?case by (cases "f (g i) s") auto
qed simp

lemma fold_res_filter: "fold_res (\<lambda>i s. if P i then f i s else Inr s) is s = fold_res f (filter P is) s"
proof (induction "is" arbitrary: s)
  case (Cons i "is")
  then show ?case by (cases "f i s") auto
qed simp

lemma fold_res_append: "fold_res body (xs @ ys) s = bind_res (fold_res body xs s) (fold_res body ys)"
proof (induction xs arbitrary: s)
  case (Cons x xs)
  then show ?case by (cases "body x s") auto
qed simp

lemma fold_res_Suc:
  "a \<le> b \<Longrightarrow> fold_res body [a..<Suc b] s = bind_res (fold_res body [a..<b] s) (body b)"
proof (cases "fold_res body [a..<b] s")
  case (Inr t)
  then show "a \<le> b \<Longrightarrow> ?thesis" by (cases "body b t") (simp_all add: fold_res_append)
qed (simp add: fold_res_append)

text \<open>The loop rule: an invariant that every iteration keeps, and no iteration fails.\<close>

lemma fold_res_upt_rule:
  assumes start: "I a s" and le: "a \<le> b"
    and step: "\<And>i s. a \<le> i \<Longrightarrow> i < b \<Longrightarrow> I i s \<Longrightarrow> \<exists>s'. body i s = Inr s' \<and> I (Suc i) s'"
  shows "\<exists>s'. fold_res body [a..<b] s = Inr s' \<and> I b s'"
proof -
  have "\<exists>s'. fold_res body [a..<a + k] s = Inr s' \<and> I (a + k) s'" if "a + k \<le> b" for k
    using that
  proof (induction k)
    case 0
    from start show ?case by simp
  next
    case (Suc k)
    then obtain s1 where s1: "fold_res body [a..<a + k] s = Inr s1" "I (a + k) s1"
      by auto
    from step [OF _ _ s1(2)] Suc.prems obtain s2
      where "body (a + k) s1 = Inr s2" "I (Suc (a + k)) s2" by auto
    with s1(1) show ?case by (simp add: fold_res_append)
  qed
  from this [of "b - a"] le show ?thesis by simp
qed

lemma fold_res_concat: "fold_res (\<lambda>i. fold_res body (g i)) is s = fold_res body (concat (map g is)) s"
proof (induction "is" arbitrary: s)
  case (Cons i "is")
  then have "fold_res (\<lambda>i. fold_res body (g i)) is = fold_res body (concat (map g is))" by auto
  then show ?case by (simp add: fold_res_append)
qed simp

lemma fold_res_Inr_pure:
  "(\<And>i s. i \<in> set is \<Longrightarrow> body i s = Inr (f i s)) \<Longrightarrow> fold_res body is s = Inr (fold f is s)"
  by (induction "is" arbitrary: s) auto

text \<open>A loop that fills a list with the results of a function that can fail.\<close>

fun map_res :: "('a \<Rightarrow> exc + 'b) \<Rightarrow> 'a list \<Rightarrow> exc + 'b list" where
  "map_res f [] = Inr []"
| "map_res f (x # xs) = bind_res (f x) (\<lambda>y. bind_res (map_res f xs) (\<lambda>ys. Inr (y # ys)))"

lemma map_res_cong [fundef_cong]:
  "xs = ys \<Longrightarrow> (\<And>x. x \<in> set ys \<Longrightarrow> f x = g x) \<Longrightarrow> map_res f xs = map_res g ys"
  by (induction xs arbitrary: ys) auto

lemma map_res_Inr_iff: "map_res f xs = Inr ys \<longleftrightarrow> list_all2 (\<lambda>x y. f x = Inr y) xs ys"
proof (induction xs arbitrary: ys)
  case (Cons x xs)
  then show ?case by (cases ys) (auto simp: bind_res_eq_Inr)
qed auto

lemma map_res_map: "map_res f (map g xs) = map_res (\<lambda>x. f (g x)) xs"
  by (induction xs) auto

lemma map_res_ok: "(\<And>x. x \<in> set xs \<Longrightarrow> f x = Inr (g x)) \<Longrightarrow> map_res f xs = Inr (map g xs)"
  by (induction xs) auto

section \<open>Lists\<close>

lemma filter_upt_Suc: "filter P [a..<Suc b] = (if a \<le> b \<and> P b then filter P [a..<b] @ [b] else filter P [a..<b])"
  by (cases "a \<le> b") auto

lemma filter_full: "length (filter P xs) = length xs \<Longrightarrow> \<forall>x \<in> set xs. P x"
  by (metis length_filter_less less_irrefl)

lemma filter_upt_split: "a \<le> m \<Longrightarrow> m \<le> b \<Longrightarrow> filter P [a..<b] = filter P [a..<m] @ filter P [m..<b]"
  by (metis filter_append le_add_diff_inverse upt_add_eq_append)

lemma length_filter_upt_le: "length (filter P [a..<b]) \<le> b - a"
  by (metis length_filter_le length_upt)

lemma filter_upt_shift: "filter P [k..<k + m] = map (\<lambda>j. k + j) (filter (\<lambda>j. P (k + j)) [0..<m])"
proof -
  have "[k..<k + m] = map (\<lambda>j. k + j) [0..<m]"
    by (simp add: list_eq_iff_nth_eq)
  then show ?thesis by (simp add: filter_map comp_def)
qed

lemma takeWhile_sorted_less:
  fixes xs :: "'a::linorder list"
  assumes "sorted xs"
  shows "i < length (takeWhile (\<lambda>e. e < x) xs) \<longleftrightarrow> i < length xs \<and> xs ! i < x"
  using assms
proof (induction xs arbitrary: i)
  case (Cons a xs)
  show ?case
  proof (cases "a < x")
    case True
    with Cons show ?thesis by (cases i) auto
  next
    case False
    with Cons.prems have "\<not> (a # xs) ! i < x" if "i < length (a # xs)" for i
      using that by (cases i) (auto simp: not_less intro: order_trans)
    with False show ?thesis by auto
  qed
qed simp

lemma filter_less_takeWhile:
  fixes xs :: "'a::linorder list"
  shows "sorted xs \<Longrightarrow> filter (\<lambda>r. r < x) xs = takeWhile (\<lambda>r. r < x) xs"
proof (induction xs)
  case (Cons a xs)
  have "filter (\<lambda>r. r < x) xs = []" if "\<not> a < x"
    using Cons.prems that by (auto simp: filter_empty_conv not_less intro: order_trans)
  with Cons show ?case by auto
qed simp

section \<open>64-bit masks\<close>

text \<open>\<open>1ULL << b\<close>, and the test \<open>mask & (1ULL << b)\<close>.\<close>

definition bit_at :: "nat \<Rightarrow> u64" where
  "bit_at b = push_bit b 1"

lemma bit_bit_at [simp]: "bit (bit_at b) i \<longleftrightarrow> i = b \<and> b < 64"
  by (auto simp: bit_at_def bit_exp_iff)

lemma and_bit_at_eq_0_iff: "(m AND bit_at b = 0) \<longleftrightarrow> \<not> (b < 64 \<and> bit m b)" for m :: u64
proof
  assume "m AND bit_at b = 0"
  then have "\<not> bit (m AND bit_at b) b" by simp
  then show "\<not> (b < 64 \<and> bit m b)" by (auto simp: bit_and_iff)
next
  assume "\<not> (b < 64 \<and> bit m b)"
  then show "m AND bit_at b = 0" by (intro bit_word_eqI) (auto simp: bit_and_iff)
qed

text \<open>A mask given by the condition of each lane, as the AVX-512 compare instructions return it.\<close>

definition mask64 :: "(nat \<Rightarrow> bool) \<Rightarrow> u64" where
  "mask64 P = horner_sum of_bool 2 (map P [0..<64])"

lemma bit_mask64 [simp]: "bit (mask64 P) j \<longleftrightarrow> j < 64 \<and> P j"
  by (auto simp: mask64_def bit_horner_sum_bit_word_iff)

lemma mask64_eq_iff: "m = mask64 P \<longleftrightarrow> (\<forall>j<64. bit m j \<longleftrightarrow> P j)" for m :: u64
  by (auto simp: bit_eq_iff dest: bit_imp_le_length)

lemma mask64_or: "mask64 P OR mask64 Q = mask64 (\<lambda>j. P j \<or> Q j)"
  by (simp add: mask64_eq_iff bit_or_iff)

text \<open>\<open>__builtin_ctzll\<close>: the position of the lowest set bit (not called on 0).\<close>

definition ctzll :: "u64 \<Rightarrow> nat" where
  "ctzll m = length (takeWhile (\<lambda>j. \<not> bit m j) [0..<64])"

lemma ctzll_less: "j < ctzll m \<Longrightarrow> \<not> bit m j"
proof -
  assume j: "j < ctzll m"
  let ?t = "takeWhile (\<lambda>j. \<not> bit m j) [0..<64]"
  have "length ?t \<le> 64" by (metis length_takeWhile_le length_upt diff_zero)
  with j have "j < 64" by (simp add: ctzll_def)
  have "?t ! j = j" using j \<open>j < 64\<close> by (simp add: ctzll_def takeWhile_nth)
  moreover have "?t ! j \<in> set ?t" using j by (simp add: ctzll_def)
  ultimately show ?thesis by (metis set_takeWhileD)
qed

lemma ctzll_bit: "m \<noteq> 0 \<Longrightarrow> bit m (ctzll m) \<and> ctzll m < 64"
proof -
  assume "m \<noteq> 0"
  then obtain b where b: "bit m b" by (metis bit_eq_iff bit_0_eq bot_apply bot_bool_def)
  then have "b < 64" by (auto dest: bit_imp_le_length)
  let ?t = "takeWhile (\<lambda>j. \<not> bit m j) [0..<64]"
  have "b \<notin> set ?t" using b by (auto dest: set_takeWhileD)
  then have "?t \<noteq> [0..<64]" using \<open>b < 64\<close> by (metis atLeastLessThan_iff set_upt zero_le)
  then have lt: "length ?t < 64"
    by (metis length_takeWhile_le length_upt diff_zero nat_less_le takeWhile_eq_take take_all_iff le_refl)
  then have "\<not> \<not> bit m ([0..<64] ! length ?t)"
    by (intro nth_length_takeWhile) simp
  with lt show ?thesis by (simp add: ctzll_def)
qed

text \<open>\<open>mask & (mask - 1)\<close> clears the lowest set bit.\<close>

lemma bit_clear_lowest:
  fixes m :: u64
  assumes "m \<noteq> 0"
  shows "bit (m AND (m - 1)) i \<longleftrightarrow> bit m i \<and> i \<noteq> ctzll m"
proof -
  define n where "n = ctzll m"
  define r where "r = unset_bit n m"
  have n: "bit m n" "n < 64" and low: "\<And>j. j < n \<Longrightarrow> \<not> bit m j"
    using ctzll_bit [OF assms] ctzll_less by (auto simp: n_def)
  have m: "m = r OR bit_at n"
    by (intro bit_word_eqI) (use n in \<open>auto simp: r_def bit_or_iff bit_unset_bit_iff\<close>)
  have "r AND bit_at n = 0"
    by (intro bit_word_eqI) (auto simp: r_def bit_and_iff bit_unset_bit_iff)
  then have "m = r + bit_at n" by (simp add: m disjunctive_add_eq_or)
  moreover have "bit_at n - 1 = (mask n :: u64)"
    by (simp add: mask_eq_decr_exp bit_at_def)
  ultimately have "m - 1 = r + mask n" by (simp add: algebra_simps)
  moreover have "r AND mask n = 0"
    by (intro bit_word_eqI) (use low in \<open>auto simp: r_def bit_and_iff bit_unset_bit_iff bit_mask_iff\<close>)
  ultimately have m1: "m - 1 = r OR mask n" by (simp add: disjunctive_add_eq_or)
  show ?thesis
    unfolding m1 using low n
    by (auto simp: bit_and_iff bit_or_iff r_def bit_unset_bit_iff bit_mask_iff n_def dest: bit_imp_le_length)
qed

lemma clear_lowest_less: "m \<noteq> 0 \<Longrightarrow> m AND (m - 1) < m" for m :: u64
proof -
  assume "m \<noteq> 0"
  then have "m - 1 < m" by (simp add: word_less_nat_alt unat_minus_one unat_gt_0)
  then show ?thesis using word_and_le1 [of m "m - 1"] by (rule le_less_trans [rotated])
qed

text \<open>The positions of the set bits, lowest first.\<close>

definition bits_of :: "u64 \<Rightarrow> nat list" where
  "bits_of m = filter (bit m) [0..<64]"

lemma bits_of_0 [simp]: "bits_of 0 = []"
  by (simp add: bits_of_def)

lemma bits_of_mask64: "bits_of (mask64 P) = filter P [0..<64]"
  by (auto simp: bits_of_def intro: filter_cong)

lemma bits_of_step:
  assumes "m \<noteq> 0"
  shows "bits_of m = ctzll m # bits_of (m AND (m - 1))"
proof -
  have n: "bit m (ctzll m)" "ctzll m < 64" and low: "\<And>j. j < ctzll m \<Longrightarrow> \<not> bit m j"
    using ctzll_bit [OF assms] ctzll_less by auto
  have split: "[0..<64] = [0..<ctzll m] @ ctzll m # [Suc (ctzll m)..<64]"
    using n(2) by (metis less_imp_le_nat upt_add_eq_append upt_conv_Cons le_add_diff_inverse zero_le)
  have "filter (bit (m AND (m - 1))) [Suc (ctzll m)..<64] = filter (bit m) [Suc (ctzll m)..<64]"
    by (rule filter_cong) (auto simp: bit_clear_lowest [OF assms])
  moreover have "filter (bit (m AND (m - 1))) [0..<ctzll m] = []" "filter (bit m) [0..<ctzll m] = []"
    using low by (auto simp: filter_empty_conv bit_clear_lowest [OF assms])
  ultimately show ?thesis
    using n by (simp add: bits_of_def split bit_clear_lowest [OF assms])
qed

section \<open>Constants of the storage layer\<close>

text \<open>\<^verbatim>\<open>common/vector_size.hpp\<close> and \<^verbatim>\<open>storage/storage_info.hpp\<close>.\<close>

definition STANDARD_VECTOR_SIZE :: nat where
  "STANDARD_VECTOR_SIZE = 2048"

definition ROW_GROUP_SIZE :: nat where
  "ROW_GROUP_SIZE = 122880"

definition ROW_GROUP_VECTOR_COUNT :: nat where
  "ROW_GROUP_VECTOR_COUNT = ROW_GROUP_SIZE div STANDARD_VECTOR_SIZE"

lemma STANDARD_VECTOR_SIZE_pos [simp]: "0 < STANDARD_VECTOR_SIZE"
  by (simp add: STANDARD_VECTOR_SIZE_def)

end
