(* ===== verification/Selection_Vector.thy ===== *)
theory Selection_Vector
  imports Prelude
begin

text \<open>
  Selection vectors and managed selections:
  \<^verbatim>\<open>src/src/include/duckdb/common/types/selection_vector.hpp\<close> and
  \<^verbatim>\<open>src/src/common/types/selection_vector.cpp\<close>.

  A selection vector is a pointer to a buffer of row positions; the null pointer is the
  identity selection. A buffer is a list of cells, \<open>None\<close> for a cell that
  \<open>make_unsafe_uniq_array\<close> allocated and nobody wrote. \<open>set_index\<close> and \<open>get_index\<close>
  return an error where the C++ would touch memory outside the buffer or read an unwritten
  cell, so the lemmas that give \<open>Inr\<close> are memory-safety facts too.

  The interface of this theory is the locale \<open>row_sink\<close>: something that row positions are
  appended to with \<open>set_index(count++, row)\<close>. Every loop of the engine that fills a
  selection is verified against it.
\<close>

section \<open>SelectionVector\<close>

datatype SelectionVector = SelNull | SelBuf "sel_t option list"

text \<open>\<open>Initialize(count)\<close> allocates a fresh buffer.\<close>

definition Initialize_count :: "idx_t \<Rightarrow> SelectionVector" where
  "Initialize_count n = SelBuf (replicate n None)"

text \<open>\<open>set_index\<close> narrows the position to 32 bits.\<close>

definition set_index :: "SelectionVector \<Rightarrow> idx_t \<Rightarrow> idx_t \<Rightarrow> exc + SelectionVector" where
  "set_index sel idx loc =
     (case sel of
        SelNull \<Rightarrow> Inl NullPointer
      | SelBuf b \<Rightarrow> (if idx < length b then Inr (SelBuf (b[idx := Some (loc mod 2 ^ 32)]))
                     else Inl OutOfBounds))"

definition get_index :: "SelectionVector \<Rightarrow> idx_t \<Rightarrow> exc + idx_t" where
  "get_index sel idx =
     (case sel of
        SelNull \<Rightarrow> Inr idx
      | SelBuf b \<Rightarrow>
          (if idx < length b
           then (case b ! idx of None \<Rightarrow> Inl Uninitialised | Some r \<Rightarrow> Inr r)
           else Inl OutOfBounds))"

definition swap_index :: "SelectionVector \<Rightarrow> idx_t \<Rightarrow> idx_t \<Rightarrow> exc + SelectionVector" where
  "swap_index sel i j =
     (case sel of
        SelNull \<Rightarrow> Inl NullPointer
      | SelBuf b \<Rightarrow>
          bind_res (get_index sel i) (\<lambda>tmp.
          bind_res (get_index sel j) (\<lambda>other.
            Inr (SelBuf (b[i := Some other, j := Some tmp])))))"

text \<open>The idiom \<open>sel.set_index(count++, row)\<close> on the pair of the count and the selection.\<close>

definition push_row :: "idx_t \<Rightarrow> idx_t \<times> SelectionVector \<Rightarrow> exc + idx_t \<times> SelectionVector" where
  "push_row r = (\<lambda>(cnt, sel). bind_res (set_index sel cnt r) (\<lambda>sel'. Inr (Suc cnt, sel')))"

text \<open>The constructor \<open>SelectionVector(start, count)\<close>.\<close>

definition SelectionVector_range :: "idx_t \<Rightarrow> idx_t \<Rightarrow> exc + SelectionVector" where
  "SelectionVector_range start cnt =
     fold_res (\<lambda>i sel. set_index sel i (start + i)) [0..<cnt] (Initialize_count STANDARD_VECTOR_SIZE)"

text \<open>
  \<open>Inverted\<close>: the rows below \<open>count\<close> that the sorted selection \<open>src\<close> skips. The loop
  state is \<open>(src_idx, dst_idx, dst)\<close>.
\<close>

fun Inverted_step ::
  "SelectionVector \<Rightarrow> idx_t \<Rightarrow> idx_t \<Rightarrow> idx_t \<times> idx_t \<times> SelectionVector
    \<Rightarrow> exc + idx_t \<times> idx_t \<times> SelectionVector" where
  "Inverted_step src src_size i (src_idx, st) =
     bind_res (if src_idx < src_size
               then bind_res (get_index src src_idx) (\<lambda>r. Inr (r = i)) else Inr False)
       (\<lambda>selected. if selected then Inr (Suc src_idx, st)
                   else bind_res (push_row i st) (\<lambda>st'. Inr (src_idx, st')))"

definition Inverted ::
  "SelectionVector \<Rightarrow> SelectionVector \<Rightarrow> idx_t \<Rightarrow> idx_t \<Rightarrow> exc + idx_t \<times> SelectionVector" where
  "Inverted src dst src_size cnt =
     bind_res (fold_res (Inverted_step src src_size) [0..<cnt] (0, (0, dst)))
       (\<lambda>(src_idx, st). Inr st)"

text \<open>\<open>Slice\<close>: the composition \<open>result[i] = this[sel[i]]\<close>.\<close>

definition Slice :: "SelectionVector \<Rightarrow> SelectionVector \<Rightarrow> idx_t \<Rightarrow> exc + SelectionVector" where
  "Slice this sel cnt =
     fold_res
       (\<lambda>i res. bind_res (get_index sel i) (\<lambda>new_idx.
                bind_res (get_index this new_idx) (\<lambda>idx. set_index res i idx)))
       [0..<cnt] (Initialize_count cnt)"

section \<open>The interface of a row sink\<close>

locale row_sink =
  fixes push :: "nat \<Rightarrow> 's \<Rightarrow> exc + 's"
    and rows :: "'s \<Rightarrow> nat list"
    and capacity :: "'s \<Rightarrow> nat"
    and invar :: "'s \<Rightarrow> bool"
  assumes push_ok: "invar s \<Longrightarrow> length (rows s) < capacity s \<Longrightarrow> r < 2 ^ 32 \<Longrightarrow>
      \<exists>s'. push r s = Inr s' \<and> invar s' \<and> rows s' = rows s @ [r] \<and> capacity s' = capacity s"
    and push_full: "invar s \<Longrightarrow> length (rows s) = capacity s \<Longrightarrow> push r s = Inl OutOfBounds"
    and rows_fit: "invar s \<Longrightarrow> length (rows s) \<le> capacity s"
begin

lemma push_list:
  "invar s \<Longrightarrow> length (rows s) + length rs \<le> capacity s \<Longrightarrow> \<forall>r \<in> set rs. r < 2 ^ 32 \<Longrightarrow>
    \<exists>s'. fold_res push rs s = Inr s' \<and> invar s' \<and> rows s' = rows s @ rs \<and> capacity s' = capacity s"
proof (induction rs arbitrary: s)
  case (Cons r rs)
  then obtain s1 where "push r s = Inr s1" "invar s1" "rows s1 = rows s @ [r]"
    "capacity s1 = capacity s"
    using push_ok [of s r] by auto
  with Cons.IH [of s1] Cons.prems show ?case by auto
qed simp

lemma push_list_full:
  "invar s \<Longrightarrow> capacity s < length (rows s) + length rs \<Longrightarrow> \<forall>r \<in> set rs. r < 2 ^ 32 \<Longrightarrow>
    fold_res push rs s = Inl OutOfBounds"
proof (induction rs arbitrary: s)
  case Nil
  then show ?case using rows_fit [of s] by simp
next
  case (Cons r rs)
  show ?case
  proof (cases "length (rows s) = capacity s")
    case True
    with Cons.prems show ?thesis by (simp add: push_full)
  next
    case False
    with Cons.prems rows_fit [of s] obtain s1 where "push r s = Inr s1" "invar s1"
      "rows s1 = rows s @ [r]" "capacity s1 = capacity s"
      using push_ok [of s r] by auto
    with Cons.IH [of s1] Cons.prems show ?thesis by auto
  qed
qed

text \<open>A loop that appends \<open>f i\<close> for the iterations that satisfy \<open>P\<close>.\<close>

lemma push_if_eq:
  "fold_res (\<lambda>i s. if P i then push (f i) s else Inr s) is s = fold_res push (map f (filter P is)) s"
proof (induction "is" arbitrary: s)
  case (Cons i "is")
  then show ?case by (cases "push (f i) s") auto
qed simp

lemma push_if:
  assumes "invar s" "length (rows s) + length (filter P is) \<le> capacity s"
    and "\<And>i. i \<in> set is \<Longrightarrow> P i \<Longrightarrow> f i < 2 ^ 32"
  shows "\<exists>s'. fold_res (\<lambda>i s. if P i then push (f i) s else Inr s) is s = Inr s' \<and> invar s'
           \<and> rows s' = rows s @ map f (filter P is) \<and> capacity s' = capacity s"
  unfolding push_if_eq using assms by (intro push_list) auto

end

text \<open>The instance: the rows written so far of a selection vector and its count.\<close>

fun sel_rows :: "idx_t \<times> SelectionVector \<Rightarrow> nat list" where
  "sel_rows (cnt, SelNull) = [0..<cnt]"
| "sel_rows (cnt, SelBuf b) = map the (take cnt b)"

fun sel_cap :: "idx_t \<times> SelectionVector \<Rightarrow> nat" where
  "sel_cap (cnt, SelNull) = 0"
| "sel_cap (cnt, SelBuf b) = length b"

fun sel_inv :: "idx_t \<times> SelectionVector \<Rightarrow> bool" where
  "sel_inv (cnt, SelNull) = False"
| "sel_inv (cnt, SelBuf b) \<longleftrightarrow> cnt \<le> length b \<and> None \<notin> set (take cnt b)"

lemma sel_inv_SelBuf: "sel_inv s \<Longrightarrow> \<exists>cnt b. s = (cnt, SelBuf b) \<and> cnt \<le> length b"
  by (cases s rule: sel_inv.cases) auto

lemma length_sel_rows [simp]: "sel_inv (cnt, sel) \<Longrightarrow> length (sel_rows (cnt, sel)) = cnt"
  by (cases sel) auto

lemma sel_fresh [simp]: "sel_inv (0, Initialize_count n)" "sel_rows (0, Initialize_count n) = []"
    "sel_cap (0, Initialize_count n) = n"
  by (simp_all add: Initialize_count_def)

interpretation sel_sink: row_sink push_row sel_rows sel_cap sel_inv
proof
  fix s :: "idx_t \<times> SelectionVector" and r :: nat
  assume inv: "sel_inv s"
  then obtain cnt b where s: "s = (cnt, SelBuf b)" "cnt \<le> length b" by (auto dest: sel_inv_SelBuf)
  show "length (sel_rows s) \<le> sel_cap s" using s by simp
  {
    assume "length (sel_rows s) < sel_cap s" and r: "r < 2 ^ 32"
    with s have lt: "cnt < length b" by simp
    have "take (Suc cnt) (b[cnt := Some r]) = take cnt b @ [Some r]"
      using lt by (simp add: take_Suc_conv_app_nth)
    then show "\<exists>s'. push_row r s = Inr s' \<and> sel_inv s' \<and> sel_rows s' = sel_rows s @ [r]
        \<and> sel_cap s' = sel_cap s"
      using s lt r inv by (auto simp: push_row_def set_index_def)
  }
  assume "length (sel_rows s) = sel_cap s"
  with s show "push_row r s = Inl OutOfBounds" by (simp add: push_row_def set_index_def)
qed

text \<open>What was pushed can be read back.\<close>

lemma get_index_sel_rows:
  "sel_inv (cnt, sel) \<Longrightarrow> i < cnt \<Longrightarrow> get_index sel i = Inr (sel_rows (cnt, sel) ! i)"
  by (cases sel) (force simp: get_index_def in_set_conv_nth split: option.splits)+

lemma get_index_SelNull [simp]: "get_index SelNull i = Inr i"
  by (simp add: get_index_def)

lemma get_index_set_index:
  "set_index sel i r = Inr sel' \<Longrightarrow> get_index sel' j = (if j = i then Inr (r mod 2 ^ 32) else get_index sel j)"
  by (auto simp: set_index_def get_index_def split: SelectionVector.splits if_splits)

section \<open>ManagedSelection\<close>

text \<open>
  A selection with its count, and the bitmask that the column sketches fill: bit \<open>b\<close> of word
  \<open>i\<close> stands for row \<open>64 * i + b\<close>.
\<close>

record ManagedSelection =
  bitmask :: "u64 list"
  initialized :: bool
  ms_count :: idx_t
  ms_size :: idx_t
  sel_vec :: SelectionVector

definition ManagedSelection_new :: "idx_t \<Rightarrow> bool \<Rightarrow> ManagedSelection" where
  "ManagedSelection_new sz init =
     \<lparr>bitmask = [], initialized = init, ms_count = 0, ms_size = sz,
      sel_vec = (if init then Initialize_count sz else SelNull)\<rparr>"

definition ms_Initialize :: "idx_t \<Rightarrow> ManagedSelection \<Rightarrow> ManagedSelection" where
  "ms_Initialize new_size m =
     m\<lparr>ms_size := new_size, sel_vec := Initialize_count new_size, initialized := True\<rparr>"

definition IndexMapsToLocation :: "ManagedSelection \<Rightarrow> idx_t \<Rightarrow> idx_t \<Rightarrow> exc + bool" where
  "IndexMapsToLocation m idx location =
     (if idx < ms_count m then bind_res (get_index (sel_vec m) idx) (\<lambda>r. Inr (r = location))
      else Inr False)"

definition SetCount :: "idx_t \<Rightarrow> ManagedSelection \<Rightarrow> ManagedSelection" where
  "SetCount new_count m = m\<lparr>ms_count := new_count\<rparr>"

definition BitmaskToSelection :: "ManagedSelection \<Rightarrow> exc + ManagedSelection" where
  "BitmaskToSelection m =
     bind_res
       (fold_res
          (\<lambda>i st. fold_res
             (\<lambda>b st. if bitmask m ! i AND bit_at b \<noteq> 0 then push_row (i * 64 + b) st else Inr st)
             [0..<64] st)
          [0..<length (bitmask m)] (0, Initialize_count (ms_size m)))
       (\<lambda>(cnt, sel). Inr (m\<lparr>sel_vec := sel, ms_count := cnt\<rparr>))"

text \<open>The rows a managed selection holds, and the rows its bitmask holds.\<close>

abbreviation ms_rows :: "ManagedSelection \<Rightarrow> nat list" where
  "ms_rows m \<equiv> sel_rows (ms_count m, sel_vec m)"

definition mask_bit :: "u64 list \<Rightarrow> nat \<Rightarrow> bool" where
  "mask_bit ms r \<longleftrightarrow> r div 64 < length ms \<and> bit (ms ! (r div 64)) (r mod 64)"

definition mask_rows :: "u64 list \<Rightarrow> nat list" where
  "mask_rows ms = filter (mask_bit ms) [0..<64 * length ms]"

lemma mask_bit_Nil [simp]: "\<not> mask_bit [] r"
  by (simp add: mask_bit_def)

lemma mask_bit_append:
  "mask_bit (ms @ [w]) r \<longleftrightarrow>
     (if r < 64 * length ms then mask_bit ms r
      else r < 64 * Suc (length ms) \<and> bit w (r - 64 * length ms))"
proof (cases "r < 64 * length ms")
  case True
  then have "r div 64 < length ms" by (simp add: less_mult_imp_div_less mult.commute)
  with True show ?thesis by (simp add: mask_bit_def nth_append)
next
  case False
  show ?thesis
  proof (cases "r < 64 * Suc (length ms)")
    case True
    with False have "r div 64 = length ms" by (auto simp: div_nat_eqI)
    moreover from this have "r mod 64 = r - 64 * length ms" by (metis minus_mult_div_eq_mod)
    ultimately show ?thesis using True False by (simp add: mask_bit_def)
  next
    case outside: False
    then have "\<not> r div 64 < Suc (length ms)" by (simp add: not_less less_eq_div_iff_mult_less_eq mult.commute)
    with outside False show ?thesis by (auto simp: mask_bit_def)
  qed
qed

lemma mask_bit_bound: "mask_bit ms r \<Longrightarrow> r < 64 * length ms"
  by (auto simp: mask_bit_def)

lemma mask_rows_append:
  "mask_rows (ms @ [w]) = mask_rows ms @ map (\<lambda>j. 64 * length ms + j) (bits_of w)"
proof -
  let ?k = "64 * length ms"
  have "mask_rows (ms @ [w]) = filter (mask_bit (ms @ [w])) [0..<?k + 64]"
    by (simp add: mask_rows_def algebra_simps)
  also have "\<dots> = filter (mask_bit (ms @ [w])) [0..<?k] @ filter (mask_bit (ms @ [w])) [?k..<?k + 64]"
    by (rule filter_upt_split) simp_all
  also have "filter (mask_bit (ms @ [w])) [0..<?k] = mask_rows ms"
    unfolding mask_rows_def by (rule filter_cong) (auto simp: mask_bit_append)
  also have "filter (mask_bit (ms @ [w])) [?k..<?k + 64] = map (\<lambda>j. ?k + j) (bits_of w)"
    unfolding filter_upt_shift bits_of_def
    by (rule arg_cong [where f = "map (\<lambda>j. ?k + j)"], rule filter_cong) (auto simp: mask_bit_append)
  finally show ?thesis .
qed

lemma mask_rows_concat:
  "mask_rows ms = concat (map (\<lambda>i. map (\<lambda>b. i * 64 + b) (bits_of (ms ! i))) [0..<length ms])"
proof (induction ms rule: rev_induct)
  case (snoc w ms)
  have "map (\<lambda>i. map (\<lambda>b. i * 64 + b) (bits_of ((ms @ [w]) ! i))) [0..<length ms] =
      map (\<lambda>i. map (\<lambda>b. i * 64 + b) (bits_of (ms ! i))) [0..<length ms]"
    by (rule map_cong) (auto simp: nth_append)
  then have "concat (map (\<lambda>i. map (\<lambda>b. i * 64 + b) (bits_of ((ms @ [w]) ! i))) [0..<length (ms @ [w])]) =
      mask_rows ms @ map (\<lambda>b. length ms * 64 + b) (bits_of w)"
    by (simp only: snoc length_append_singleton upt_Suc_append [OF zero_le] map_append concat_append
        list.map concat.simps append_Nil2 nth_append_length)
  then show ?case by (simp only: mask_rows_append mult.commute)
qed (simp add: mask_rows_def)

text \<open>The double loop of \<open>BitmaskToSelection\<close> pushes the rows of the mask in order.\<close>

lemma BitmaskToSelection_loop:
  "fold_res
     (\<lambda>i st. fold_res
        (\<lambda>b st. if ms ! i AND bit_at b \<noteq> 0 then push_row (i * 64 + b) st else Inr st) [0..<64] st)
     is st =
   fold_res push_row (concat (map (\<lambda>i. map (\<lambda>b. i * 64 + b) (bits_of (ms ! i))) is)) st"
proof -
  have "filter (\<lambda>b. ms ! i AND bit_at b \<noteq> 0) [0..<64] = bits_of (ms ! i)" for i
    unfolding bits_of_def by (rule filter_cong) (auto simp: and_bit_at_eq_0_iff)
  then show ?thesis by (simp only: sel_sink.push_if_eq fold_res_concat)
qed

lemma BitmaskToSelection_eq:
  "BitmaskToSelection m =
     bind_res (fold_res push_row (mask_rows (bitmask m)) (0, Initialize_count (ms_size m)))
       (\<lambda>(cnt, sel). Inr (m\<lparr>sel_vec := sel, ms_count := cnt\<rparr>))"
  by (simp only: BitmaskToSelection_def BitmaskToSelection_loop mask_rows_concat)

lemma mask_rows_small: "64 * length ms \<le> 2 ^ 32 \<Longrightarrow> r \<in> set (mask_rows ms) \<Longrightarrow> r < 2 ^ 32"
  by (auto simp: mask_rows_def)

lemma BitmaskToSelection_ok:
  assumes "64 * length (bitmask m) \<le> 2 ^ 32" "length (mask_rows (bitmask m)) \<le> ms_size m"
  shows "\<exists>m'. BitmaskToSelection m = Inr m' \<and> ms_rows m' = mask_rows (bitmask m)
    \<and> ms_count m' = length (mask_rows (bitmask m)) \<and> bitmask m' = bitmask m
    \<and> sel_inv (ms_count m', sel_vec m') \<and> ms_size m' = ms_size m"
proof -
  have "\<forall>r \<in> set (mask_rows (bitmask m)). r < 2 ^ 32"
    using assms(1) by (blast intro: mask_rows_small)
  with sel_sink.push_list [of "(0, Initialize_count (ms_size m))" "mask_rows (bitmask m)"] assms(2)
  obtain cnt sel where r: "fold_res push_row (mask_rows (bitmask m)) (0, Initialize_count (ms_size m)) =
      Inr (cnt, sel)" "sel_inv (cnt, sel)" "sel_rows (cnt, sel) = mask_rows (bitmask m)"
    by auto
  from length_sel_rows [OF r(2)] r(3) have "cnt = length (mask_rows (bitmask m))" by simp
  with r show ?thesis by (simp add: BitmaskToSelection_eq)
qed

section \<open>Properties\<close>

text \<open>
  \<open>Inverted\<close>, the loop invariant: after the rows below \<open>i\<close> the source cursor stands after the
  source rows below \<open>i\<close>.
\<close>

lemma count_rows_below_Suc:
  assumes "sorted_wrt (<) xs"
  shows "length (filter (\<lambda>r. r < Suc i) xs) = length (filter (\<lambda>r. r < i) xs) + (if i \<in> set xs then 1 else 0)"
    and "i \<in> set xs \<longleftrightarrow> length (filter (\<lambda>r. r < i) xs) < length xs \<and> xs ! length (filter (\<lambda>r. r < i) xs) = i"
proof -
  let ?k = "length (filter (\<lambda>r. r < i) xs)"
  have srt: "sorted xs" using assms by (simp add: strict_sorted_iff)
  then have k: "?k = length (takeWhile (\<lambda>r. r < i) xs)" by (simp add: filter_less_takeWhile)
  have lt: "j < ?k \<longleftrightarrow> j < length xs \<and> xs ! j < i" for j
    using takeWhile_sorted_less [OF srt, of j i] by (simp add: k)
  show mem: "i \<in> set xs \<longleftrightarrow> ?k < length xs \<and> xs ! ?k = i"
  proof
    assume "i \<in> set xs"
    then obtain j where j: "j < length xs" "xs ! j = i" by (auto simp: in_set_conv_nth)
    then have "?k \<le> j" using lt [of j] by simp
    moreover have "\<not> ?k < j"
    proof
      assume "?k < j"
      then have "xs ! ?k < xs ! j" using assms j sorted_wrt_iff_nth_less [of "(<)" xs] by blast
      then show False using lt [of ?k] \<open>?k < j\<close> j by simp
    qed
    ultimately show "?k < length xs \<and> xs ! ?k = i" using j by simp
  qed (metis nth_mem)
  have "filter (\<lambda>r. r < Suc i) xs = filter (\<lambda>r. r < i) xs @ (if i \<in> set xs then [i] else [])"
    using assms
  proof (induction xs)
    case (Cons x xs)
    show ?case
    proof (cases "x < i")
      case True
      with Cons show ?thesis by auto
    next
      case False
      with Cons.prems have "\<forall>r \<in> set xs. i < r" by auto
      then have "filter (\<lambda>r. r < Suc i) xs = []" "filter (\<lambda>r. r < i) xs = []" "i \<notin> set xs"
        by (auto simp: filter_empty_conv)
      with False show ?thesis by auto
    qed
  qed simp
  then show "length (filter (\<lambda>r. r < Suc i) xs) = ?k + (if i \<in> set xs then 1 else 0)" by simp
qed

text \<open>
  C31: \<open>BitmaskToSelection\<close> turns the bitmask into the increasing list of its set positions
  when the buffer can hold them, and otherwise writes past its buffer: the call is memory safe
  exactly when the number of set bits is at most the declared size.
\<close>

lemma BitmaskToSelection_correct:
  assumes "64 * length (bitmask m) \<le> 2 ^ 32"
  shows "case BitmaskToSelection m of
      Inr m' \<Rightarrow> length (mask_rows (bitmask m)) \<le> ms_size m \<and> ms_rows m' = mask_rows (bitmask m)
        \<and> ms_count m' = length (mask_rows (bitmask m)) \<and> bitmask m' = bitmask m
    | Inl e \<Rightarrow> ms_size m < length (mask_rows (bitmask m)) \<and> e = OutOfBounds"
proof (cases "length (mask_rows (bitmask m)) \<le> ms_size m")
  case True
  with BitmaskToSelection_ok [OF assms True] show ?thesis by auto
next
  case False
  have "\<forall>r \<in> set (mask_rows (bitmask m)). r < 2 ^ 32"
    using assms by (blast intro: mask_rows_small)
  with False have "fold_res push_row (mask_rows (bitmask m)) (0, Initialize_count (ms_size m)) = Inl OutOfBounds"
    by (intro sel_sink.push_list_full) auto
  with False show ?thesis by (simp add: BitmaskToSelection_eq)
qed

text \<open>
  C35: \<open>Inverted\<close> writes the complement: for a strictly increasing source selection it returns,
  in increasing order, the rows below \<open>count\<close> that the source does not select.
\<close>

lemma Inverted_complement:
  assumes src: "sel_inv (n, src)" "sorted_wrt (<) (sel_rows (n, src))"
    and cap: "cnt \<le> d" "d \<le> 2 ^ 32"
  shows "\<exists>k dst. Inverted src (Initialize_count d) n cnt = Inr (k, dst)
    \<and> sel_rows (k, dst) = filter (\<lambda>i. i \<notin> set (sel_rows (n, src))) [0..<cnt]
    \<and> k = length (sel_rows (k, dst))"
proof -
  let ?xs = "sel_rows (n, src)"
  let ?below = "\<lambda>i. length (filter (\<lambda>r. r < i) ?xs)"
  let ?I = "\<lambda>i (src_idx, st). src_idx = ?below i \<and> sel_inv st \<and> sel_cap st = d
      \<and> sel_rows st = filter (\<lambda>r. r \<notin> set ?xs) [0..<i]"
  have len: "length ?xs = n" using src(1) by simp
  have "\<exists>s'. fold_res (Inverted_step src n) [0..<cnt] (0, (0, Initialize_count d)) = Inr s' \<and> ?I cnt s'"
  proof (rule fold_res_upt_rule [where I = ?I])
    fix i and s :: "nat \<times> nat \<times> SelectionVector"
    assume i: "i < cnt" and I: "?I i s"
    obtain j st where s: "s = (j, st)" by (cases s)
    have mem: "i \<in> set ?xs \<longleftrightarrow> j < n \<and> ?xs ! j = i"
      using count_rows_below_Suc(2) [OF src(2), of i] I len by (simp add: s)
    have test: "(if j < n then bind_res (get_index src j) (\<lambda>r. Inr (r = i)) else Inr False) = Inr (i \<in> set ?xs)"
      using get_index_sel_rows [OF src(1)] mem by auto
    have step: "Inverted_step src n i s = (if i \<in> set ?xs then Inr (Suc j, st)
        else bind_res (push_row i st) (\<lambda>st'. Inr (j, st')))"
      unfolding s Inverted_step.simps test by simp
    show "\<exists>s'. Inverted_step src n i s = Inr s' \<and> ?I (Suc i) s'"
    proof (cases "i \<in> set ?xs")
      case True
      then show ?thesis using I step count_rows_below_Suc(1) [OF src(2), of i]
        by (simp add: s filter_upt_Suc)
    next
      case False
      have "length (sel_rows st) \<le> i" using I length_filter_upt_le [of _ 0 i] by (simp add: s)
      then obtain st' where "push_row i st = Inr st'" "sel_inv st'" "sel_rows st' = sel_rows st @ [i]"
        "sel_cap st' = sel_cap st"
        using sel_sink.push_ok [of st i] I i cap by (auto simp: s)
      then show ?thesis using False I step count_rows_below_Suc(1) [OF src(2), of i]
        by (simp add: s filter_upt_Suc)
    qed
  qed (auto simp: Initialize_count_def)
  then show ?thesis
    by (auto simp: Inverted_def split: prod.splits) (metis length_sel_rows)
qed

text \<open>
  C36: \<open>Slice\<close> composes selections: entry \<open>i\<close> of the result is entry \<open>sel[i]\<close> of the sliced
  selection, for every \<open>i\<close> below the count, and no read is out of bounds.
\<close>

lemma Slice_compose:
  assumes sliced: "sel_inv (k, this) \<or> this = SelNull"
    and sel: "sel_inv (n, sel)" "\<forall>r \<in> set (sel_rows (n, sel)). r < k \<and> r < 2 ^ 32"
    and small: "\<forall>r \<in> set (sel_rows (k, this)). r < 2 ^ 32"
  shows "\<exists>res. Slice this sel n = Inr res
    \<and> (\<forall>i<n. get_index res i = get_index this (sel_rows (n, sel) ! i)) \<and> sel_cap (n, res) = n"
proof -
  let ?xs = "sel_rows (n, sel)"
  let ?body = "\<lambda>i res. bind_res (get_index sel i) (\<lambda>new_idx.
      bind_res (get_index this new_idx) (\<lambda>idx. set_index res i idx))"
  let ?I = "\<lambda>i res. sel_cap (n, res) = n \<and> (\<exists>b. res = SelBuf b)
      \<and> (\<forall>j<i. get_index res j = get_index this (?xs ! j))"
  have get: "\<exists>r. get_index this (?xs ! i) = Inr r \<and> r < 2 ^ 32" if "i < n" for i
  proof -
    have r: "?xs ! i < k" "?xs ! i < 2 ^ 32" using sel that by (metis length_sel_rows nth_mem)+
    show ?thesis
    proof (cases "this = SelNull")
      case False
      then have inv: "sel_inv (k, this)" using sliced by simp
      from get_index_sel_rows [OF inv r(1)] small r(1) length_sel_rows [OF inv] show ?thesis
        by (metis nth_mem)
    qed (use r in simp)
  qed
  have "\<exists>res. fold_res ?body [0..<n] (Initialize_count n) = Inr res \<and> ?I n res"
  proof (rule fold_res_upt_rule [where I = ?I])
    fix i res
    assume i: "i < n" and I: "?I i res"
    from get [OF i] obtain r where r: "get_index this (?xs ! i) = Inr r" "r < 2 ^ 32" by auto
    from I obtain b where b: "res = SelBuf b" "length b = n" by auto
    have upd: "set_index res i r = Inr (SelBuf (b[i := Some r]))"
      using b i r(2) by (simp add: set_index_def)
    have "get_index (SelBuf (b[i := Some r])) j = (if j = i then Inr r else get_index res j)" for j
      using get_index_set_index [OF upd] r(2) by simp
    then show "\<exists>s'. ?body i res = Inr s' \<and> ?I (Suc i) s'"
      using I r b upd get_index_sel_rows [OF sel(1) i] by (auto simp: less_Suc_eq)
  qed (auto simp: Initialize_count_def)
  then show ?thesis by (auto simp: Slice_def)
qed

end
