(* ===== verification/Column_Sketch.thy ===== *)
theory Column_Sketch
  imports Selection_Vector
begin

text \<open>
  Column sketches, \<^verbatim>\<open>src/src/include/duckdb/storage/statistics/column_sketch.hpp\<close>: a column
  vector is summarised by one small code per row, from an order-preserving map whose endpoints
  are quantiles of the data, and a comparison is answered on the codes, looking at the base
  data only where the code of a row equals the code of the constant.

  The record \<open>ColumnSketch\<close> has the fields and the template parameters of the class: \<open>'b word\<close> for
  \<open>BaseType\<close> and \<open>'c word\<close> for \<open>CodeType\<close>. Sizes and loop counters of type
  \<open>size_t\<close> are natural numbers. The AVX-512 routines are in \<open>Sketch_SIMD\<close>.

  The interface between the codes and the evaluation routines is the locale
  \<open>order_preserving_code\<close>: an order comparison can be decided on the codes except where they
  are equal.
\<close>

section \<open>The class\<close>

record ('base, 'code) ColumnSketch =
  base_data :: "'base list"
  sketch :: "'code list"
  endpoints :: "'base list"
  num_codes :: nat
  need_check_base :: bool
  min_data :: 'base
  max_data :: 'base

text \<open>\<open>std::lower_bound\<close>, the binary search of the standard library.\<close>

function lower_bound_loop :: "'a::linorder list \<Rightarrow> 'a \<Rightarrow> nat \<Rightarrow> nat \<Rightarrow> nat" where
  "lower_bound_loop xs v first len =
     (if len = 0 then first
      else let half = len div 2; middle = first + half
           in if xs ! middle < v then lower_bound_loop xs v (middle + 1) (len - half - 1)
              else lower_bound_loop xs v first half)"
  by pat_completeness auto
termination
  by (relation "measure (\<lambda>(xs, v, first, len). len)") auto

declare lower_bound_loop.simps [simp del]

definition lower_bound :: "'a::linorder list \<Rightarrow> 'a \<Rightarrow> nat" where
  "lower_bound xs v = lower_bound_loop xs v 0 (length xs)"

text \<open>\<open>build_order_preserving_map\<close>; \<open>sample.front()\<close> of an empty sample is undefined.\<close>

definition build_order_preserving_map ::
  "('b::len word, 'c::len word) ColumnSketch \<Rightarrow> exc + ('b word, 'c word) ColumnSketch" where
  "build_order_preserving_map cs =
     (let sample = sort (base_data cs);
          codes = min (length sample) (num_codes cs);
          unique_count = length (remdups sample);
          n = length sample
      in if sample = [] then Inl OutOfBounds
         else Inr (cs\<lparr>num_codes := codes,
                      need_check_base := (if unique_count \<le> codes then False else need_check_base cs),
                      min_data := hd sample,
                      max_data := last sample,
                      endpoints := map (\<lambda>i. sample ! min ((i + 1) * n div codes - 1) (n - 1)) [0..<codes]\<rparr>))"

text \<open>The code of a value: \<open>static_cast<CodeType>(std::distance(begin, lower_bound(...)))\<close>.\<close>

definition code_of :: "('b::len word, 'c::len word) ColumnSketch \<Rightarrow> 'b word \<Rightarrow> 'c word" where
  "code_of cs v = word_of_nat (lower_bound (endpoints cs) v)"

definition build_sketch_column :: "('b::len word, 'c::len word) ColumnSketch \<Rightarrow> ('b word, 'c word) ColumnSketch" where
  "build_sketch_column cs = cs\<lparr>sketch := map (code_of cs) (base_data cs)\<rparr>"

text \<open>The constructor; \<open>min_data_\<close> and \<open>max_data_\<close> are set by the map builder.\<close>

definition ColumnSketch_new :: "'b::len word list \<Rightarrow> exc + ('b word, 'c::len word) ColumnSketch" where
  "ColumnSketch_new data =
     bind_res
       (build_order_preserving_map
          \<lparr>base_data = data, sketch = [], endpoints = [], num_codes = 2 ^ LENGTH('c),
           need_check_base = True, min_data = 0, max_data = 0\<rparr>)
       (\<lambda>cs. Inr (build_sketch_column cs))"

section \<open>Scalar evaluation\<close>

definition evaluate_less_than_CPU :: "('b::len word, 'c::len word) ColumnSketch \<Rightarrow> 'b word \<Rightarrow> sel_t list" where
  "evaluate_less_than_CPU cs x =
     (if endpoints cs \<noteq> [] \<and> x > max_data cs
      then map (\<lambda>i. i mod 2 ^ 32) [0..<length (sketch cs)]
      else let code_x = code_of cs x
           in map (\<lambda>i. i mod 2 ^ 32)
                (filter (\<lambda>i. sketch cs ! i < code_x \<or> sketch cs ! i = code_x \<and> base_data cs ! i < x)
                   [0..<length (sketch cs)]))"

definition evaluate_greater_than_CPU :: "('b::len word, 'c::len word) ColumnSketch \<Rightarrow> 'b word \<Rightarrow> sel_t list" where
  "evaluate_greater_than_CPU cs x =
     (let code_x = code_of cs x
      in map (\<lambda>i. i mod 2 ^ 32)
           (filter (\<lambda>i. sketch cs ! i > code_x \<or> sketch cs ! i = code_x \<and> base_data cs ! i > x)
              [0..<length (sketch cs)]))"

definition evaluate_equal :: "('b::len word, 'c::len word) ColumnSketch \<Rightarrow> 'b word \<Rightarrow> sel_t list" where
  "evaluate_equal cs x =
     (let code_x = code_of cs x
      in map (\<lambda>i. i mod 2 ^ 32)
           (filter (\<lambda>i. sketch cs ! i = code_x \<and> base_data cs ! i = x) [0..<length (sketch cs)]))"

definition evaluate_between ::
  "('b::len word, 'c::len word) ColumnSketch \<Rightarrow> 'b word \<Rightarrow> 'b word \<Rightarrow> sel_t list" where
  "evaluate_between cs x1 x2 =
     map (\<lambda>i. i mod 2 ^ 32)
       (filter (\<lambda>i. base_data cs ! i \<ge> x1 \<and> base_data cs ! i \<le> x2) [0..<length (base_data cs)])"

text \<open>
  The AVX2 routine compares 32 codes at a time with \<open>_mm256_cmpgt_epi8\<close>, which reads the bytes
  as signed, and takes only the lanes that are smaller; the scalar tail follows.
\<close>

definition evaluate_less_than_AVX2 :: "('b::len word, 8 word) ColumnSketch \<Rightarrow> 'b word \<Rightarrow> sel_t list" where
  "evaluate_less_than_AVX2 cs x =
     (let code_x = code_of cs x; n = length (sketch cs); body = 32 * (n div 32)
      in map (\<lambda>i. i mod 2 ^ 32) (filter (\<lambda>i. sint (sketch cs ! i) < sint code_x) [0..<body])
         @ map (\<lambda>i. i mod 2 ^ 32)
             (filter (\<lambda>i. sketch cs ! i < code_x \<or> sketch cs ! i = code_x \<and> base_data cs ! i < x)
                [body..<n]))"

section \<open>The order-preserving map\<close>

lemma lower_bound_loop_sorted:
  assumes "sorted xs" "first + len \<le> length xs"
    and "\<And>i. i < first \<Longrightarrow> xs ! i < v"
    and "\<And>i. first + len \<le> i \<Longrightarrow> i < length xs \<Longrightarrow> \<not> xs ! i < v"
  shows "lower_bound_loop xs v first len = length (takeWhile (\<lambda>e. e < v) xs)"
  using assms
proof (induction xs v first len rule: lower_bound_loop.induct)
  case (1 xs v first len)
  let ?half = "len div 2" and ?t = "length (takeWhile (\<lambda>e. e < v) xs)"
  let ?mid = "first + ?half"
  have tw: "i < ?t \<longleftrightarrow> i < length xs \<and> xs ! i < v" for i
    by (rule takeWhile_sorted_less [OF 1(3)])
  show ?case
  proof (cases "len = 0")
    case True
    have "\<not> first < ?t" using tw [of first] 1(6) [of first] True by auto
    moreover have "\<not> ?t < first"
      using tw [of ?t] 1(4,5) True by auto
    ultimately show ?thesis using True by (simp add: lower_bound_loop.simps)
  next
    case False
    then have mid: "?mid < length xs" using 1(4) by (metis add_less_cancel_left div_less_dividend
          dual_order.strict_trans1 gr0I one_less_numeral_iff semiring_norm(76))
    show ?thesis
    proof (cases "xs ! ?mid < v")
      case True
      have "lower_bound_loop xs v (?mid + 1) (len - ?half - 1) = ?t"
      proof (rule 1(1) [OF False refl refl True 1(3)])
        show "?mid + 1 + (len - ?half - 1) \<le> length xs" using 1(4) False by simp
      next
        fix i assume "i < ?mid + 1"
        then have "xs ! i \<le> xs ! ?mid" using 1(3) mid by (simp add: sorted_iff_nth_mono)
        then show "xs ! i < v" using True by simp
      next
        fix i assume "?mid + 1 + (len - ?half - 1) \<le> i" "i < length xs"
        then show "\<not> xs ! i < v" using 1(6) [of i] False by simp
      qed
      then show ?thesis using False True by (simp add: lower_bound_loop.simps [of xs v first len] Let_def)
    next
      case notless: False
      have "lower_bound_loop xs v first ?half = ?t"
      proof (rule 1(2) [OF False refl refl notless 1(3)])
        show "first + ?half \<le> length xs" using mid by simp
      next
        fix i assume "first + ?half \<le> i" "i < length xs"
        then have "xs ! ?mid \<le> xs ! i" using 1(3) by (simp add: sorted_iff_nth_mono)
        then show "\<not> xs ! i < v" using notless by simp
      qed (use 1(5) in simp)
      then show ?thesis using False notless
        by (simp add: lower_bound_loop.simps [of xs v first len] Let_def)
    qed
  qed
qed

lemma lower_bound_sorted: "sorted xs \<Longrightarrow> lower_bound xs v = length (takeWhile (\<lambda>e. e < v) xs)"
  by (simp add: lower_bound_def lower_bound_loop_sorted)

lemma lower_bound_less_iff:
  "sorted xs \<Longrightarrow> i < lower_bound xs v \<longleftrightarrow> i < length xs \<and> xs ! i < v"
  by (simp add: lower_bound_sorted takeWhile_sorted_less)

lemma lower_bound_le_length: "sorted xs \<Longrightarrow> lower_bound xs v \<le> length xs"
  by (simp add: lower_bound_sorted length_takeWhile_le)

lemma lower_bound_mono: "sorted xs \<Longrightarrow> v \<le> w \<Longrightarrow> lower_bound xs v \<le> lower_bound xs w"
  by (meson dual_order.strict_trans1 linorder_not_le lower_bound_less_iff order_less_irrefl)

lemma lower_bound_nth: "sorted xs \<Longrightarrow> v \<in> set xs \<Longrightarrow>
    lower_bound xs v < length xs \<and> xs ! lower_bound xs v = v"
proof -
  assume srt: "sorted xs" and "v \<in> set xs"
  then obtain j where j: "j < length xs" "xs ! j = v" by (auto simp: in_set_conv_nth)
  let ?l = "lower_bound xs v"
  have "?l \<le> j" using lower_bound_less_iff [OF srt, of j v] j by simp
  then have lt: "?l < length xs" and "xs ! ?l \<le> v"
    using j srt by (auto simp: sorted_iff_nth_mono)
  moreover have "\<not> xs ! ?l < v" using lower_bound_less_iff [OF srt, of ?l v] lt by simp
  ultimately show ?thesis by simp
qed

section \<open>The class invariant\<close>

definition sketch_inv :: "('b::len word, 'c::len word) ColumnSketch \<Rightarrow> bool" where
  "sketch_inv cs \<longleftrightarrow>
     base_data cs \<noteq> [] \<and> sketch cs = map (code_of cs) (base_data cs)
     \<and> sorted (endpoints cs) \<and> endpoints cs \<noteq> [] \<and> set (endpoints cs) \<subseteq> set (base_data cs)
     \<and> length (endpoints cs) = num_codes cs \<and> num_codes cs \<le> 2 ^ LENGTH('c)
     \<and> last (endpoints cs) = max_data cs
     \<and> min_data cs \<in> set (base_data cs) \<and> max_data cs \<in> set (base_data cs)
     \<and> (\<forall>v \<in> set (base_data cs). min_data cs \<le> v \<and> v \<le> max_data cs)
     \<and> (need_check_base cs \<longleftrightarrow> num_codes cs < card (set (base_data cs)))"

text \<open>Every value of the column is an endpoint, so equal codes mean equal values.\<close>

definition exact_codes :: "('b::len word, 'c::len word) ColumnSketch \<Rightarrow> bool" where
  "exact_codes cs \<longleftrightarrow> set (base_data cs) \<subseteq> set (endpoints cs)"

text \<open>The values whose code does not wrap around: those that do not exceed the last endpoint.\<close>

definition codable :: "('b::len word, 'c::len word) ColumnSketch \<Rightarrow> 'b word \<Rightarrow> bool" where
  "codable cs v \<longleftrightarrow> v \<le> max_data cs"

definition is_endpoint :: "('b::len word, 'c::len word) ColumnSketch \<Rightarrow> 'b word \<Rightarrow> bool" where
  "is_endpoint cs v \<longleftrightarrow> v \<in> set (endpoints cs)"

lemma sketch_inv_codable: "sketch_inv cs \<Longrightarrow> v \<in> set (base_data cs) \<Longrightarrow> codable cs v"
  by (simp add: sketch_inv_def codable_def)

lemma sketch_inv_nth:
  "sketch_inv cs \<Longrightarrow> i < length (base_data cs) \<Longrightarrow> sketch cs ! i = code_of cs (base_data cs ! i)"
  by (simp add: sketch_inv_def)

lemma sketch_inv_length: "sketch_inv cs \<Longrightarrow> length (sketch cs) = length (base_data cs)"
  by (simp add: sketch_inv_def)

lemma sketch_inv_nth_codable: "sketch_inv cs \<Longrightarrow> i < length (base_data cs) \<Longrightarrow> codable cs (base_data cs ! i)"
  by (simp add: sketch_inv_codable)

lemma quantile_index_mono:
  fixes n c :: nat
  assumes "0 < c" "c \<le> n" "i \<le> j"
  shows "(i + 1) * n div c - 1 \<le> (j + 1) * n div c - 1"
  using assms by (intro diff_le_mono div_le_mono mult_le_mono) auto

lemma build_order_preserving_map_inv:
  fixes cs cs' :: "('b::len word, 'c::len word) ColumnSketch"
  assumes b: "build_order_preserving_map cs = Inr cs'" and c: "0 < num_codes cs" "num_codes cs \<le> 2 ^ LENGTH('c)"
    and nc: "need_check_base cs"
  shows "sketch_inv (build_sketch_column cs')"
proof -
  define sample where "sample = sort (base_data cs)"
  define n where "n = length sample"
  define codes where "codes = min n (num_codes cs)"
  define idx where "idx = (\<lambda>i. min ((i + 1) * n div codes - 1) (n - 1))"
  have ne: "sample \<noteq> []" using b by (auto simp: build_order_preserving_map_def Let_def sample_def split: if_splits)
  then have n: "0 < n" "0 < codes" "codes \<le> n" using c by (auto simp: n_def codes_def)
  have srt: "sorted sample" and set_sample: "set sample = set (base_data cs)" by (simp_all add: sample_def)
  have ep: "endpoints cs' = map (\<lambda>i. sample ! idx i) [0..<codes]" and num: "num_codes cs' = codes"
    and mm: "min_data cs' = hd sample" "max_data cs' = last sample" and base: "base_data cs' = base_data cs"
    and need: "need_check_base cs' \<longleftrightarrow> \<not> length (remdups sample) \<le> codes"
    using b ne nc by (auto simp: build_order_preserving_map_def Let_def sample_def n_def codes_def idx_def
        split: if_splits)
  have idx_lt: "idx i < n" for i using n by (simp add: idx_def)
  have idx_mono: "i \<le> j \<Longrightarrow> idx i \<le> idx j" for i j
    using quantile_index_mono [OF n(2,3)] unfolding idx_def by (meson min.mono order_refl)
  have "sorted (endpoints cs')"
    unfolding ep sorted_iff_nth_mono using srt idx_mono idx_lt by (auto simp: sorted_iff_nth_mono n_def)
  moreover have "set (endpoints cs') \<subseteq> set (base_data cs)"
    using idx_lt by (auto simp: ep n_def simp flip: set_sample)
  moreover have "last (endpoints cs') = last sample"
  proof -
    have "(codes - 1 + 1) * n div codes = n" using n by simp
    then have "idx (codes - 1) = n - 1" by (simp only: idx_def min.idem)
    then show ?thesis using n ne by (simp add: ep last_conv_nth n_def)
  qed
  moreover have "length (endpoints cs') = codes" "endpoints cs' \<noteq> []" using n by (simp_all add: ep)
  moreover have "hd sample \<le> v \<and> v \<le> last sample" if "v \<in> set (base_data cs)" for v
  proof -
    from that obtain i where "i < n" "sample ! i = v" by (auto simp: n_def in_set_conv_nth simp flip: set_sample)
    then show ?thesis using srt ne by (auto simp: hd_conv_nth last_conv_nth n_def sorted_iff_nth_mono)
  qed
  moreover have "hd sample \<in> set (base_data cs)" "last sample \<in> set (base_data cs)"
    using ne by (simp_all flip: set_sample)
  moreover have "length (remdups sample) = card (set (base_data cs))"
    by (simp add: length_remdups_card_conv set_sample)
  moreover have "codes \<le> 2 ^ LENGTH('c)" using c by (simp add: codes_def)
  ultimately show ?thesis
    using ne by (auto simp: sketch_inv_def build_sketch_column_def code_of_def num mm base need sample_def)
qed

lemma ColumnSketch_new_inv:
  "data \<noteq> [] \<Longrightarrow> \<exists>cs. ColumnSketch_new data = Inr (cs :: ('b::len word, 'c::len word) ColumnSketch)
     \<and> sketch_inv cs \<and> base_data cs = data"
proof -
  assume ne: "data \<noteq> []"
  let ?c0 = "\<lparr>base_data = data, sketch = [], endpoints = [], num_codes = 2 ^ LENGTH('c),
      need_check_base = True, min_data = 0, max_data = 0\<rparr> :: ('b word, 'c word) ColumnSketch"
  have "sort data \<noteq> []" using ne by (metis length_0_conv length_sort)
  then obtain cs where cs: "build_order_preserving_map ?c0 = Inr cs"
    by (simp add: build_order_preserving_map_def Let_def)
  then have "base_data cs = data"
    by (auto simp: build_order_preserving_map_def Let_def split: if_splits)
  with cs build_order_preserving_map_inv [OF cs] show ?thesis
    by (simp add: ColumnSketch_new_def build_sketch_column_def)
qed

lemma ColumnSketch_new_Inr:
  fixes cs :: "('b::len word, 'c::len word) ColumnSketch"
  shows "ColumnSketch_new data = Inr cs \<Longrightarrow> sketch_inv cs \<and> base_data cs = data"
  using ColumnSketch_new_inv [where data = data and 'b = 'b and 'c = 'c]
  by (cases "data = []") (auto simp: ColumnSketch_new_def build_order_preserving_map_def)

lemma ColumnSketch_new_exact:
  fixes cs :: "('b::len word, 'c::len word) ColumnSketch"
  assumes "ColumnSketch_new data = Inr cs" "length data \<le> 2 ^ LENGTH('c)"
  shows "exact_codes cs \<and> \<not> need_check_base cs \<and> endpoints cs = sort data"
proof -
  have "(i + 1) * n div n - 1 = i" if "i < n" for i n :: nat using that by simp
  then have "map (\<lambda>i. sort data ! min ((i + 1) * length data div length data - 1) (length data - 1)) [0..<length data]
      = sort data"
    by (intro nth_equalityI) auto
  moreover have "length (remdups (sort data)) \<le> length data"
    by (metis length_remdups_leq length_sort)
  ultimately show ?thesis
    using assms by (auto simp: ColumnSketch_new_def build_order_preserving_map_def build_sketch_column_def
        exact_codes_def Let_def min_absorb1 split: if_splits)
qed

lemma ColumnSketch_new_fields:
  fixes cs :: "('b::len word, 'c::len word) ColumnSketch"
  assumes "ColumnSketch_new data = Inr cs"
  shows "num_codes cs = min (length data) (2 ^ LENGTH('c))"
    and "endpoints cs = map (\<lambda>i. sort data ! min ((i + 1) * length data div num_codes cs - 1) (length data - 1))
      [0..<num_codes cs]"
    and "need_check_base cs \<longleftrightarrow> num_codes cs < card (set data)"
    and "min_data cs < x \<longleftrightarrow> (\<exists>v \<in> set data. v < x)" "x < max_data cs \<longleftrightarrow> (\<exists>v \<in> set data. x < v)"
proof -
  have inv: "sketch_inv cs" "base_data cs = data" using ColumnSketch_new_Inr [OF assms] by simp_all
  show "num_codes cs = min (length data) (2 ^ LENGTH('c))"
    "endpoints cs = map (\<lambda>i. sort data ! min ((i + 1) * length data div num_codes cs - 1) (length data - 1)) [0..<num_codes cs]"
    using assms by (auto simp: ColumnSketch_new_def build_order_preserving_map_def build_sketch_column_def Let_def
        split: if_splits)
  show "need_check_base cs \<longleftrightarrow> num_codes cs < card (set data)" using inv by (simp add: sketch_inv_def)
  show "min_data cs < x \<longleftrightarrow> (\<exists>v \<in> set data. v < x)" "x < max_data cs \<longleftrightarrow> (\<exists>v \<in> set data. x < v)"
    using inv by (auto simp: sketch_inv_def intro: order.strict_trans1 order.strict_trans2)
qed

section \<open>The interface of an order-preserving code\<close>

locale order_preserving_code =
  fixes valid :: "'s \<Rightarrow> bool"
    and domain :: "'s \<Rightarrow> 'v::linorder \<Rightarrow> bool"
    and code :: "'s \<Rightarrow> 'v \<Rightarrow> 'c::linorder"
  assumes code_mono: "valid s \<Longrightarrow> domain s v \<Longrightarrow> domain s w \<Longrightarrow> v \<le> w \<Longrightarrow> code s v \<le> code s w"
begin

lemma less_by_code:
  "valid s \<Longrightarrow> domain s v \<Longrightarrow> domain s x \<Longrightarrow> code s v < code s x \<or> code s v = code s x \<and> v < x \<longleftrightarrow> v < x"
  using code_mono [of s v x] code_mono [of s x v] by (cases "v < x") (force simp: not_less order.order_iff_strict)+

lemma greater_by_code:
  "valid s \<Longrightarrow> domain s v \<Longrightarrow> domain s x \<Longrightarrow> code s v > code s x \<or> code s v = code s x \<and> v > x \<longleftrightarrow> v > x"
  using less_by_code [of s x v] by auto

lemma less_eq_by_code:
  "valid s \<Longrightarrow> domain s v \<Longrightarrow> domain s x \<Longrightarrow> code s v < code s x \<or> code s v = code s x \<and> v \<le> x \<longleftrightarrow> v \<le> x"
  using less_by_code [of s v x] code_mono [of s x v] by (force simp: order.order_iff_strict)

lemma greater_eq_by_code:
  "valid s \<Longrightarrow> domain s v \<Longrightarrow> domain s x \<Longrightarrow> code s v > code s x \<or> code s v = code s x \<and> v \<ge> x \<longleftrightarrow> v \<ge> x"
  using less_eq_by_code [of s x v] by auto

lemma code_less_sound: "valid s \<Longrightarrow> domain s v \<Longrightarrow> domain s x \<Longrightarrow> code s v < code s x \<Longrightarrow> v < x"
  using less_by_code [of s v x] by auto

end

locale separating_code = order_preserving_code valid "domain" code
  for valid :: "'s \<Rightarrow> bool" and "domain" :: "'s \<Rightarrow> 'v::linorder \<Rightarrow> bool" and code :: "'s \<Rightarrow> 'v \<Rightarrow> 'c::linorder" +
  fixes separated :: "'s \<Rightarrow> 'v \<Rightarrow> bool"
  assumes separated_domain: "valid s \<Longrightarrow> separated s v \<Longrightarrow> domain s v"
    and separated_strict: "valid s \<Longrightarrow> separated s v \<Longrightarrow> domain s w \<Longrightarrow> v < w \<Longrightarrow> code s v < code s w"
begin

lemma code_less_iff: "valid s \<Longrightarrow> separated s v \<Longrightarrow> domain s x \<Longrightarrow> code s v < code s x \<longleftrightarrow> v < x"
  using separated_strict separated_domain code_less_sound by metis

lemma code_le_iff: "valid s \<Longrightarrow> separated s x \<Longrightarrow> domain s v \<Longrightarrow> code s v \<le> code s x \<longleftrightarrow> v \<le> x"
  using code_less_iff [of s x v] by (metis linorder_not_less)

lemma code_eq_iff: "valid s \<Longrightarrow> separated s v \<Longrightarrow> separated s w \<Longrightarrow> code s v = code s w \<longleftrightarrow> v = w"
  using code_less_iff separated_domain by (metis linorder_neqE order.irrefl)

end

text \<open>The instance: the codes of a column sketch.\<close>

lemma lower_bound_codable:
  "sketch_inv cs \<Longrightarrow> codable cs v \<Longrightarrow> lower_bound (endpoints cs) v < length (endpoints cs)"
proof -
  assume inv: "sketch_inv cs" and v: "codable cs v"
  then have srt: "sorted (endpoints cs)" and ne: "endpoints cs \<noteq> []" by (simp_all add: sketch_inv_def)
  have "\<not> endpoints cs ! (length (endpoints cs) - 1) < v"
    using inv v ne by (simp add: sketch_inv_def codable_def flip: last_conv_nth) (metis last_conv_nth One_nat_def linorder_not_le)
  then have "\<not> length (endpoints cs) - 1 < lower_bound (endpoints cs) v"
    using lower_bound_less_iff [OF srt] by simp
  then show ?thesis using ne by (cases "endpoints cs") auto
qed

lemma unat_code_of:
  fixes cs :: "('b::len word, 'c::len word) ColumnSketch"
  assumes "sketch_inv cs" "codable cs v"
  shows "unat (code_of cs v) = lower_bound (endpoints cs) v"
proof -
  have "lower_bound (endpoints cs) v < 2 ^ LENGTH('c)"
    using lower_bound_codable [OF assms] assms(1) by (simp add: sketch_inv_def)
  then show ?thesis by (simp add: code_of_def unat_of_nat take_bit_nat_eq_self)
qed

interpretation sketch_code: separating_code
  "sketch_inv :: ('b::len word, 'c::len word) ColumnSketch \<Rightarrow> bool" codable code_of is_endpoint
proof
  fix cs :: "('b word, 'c word) ColumnSketch" and v w
  assume inv: "sketch_inv cs"
  then have srt: "sorted (endpoints cs)" by (simp add: sketch_inv_def)
  show "code_of cs v \<le> code_of cs w" if "codable cs v" "codable cs w" "v \<le> w"
    using inv that lower_bound_mono [OF srt] by (simp add: word_le_nat_alt unat_code_of)
  show dom: "codable cs v" if "is_endpoint cs v"
    using inv that by (auto simp: is_endpoint_def sketch_inv_def codable_def)
  show "code_of cs v < code_of cs w" if v: "is_endpoint cs v" and "codable cs w" "v < w"
  proof -
    have "lower_bound (endpoints cs) v < lower_bound (endpoints cs) w"
      using lower_bound_nth [OF srt, of v] lower_bound_less_iff [OF srt, of _ w] that
      by (auto simp: is_endpoint_def)
    then show ?thesis using inv that dom [OF v] by (simp add: word_less_nat_alt unat_code_of)
  qed
qed

text \<open>Two values have different codes exactly when an endpoint lies between them.\<close>

definition separates :: "('b::len word, 'c::len word) ColumnSketch \<Rightarrow> 'b word \<Rightarrow> 'b word \<Rightarrow> bool" where
  "separates cs v w \<longleftrightarrow> (\<exists>e \<in> set (endpoints cs). v \<le> e \<and> e < w)"

lemma code_less_iff_separates:
  assumes inv: "sketch_inv cs" and v: "codable cs v" and w: "codable cs w"
  shows "code_of cs v < code_of cs w \<longleftrightarrow> separates cs v w"
proof -
  let ?ep = "endpoints cs"
  have srt: "sorted ?ep" using inv by (simp add: sketch_inv_def)
  have "lower_bound ?ep v < lower_bound ?ep w \<longleftrightarrow> separates cs v w"
  proof
    assume lt: "lower_bound ?ep v < lower_bound ?ep w"
    then have "lower_bound ?ep v < length ?ep" "?ep ! lower_bound ?ep v < w"
      by (simp_all add: lower_bound_less_iff [OF srt])
    moreover from this have "v \<le> ?ep ! lower_bound ?ep v"
      using lower_bound_less_iff [OF srt, of "lower_bound ?ep v" v] by simp
    ultimately show "separates cs v w" by (auto simp: separates_def)
  next
    assume "separates cs v w"
    then obtain i where i: "i < length ?ep" "v \<le> ?ep ! i" "?ep ! i < w"
      by (auto simp: separates_def in_set_conv_nth)
    then have "i < lower_bound ?ep w" "\<not> i < lower_bound ?ep v" by (simp_all add: lower_bound_less_iff [OF srt])
    then show "lower_bound ?ep v < lower_bound ?ep w" by simp
  qed
  then show ?thesis using inv v w by (simp add: word_less_nat_alt unat_code_of)
qed

lemma separates_less: "separates cs v w \<Longrightarrow> v < w"
  by (auto simp: separates_def)

lemma separates_exact: "exact_codes cs \<Longrightarrow> v \<in> set (base_data cs) \<Longrightarrow> separates cs v w \<longleftrightarrow> v < w"
  by (auto simp: separates_def exact_codes_def)

lemma separates_endpoint: "is_endpoint cs v \<Longrightarrow> separates cs v w \<longleftrightarrow> v < w"
  by (auto simp: separates_def is_endpoint_def)

section \<open>The scalar routines\<close>

lemma map_mod_filter_upt: "n \<le> 2 ^ 32 \<Longrightarrow> map (\<lambda>i. i mod 2 ^ 32) (filter P [m..<n]) = filter P [m..<n]"
  by (intro map_idI) auto

lemma code_of_not_codable:
  fixes cs :: "('b::len word, 'c::len word) ColumnSketch"
  assumes "sketch_inv cs" "\<not> codable cs x"
  shows "code_of cs x = word_of_nat (num_codes cs)"
proof -
  have "endpoints cs ! i < x" if "i < length (endpoints cs)" for i
  proof -
    have "endpoints cs ! i \<in> set (base_data cs)" using assms(1) nth_mem [OF that] by (auto simp: sketch_inv_def)
    then have "endpoints cs ! i \<le> max_data cs" using assms(1) by (simp add: sketch_inv_def)
    then show ?thesis using assms(2) by (simp add: codable_def)
  qed
  then have "lower_bound (endpoints cs) x = length (endpoints cs)"
    using assms(1) lower_bound_less_iff [of "endpoints cs" _ x] lower_bound_le_length [of "endpoints cs" x]
    by (metis nat_less_le sketch_inv_def)
  then show ?thesis using assms(1) by (simp add: code_of_def sketch_inv_def)
qed

text \<open>A value above the largest one gets a code above all others, or, when all codes are in use, code 0.\<close>

lemma code_of_above_max:
  fixes cs :: "('b::len word, 'c::len word) ColumnSketch"
  assumes inv: "sketch_inv cs" and x: "\<not> codable cs x" and v: "codable cs v"
  shows "num_codes cs < 2 ^ LENGTH('c) \<Longrightarrow> code_of cs v < code_of cs x"
    and "num_codes cs = 2 ^ LENGTH('c) \<Longrightarrow> code_of cs x = 0"
proof -
  assume "num_codes cs < 2 ^ LENGTH('c)"
  then have "unat (code_of cs x) = num_codes cs"
    using code_of_not_codable [OF inv x] by (simp add: unat_of_nat take_bit_nat_eq_self)
  then show "code_of cs v < code_of cs x"
    using lower_bound_codable [OF inv v] inv by (simp add: word_less_nat_alt unat_code_of v sketch_inv_def)
next
  assume "num_codes cs = 2 ^ LENGTH('c)"
  then show "code_of cs x = 0" using code_of_not_codable [OF inv x] by simp
qed

lemma code_of_pos_iff:
  assumes "sketch_inv cs" "codable cs v"
  shows "code_of cs v > 0 \<longleftrightarrow> hd (endpoints cs) < v"
proof -
  have "sorted (endpoints cs)" "endpoints cs \<noteq> []" using assms by (simp_all add: sketch_inv_def)
  then show ?thesis
    using assms lower_bound_less_iff [of "endpoints cs" 0 v]
    by (simp add: word_less_nat_alt unat_code_of hd_conv_nth)
qed

lemma sint8_small: "unat (c :: 8 word) < 128 \<Longrightarrow> sint c = int (unat c)"
proof -
  assume "unat c < 128"
  then have "int (unat c) < int 128" by (simp only: of_nat_less_iff)
  then have "uint c < 2 ^ 7" by simp
  moreover have "- (2 ^ 7) \<le> uint c" by (rule order_trans [OF _ uint_ge_0]) simp
  ultimately have "signed_take_bit 7 (uint c) = uint c" by (intro signed_take_bit_int_eq_self)
  then show ?thesis by (simp add: sint_uint)
qed

text \<open>
  C18: the constructor establishes the class invariant on every non-empty column: one code per
  row, sorted endpoints drawn from the data, the last endpoint the maximum, and base checks
  switched off exactly when there are no more distinct values than codes. On an empty column
  it reads \<open>sample.front()\<close> of an empty vector.
\<close>

theorem ColumnSketch_new_establishes_inv:
  "case (ColumnSketch_new data :: exc + ('b::len word, 'c::len word) ColumnSketch) of
     Inr cs \<Rightarrow> data \<noteq> [] \<and> sketch_inv cs \<and> base_data cs = data
   | Inl e \<Rightarrow> data = [] \<and> e = OutOfBounds"
proof (cases "data = []")
  case True
  then show ?thesis by (simp add: ColumnSketch_new_def build_order_preserving_map_def)
next
  case False
  with ColumnSketch_new_inv [OF False, where 'c = 'c] show ?thesis by auto
qed

text \<open>
  C32: \<open>evaluate_less_than_CPU\<close> returns exactly the rows whose value is below the constant, for
  every constant.
\<close>

theorem evaluate_less_than_CPU_correct:
  assumes inv: "sketch_inv cs" and n: "length (base_data cs) \<le> 2 ^ 32"
  shows "evaluate_less_than_CPU cs x = filter (\<lambda>i. base_data cs ! i < x) [0..<length (base_data cs)]"
proof (cases "codable cs x")
  case True
  let ?P = "\<lambda>i. sketch cs ! i < code_of cs x \<or> sketch cs ! i = code_of cs x \<and> base_data cs ! i < x"
  have "filter ?P [0..<length (base_data cs)] = filter (\<lambda>i. base_data cs ! i < x) [0..<length (base_data cs)]"
    using inv True sketch_code.less_by_code [OF inv]
    by (intro filter_cong) (auto simp: sketch_inv_nth sketch_inv_nth_codable)
  with True map_mod_filter_upt [OF n, of ?P 0] show ?thesis
    by (auto simp: evaluate_less_than_CPU_def sketch_inv_length [OF inv] Let_def codable_def)
next
  case False
  have "filter (\<lambda>i. base_data cs ! i < x) [0..<length (base_data cs)] = [0..<length (base_data cs)]"
    using False sketch_inv_nth_codable [OF inv] by (force simp: filter_id_conv codable_def)
  moreover have "endpoints cs \<noteq> []" using inv by (simp add: sketch_inv_def)
  ultimately show ?thesis
    using False map_mod_filter_upt [OF n, of "\<lambda>_. True" 0]
    by (simp add: evaluate_less_than_CPU_def sketch_inv_length [OF inv] codable_def)
qed

theorem evaluate_less_than_CPU_correct_witness:
  "\<exists>cs :: (32 word, 8 word) ColumnSketch. ColumnSketch_new [30, 10, 20, 10] = Inr cs
     \<and> sketch_inv cs \<and> evaluate_less_than_CPU cs 20 = [1, 3]"
proof -
  obtain cs :: "(32 word, 8 word) ColumnSketch"
    where cs: "ColumnSketch_new [30, 10, 20, 10] = Inr cs" "sketch_inv cs" "base_data cs = [30, 10, 20, 10]"
    using ColumnSketch_new_inv [of "[30, 10, 20, 10] :: 32 word list", where 'c = 8] by auto
  have "filter (\<lambda>i. [30, 10, 20, 10 :: 32 word] ! i < 20) [0..<4] = [1, 3]" by code_simp
  with evaluate_less_than_CPU_correct [OF cs(2), of 20] cs show ?thesis by (auto simp del: upt_rec_numeral)
qed

text \<open>
  What \<open>evaluate_greater_than_CPU\<close> computes for every constant. It is right up to the
  maximum, and above it when a code is left; when all codes are in use the code of a constant
  above the maximum wraps to 0 and every row above the first endpoint is returned, although no
  row qualifies.
\<close>

lemma evaluate_greater_than_CPU_char:
  fixes cs :: "('b::len word, 'c::len word) ColumnSketch"
  assumes inv: "sketch_inv cs" and n: "length (base_data cs) \<le> 2 ^ 32"
  shows "evaluate_greater_than_CPU cs x =
    (if x \<le> max_data cs then filter (\<lambda>i. base_data cs ! i > x) [0..<length (base_data cs)]
     else if num_codes cs < 2 ^ LENGTH('c) then []
     else filter (\<lambda>i. base_data cs ! i > hd (endpoints cs)) [0..<length (base_data cs)])"
proof -
  let ?P = "\<lambda>i. sketch cs ! i > code_of cs x \<or> sketch cs ! i = code_of cs x \<and> base_data cs ! i > x"
  let ?n = "length (base_data cs)"
  have eval: "evaluate_greater_than_CPU cs x = filter ?P [0..<?n]"
    using map_mod_filter_upt [OF n, of ?P 0]
    by (simp add: evaluate_greater_than_CPU_def sketch_inv_length [OF inv] Let_def)
  have row: "?P i \<longleftrightarrow> (if x \<le> max_data cs then base_data cs ! i > x
      else \<not> num_codes cs < 2 ^ LENGTH('c) \<and> base_data cs ! i > hd (endpoints cs))" if "i < ?n" for i
  proof -
    let ?v = "base_data cs ! i"
    have v: "codable cs ?v" and sk: "sketch cs ! i = code_of cs ?v"
      using inv that by (simp_all add: sketch_inv_nth sketch_inv_nth_codable)
    show ?thesis
    proof (cases "x \<le> max_data cs")
      case True
      then have "codable cs x" by (simp add: codable_def)
      with True v sk sketch_code.greater_by_code [OF inv] show ?thesis by simp
    next
      case False
      then have x: "\<not> codable cs x" by (simp add: codable_def)
      have "\<not> ?v > x" using False v by (simp add: codable_def)
      moreover have "num_codes cs \<le> 2 ^ LENGTH('c)" using inv by (simp add: sketch_inv_def)
      ultimately show ?thesis
        using False sk code_of_above_max [OF inv x v] code_of_pos_iff [OF inv v] by force
    qed
  qed
  have "filter ?P [0..<?n] = filter (\<lambda>i. if x \<le> max_data cs then base_data cs ! i > x
      else \<not> num_codes cs < 2 ^ LENGTH('c) \<and> base_data cs ! i > hd (endpoints cs)) [0..<?n]"
    by (rule filter_cong [OF refl], rule row) simp
  with eval show ?thesis by simp
qed

text \<open>
  C32: \<open>evaluate_equal\<close> returns exactly the rows that hold the constant, for every constant:
  the code only screens, it never loses a row.
\<close>

lemma evaluate_equal_correct:
  assumes inv: "sketch_inv cs" and n: "length (base_data cs) \<le> 2 ^ 32"
  shows "evaluate_equal cs x = filter (\<lambda>i. base_data cs ! i = x) [0..<length (base_data cs)]"
proof -
  let ?P = "\<lambda>i. sketch cs ! i = code_of cs x \<and> base_data cs ! i = x"
  have "evaluate_equal cs x = filter ?P [0..<length (base_data cs)]"
    using map_mod_filter_upt [OF n, of ?P 0] by (simp add: evaluate_equal_def sketch_inv_length [OF inv] Let_def)
  also have "\<dots> = filter (\<lambda>i. base_data cs ! i = x) [0..<length (base_data cs)]"
    by (rule filter_cong) (auto simp: sketch_inv_nth [OF inv])
  finally show ?thesis .
qed

text \<open>
  C34: \<open>evaluate_less_than_AVX2\<close> is right on columns of fewer than 128 rows: every value is then
  an endpoint, and no code reaches the sign bit of the signed byte comparison.
\<close>

lemma evaluate_less_than_AVX2_small:
  fixes cs :: "('b::len word, 8 word) ColumnSketch"
  assumes new: "ColumnSketch_new data = Inr cs" and n: "length data < 128"
  shows "evaluate_less_than_AVX2 cs x = filter (\<lambda>i. data ! i < x) [0..<length data]"
proof -
  have inv: "sketch_inv cs" and base: "base_data cs = data" using ColumnSketch_new_Inr [OF new] by simp_all
  have exact: "exact_codes cs" and "endpoints cs = sort data" using ColumnSketch_new_exact [OF new] n by simp_all
  then have num: "num_codes cs < 128" using inv n by (simp add: sketch_inv_def)
  have low: "unat (code_of cs v) < 128" for v
  proof -
    have "lower_bound (endpoints cs) v < 128"
      using inv num lower_bound_le_length [of "endpoints cs" v] by (simp add: sketch_inv_def)
    then show ?thesis by (simp add: code_of_def unat_of_nat take_bit_nat_eq_self)
  qed
  have signed: "sint (code_of cs v) < sint (code_of cs w) \<longleftrightarrow> code_of cs v < code_of cs w" for v w
    using low [of v] low [of w] by (simp add: sint8_small word_less_def)
  have lt: "code_of cs v < code_of cs x \<longleftrightarrow> v < x" if "v \<in> set data" for v
  proof (cases "codable cs x")
    case True
    then show ?thesis using sketch_code.code_less_iff [OF inv] that exact base
      by (auto simp: is_endpoint_def exact_codes_def)
  next
    case False
    then show ?thesis using code_of_above_max(1) [OF inv False] sketch_inv_codable [OF inv, of v] that num base
      by (simp add: codable_def)
  qed
  let ?n = "length data" and ?body = "32 * (length data div 32)"
  have sk: "sketch cs ! i = code_of cs (data ! i)" if "i < ?n" for i
    using sketch_inv_nth [OF inv] that base by simp
  have body: "filter (\<lambda>i. sint (sketch cs ! i) < sint (code_of cs x)) [0..<?body] = filter (\<lambda>i. data ! i < x) [0..<?body]"
    by (rule filter_cong) (auto simp: sk signed lt)
  have tail: "filter (\<lambda>i. sketch cs ! i < code_of cs x \<or> sketch cs ! i = code_of cs x \<and> base_data cs ! i < x) [?body..<?n] =
      filter (\<lambda>i. data ! i < x) [?body..<?n]"
    by (rule filter_cong) (auto simp: sk lt base)
  have "evaluate_less_than_AVX2 cs x = filter (\<lambda>i. data ! i < x) [0..<?body] @ filter (\<lambda>i. data ! i < x) [?body..<?n]"
    using n body tail map_mod_filter_upt [of ?body _ 0] map_mod_filter_upt [of ?n _ ?body]
    by (simp add: evaluate_less_than_AVX2_def Let_def sketch_inv_length [OF inv] base)
  then show ?thesis using filter_upt_split [of 0 ?body ?n "\<lambda>i. data ! i < x"] by simp
qed

end
