(* ===== verification/Sketch_SIMD.thy ===== *)
theory Sketch_SIMD
  imports Column_Sketch
begin

unbundle bit_operations_syntax

text \<open>
  The AVX-512 routines of \<^verbatim>\<open>src/src/include/duckdb/storage/statistics/column_sketch.hpp\<close>,
  for 8-bit codes as their \<open>static_assert\<close> requires, on a machine with \<open>__AVX512F__\<close>. A
  512-bit register of codes is the 64 codes it loads and a compare instruction is the 64-bit
  mask of its lanes (\<open>mask64\<close>). The \<open>int16_t\<close> counter of the fill loops and the narrowing
  casts are kept at their width.

  The lemmas show that the block loop and the tail compute the rows and the mask of one
  predicate (\<open>avx512_scan_correct\<close>), and then which predicate each of the four routines
  computes.
\<close>

section \<open>AVX-512 evaluation\<close>

text \<open>
  The loop \<open>while (mask != 0)\<close> that writes the set lanes of a block, lowest first. \<open>pos\<close> is a
  \<open>uint32_t\<close>.
\<close>

function emit_mask :: "nat \<Rightarrow> u64 \<Rightarrow> nat \<times> SelectionVector \<Rightarrow> exc + nat \<times> SelectionVector" where
  "emit_mask i m st =
     (if m = 0 then Inr st
      else bind_res (push_row ((i + ctzll m) mod 2 ^ 32) st) (emit_mask i (m AND (m - 1))))"
  by pat_completeness auto
termination
  by (relation "measure (\<lambda>(i, m, st). unat m)") (auto dest: clear_lowest_less simp: word_less_nat_alt)

declare emit_mask.simps [simp del]

text \<open>
  The loop \<open>while (temp_mask != 0)\<close> that looks at the base value of every lane of \<open>eq_mask\<close>
  and clears the lanes that \<open>rej\<close> rejects.
\<close>

function refine_eq_mask :: "(nat \<Rightarrow> bool) \<Rightarrow> u64 \<Rightarrow> u64 \<Rightarrow> u64" where
  "refine_eq_mask rej temp eq =
     (if temp = 0 then eq
      else let offset = ctzll temp
           in refine_eq_mask rej (temp AND (temp - 1))
                (if rej offset then eq AND NOT (bit_at offset) else eq))"
  by pat_completeness auto
termination
  by (relation "measure (\<lambda>(rej, temp, eq). unat temp)") (auto dest: clear_lowest_less simp: word_less_nat_alt)

declare refine_eq_mask.simps [simp del]

text \<open>
  The four fill loops of the case that every row qualifies. \<open>k\<close> is an \<open>int16_t\<close>; in the
  comparison with \<open>m\<close> it is widened to \<open>size_t\<close>, so a negative \<open>k\<close> is a huge number.
\<close>

definition to_size :: "int \<Rightarrow> nat" where
  "to_size k = nat (k mod 2 ^ 64)"

text \<open>An \<open>int16_t\<close> counter that is not negative grows or wraps to a negative value.\<close>

lemma sint16_add:
  fixes k :: "16 word"
  assumes "0 \<le> sint k" "0 \<le> d" "d < 32768"
  shows "sint (k + word_of_int d) = (if sint k + d < 32768 then sint k + d else sint k + d - 65536)"
proof -
  have "sint k < 32768" using sint_lt [of k] by simp
  have "sint (word_of_int d :: 16 word) = d"
    using assms by (simp add: signed_of_int signed_take_bit_int_eq_self sint_sbintrunc')
  then have "sint (k + word_of_int d) = signed_take_bit 15 (sint k + d)"
    by (simp add: sint_word_ariths)
  also have "\<dots> = (if sint k + d < 32768 then sint k + d else sint k + d - 65536)"
  proof -
    have "(a + 32768) mod 65536 - 32768 = (if a < 32768 then a else a - 65536)"
      if "0 \<le> a" "a < 65536" for a :: int
    proof (cases "a < 32768")
      case False
      have "a + 32768 = a - 32768 + 65536" by simp
      then have "(a + 32768) mod 65536 = (a - 32768 + 65536) mod 65536" by (simp only:)
      also have "\<dots> = a - 32768" using that False by (simp only: mod_add_self2) simp
      finally show ?thesis using False by simp
    qed (use that in simp)
    from this [of "sint k + d"] show ?thesis
      using assms \<open>sint k < 32768\<close> by (simp add: signed_take_bit_eq_take_bit_shift take_bit_eq_mod)
  qed
  finally show ?thesis .
qed

lemma to_size_nonneg: "0 \<le> k \<Longrightarrow> k < 2 ^ 64 \<Longrightarrow> to_size k = nat k"
  by (simp add: to_size_def)

lemma sint16_bounds: "sint (k :: 16 word) < 32768" "- 32768 \<le> sint (k :: 16 word)"
  using sint_lt [of k] sint_ge [of k] by simp_all

function fill16 :: "nat \<Rightarrow> 16 word \<Rightarrow> SelectionVector \<Rightarrow> exc + 16 word \<times> SelectionVector" where
  "fill16 m k sel =
     (if to_size (sint k + 16) \<le> m
      then if sint k < 0 then Inl OutOfBounds
           else bind_res (fold_res (\<lambda>j sel. set_index sel (nat (sint k) + j) (nat (sint k) + j)) [0..<16] sel)
                  (fill16 m (k + 16))
      else Inr (k, sel))"
  by pat_completeness auto
termination
proof (relation "measure (\<lambda>(m, k, sel). if sint k < 0 then 0 else nat (32768 - sint k))")
  fix m :: nat and k :: "16 word" and sel sel' :: SelectionVector
  assume "\<not> sint k < 0"
  then show "((m, k + 16, sel'), (m, k, sel)) \<in> measure (\<lambda>(m, k, sel). if sint k < 0 then 0 else nat (32768 - sint k))"
    using sint16_add [of k 16] sint16_bounds(1) [of k] by simp
qed simp

function fill_rest :: "nat \<Rightarrow> 16 word \<Rightarrow> SelectionVector \<Rightarrow> exc + SelectionVector" where
  "fill_rest m k sel =
     (if to_size (sint k) < m
      then if sint k < 0 then Inl OutOfBounds
           else bind_res (set_index sel (nat (sint k)) (nat (sint k))) (fill_rest m (k + 1))
      else Inr sel)"
  by pat_completeness auto
termination
proof (relation "measure (\<lambda>(m, k, sel). if sint k < 0 then 0 else nat (32768 - sint k))")
  fix m :: nat and k :: "16 word" and sel sel' :: SelectionVector
  assume "\<not> sint k < 0"
  then show "((m, k + 1, sel'), (m, k, sel)) \<in> measure (\<lambda>(m, k, sel). if sint k < 0 then 0 else nat (32768 - sint k))"
    using sint16_add [of k 1] sint16_bounds(1) [of k] by simp
qed simp

declare fill16.simps [simp del] fill_rest.simps [simp del]



text \<open>\<open>return static_cast<int32_t>(n)\<close> from a function that returns \<open>idx_t\<close>.\<close>

definition int32_to_idx :: "nat \<Rightarrow> idx_t" where
  "int32_to_idx n = to_size (signed_take_bit 31 (int n))"

text \<open>Every row qualifies: the identity selection and a mask of \<open>m\<close> ones.\<close>

definition select_all :: "nat \<Rightarrow> ManagedSelection \<Rightarrow> exc + idx_t \<times> ManagedSelection" where
  "select_all m msel =
     bind_res (fill16 m 0 (sel_vec msel)) (\<lambda>(k, sel).
     bind_res (fill_rest m k sel) (\<lambda>sel.
       let mask_count = (m + 63) div 64;
           remain = m mod 64;
           masks = replicate mask_count (- 1);
           masks = (if remain \<noteq> 0 then masks[mask_count - 1 := bit_at remain - 1] else masks)
       in Inr (int32_to_idx m, SetCount m (msel\<lparr>sel_vec := sel, bitmask := masks\<rparr>))))"

text \<open>
  The two nested loops over the blocks of 64 codes, and the scalar tail. \<open>block_mask i\<close> is the
  mask the code computes for the block that starts at row \<open>i\<close>, \<open>tail_test i\<close> its condition on
  a row of the tail; the loop state is the pair of count and selection, and the masks.
\<close>

definition avx512_block ::
  "(nat \<Rightarrow> u64) \<Rightarrow> nat \<Rightarrow> (nat \<times> SelectionVector) \<times> u64 list
    \<Rightarrow> exc + (nat \<times> SelectionVector) \<times> u64 list" where
  "avx512_block block_mask i = (\<lambda>(st, masks).
     bind_res (emit_mask i (block_mask i) st) (\<lambda>st'. Inr (st', masks @ [block_mask i])))"

definition avx512_tail ::
  "(nat \<Rightarrow> bool) \<Rightarrow> nat \<Rightarrow> nat \<Rightarrow> (nat \<times> SelectionVector) \<times> u64
    \<Rightarrow> exc + (nat \<times> SelectionVector) \<times> u64" where
  "avx512_tail tail_test i0 i = (\<lambda>(st, tail_mask).
     if tail_test i then bind_res (push_row i st) (\<lambda>st'. Inr (st', tail_mask OR bit_at (i - i0)))
     else Inr (st, tail_mask))"

definition avx512_scan ::
  "(nat \<Rightarrow> u64) \<Rightarrow> (nat \<Rightarrow> bool) \<Rightarrow> nat \<Rightarrow> ManagedSelection \<Rightarrow> exc + idx_t \<times> ManagedSelection" where
  "avx512_scan block_mask tail_test n msel =
     bind_res (fold_res (\<lambda>blk. avx512_block block_mask (64 * blk)) [0..<n div 64] ((0, sel_vec msel), bitmask msel))
       (\<lambda>(st, masks).
     bind_res (fold_res (avx512_tail tail_test (64 * (n div 64))) [64 * (n div 64)..<n] (st, 0))
       (\<lambda>((cnt, sel), tail_mask).
         Inr (int32_to_idx cnt, SetCount cnt (msel\<lparr>sel_vec := sel, bitmask := masks @ [tail_mask]\<rparr>))))"

text \<open>The preamble \<open>msel.bitmask.clear(); sel.Initialize(base_data_.size());\<close>.\<close>

definition reset_selection :: "nat \<Rightarrow> ManagedSelection \<Rightarrow> ManagedSelection" where
  "reset_selection n msel = msel\<lparr>bitmask := [], sel_vec := Initialize_count n\<rparr>"

definition evaluate_less_than_AVX512 ::
  "('b::len word, 8 word) ColumnSketch \<Rightarrow> 'b word \<Rightarrow> ManagedSelection \<Rightarrow> exc + idx_t \<times> ManagedSelection" where
  "evaluate_less_than_AVX512 cs x msel =
     (if endpoints cs \<noteq> [] \<and> x \<le> min_data cs then Inr (0, msel)
      else
        let msel = reset_selection (length (base_data cs)) msel
        in if endpoints cs \<noteq> [] \<and> x > max_data cs then select_all (length (base_data cs)) msel
           else
             let code_x = code_of cs x;
                 n = length (sketch cs);
                 lt_mask = (\<lambda>i. mask64 (\<lambda>j. sketch cs ! (i + j) < code_x));
                 eq_mask = (\<lambda>i. mask64 (\<lambda>j. sketch cs ! (i + j) = code_x));
                 block_mask = (\<lambda>i. if \<not> need_check_base cs then lt_mask i
                   else lt_mask i OR
                     refine_eq_mask (\<lambda>j. base_data cs ! ((i + j) mod 2 ^ 32) \<ge> x) (eq_mask i) (eq_mask i))
             in avx512_scan block_mask
                  (\<lambda>i. sketch cs ! i < code_x \<or> sketch cs ! i = code_x \<and> base_data cs ! i < x) n msel)"

definition evaluate_lessthan_orequal_avx512 ::
  "('b::len word, 8 word) ColumnSketch \<Rightarrow> 'b word \<Rightarrow> ManagedSelection \<Rightarrow> exc + idx_t \<times> ManagedSelection" where
  "evaluate_lessthan_orequal_avx512 cs x msel =
     (if endpoints cs \<noteq> [] \<and> x < min_data cs then Inr (0, msel)
      else
        let msel = reset_selection (length (base_data cs)) msel
        in if endpoints cs \<noteq> [] \<and> (x > max_data cs \<or> \<not> need_check_base cs \<and> x \<ge> max_data cs)
           then select_all (length (base_data cs)) msel
           else
             let code_x = code_of cs x;
                 n = length (sketch cs);
                 lt_mask = (\<lambda>i. mask64 (\<lambda>j. sketch cs ! (i + j) < code_x));
                 eq_mask = (\<lambda>i. mask64 (\<lambda>j. sketch cs ! (i + j) = code_x));
                 block_mask = (\<lambda>i. if \<not> need_check_base cs then mask64 (\<lambda>j. sketch cs ! (i + j) \<le> code_x)
                   else lt_mask i OR
                     refine_eq_mask (\<lambda>j. base_data cs ! ((i + j) mod 2 ^ 32) > x) (eq_mask i) (eq_mask i))
             in avx512_scan block_mask
                  (\<lambda>i. sketch cs ! i \<le> code_x \<or> sketch cs ! i = code_x \<and> base_data cs ! i \<le> x) n msel)"

definition evaluate_greater_than_AVX512 ::
  "('b::len word, 8 word) ColumnSketch \<Rightarrow> 'b word \<Rightarrow> ManagedSelection \<Rightarrow> exc + idx_t \<times> ManagedSelection" where
  "evaluate_greater_than_AVX512 cs x msel =
     (if endpoints cs \<noteq> [] \<and> x \<ge> max_data cs then Inr (0, msel)
      else
        let msel = reset_selection (length (base_data cs)) msel
        in if endpoints cs \<noteq> [] \<and> x < min_data cs then select_all (length (base_data cs)) msel
           else
             let code_x = code_of cs x;
                 n = length (sketch cs);
                 gt_mask = (\<lambda>i. mask64 (\<lambda>j. sketch cs ! (i + j) > code_x));
                 eq_mask = (\<lambda>i. mask64 (\<lambda>j. sketch cs ! (i + j) = code_x));
                 block_mask = (\<lambda>i. if \<not> need_check_base cs then gt_mask i
                   else gt_mask i OR
                     refine_eq_mask (\<lambda>j. base_data cs ! ((i + j) mod 2 ^ 32) \<le> x) (eq_mask i) (eq_mask i))
             in avx512_scan block_mask
                  (\<lambda>i. sketch cs ! i > code_x \<or> sketch cs ! i = code_x \<and> base_data cs ! i > x) n msel)"

definition evaluate_greaterthan_orequal_avx512 ::
  "('b::len word, 8 word) ColumnSketch \<Rightarrow> 'b word \<Rightarrow> ManagedSelection \<Rightarrow> exc + idx_t \<times> ManagedSelection" where
  "evaluate_greaterthan_orequal_avx512 cs x msel =
     (if endpoints cs \<noteq> [] \<and> x > max_data cs then Inr (0, msel)
      else
        let msel = reset_selection (length (base_data cs)) msel
        in if endpoints cs \<noteq> [] \<and> (x < min_data cs \<or> \<not> need_check_base cs \<and> x \<le> min_data cs)
           then select_all (length (base_data cs)) msel
           else
             let code_x = code_of cs x;
                 n = length (sketch cs);
                 gt_mask = (\<lambda>i. mask64 (\<lambda>j. sketch cs ! (i + j) > code_x));
                 eq_mask = (\<lambda>i. mask64 (\<lambda>j. sketch cs ! (i + j) = code_x));
                 block_mask = (\<lambda>i. if \<not> need_check_base cs then mask64 (\<lambda>j. sketch cs ! (i + j) \<ge> code_x)
                   else gt_mask i OR
                     refine_eq_mask (\<lambda>j. base_data cs ! ((i + j) mod 2 ^ 32) < x) (eq_mask i) (eq_mask i))
             in avx512_scan block_mask
                  (\<lambda>i. sketch cs ! i \<ge> code_x \<or> sketch cs ! i = code_x \<and> base_data cs ! i \<ge> x) n msel)"

section \<open>The loops\<close>

lemma emit_mask_eq: "emit_mask i m st = fold_res push_row (map (\<lambda>j. (i + j) mod 2 ^ 32) (bits_of m)) st"
proof (induction i m st rule: emit_mask.induct)
  case (1 i m st)
  show ?case
  proof (cases "m = 0")
    case False
    have "emit_mask i (m AND (m - 1)) = fold_res push_row (map (\<lambda>j. (i + j) mod 2 ^ 32) (bits_of (m AND (m - 1))))"
      using 1 [OF False] by (intro ext)
    then show ?thesis by (simp only: emit_mask.simps [of i m st] False if_False bits_of_step [OF False]
          list.map fold_res.simps)
  qed (simp add: emit_mask.simps)
qed

lemma bit_refine_eq_mask:
  "bit (refine_eq_mask rej temp eq) j \<longleftrightarrow> bit eq j \<and> \<not> (bit temp j \<and> rej j)"
proof (induction rej temp eq rule: refine_eq_mask.induct)
  case (1 rej temp eq)
  show ?case
  proof (cases "temp = 0")
    case False
    let ?o = "ctzll temp"
    have o: "bit temp ?o" "?o < 64" using ctzll_bit [OF False] by simp_all
    have "bit (refine_eq_mask rej temp eq) j \<longleftrightarrow>
        bit (if rej ?o then eq AND NOT (bit_at ?o) else eq) j \<and> \<not> ((bit temp j \<and> j \<noteq> ?o) \<and> rej j)"
      by (subst refine_eq_mask.simps) (simp only: False if_False Let_def 1 [OF False refl] bit_clear_lowest [OF False])
    also have "bit (if rej ?o then eq AND NOT (bit_at ?o) else eq) j \<longleftrightarrow> bit eq j \<and> \<not> (j = ?o \<and> rej ?o)"
      using o(2) by (auto simp: bit_and_iff bit_not_iff dest: bit_imp_le_length)
    finally show ?thesis using o(1) by blast
  qed (simp add: refine_eq_mask.simps)
qed

text \<open>The mask of a checked block: the lanes the codes decide, and those the base data decides.\<close>

lemma checked_block_mask:
  "mask64 A OR refine_eq_mask rej (mask64 E) (mask64 E) = mask64 (\<lambda>j. A j \<or> E j \<and> \<not> rej j)"
  by (auto simp: mask64_eq_iff bit_or_iff bit_refine_eq_mask)

text \<open>
  The contract of an evaluation: the count returned, the selection vector and the bitmask all
  describe the rows below \<open>n\<close> that satisfy \<open>P\<close>.
\<close>

definition selects :: "nat \<Rightarrow> (nat \<Rightarrow> bool) \<Rightarrow> idx_t \<times> ManagedSelection \<Rightarrow> bool" where
  "selects n P = (\<lambda>(cnt, m). cnt = length (filter P [0..<n]) \<and> ms_count m = cnt
     \<and> sel_inv (cnt, sel_vec m) \<and> sel_rows (cnt, sel_vec m) = filter P [0..<n]
     \<and> mask_rows (bitmask m) = filter P [0..<n])"

lemma selects_cong: "(\<And>i. i < n \<Longrightarrow> P i \<longleftrightarrow> Q i) \<Longrightarrow> selects n P r = selects n Q r"
proof -
  assume "\<And>i. i < n \<Longrightarrow> P i \<longleftrightarrow> Q i"
  then have "filter P [0..<n] = filter Q [0..<n]" by (intro filter_cong) auto
  then show ?thesis by (simp add: selects_def)
qed

lemma int32_to_idx_small: "n < 2 ^ 31 \<Longrightarrow> int32_to_idx n = n"
  by (simp add: int32_to_idx_def to_size_nonneg signed_take_bit_int_eq_self)

lemma avx512_blocks:
  assumes blk: "\<And>b. b < k \<Longrightarrow> block_mask (64 * b) = mask64 (\<lambda>j. P (64 * b + j))"
    and k: "64 * k \<le> n" and n: "n \<le> 2 ^ 32"
  shows "\<exists>st masks. fold_res (\<lambda>blk. avx512_block block_mask (64 * blk)) [0..<k] ((0, Initialize_count n), []) =
      Inr (st, masks) \<and> sel_inv st \<and> sel_cap st = n \<and> sel_rows st = filter P [0..<64 * k]
      \<and> length masks = k \<and> mask_rows masks = filter P [0..<64 * k]"
proof -
  let ?I = "\<lambda>b (st, masks). sel_inv st \<and> sel_cap st = n \<and> sel_rows st = filter P [0..<64 * b]
      \<and> length masks = b \<and> mask_rows masks = filter P [0..<64 * b]"
  have "\<exists>s'. fold_res (\<lambda>blk. avx512_block block_mask (64 * blk)) [0..<k] ((0, Initialize_count n), []) = Inr s' \<and> ?I k s'"
  proof (rule fold_res_upt_rule [where I = ?I])
    fix b and s :: "(nat \<times> SelectionVector) \<times> u64 list"
    assume b: "b < k" and I: "?I b s"
    obtain st masks where s: "s = (st, masks)" by (cases s)
    let ?m = "block_mask (64 * b)"
    let ?rs = "map (\<lambda>j. 64 * b + j) (bits_of ?m)"
    have bits: "bits_of ?m = filter (\<lambda>j. P (64 * b + j)) [0..<64]" by (simp add: blk [OF b] bits_of_mask64)
    have le: "64 * b + 64 \<le> n" using b k by simp
    have small: "\<forall>r \<in> set ?rs. r < 2 ^ 32" using le n by (auto simp: bits)
    then have "map (\<lambda>j. (64 * b + j) mod 2 ^ 32) (bits_of ?m) = ?rs" by auto
    then have emit: "emit_mask (64 * b) ?m st = fold_res push_row ?rs st" by (simp only: emit_mask_eq)
    have new: "filter P [0..<64 * Suc b] = filter P [0..<64 * b] @ ?rs"
      using filter_upt_split [of 0 "64 * b" "64 * b + 64" P] filter_upt_shift [of P "64 * b" 64]
      by (simp add: bits add.commute)
    have "length (filter P [0..<64 * b]) + length ?rs \<le> 64 * b + 64"
      using length_filter_upt_le [of P 0 "64 * Suc b"] unfolding new by simp
    then have "length (sel_rows st) + length ?rs \<le> sel_cap st" using I le by (simp add: s)
    from sel_sink.push_list [OF _ this small] I obtain st' where "fold_res push_row ?rs st = Inr st'"
      "sel_inv st'" "sel_rows st' = filter P [0..<64 * Suc b]" "sel_cap st' = n" unfolding new s by auto
    then show "\<exists>s'. avx512_block block_mask (64 * b) s = Inr s' \<and> ?I (Suc b) s'"
      using I new by (simp add: s avx512_block_def emit mask_rows_append)
  qed (simp_all add: mask_rows_def)
  then show ?thesis by auto
qed

lemma avx512_tail_loop:
  assumes tail: "\<And>i. i0 \<le> i \<Longrightarrow> i < n \<Longrightarrow> tail_test i = P i"
    and st: "sel_inv st" "sel_cap st = n" "sel_rows st = filter P [0..<i0]"
    and n: "i0 \<le> n" "n < i0 + 64" "n \<le> 2 ^ 32"
  shows "\<exists>st' tm. fold_res (avx512_tail tail_test i0) [i0..<n] (st, 0) = Inr (st', tm)
      \<and> sel_inv st' \<and> sel_rows st' = filter P [0..<n] \<and> map (\<lambda>j. i0 + j) (bits_of tm) = filter P [i0..<n]"
proof -
  let ?I = "\<lambda>i (st, tm). sel_inv st \<and> sel_cap st = n \<and> sel_rows st = filter P [0..<i]
      \<and> (\<forall>j. bit tm j \<longleftrightarrow> i0 + j < i \<and> P (i0 + j))"
  have "\<exists>s'. fold_res (avx512_tail tail_test i0) [i0..<n] (st, 0) = Inr s' \<and> ?I n s'"
  proof (rule fold_res_upt_rule [where I = ?I])
    fix i and s :: "(nat \<times> SelectionVector) \<times> u64"
    assume i: "i0 \<le> i" "i < n" and I: "?I i s"
    obtain st tm where s: "s = (st, tm)" by (cases s)
    have bits: "bit tm j \<longleftrightarrow> i0 + j < i \<and> P (i0 + j)" for j using I by (simp add: s)
    have inv: "sel_inv st" "sel_cap st = n" "sel_rows st = filter P [0..<i]" using I by (simp_all add: s)
    show "\<exists>s'. avx512_tail tail_test i0 i s = Inr s' \<and> ?I (Suc i) s'"
    proof (cases "P i")
      case True
      have "length (sel_rows st) < sel_cap st"
        using inv i(2) length_filter_upt_le [of P 0 i] by simp
      moreover have "i < 2 ^ 32" using i(2) n(3) by simp
      ultimately obtain st' where "push_row i st = Inr st'" "sel_inv st'" "sel_rows st' = sel_rows st @ [i]"
        "sel_cap st' = sel_cap st" using sel_sink.push_ok [of st i] inv by auto
      moreover have "bit (tm OR bit_at (i - i0)) j \<longleftrightarrow> i0 + j < Suc i \<and> P (i0 + j)" for j
        using i n(2) True by (auto simp: bits bit_or_iff less_Suc_eq)
      ultimately show ?thesis using inv i True by (simp add: s avx512_tail_def tail filter_upt_Suc)
    next
      case False
      then have "bit tm j \<longleftrightarrow> i0 + j < Suc i \<and> P (i0 + j)" for j by (auto simp: bits less_Suc_eq)
      then show ?thesis using inv i False by (simp add: s avx512_tail_def tail filter_upt_Suc)
    qed
  qed (use st n in auto)
  then obtain st' tm where r: "fold_res (avx512_tail tail_test i0) [i0..<n] (st, 0) = Inr (st', tm)" "?I n (st', tm)"
    by auto
  have "bits_of tm = filter (\<lambda>j. P (i0 + j)) [0..<n - i0]"
  proof -
    have "bits_of tm = filter (\<lambda>j. i0 + j < n \<and> P (i0 + j)) [0..<64]" using r(2) unfolding bits_of_def by (intro filter_cong) auto
    also have "\<dots> = filter (\<lambda>j. i0 + j < n \<and> P (i0 + j)) [0..<n - i0]
        @ filter (\<lambda>j. i0 + j < n \<and> P (i0 + j)) [n - i0..<64]"
      using n by (intro filter_upt_split) auto
    also have "filter (\<lambda>j. i0 + j < n \<and> P (i0 + j)) [n - i0..<64] = []" by (auto simp: filter_empty_conv)
    also have "filter (\<lambda>j. i0 + j < n \<and> P (i0 + j)) [0..<n - i0] = filter (\<lambda>j. P (i0 + j)) [0..<n - i0]"
      by (rule filter_cong) auto
    finally show ?thesis by simp
  qed
  then have "map (\<lambda>j. i0 + j) (bits_of tm) = filter P [i0..<n]"
    using filter_upt_shift [of P i0 "n - i0"] n by simp
  with r show ?thesis by auto
qed

lemma avx512_scan_correct:
  assumes blk: "\<And>b. b < n div 64 \<Longrightarrow> block_mask (64 * b) = mask64 (\<lambda>j. P (64 * b + j))"
    and tail: "\<And>i. 64 * (n div 64) \<le> i \<Longrightarrow> i < n \<Longrightarrow> tail_test i = P i"
    and n: "n < 2 ^ 31"
  shows "\<exists>r. avx512_scan block_mask tail_test n (reset_selection n msel) = Inr r \<and> selects n P r
     \<and> length (bitmask (snd r)) = n div 64 + 1"
proof -
  let ?k = "n div 64"
  have k: "64 * ?k \<le> n" "n < 64 * ?k + 64" and n32: "n \<le> 2 ^ 32" using n by simp_all
  from avx512_blocks [OF blk k(1) n32] obtain st masks where b:
    "fold_res (\<lambda>blk. avx512_block block_mask (64 * blk)) [0..<?k] ((0, Initialize_count n), []) = Inr (st, masks)"
    "sel_inv st" "sel_cap st = n" "sel_rows st = filter P [0..<64 * ?k]" "length masks = ?k"
    "mask_rows masks = filter P [0..<64 * ?k]" by auto
  from avx512_tail_loop [OF tail b(2,3,4) k(1,2) n32] obtain cnt sel tm where t:
    "fold_res (avx512_tail tail_test (64 * ?k)) [64 * ?k..<n] (st, 0) = Inr ((cnt, sel), tm)"
    "sel_inv (cnt, sel)" "sel_rows (cnt, sel) = filter P [0..<n]"
    "map (\<lambda>j. 64 * ?k + j) (bits_of tm) = filter P [64 * ?k..<n]" by auto
  have rows: "mask_rows (masks @ [tm]) = filter P [0..<n]"
    using filter_upt_split [of 0 "64 * ?k" n P] k(1) t(4) by (simp add: mask_rows_append b(5,6))
  have cnt: "cnt = length (filter P [0..<n])" using length_sel_rows [OF t(2)] t(3) by simp
  then have "int32_to_idx cnt = cnt"
    using length_filter_upt_le [of P 0 n] n by (intro int32_to_idx_small) simp
  then show ?thesis
    using b(1,5) t rows cnt by (simp add: avx512_scan_def reset_selection_def SetCount_def selects_def)
qed

section \<open>The case that every row qualifies\<close>

definition filled :: "nat \<Rightarrow> nat \<Rightarrow> SelectionVector \<Rightarrow> bool" where
  "filled m k sel \<longleftrightarrow> (\<exists>b. sel = SelBuf b \<and> length b = m \<and> k \<le> m \<and> (\<forall>i<k. b ! i = Some i))"

lemma filled_set_index:
  "filled m k sel \<Longrightarrow> k < m \<Longrightarrow> m \<le> 2 ^ 32 \<Longrightarrow> \<exists>sel'. set_index sel k k = Inr sel' \<and> filled m (Suc k) sel'"
  by (auto simp: filled_def set_index_def nth_list_update less_Suc_eq)

lemma filled_block:
  assumes "filled m k sel" "k + d \<le> m" "m \<le> 2 ^ 32"
  shows "\<exists>sel'. fold_res (\<lambda>j sel. set_index sel (k + j) (k + j)) [0..<d] sel = Inr sel' \<and> filled m (k + d) sel'"
proof (rule fold_res_upt_rule [where I = "\<lambda>j. filled m (k + j)"])
  fix j sel
  assume "filled m (k + j) sel" "j < d"
  then show "\<exists>s'. set_index sel (k + j) (k + j) = Inr s' \<and> filled m (k + Suc j) s'"
    using filled_set_index [of m "k + j" sel] assms by simp
qed (use assms in simp_all)

lemma fill16_ok:
  assumes "0 \<le> sint k" "m < 32768" "filled m (nat (sint k)) sel"
  shows "\<exists>k' sel'. fill16 m k sel = Inr (k', sel') \<and> 0 \<le> sint k' \<and> filled m (nat (sint k')) sel'"
  using assms
proof (induction m k sel rule: fill16.induct)
  case (1 m k sel)
  have ts: "to_size (sint k + 16) = nat (sint k) + 16"
    using 1(2) sint16_bounds(1) [of k] by (simp add: to_size_nonneg nat_add_distrib)
  show ?case
  proof (cases "nat (sint k) + 16 \<le> m")
    case True
    have add: "sint (k + 16) = sint k + 16" using sint16_add [of k 16] 1(2,3) True by simp
    from filled_block [OF 1(4) True] 1(3) obtain sel' where sel': "fold_res
        (\<lambda>j sel. set_index sel (nat (sint k) + j) (nat (sint k) + j)) [0..<16] sel = Inr sel'"
      "filled m (nat (sint k) + 16) sel'" by auto
    have "nat (sint (k + 16)) = nat (sint k) + 16" using add 1(2) by (simp add: nat_add_distrib)
    with 1(1) [of sel'] True ts add 1(2,3) sel' obtain k' sel'' where "fill16 m (k + 16) sel' = Inr (k', sel'')"
      "0 \<le> sint k'" "filled m (nat (sint k')) sel''" by auto
    then show ?thesis using 1(2) True ts sel'(1) by (simp add: fill16.simps [of m k sel])
  next
    case False
    then show ?thesis using 1(2,4) ts by (simp add: fill16.simps [of m k sel])
  qed
qed

lemma fill_rest_ok:
  assumes "0 \<le> sint k" "m < 32768" "filled m (nat (sint k)) sel"
  shows "\<exists>sel'. fill_rest m k sel = Inr sel' \<and> filled m m sel'"
  using assms
proof (induction m k sel rule: fill_rest.induct)
  case (1 m k sel)
  have ts: "to_size (sint k) = nat (sint k)" using 1(2) sint16_bounds(1) [of k] by (simp add: to_size_nonneg)
  have le: "nat (sint k) \<le> m" using 1(4) by (auto simp: filled_def)
  show ?case
  proof (cases "nat (sint k) < m")
    case True
    have add: "sint (k + 1) = sint k + 1" using sint16_add [of k 1] 1(2,3) True by simp
    from filled_set_index [OF 1(4) True] 1(3) obtain sel' where sel':
      "set_index sel (nat (sint k)) (nat (sint k)) = Inr sel'" "filled m (Suc (nat (sint k))) sel'" by auto
    have "nat (sint (k + 1)) = Suc (nat (sint k))" using add 1(2) by simp
    with 1(1) [of sel'] True ts add 1(2,3) sel' show ?thesis by (simp add: fill_rest.simps [of m k sel])
  next
    case False
    then have "nat (sint k) = m" using le by simp
    then show ?thesis using 1(4) ts by (simp add: fill_rest.simps [of m k sel])
  qed
qed

lemma filled_all: "filled m m sel \<Longrightarrow> sel_inv (m, sel) \<and> sel_rows (m, sel) = [0..<m]"
proof -
  assume "filled m m sel"
  then obtain b where b: "sel = SelBuf b" "length b = m" "\<forall>i<m. b ! i = Some i" by (auto simp: filled_def)
  then have "b = map Some [0..<m]" by (intro nth_equalityI) auto
  with b show ?thesis by (auto simp: comp_def)
qed

lemma mask_rows_eqI:
  assumes "\<And>r. mask_bit ms r \<longleftrightarrow> r < n \<and> P r"
  shows "mask_rows ms = filter P [0..<n]"
proof -
  let ?L = "64 * length ms"
  have "r < n \<Longrightarrow> P r \<Longrightarrow> r < ?L" for r using mask_bit_bound [of ms r] assms by blast
  then have "set (mask_rows ms) = set (filter P [0..<n])"
    using assms mask_bit_bound [of ms] by (auto simp: mask_rows_def)
  then show ?thesis
    by (intro sorted_distinct_set_unique) (simp_all add: mask_rows_def sorted_wrt_filter)
qed

lemma bit_minus_one_u64: "bit (- 1 :: u64) j \<longleftrightarrow> j < 64"
  by (simp add: bit_minus_1_iff)

lemma bit_bit_at_minus_one: "r < 64 \<Longrightarrow> bit (bit_at r - 1) j \<longleftrightarrow> j < r"
proof -
  assume "r < 64"
  moreover have "bit_at r - 1 = mask r" by (simp add: mask_eq_decr_exp bit_at_def)
  ultimately show ?thesis by (auto simp: bit_mask_iff)
qed

lemma less_iff_div_mod:
  assumes "s \<le> 64"
  shows "r div 64 < Suc q \<and> (r div 64 = q \<longrightarrow> r mod 64 < s) \<longleftrightarrow> r < 64 * q + s"
proof -
  have "a < Suc q \<and> (a = q \<longrightarrow> t < s) \<longleftrightarrow> 64 * a + t < 64 * q + s" if "t < 64" for a t
    using that assms by (cases "a = q") auto
  from this [of "r mod 64" "r div 64"] show ?thesis by simp
qed

lemma select_all_masks:
  "mask_rows (let ms = replicate ((m + 63) div 64) (- 1)
     in if m mod 64 \<noteq> 0 then ms[(m + 63) div 64 - 1 := bit_at (m mod 64) - 1] else ms) = [0..<m]"
  (is "mask_rows ?ms = _")
proof -
  let ?c = "(m + 63) div 64"
  have len: "length ?ms = ?c" by (simp add: Let_def)
  have "mask_bit ?ms r \<longleftrightarrow> r < m \<and> True" for r
  proof (cases "m mod 64 = 0")
    case True
    then obtain c where c: "m = 64 * c" by auto
    then have "?c = c" by simp
    moreover have "r div 64 < c \<longleftrightarrow> r < m" by (simp add: c div_less_iff_less_mult mult.commute)
    ultimately show ?thesis using True by (auto simp: mask_bit_def bit_minus_one_u64)
  next
    case False
    define q where "q = m div 64"
    have m: "m = 64 * q + m mod 64" by (simp add: q_def)
    have c: "?c = Suc q"
    proof -
      obtain s where "m = 64 * q + s" "0 < s" "s < 64" using m False by (metis mod_less_divisor neq0_conv zero_less_numeral)
      then show ?thesis by (intro div_nat_eqI) simp_all
    qed
    define ms where "ms = ?ms"
    have nth: "ms ! i = (if i = q then bit_at (m mod 64) - 1 else - 1)" if "i < Suc q" for i
      using False that by (simp add: ms_def Let_def c nth_list_update del: replicate_Suc)
    have "length ms = Suc q" using len c by (simp only: ms_def)
    then have "mask_bit ms r \<longleftrightarrow> r div 64 < Suc q \<and> (r div 64 = q \<longrightarrow> r mod 64 < m mod 64)"
      using nth [of "r div 64"] by (auto simp: mask_bit_def bit_minus_one_u64 bit_bit_at_minus_one)
    also have "\<dots> \<longleftrightarrow> r < m" using less_iff_div_mod [of "m mod 64" r q] m by simp
    finally show ?thesis by (simp only: ms_def simp_thms)
  qed
  from mask_rows_eqI [of ?ms m "\<lambda>_. True", OF this] show ?thesis by simp
qed

lemma select_all_ok:
  assumes "m < 32768"
  shows "\<exists>r. select_all m (reset_selection m msel) = Inr r \<and> selects m (\<lambda>_. True) r
    \<and> length (bitmask (snd r)) = (m + 63) div 64"
proof -
  have "filled m (nat (sint (0 :: 16 word))) (Initialize_count m)"
    by (simp add: filled_def Initialize_count_def)
  from fill16_ok [OF _ assms this] obtain k sel where f16: "fill16 m 0 (Initialize_count m) = Inr (k, sel)"
    "0 \<le> sint k" "filled m (nat (sint k)) sel" by auto
  from fill_rest_ok [OF f16(2) assms f16(3)] obtain sel' where rest: "fill_rest m k sel = Inr sel'" "filled m m sel'"
    by auto
  have "int32_to_idx m = m" using assms by (intro int32_to_idx_small) simp
  then show ?thesis
    using f16(1) rest(1) filled_all [OF rest(2)] select_all_masks [of m]
    by (simp add: select_all_def reset_selection_def SetCount_def selects_def Let_def)
qed

section \<open>The four routines\<close>

text \<open>
  The rows of the 64-row blocks are decided on the base data when \<open>need_check_base\<close> is set; the
  others only by their codes.
\<close>

definition base_checked :: "('b::len word, 8 word) ColumnSketch \<Rightarrow> nat \<Rightarrow> bool" where
  "base_checked cs i \<longleftrightarrow> need_check_base cs \<or> 64 * (length (base_data cs) div 64) \<le> i"

lemma in_block: "b < n div 64 \<Longrightarrow> j < 64 \<Longrightarrow> 64 * b + j < n \<and> 64 * b + j < 64 * (n div 64)" for n :: nat
proof -
  assume "b < n div 64" "j < 64"
  then have "64 * b + j < 64 * (n div 64)" by linarith
  moreover have "64 * (n div 64) \<le> n" by simp
  ultimately show ?thesis by linarith
qed

text \<open>The scan of a sketch, given what a block and the tail decide about one value.\<close>

lemma sketch_scan:
  fixes cs :: "('b::len word, 8 word) ColumnSketch"
  assumes inv: "sketch_inv cs" and n: "length (base_data cs) < 2 ^ 31"
    and blk: "\<And>b. b < length (base_data cs) div 64 \<Longrightarrow>
      block_mask (64 * b) = mask64 (\<lambda>j. B (base_data cs ! (64 * b + j)))"
    and tail: "\<And>i. i < length (base_data cs) \<Longrightarrow> tail_test i = T (base_data cs ! i)"
  shows "\<exists>r. avx512_scan block_mask tail_test (length (sketch cs)) (reset_selection (length (base_data cs)) msel) = Inr r
    \<and> selects (length (base_data cs)) (\<lambda>i. if i < 64 * (length (base_data cs) div 64)
        then B (base_data cs ! i) else T (base_data cs ! i)) r
    \<and> length (bitmask (snd r)) = length (base_data cs) div 64 + 1"
  unfolding sketch_inv_length [OF inv]
proof (rule avx512_scan_correct)
  fix b
  assume b: "b < length (base_data cs) div 64"
  have "mask64 (\<lambda>j. B (base_data cs ! (64 * b + j))) = mask64 (\<lambda>j. if 64 * b + j < 64 * (length (base_data cs) div 64)
      then B (base_data cs ! (64 * b + j)) else T (base_data cs ! (64 * b + j)))"
    using in_block [OF b] by (simp add: mask64_eq_iff)
  with blk [OF b] show "block_mask (64 * b) = mask64 (\<lambda>j. if 64 * b + j < 64 * (length (base_data cs) div 64)
      then B (base_data cs ! (64 * b + j)) else T (base_data cs ! (64 * b + j)))" by simp
qed (use tail n in simp_all)

lemma checked_mask_rows:
  fixes cs :: "('b::len word, 8 word) ColumnSketch"
  assumes inv: "sketch_inv cs" and n: "length (base_data cs) < 2 ^ 31" and b: "b < length (base_data cs) div 64"
  shows "mask64 (\<lambda>j. A (sketch cs ! (64 * b + j))) OR
      refine_eq_mask (\<lambda>j. rej (base_data cs ! ((64 * b + j) mod 2 ^ 32)))
        (mask64 (\<lambda>j. sketch cs ! (64 * b + j) = c)) (mask64 (\<lambda>j. sketch cs ! (64 * b + j) = c)) =
    mask64 (\<lambda>j. A (code_of cs (base_data cs ! (64 * b + j)))
      \<or> code_of cs (base_data cs ! (64 * b + j)) = c \<and> \<not> rej (base_data cs ! (64 * b + j)))"
proof -
  have "(64 * b + j) mod 2 ^ 32 = 64 * b + j" if "j < 64" for j
    using in_block [OF b that] n by simp
  then show ?thesis
    unfolding checked_block_mask using in_block [OF b]
    by (auto simp: mask64_eq_iff sketch_inv_nth [OF inv])
qed

lemma code_mask_rows:
  fixes cs :: "('b::len word, 8 word) ColumnSketch"
  assumes inv: "sketch_inv cs" and b: "b < length (base_data cs) div 64"
  shows "mask64 (\<lambda>j. A (sketch cs ! (64 * b + j))) = mask64 (\<lambda>j. A (code_of cs (base_data cs ! (64 * b + j))))"
  using in_block [OF b] by (auto simp: mask64_eq_iff sketch_inv_nth [OF inv])

text \<open>What each routine selects, for every sketch and constant that passes its early exit.\<close>

lemma separates_above_max: "sketch_inv cs \<Longrightarrow> codable cs v \<Longrightarrow> max_data cs < x \<Longrightarrow> separates cs v x"
  unfolding separates_def codable_def sketch_inv_def by (metis last_in_set)

lemma not_separates_below_min:
  "sketch_inv cs \<Longrightarrow> x \<le> min_data cs \<Longrightarrow> \<not> separates cs v x"
  unfolding separates_def sketch_inv_def by (metis linorder_not_le order_trans subsetD)

lemma sketch_eval:
  fixes cs :: "('b::len word, 8 word) ColumnSketch"
  assumes inv: "sketch_inv cs" and n: "length (base_data cs) < 32768"
    and Q: "\<And>i v d. i < length (base_data cs) \<Longrightarrow> v = base_data cs ! i \<Longrightarrow> d = code_of cs v \<Longrightarrow> codable cs v \<Longrightarrow>
      Q i \<longleftrightarrow> (if i < 64 * (length (base_data cs) div 64)
             then if need_check_base cs then A d \<or> d = c \<and> \<not> rej v else N d
             else T d v)"
  shows "\<exists>r. avx512_scan
      (\<lambda>i. if \<not> need_check_base cs then mask64 (\<lambda>j. N (sketch cs ! (i + j)))
        else mask64 (\<lambda>j. A (sketch cs ! (i + j))) OR
          refine_eq_mask (\<lambda>j. rej (base_data cs ! ((i + j) mod 2 ^ 32)))
            (mask64 (\<lambda>j. sketch cs ! (i + j) = c)) (mask64 (\<lambda>j. sketch cs ! (i + j) = c)))
      (\<lambda>i. T (sketch cs ! i) (base_data cs ! i)) (length (sketch cs))
      (reset_selection (length (base_data cs)) msel) = Inr r
    \<and> selects (length (base_data cs)) Q r \<and> length (bitmask (snd r)) = length (base_data cs) div 64 + 1"
proof -
  let ?n = "length (base_data cs)"
  let ?B = "\<lambda>v. if need_check_base cs then A (code_of cs v) \<or> code_of cs v = c \<and> \<not> rej v else N (code_of cs v)"
  let ?T = "\<lambda>v. T (code_of cs v) v"
  have n31: "?n < 2 ^ 31" using n by simp
  have sel: "selects ?n (\<lambda>i. if i < 64 * (?n div 64) then ?B (base_data cs ! i) else ?T (base_data cs ! i)) r = selects ?n Q r" for r
    by (rule selects_cong) (simp add: Q sketch_inv_nth_codable [OF inv])
  show ?thesis
    unfolding sel [symmetric]
  proof (rule sketch_scan [OF inv n31])
    fix b assume b: "b < ?n div 64"
    show "(if \<not> need_check_base cs then mask64 (\<lambda>j. N (sketch cs ! (64 * b + j)))
        else mask64 (\<lambda>j. A (sketch cs ! (64 * b + j))) OR
          refine_eq_mask (\<lambda>j. rej (base_data cs ! ((64 * b + j) mod 2 ^ 32)))
            (mask64 (\<lambda>j. sketch cs ! (64 * b + j) = c)) (mask64 (\<lambda>j. sketch cs ! (64 * b + j) = c))) =
        mask64 (\<lambda>j. ?B (base_data cs ! (64 * b + j)))"
      using checked_mask_rows [OF inv n31 b, of A rej c] code_mask_rows [OF inv b, of N]
      by (cases "need_check_base cs") (simp_all only: if_True if_False not_True_eq_False not_False_eq_True)
  qed (simp add: sketch_inv_nth [OF inv])
qed

lemma code_le_iff_separates:
  "sketch_inv cs \<Longrightarrow> codable cs v \<Longrightarrow> codable cs w \<Longrightarrow> code_of cs v \<le> code_of cs w \<longleftrightarrow> \<not> separates cs w v"
  by (simp add: not_less flip: code_less_iff_separates)

lemma not_base_checked: "i < length (base_data cs) \<Longrightarrow>
    base_checked cs i \<longleftrightarrow> need_check_base cs \<or> \<not> i < 64 * (length (base_data cs) div 64)"
  by (auto simp: base_checked_def)

lemma sketch_inv_endpoints: "sketch_inv cs \<Longrightarrow> endpoints cs \<noteq> []"
  by (simp add: sketch_inv_def)

lemma select_all_rows:
  assumes "m < 32768" "\<And>i. i < m \<Longrightarrow> Q i"
  shows "\<exists>r. select_all m (reset_selection m msel) = Inr r \<and> selects m Q r
    \<and> length (bitmask (snd r)) = (m + 63) div 64"
proof -
  have "selects m (\<lambda>_. True) r = selects m Q r" for r using assms(2) by (intro selects_cong) simp
  then show ?thesis using select_all_ok [OF assms(1), of msel] by simp
qed

lemma mask_count: "(n + 64) div 64 = n div 64 + 1" for n :: nat
  by simp

lemma evaluate_less_than_AVX512_rows:
  fixes cs :: "('b::len word, 8 word) ColumnSketch"
  assumes inv: "sketch_inv cs" and n: "length (base_data cs) < 32768" and x: "min_data cs < x"
  shows "\<exists>r. evaluate_less_than_AVX512 cs x msel = Inr r
    \<and> selects (length (base_data cs)) (\<lambda>i. if base_checked cs i then base_data cs ! i < x
        else separates cs (base_data cs ! i) x) r
    \<and> length (bitmask (snd r)) = (length (base_data cs) + (if x \<le> max_data cs then 64 else 63)) div 64"
proof (cases "x \<le> max_data cs")
  case True
  then have dom: "codable cs x" by (simp add: codable_def)
  have guards: "\<not> (endpoints cs \<noteq> [] \<and> x \<le> min_data cs)" "\<not> (endpoints cs \<noteq> [] \<and> max_data cs < x)"
    using x True by (simp_all add: not_le not_less)
  let ?c = "code_of cs x"
  have "(if base_checked cs i then v < x else separates cs v x) \<longleftrightarrow>
      (if i < 64 * (length (base_data cs) div 64)
       then if need_check_base cs then d < ?c \<or> d = ?c \<and> \<not> x \<le> v else d < ?c
       else d < ?c \<or> d = ?c \<and> v < x)"
    if "i < length (base_data cs)" "d = code_of cs v" "codable cs v" for i v d
    using that sketch_code.less_by_code [OF inv _ dom] code_less_iff_separates [OF inv _ dom]
    by (auto simp: not_base_checked not_le)
  from sketch_eval [OF inv n, of "\<lambda>i. if base_checked cs i then base_data cs ! i < x else separates cs (base_data cs ! i) x"
      "\<lambda>d. d < ?c" ?c "\<lambda>v. x \<le> v" "\<lambda>d. d < ?c" "\<lambda>d v. d < ?c \<or> d = ?c \<and> v < x" msel] this
  show ?thesis
    unfolding evaluate_less_than_AVX512_def Let_def if_not_P [OF guards(1)] if_not_P [OF guards(2)] if_P [OF True] mask_count by blast
next
  case False
  then have guards: "\<not> (endpoints cs \<noteq> [] \<and> x \<le> min_data cs)" "endpoints cs \<noteq> [] \<and> max_data cs < x"
    using x sketch_inv_endpoints [OF inv] by (simp_all add: not_le)
  have "base_data cs ! i < x \<and> separates cs (base_data cs ! i) x" if "i < length (base_data cs)" for i
    using guards(2) separates_above_max [OF inv sketch_inv_nth_codable [OF inv that]] separates_less by blast
  then have "if base_checked cs i then base_data cs ! i < x else separates cs (base_data cs ! i) x"
    if "i < length (base_data cs)" for i using that by simp
  from select_all_rows [OF n,
      of "\<lambda>i. if base_checked cs i then base_data cs ! i < x else separates cs (base_data cs ! i) x" msel] this
  show ?thesis
    unfolding evaluate_less_than_AVX512_def Let_def if_not_P [OF guards(1)] if_P [OF guards(2)] if_not_P [OF False] by blast
qed

lemma evaluate_greater_than_AVX512_rows:
  fixes cs :: "('b::len word, 8 word) ColumnSketch"
  assumes inv: "sketch_inv cs" and n: "length (base_data cs) < 32768" and x: "x < max_data cs"
  shows "\<exists>r. evaluate_greater_than_AVX512 cs x msel = Inr r \<and> selects (length (base_data cs)) (\<lambda>i. if base_checked cs i \<or> x < min_data cs then x < base_data cs ! i else separates cs x (base_data cs ! i)) r
    \<and> length (bitmask (snd r)) = (length (base_data cs) + (if x < min_data cs then 63 else 64)) div 64"
proof (cases "x < min_data cs")
  case False
  then have dom: "codable cs x" using x by (auto simp: codable_def)
  have guards: "\<not> (endpoints cs \<noteq> [] \<and> max_data cs \<le> x)" "\<not> (endpoints cs \<noteq> [] \<and> x < min_data cs)"
    using x False by (auto simp: not_le not_less)
  let ?c = "code_of cs x"
  have "(if base_checked cs i \<or> x < min_data cs then x < v else separates cs x (v)) \<longleftrightarrow>
      (if i < 64 * (length (base_data cs) div 64)
       then if need_check_base cs then ?c < d \<or> d = ?c \<and> \<not> v \<le> x else ?c < d
       else ?c < d \<or> d = ?c \<and> x < v)"
    if "i < length (base_data cs)" "d = code_of cs v" "codable cs v" for i v d
    using that False sketch_code.greater_by_code [OF inv _ dom] code_less_iff_separates [OF inv dom]
    by (auto simp: not_base_checked not_le not_less)
  from sketch_eval [OF inv n, of "\<lambda>i. if base_checked cs i \<or> x < min_data cs then x < base_data cs ! i else separates cs x (base_data cs ! i)"
      "\<lambda>d. ?c < d" ?c "\<lambda>v. v \<le> x" "\<lambda>d. ?c < d" "\<lambda>d v. ?c < d \<or> d = ?c \<and> x < v" msel] this
  show ?thesis
    unfolding evaluate_greater_than_AVX512_def Let_def if_not_P [OF guards(1)] if_not_P [OF guards(2)] if_not_P [OF False] mask_count by blast
next
  case True
  then have guards: "\<not> (endpoints cs \<noteq> [] \<and> max_data cs \<le> x)" "endpoints cs \<noteq> [] \<and> x < min_data cs"
    using x sketch_inv_endpoints [OF inv] by (auto simp: not_le)
  have "if base_checked cs i \<or> x < min_data cs then x < base_data cs ! i else separates cs x (base_data cs ! i)" if "i < length (base_data cs)" for i
    using inv True nth_mem [OF that] unfolding sketch_inv_def by (metis order.strict_trans2)
  from select_all_rows [OF n,
      of "\<lambda>i. if base_checked cs i \<or> x < min_data cs then x < base_data cs ! i else separates cs x (base_data cs ! i)" msel] this
  show ?thesis
    unfolding evaluate_greater_than_AVX512_def Let_def if_not_P [OF guards(1)] if_P [OF guards(2)] if_P [OF True] by blast
qed

lemma evaluate_lessthan_orequal_avx512_rows:
  fixes cs :: "('b::len word, 8 word) ColumnSketch"
  assumes inv: "sketch_inv cs" and n: "length (base_data cs) < 32768" and x: "min_data cs \<le> x"
  shows "\<exists>r. evaluate_lessthan_orequal_avx512 cs x msel = Inr r \<and> selects (length (base_data cs)) (\<lambda>i. if need_check_base cs \<and> i < 64 * (length (base_data cs) div 64) then base_data cs ! i \<le> x else \<not> separates cs x (base_data cs ! i)) r"
proof (cases "max_data cs < x \<or> \<not> need_check_base cs \<and> max_data cs \<le> x")
  case False
  then have dom: "codable cs x" using x by (auto simp: codable_def)
  have guards: "\<not> (endpoints cs \<noteq> [] \<and> x < min_data cs)" "\<not> (endpoints cs \<noteq> [] \<and> (max_data cs < x \<or> \<not> need_check_base cs \<and> max_data cs \<le> x))"
    using x False by (auto simp: not_le not_less)
  let ?c = "code_of cs x"
  have "(if need_check_base cs \<and> i < 64 * (length (base_data cs) div 64) then v \<le> x else \<not> separates cs x (v)) \<longleftrightarrow>
      (if i < 64 * (length (base_data cs) div 64)
       then if need_check_base cs then d < ?c \<or> d = ?c \<and> \<not> x < v else d \<le> ?c
       else d \<le> ?c \<or> d = ?c \<and> v \<le> x)"
    if "i < length (base_data cs)" "d = code_of cs v" "codable cs v" for i v d
    using that False sketch_code.less_eq_by_code [OF inv _ dom] separates_less [of cs x v] code_le_iff_separates [OF inv _ dom]
    by (auto simp: not_base_checked not_le not_less)
  from sketch_eval [OF inv n, of "\<lambda>i. if need_check_base cs \<and> i < 64 * (length (base_data cs) div 64) then base_data cs ! i \<le> x else \<not> separates cs x (base_data cs ! i)"
      "\<lambda>d. d < ?c" ?c "\<lambda>v. x < v" "\<lambda>d. d \<le> ?c" "\<lambda>d v. d \<le> ?c \<or> d = ?c \<and> v \<le> x" msel] this
  show ?thesis
    unfolding evaluate_lessthan_orequal_avx512_def Let_def if_not_P [OF guards(1)] if_not_P [OF guards(2)] by blast
next
  case True
  then have guards: "\<not> (endpoints cs \<noteq> [] \<and> x < min_data cs)" "endpoints cs \<noteq> [] \<and> (max_data cs < x \<or> \<not> need_check_base cs \<and> max_data cs \<le> x)"
    using x sketch_inv_endpoints [OF inv] by (auto simp: not_le)
  have "if need_check_base cs \<and> i < 64 * (length (base_data cs) div 64) then base_data cs ! i \<le> x else \<not> separates cs x (base_data cs ! i)" if "i < length (base_data cs)" for i
    using inv True sketch_inv_nth_codable [OF inv that] separates_less [of cs x "base_data cs ! i"]
    by (auto simp: codable_def)
  from select_all_rows [OF n,
      of "\<lambda>i. if need_check_base cs \<and> i < 64 * (length (base_data cs) div 64) then base_data cs ! i \<le> x else \<not> separates cs x (base_data cs ! i)" msel] this
  show ?thesis
    unfolding evaluate_lessthan_orequal_avx512_def Let_def if_not_P [OF guards(1)] if_P [OF guards(2)] by blast
qed

lemma evaluate_greaterthan_orequal_avx512_rows:
  fixes cs :: "('b::len word, 8 word) ColumnSketch"
  assumes inv: "sketch_inv cs" and n: "length (base_data cs) < 32768" and x: "x \<le> max_data cs"
  shows "\<exists>r. evaluate_greaterthan_orequal_avx512 cs x msel = Inr r \<and> selects (length (base_data cs)) (\<lambda>i. if need_check_base cs \<and> i < 64 * (length (base_data cs) div 64) then x \<le> base_data cs ! i else \<not> separates cs (base_data cs ! i) x) r"
proof (cases "x < min_data cs \<or> \<not> need_check_base cs \<and> x \<le> min_data cs")
  case False
  then have dom: "codable cs x" using x by (auto simp: codable_def)
  have guards: "\<not> (endpoints cs \<noteq> [] \<and> max_data cs < x)" "\<not> (endpoints cs \<noteq> [] \<and> (x < min_data cs \<or> \<not> need_check_base cs \<and> x \<le> min_data cs))"
    using x False by (auto simp: not_le not_less)
  let ?c = "code_of cs x"
  have "(if need_check_base cs \<and> i < 64 * (length (base_data cs) div 64) then x \<le> v else \<not> separates cs (v) x) \<longleftrightarrow>
      (if i < 64 * (length (base_data cs) div 64)
       then if need_check_base cs then ?c < d \<or> d = ?c \<and> \<not> v < x else ?c \<le> d
       else ?c \<le> d \<or> d = ?c \<and> x \<le> v)"
    if "i < length (base_data cs)" "d = code_of cs v" "codable cs v" for i v d
    using that False sketch_code.greater_eq_by_code [OF inv _ dom] separates_less [of cs v x] code_le_iff_separates [OF inv dom]
    by (auto simp: not_base_checked not_le not_less)
  from sketch_eval [OF inv n, of "\<lambda>i. if need_check_base cs \<and> i < 64 * (length (base_data cs) div 64) then x \<le> base_data cs ! i else \<not> separates cs (base_data cs ! i) x"
      "\<lambda>d. ?c < d" ?c "\<lambda>v. v < x" "\<lambda>d. ?c \<le> d" "\<lambda>d v. ?c \<le> d \<or> d = ?c \<and> x \<le> v" msel] this
  show ?thesis
    unfolding evaluate_greaterthan_orequal_avx512_def Let_def if_not_P [OF guards(1)] if_not_P [OF guards(2)] by blast
next
  case True
  then have guards: "\<not> (endpoints cs \<noteq> [] \<and> max_data cs < x)" "endpoints cs \<noteq> [] \<and> (x < min_data cs \<or> \<not> need_check_base cs \<and> x \<le> min_data cs)"
    using x sketch_inv_endpoints [OF inv] by (auto simp: not_le)
  have "if need_check_base cs \<and> i < 64 * (length (base_data cs) div 64) then x \<le> base_data cs ! i else \<not> separates cs (base_data cs ! i) x" if "i < length (base_data cs)" for i
    using inv True nth_mem [OF that] not_separates_below_min [OF inv, of x "base_data cs ! i"]
    by (auto simp: sketch_inv_def intro: order_trans less_imp_le)
  from select_all_rows [OF n,
      of "\<lambda>i. if need_check_base cs \<and> i < 64 * (length (base_data cs) div 64) then x \<le> base_data cs ! i else \<not> separates cs (base_data cs ! i) x" msel] this
  show ?thesis
    unfolding evaluate_greaterthan_orequal_avx512_def Let_def if_not_P [OF guards(1)] if_P [OF guards(2)] by blast
qed

lemma need_check_many:
  fixes cs :: "('b::len word, 8 word) ColumnSketch"
  assumes "ColumnSketch_new data = Inr cs" "256 < card (set data)"
  shows "need_check_base cs"
proof -
  have "num_codes cs \<le> 256" using ColumnSketch_new_fields(1) [OF assms(1)] by simp
  then show ?thesis using ColumnSketch_new_fields(3) [OF assms(1)] assms(2) by simp
qed

lemma AVX512_none:
  assumes "sketch_inv cs"
  shows "\<not> min_data cs < x \<Longrightarrow> evaluate_less_than_AVX512 cs x msel = Inr (0, msel)"
    and "\<not> min_data cs \<le> x \<Longrightarrow> evaluate_lessthan_orequal_avx512 cs x msel = Inr (0, msel)"
    and "\<not> x < max_data cs \<Longrightarrow> evaluate_greater_than_AVX512 cs x msel = Inr (0, msel)"
    and "\<not> x \<le> max_data cs \<Longrightarrow> evaluate_greaterthan_orequal_avx512 cs x msel = Inr (0, msel)"
  using sketch_inv_endpoints [OF assms]
  by (simp_all add: evaluate_less_than_AVX512_def evaluate_lessthan_orequal_avx512_def
      evaluate_greater_than_AVX512_def evaluate_greaterthan_orequal_avx512_def not_less not_le)

section \<open>Properties\<close>

text \<open>
  C16: \<open>evaluate_less_than_AVX512\<close> on the sketch of a column, when the column has at most as many
  rows as there are codes or more distinct values than codes. If some value is below the
  constant, the count, the selection vector and the bitmask all hold exactly the rows below
  the constant, in increasing order, and no access is out of bounds; otherwise it returns 0.
\<close>

theorem less_than_AVX512_correct:
  fixes cs :: "('b::len word, 8 word) ColumnSketch"
  assumes new: "ColumnSketch_new data = Inr cs" and n: "length data < 32768"
    and codes: "length data \<le> 256 \<or> 256 < card (set data)"
  shows "if \<exists>v \<in> set data. v < x
    then \<exists>r. evaluate_less_than_AVX512 cs x msel = Inr r \<and> selects (length data) (\<lambda>i. data ! i < x) r
    else evaluate_less_than_AVX512 cs x msel = Inr (0, msel)"
proof -
  have inv: "sketch_inv cs" and base: "base_data cs = data" using ColumnSketch_new_Inr [OF new] by simp_all
  show ?thesis
  proof (cases "min_data cs < x")
    case True
    have row: "(if base_checked cs i then data ! i < x else separates cs (data ! i) x) \<longleftrightarrow> data ! i < x"
      if "i < length data" for i
    proof (cases "length data \<le> 256")
      case True
      then show ?thesis using ColumnSketch_new_exact [OF new] separates_exact [of cs "data ! i" x] that base by simp
    next
      case False
      then have "base_checked cs i" using codes need_check_many [OF new] by (simp add: base_checked_def)
      then show ?thesis by simp
    qed
    from evaluate_less_than_AVX512_rows [OF inv, of x msel] n True obtain r where
      "evaluate_less_than_AVX512 cs x msel = Inr r"
      "selects (length data) (\<lambda>i. if base_checked cs i then data ! i < x else separates cs (data ! i) x) r"
      unfolding base by blast
    then show ?thesis using True row ColumnSketch_new_fields(4) [OF new] selects_cong [of "length data", OF row]
      by auto
  next
    case False
    with ColumnSketch_new_fields(4) [OF new, of x] have "\<not> (\<exists>v \<in> set data. v < x)" by blast
    with AVX512_none(1) [OF inv False] show ?thesis by (simp only: if_False)
  qed
qed

theorem less_than_AVX512_correct_witness:
  "\<exists>cs :: (32 word, 8 word) ColumnSketch. ColumnSketch_new [30, 10, 20, 10] = Inr cs
     \<and> (\<exists>r. evaluate_less_than_AVX512 cs 20 (ManagedSelection_new 4 True) = Inr r
          \<and> fst r = 2 \<and> ms_rows (snd r) = [1, 3])"
proof -
  obtain cs :: "(32 word, 8 word) ColumnSketch" where cs: "ColumnSketch_new [30, 10, 20, 10] = Inr cs"
    using ColumnSketch_new_inv [of "[30, 10, 20, 10] :: 32 word list", where 'c = 8] by auto
  have "filter (\<lambda>i. [30, 10, 20, 10 :: 32 word] ! i < 20) [0..<4] = [1, 3]" by code_simp
  with less_than_AVX512_correct [OF cs, of 20 "ManagedSelection_new 4 True"] cs show ?thesis
    by (auto simp: selects_def simp del: upt_rec_numeral)
qed

text \<open>
  C38: the condition on the codes is needed. On a block-aligned column with fewer distinct values
  than codes, the base check is off but the quantiles can skip a value: here the smallest
  value of 512 rows is no endpoint, and \<open>evaluate_less_than_AVX512\<close> returns no row for a constant
  that is above it.
\<close>

theorem less_than_AVX512_loses_rows:
  "\<exists>cs :: (32 word, 8 word) ColumnSketch. ColumnSketch_new (1 # replicate 511 2) = Inr cs \<and> base_data cs ! 0 < 2
     \<and> (\<exists>r. evaluate_less_than_AVX512 cs 2 (ManagedSelection_new 512 True) = Inr r
          \<and> fst r = 0 \<and> ms_rows (snd r) = [])"
proof -
  let ?data = "1 # replicate 511 2 :: 32 word list"
  obtain cs :: "(32 word, 8 word) ColumnSketch" where new: "ColumnSketch_new ?data = Inr cs"
    using ColumnSketch_new_inv [of ?data, where 'c = 8] by auto
  have inv: "sketch_inv cs" and base: "base_data cs = ?data" using ColumnSketch_new_Inr [OF new] by simp_all
  have len: "length ?data = 512" by (simp only: list.size length_replicate)
  have srt: "sort ?data = ?data" by (rule sorted_sort_id) (simp add: sorted_replicate)
  have codes: "num_codes cs = 256" using ColumnSketch_new_fields(1) [OF new] by (simp only: len) simp
  have "?data ! k = 2" if "0 < k" "k < 512" for k
    using that by (cases k) (simp_all)
  moreover have "0 < min ((i + 1) * 512 div 256 - 1) (512 - 1 :: nat)" "min ((i + 1) * 512 div 256 - 1) (512 - 1 :: nat) < 512"
    for i :: nat by auto
  ultimately have ep: "set (endpoints cs) \<subseteq> {2}"
    using ColumnSketch_new_fields(2) [OF new] unfolding srt len codes by auto
  have "card (set ?data) \<le> 2" by (simp add: card_insert_if)
  then have nc: "\<not> need_check_base cs" using ColumnSketch_new_fields(3) [OF new] codes by simp
  have min: "min_data cs < 2" using ColumnSketch_new_fields(4) [OF new, of 2] by simp
  from evaluate_less_than_AVX512_rows [OF inv _ min, of "ManagedSelection_new 512 True"] obtain r where r:
    "evaluate_less_than_AVX512 cs 2 (ManagedSelection_new 512 True) = Inr r"
    "selects 512 (\<lambda>i. if base_checked cs i then ?data ! i < 2 else separates cs (?data ! i) 2) r"
    unfolding base len by auto
  have "selects 512 (\<lambda>_. False) r"
    using r(2) by (rule selects_cong [THEN iffD1, rotated])
      (use ep nc in \<open>auto simp: base_checked_def base separates_def\<close>)
  then show ?thesis using new r(1) base by (auto simp: selects_def)
qed

text \<open>
  C17: \<open>evaluate_greater_than_AVX512\<close> selects exactly the rows above the constant when the column
  has more distinct values than codes, or at most as many rows as codes and the constant is a
  value of the column or below all of them; if no value is above the constant it returns 0.
\<close>

theorem greater_than_AVX512_correct:
  fixes cs :: "('b::len word, 8 word) ColumnSketch"
  assumes new: "ColumnSketch_new data = Inr cs" and n: "length data < 32768"
    and codes: "256 < card (set data) \<or> length data \<le> 256 \<and> (x \<in> set data \<or> (\<forall>v \<in> set data. x < v))"
  shows "if \<exists>v \<in> set data. x < v
    then \<exists>r. evaluate_greater_than_AVX512 cs x msel = Inr r \<and> selects (length data) (\<lambda>i. x < data ! i) r
    else evaluate_greater_than_AVX512 cs x msel = Inr (0, msel)"
proof -
  have inv: "sketch_inv cs" and base: "base_data cs = data" using ColumnSketch_new_Inr [OF new] by simp_all
  show ?thesis
  proof (cases "x < max_data cs")
    case True
    have row: "(if base_checked cs i \<or> x < min_data cs then x < data ! i else separates cs x (data ! i)) \<longleftrightarrow> x < data ! i"
      if "i < length data" for i
    proof (cases "256 < card (set data)")
      case True
      then have "base_checked cs i" using need_check_many [OF new] by (simp add: base_checked_def)
      then show ?thesis by simp
    next
      case False
      then have "length data \<le> 256" and x: "x \<in> set data \<or> (\<forall>v \<in> set data. x < v)" using codes by auto
      then have ep: "endpoints cs = sort data" using ColumnSketch_new_exact [OF new] by simp
      from x show ?thesis
      proof
        assume "x \<in> set data"
        then show ?thesis using separates_endpoint [of cs x "data ! i"] by (simp add: is_endpoint_def ep)
      next
        assume "\<forall>v \<in> set data. x < v"
        then have "x < min_data cs" using inv by (simp add: sketch_inv_def base)
        then show ?thesis by simp
      qed
    qed
    from evaluate_greater_than_AVX512_rows [OF inv, of x msel] n True obtain r where
      "evaluate_greater_than_AVX512 cs x msel = Inr r"
      "selects (length data) (\<lambda>i. if base_checked cs i \<or> x < min_data cs then x < data ! i else separates cs x (data ! i)) r"
      unfolding base by blast
    then show ?thesis using True row ColumnSketch_new_fields(5) [OF new] selects_cong [of "length data", OF row]
      by auto
  next
    case False
    with ColumnSketch_new_fields(5) [OF new, of x] have "\<not> (\<exists>v \<in> set data. x < v)" by blast
    with AVX512_none(3) [OF inv False] show ?thesis by (simp only: if_False)
  qed
qed

theorem greater_than_AVX512_correct_witness:
  "\<exists>cs :: (32 word, 8 word) ColumnSketch. ColumnSketch_new [30, 10, 20, 10] = Inr cs
     \<and> (\<exists>r. evaluate_greater_than_AVX512 cs 10 (ManagedSelection_new 4 True) = Inr r
          \<and> fst r = 2 \<and> ms_rows (snd r) = [0, 2])"
proof -
  obtain cs :: "(32 word, 8 word) ColumnSketch" where cs: "ColumnSketch_new [30, 10, 20, 10] = Inr cs"
    using ColumnSketch_new_inv [of "[30, 10, 20, 10] :: 32 word list", where 'c = 8] by auto
  have "filter (\<lambda>i. 10 < [30, 10, 20, 10 :: 32 word] ! i) [0..<4] = [0, 2]" by code_simp
  with greater_than_AVX512_correct [OF cs, of 10 "ManagedSelection_new 4 True"] cs show ?thesis
    by (auto simp: selects_def simp del: upt_rec_numeral)
qed

text \<open>
  C40: the condition on the constant is needed. On a block of 64 rows with two distinct values,
  \<open>evaluate_greater_than_AVX512\<close> returns no row for a constant strictly between them, although
  the last row is above it: its code equals the code of the constant and the base check is off.
\<close>

theorem greater_than_AVX512_loses_rows:
  "\<exists>cs :: (32 word, 8 word) ColumnSketch. ColumnSketch_new (replicate 63 10 @ [20]) = Inr cs \<and> 15 < base_data cs ! 63
     \<and> (\<exists>r. evaluate_greater_than_AVX512 cs 15 (ManagedSelection_new 64 True) = Inr r
          \<and> fst r = 0 \<and> ms_rows (snd r) = [])"
proof -
  let ?data = "replicate 63 10 @ [20] :: 32 word list"
  obtain cs :: "(32 word, 8 word) ColumnSketch" where new: "ColumnSketch_new ?data = Inr cs"
    using ColumnSketch_new_inv [of ?data, where 'c = 8] by auto
  have inv: "sketch_inv cs" and base: "base_data cs = ?data" using ColumnSketch_new_Inr [OF new] by simp_all
  have len: "length ?data = 64" by simp
  have ep: "set (endpoints cs) \<subseteq> {10, 20}" and nc: "\<not> need_check_base cs"
    using ColumnSketch_new_exact [OF new] by auto
  have max: "15 < max_data cs" using ColumnSketch_new_fields(5) [OF new, of 15] by simp
  have min: "\<not> 15 < min_data cs" using ColumnSketch_new_fields(4) [OF new, of 15] by (simp add: not_less order_less_imp_le)
  from evaluate_greater_than_AVX512_rows [OF inv _ max, of "ManagedSelection_new 64 True"] obtain r where r:
    "evaluate_greater_than_AVX512 cs 15 (ManagedSelection_new 64 True) = Inr r"
    "selects 64 (\<lambda>i. if base_checked cs i \<or> 15 < min_data cs then 15 < ?data ! i else separates cs 15 (?data ! i)) r"
    unfolding base len by auto
  have "?data ! i = 10 \<or> ?data ! i = 20" if "i < 64" for i
    using nth_mem [of i ?data] that unfolding len by auto
  then have "\<not> separates cs 15 (?data ! i)" if "i < 64" for i
    using ep that by (fastforce simp: separates_def)
  then have "selects 64 (\<lambda>_. False) r"
    using r(2) nc min by (intro selects_cong [THEN iffD1, OF _ r(2)]) (auto simp: base_checked_def base)
  then show ?thesis using new r(1) base by (auto simp: selects_def nth_append)
qed

text \<open>
  The two inclusive routines select exactly the rows they should when the column has more
  distinct values than codes and a whole number of 64-row blocks; the tail rows are decided by
  their codes only.
\<close>

lemma orequal_avx512_correct:
  fixes cs :: "('b::len word, 8 word) ColumnSketch"
  assumes new: "ColumnSketch_new data = Inr cs" and n: "length data < 32768"
    and codes: "256 < card (set data)" "64 dvd length data"
  shows "(if \<exists>v \<in> set data. v \<le> x
      then \<exists>r. evaluate_lessthan_orequal_avx512 cs x msel = Inr r \<and> selects (length data) (\<lambda>i. data ! i \<le> x) r
      else evaluate_lessthan_orequal_avx512 cs x msel = Inr (0, msel))
    \<and> (if \<exists>v \<in> set data. x \<le> v
      then \<exists>r. evaluate_greaterthan_orequal_avx512 cs x msel = Inr r \<and> selects (length data) (\<lambda>i. x \<le> data ! i) r
      else evaluate_greaterthan_orequal_avx512 cs x msel = Inr (0, msel))"
proof -
  have inv: "sketch_inv cs" and base: "base_data cs = data" using ColumnSketch_new_Inr [OF new] by simp_all
  have nc: "need_check_base cs" using need_check_many [OF new codes(1)] .
  have full: "64 * (length data div 64) = length data" using codes(2) by simp
  have mm: "min_data cs \<le> x \<longleftrightarrow> (\<exists>v \<in> set data. v \<le> x)" "x \<le> max_data cs \<longleftrightarrow> (\<exists>v \<in> set data. x \<le> v)"
    using inv by (auto simp: sketch_inv_def base intro: order_trans)
  have le: "selects (length data) (\<lambda>i. if need_check_base cs \<and> i < 64 * (length data div 64) then data ! i \<le> x
      else \<not> separates cs x (data ! i)) r = selects (length data) (\<lambda>i. data ! i \<le> x) r" for r
    by (rule selects_cong) (simp add: nc full)
  have ge: "selects (length data) (\<lambda>i. if need_check_base cs \<and> i < 64 * (length data div 64) then x \<le> data ! i
      else \<not> separates cs (data ! i) x) r = selects (length data) (\<lambda>i. x \<le> data ! i) r" for r
    by (rule selects_cong) (simp add: nc full)
  show ?thesis
    using evaluate_lessthan_orequal_avx512_rows [OF inv, of x msel, unfolded base le]
      evaluate_greaterthan_orequal_avx512_rows [OF inv, of x msel, unfolded base ge]
      AVX512_none(2,4) [OF inv, of x msel] n
    unfolding mm by (simp only: if_True if_False split: if_split) blast
qed

text \<open>
  Outside blocks the inclusive routine over-selects: for the column 10, 12 and the constant
  11, \<open>evaluate_lessthan_orequal_avx512\<close> returns both rows, because the tail takes every row
  whose code is at most the code of the constant.
\<close>

lemma lessthan_orequal_avx512_false_positive:
  "\<exists>cs :: (32 word, 8 word) ColumnSketch. ColumnSketch_new [10, 12] = Inr cs \<and> \<not> base_data cs ! 1 \<le> 11
     \<and> (\<exists>r. evaluate_lessthan_orequal_avx512 cs 11 (ManagedSelection_new 2 True) = Inr r
          \<and> fst r = 2 \<and> ms_rows (snd r) = [0, 1])"
proof -
  let ?data = "[10, 12] :: 32 word list"
  obtain cs :: "(32 word, 8 word) ColumnSketch" where new: "ColumnSketch_new ?data = Inr cs"
    using ColumnSketch_new_inv [of ?data, where 'c = 8] by auto
  have inv: "sketch_inv cs" and base: "base_data cs = ?data" using ColumnSketch_new_Inr [OF new] by simp_all
  have ep: "endpoints cs = [10, 12]" and nc: "\<not> need_check_base cs" using ColumnSketch_new_exact [OF new] by auto
  have min: "min_data cs \<le> 11" using ColumnSketch_new_fields(4) [OF new, of 11] by simp
  have "selects 2 (\<lambda>i. if need_check_base cs \<and> i < 64 * (2 div 64) then ?data ! i \<le> 11 else \<not> separates cs 11 (?data ! i)) r
      = selects 2 (\<lambda>_. True) r" for r
    by (rule selects_cong) (auto simp: nc separates_def ep less_2_cases_iff)
  with evaluate_lessthan_orequal_avx512_rows [OF inv _ min, of "ManagedSelection_new 2 True"]
  obtain r where "evaluate_lessthan_orequal_avx512 cs 11 (ManagedSelection_new 2 True) = Inr r" "selects 2 (\<lambda>_. True) r"
    by (auto simp: base numeral_2_eq_2)
  moreover have "[0..<2] = [0, 1 :: nat]" by (simp add: upt_rec)
  ultimately show ?thesis using new base by (auto simp: selects_def)
qed

text \<open>
  The bitmask and the selection vector carry the same information: after an evaluation whose
  result satisfies the contract, \<open>BitmaskToSelection\<close> on a selection of at least that size
  rebuilds the same rows and the same count.
\<close>

lemma BitmaskToSelection_after_evaluation:
  assumes "selects n P (cnt, m)" "cnt \<le> ms_size m" "64 * length (bitmask m) \<le> 2 ^ 32"
  shows "\<exists>m'. BitmaskToSelection m = Inr m' \<and> ms_rows m' = ms_rows m \<and> ms_count m' = ms_count m
    \<and> bitmask m' = bitmask m"
proof -
  have "length (mask_rows (bitmask m)) \<le> ms_size m" using assms(1,2) by (simp add: selects_def)
  from BitmaskToSelection_ok [OF assms(3) this] show ?thesis using assms(1) by (auto simp: selects_def)
qed

end
