(* ===== verification/Logical_Types.thy ===== *)
theory Logical_Types
  imports Prelude
begin

unbundle bit_operations_syntax

text \<open>
  Types, values and their comparison: \<^verbatim>\<open>src/src/include/duckdb/common/types.hpp\<close>,
  \<^verbatim>\<open>src/src/common/types.cpp\<close>, \<^verbatim>\<open>src/src/common/types/value.cpp\<close>,
  \<^verbatim>\<open>src/src/include/duckdb/common/operator/comparison_operators.hpp\<close> and
  \<^verbatim>\<open>src/src/common/vector_operations/comparison_operators.cpp\<close>.

  A numeric value is the 128-bit content of the C++ union; a template instance for a physical
  type reads the low bits of it (\<open>num_value\<close>). The order of the comparison operators is a
  total preorder on every numeric type, the floating-point types with their NaNs included;
  the locale \<open>total_comparison\<close> states the laws the statistics rely on.
\<close>

section \<open>Types\<close>

datatype LogicalTypeId =
    INVALID | SQLNULL | UNKNOWN | ANY | USER | BOOLEAN | TINYINT | SMALLINT | INTEGER | BIGINT
  | DATE | TIME | TIMESTAMP_SEC | TIMESTAMP_MS | TIMESTAMP | TIMESTAMP_NS | DECIMAL | FLOAT | DOUBLE
  | CHAR | VARCHAR | BLOB | INTERVAL | UTINYINT | USMALLINT | UINTEGER | UBIGINT | TIMESTAMP_TZ
  | TIME_TZ | BIT | STRING_LITERAL | INTEGER_LITERAL | UHUGEINT | HUGEINT | POINTER | VALIDITY | UUID
  | STRUCT | LIST | MAP | TABLE | ENUM | AGGREGATE_STATE | LAMBDA | UNION | ARRAY

datatype PhysicalType =
    BOOL | UINT8 | INT8 | UINT16 | INT16 | UINT32 | INT32 | UINT64 | INT64 | FLOAT | DOUBLE
  | INTERVAL | LIST | STRUCT | ARRAY | VARCHAR | UINT128 | INT128 | UNKNOWN | BIT | INVALID

datatype LogicalType =
  LogicalType (type_id: LogicalTypeId) (type_info: "ExtraTypeInfo option")
and ExtraTypeInfo =
    DecimalTypeInfo nat nat
  | ListTypeInfo LogicalType
  | StructTypeInfo "(string \<times> LogicalType) list"
  | EnumTypeInfo nat
  | ArrayTypeInfo LogicalType nat

text \<open>\<open>EnumTypeInfo::DictType\<close>.\<close>

definition DictType :: "nat \<Rightarrow> exc + PhysicalType" where
  "DictType sz =
     (if sz \<le> 255 then Inr PhysicalType.UINT8
      else if sz \<le> 65535 then Inr PhysicalType.UINT16
      else if sz \<le> 4294967295 then Inr PhysicalType.UINT32
      else Inl InternalException)"

text \<open>\<open>LogicalType::GetInternalType\<close> on a 64-bit platform.\<close>

fun GetInternalType :: "LogicalType \<Rightarrow> exc + PhysicalType" where
  "GetInternalType (LogicalType tid info) =
     (case tid of
        LogicalTypeId.BOOLEAN \<Rightarrow> Inr PhysicalType.BOOL
      | LogicalTypeId.TINYINT \<Rightarrow> Inr PhysicalType.INT8
      | LogicalTypeId.UTINYINT \<Rightarrow> Inr PhysicalType.UINT8
      | LogicalTypeId.SMALLINT \<Rightarrow> Inr PhysicalType.INT16
      | LogicalTypeId.USMALLINT \<Rightarrow> Inr PhysicalType.UINT16
      | LogicalTypeId.SQLNULL \<Rightarrow> Inr PhysicalType.INT32
      | LogicalTypeId.DATE \<Rightarrow> Inr PhysicalType.INT32
      | LogicalTypeId.INTEGER \<Rightarrow> Inr PhysicalType.INT32
      | LogicalTypeId.UINTEGER \<Rightarrow> Inr PhysicalType.UINT32
      | LogicalTypeId.BIGINT \<Rightarrow> Inr PhysicalType.INT64
      | LogicalTypeId.TIME \<Rightarrow> Inr PhysicalType.INT64
      | LogicalTypeId.TIMESTAMP \<Rightarrow> Inr PhysicalType.INT64
      | LogicalTypeId.TIMESTAMP_SEC \<Rightarrow> Inr PhysicalType.INT64
      | LogicalTypeId.TIMESTAMP_NS \<Rightarrow> Inr PhysicalType.INT64
      | LogicalTypeId.TIMESTAMP_MS \<Rightarrow> Inr PhysicalType.INT64
      | LogicalTypeId.TIME_TZ \<Rightarrow> Inr PhysicalType.INT64
      | LogicalTypeId.TIMESTAMP_TZ \<Rightarrow> Inr PhysicalType.INT64
      | LogicalTypeId.UBIGINT \<Rightarrow> Inr PhysicalType.UINT64
      | LogicalTypeId.UHUGEINT \<Rightarrow> Inr PhysicalType.UINT128
      | LogicalTypeId.HUGEINT \<Rightarrow> Inr PhysicalType.INT128
      | LogicalTypeId.UUID \<Rightarrow> Inr PhysicalType.INT128
      | LogicalTypeId.FLOAT \<Rightarrow> Inr PhysicalType.FLOAT
      | LogicalTypeId.DOUBLE \<Rightarrow> Inr PhysicalType.DOUBLE
      | LogicalTypeId.DECIMAL \<Rightarrow>
          (case info of
             Some (DecimalTypeInfo width scale) \<Rightarrow>
               if width \<le> 4 then Inr PhysicalType.INT16
               else if width \<le> 9 then Inr PhysicalType.INT32
               else if width \<le> 18 then Inr PhysicalType.INT64
               else if width \<le> 38 then Inr PhysicalType.INT128
               else Inl InternalException
           | Some _ \<Rightarrow> Inl BadCast
           | None \<Rightarrow> Inr PhysicalType.INVALID)
      | LogicalTypeId.VARCHAR \<Rightarrow> Inr PhysicalType.VARCHAR
      | LogicalTypeId.CHAR \<Rightarrow> Inr PhysicalType.VARCHAR
      | LogicalTypeId.BLOB \<Rightarrow> Inr PhysicalType.VARCHAR
      | LogicalTypeId.BIT \<Rightarrow> Inr PhysicalType.VARCHAR
      | LogicalTypeId.INTERVAL \<Rightarrow> Inr PhysicalType.INTERVAL
      | LogicalTypeId.UNION \<Rightarrow> Inr PhysicalType.STRUCT
      | LogicalTypeId.STRUCT \<Rightarrow> Inr PhysicalType.STRUCT
      | LogicalTypeId.LIST \<Rightarrow> Inr PhysicalType.LIST
      | LogicalTypeId.MAP \<Rightarrow> Inr PhysicalType.LIST
      | LogicalTypeId.ARRAY \<Rightarrow> Inr PhysicalType.ARRAY
      | LogicalTypeId.POINTER \<Rightarrow> Inr PhysicalType.UINT64
      | LogicalTypeId.VALIDITY \<Rightarrow> Inr PhysicalType.BIT
      | LogicalTypeId.ENUM \<Rightarrow>
          (case info of
             Some (EnumTypeInfo sz) \<Rightarrow> DictType sz
           | Some _ \<Rightarrow> Inl BadCast
           | None \<Rightarrow> Inr PhysicalType.INVALID)
      | LogicalTypeId.USER \<Rightarrow> Inr PhysicalType.UNKNOWN
      | LogicalTypeId.AGGREGATE_STATE \<Rightarrow> Inr PhysicalType.VARCHAR
      | _ \<Rightarrow> Inr PhysicalType.INVALID)"

text \<open>
  The field \<open>physical_type_\<close>, set by the constructor of the type; a type whose constructor
  throws has none.
\<close>

definition InternalType :: "LogicalType \<Rightarrow> PhysicalType" where
  "InternalType ty = (case GetInternalType ty of Inr p \<Rightarrow> p | Inl e \<Rightarrow> PhysicalType.INVALID)"

text \<open>\<open>StructType::GetChildTypes\<close>, \<open>ListType::GetChildType\<close>, \<open>ArrayType::GetChildType\<close>.\<close>

fun child_types :: "LogicalType \<Rightarrow> LogicalType list" where
  "child_types (LogicalType tid (Some (StructTypeInfo cs))) = map snd cs"
| "child_types (LogicalType tid (Some (ListTypeInfo c))) = [c]"
| "child_types (LogicalType tid (Some (ArrayTypeInfo c n))) = [c]"
| "child_types (LogicalType tid info) = []"

lemma child_types_size: "c \<in> set (child_types ty) \<Longrightarrow> size c < size ty"
proof (induction ty rule: child_types.induct)
  case (1 tid cs)
  then obtain n where "(n, c) \<in> set cs" by auto
  then have "size c < size_list (size_prod (\<lambda>x. 0) size) cs"
    by (induction cs) auto
  then show ?case by simp
qed auto

section \<open>Numeric values\<close>

text \<open>The content of \<open>NumericValueUnion\<close> and of the union in \<open>Value\<close>.\<close>

type_synonym numeric_union = "128 word"

definition is_float :: "PhysicalType \<Rightarrow> bool" where
  "is_float T \<longleftrightarrow> T = PhysicalType.FLOAT \<or> T = PhysicalType.DOUBLE"

text \<open>
  IEEE 754: the magnitude of a number with \<open>w\<close> bits is its \<open>w - 1\<close> low bits read as an integer,
  which is monotone in the absolute value; \<open>inf\<close> is the magnitude of infinity and a larger
  magnitude is a NaN. Both zeros have magnitude 0.
\<close>

definition float_magnitude :: "nat \<Rightarrow> numeric_union \<Rightarrow> int" where
  "float_magnitude w x = uint (take_bit (w - 1) x)"

definition float_signed :: "nat \<Rightarrow> numeric_union \<Rightarrow> int" where
  "float_signed w x = (if bit x (w - 1) then - float_magnitude w x else float_magnitude w x)"

definition IsNan :: "PhysicalType \<Rightarrow> numeric_union \<Rightarrow> bool" where
  "IsNan T x \<longleftrightarrow>
     (case T of
        PhysicalType.FLOAT \<Rightarrow> float_magnitude 32 x > 0x7F800000
      | PhysicalType.DOUBLE \<Rightarrow> float_magnitude 64 x > 0x7FF0000000000000
      | _ \<Rightarrow> False)"

text \<open>
  \<open>GetNumericValueUnion::Operation<T>\<close>: the member of the union that the type selects, as a
  number. For the floating-point types it is an integer that orders like the number.
\<close>

definition num_value :: "PhysicalType \<Rightarrow> numeric_union \<Rightarrow> int" where
  "num_value T x =
     (case T of
        PhysicalType.INT8 \<Rightarrow> sint (ucast x :: 8 word)
      | PhysicalType.INT16 \<Rightarrow> sint (ucast x :: 16 word)
      | PhysicalType.INT32 \<Rightarrow> sint (ucast x :: 32 word)
      | PhysicalType.INT64 \<Rightarrow> sint (ucast x :: 64 word)
      | PhysicalType.INT128 \<Rightarrow> sint x
      | PhysicalType.BOOL \<Rightarrow> uint (ucast x :: 8 word)
      | PhysicalType.UINT8 \<Rightarrow> uint (ucast x :: 8 word)
      | PhysicalType.UINT16 \<Rightarrow> uint (ucast x :: 16 word)
      | PhysicalType.UINT32 \<Rightarrow> uint (ucast x :: 32 word)
      | PhysicalType.UINT64 \<Rightarrow> uint (ucast x :: 64 word)
      | PhysicalType.FLOAT \<Rightarrow> float_signed 32 x
      | PhysicalType.DOUBLE \<Rightarrow> float_signed 64 x
      | PhysicalType.UINT128 \<Rightarrow> uint x
      | _ \<Rightarrow> 0)"

section \<open>Values\<close>

text \<open>
  \<open>Value\<close>: its type, the null flag, and the union of a number, the bytes of a string or the
  values of the children of a nested value.
\<close>

datatype "Value" =
  Value (v_type: LogicalType) (IsNull: bool) (payload: Payload)
and Payload =
    NumPayload numeric_union
  | StrPayload "8 word list"
  | ChildPayload "Value list"

text \<open>\<open>GetValueUnsafe\<close>, \<open>StringValue::Get\<close> and \<open>StructValue::GetChildren\<close> read the member the caller asks for.\<close>

definition num_of :: "Value \<Rightarrow> numeric_union" where
  "num_of v = (case payload v of NumPayload x \<Rightarrow> x | _ \<Rightarrow> 0)"

definition str_of :: "Value \<Rightarrow> 8 word list" where
  "str_of v = (case payload v of StrPayload b \<Rightarrow> b | _ \<Rightarrow> [])"

definition children_of :: "Value \<Rightarrow> Value list" where
  "children_of v = (case payload v of ChildPayload vs \<Rightarrow> vs | _ \<Rightarrow> [])"

lemma children_of_size: "c \<in> set (children_of v) \<Longrightarrow> size c < size v"
proof (cases v)
  case (Value ty n p)
  assume "c \<in> set (children_of v)"
  then obtain vs where p: "p = ChildPayload vs" "c \<in> set vs"
    using Value by (cases p) (auto simp: children_of_def)
  from p(2) have "size c < size_list size vs" by (induction vs) auto
  then show ?thesis using Value p(1) by simp
qed

abbreviation simple_type :: "LogicalTypeId \<Rightarrow> LogicalType" where
  "simple_type i \<equiv> LogicalType i None"

definition null_value :: "LogicalType \<Rightarrow> Value" where
  "null_value ty = Value ty True (NumPayload 0)"

definition num_val :: "LogicalType \<Rightarrow> int \<Rightarrow> Value" where
  "num_val ty i = Value ty False (NumPayload (word_of_int i))"

text \<open>
  The calendar limits, as days and microseconds since 1970-01-01: \<open>Date::FromDate\<close> of
  -5877641-06-25 and 5881580-07-10, and \<open>Timestamp::FromDatetime\<close> of -290308-12-22.
\<close>

definition DATE_MIN :: int where "DATE_MIN = - 2147483646"
definition DATE_MAX :: int where "DATE_MAX = 2147483646"
definition TIMESTAMP_MIN :: int where "TIMESTAMP_MIN = - 9223372022400000000"
definition TIMESTAMP_MAX :: int where "TIMESTAMP_MAX = 2 ^ 63 - 2"
definition MICROS_PER_DAY :: int where "MICROS_PER_DAY = 86400000000"
definition TIME_TZ_MAX_OFFSET :: int where "TIME_TZ_MAX_OFFSET = 16 * 60 * 60 - 1"

text \<open>C++ integer division truncates towards zero.\<close>

definition trunc_div :: "int \<Rightarrow> int \<Rightarrow> int" where
  "trunc_div a b = sgn a * sgn b * (\<bar>a\<bar> div \<bar>b\<bar>)"

definition MinimumValue :: "LogicalType \<Rightarrow> exc + Value" where
  "MinimumValue ty =
     (case type_id ty of
        LogicalTypeId.BOOLEAN \<Rightarrow> Inr (num_val (simple_type LogicalTypeId.BOOLEAN) 0)
      | LogicalTypeId.TINYINT \<Rightarrow> Inr (num_val (simple_type LogicalTypeId.TINYINT) (- (2 ^ 7)))
      | LogicalTypeId.SMALLINT \<Rightarrow> Inr (num_val (simple_type LogicalTypeId.SMALLINT) (- (2 ^ 15)))
      | LogicalTypeId.INTEGER \<Rightarrow> Inr (num_val (simple_type LogicalTypeId.INTEGER) (- (2 ^ 31)))
      | LogicalTypeId.SQLNULL \<Rightarrow> Inr (num_val (simple_type LogicalTypeId.INTEGER) (- (2 ^ 31)))
      | LogicalTypeId.BIGINT \<Rightarrow> Inr (num_val (simple_type LogicalTypeId.BIGINT) (- (2 ^ 63)))
      | LogicalTypeId.HUGEINT \<Rightarrow> Inr (num_val (simple_type LogicalTypeId.HUGEINT) (- (2 ^ 127)))
      | LogicalTypeId.UHUGEINT \<Rightarrow> Inr (num_val (simple_type LogicalTypeId.UHUGEINT) 0)
      | LogicalTypeId.UUID \<Rightarrow> Inr (num_val (simple_type LogicalTypeId.UUID) (- (2 ^ 127)))
      | LogicalTypeId.UTINYINT \<Rightarrow> Inr (num_val (simple_type LogicalTypeId.UTINYINT) 0)
      | LogicalTypeId.USMALLINT \<Rightarrow> Inr (num_val (simple_type LogicalTypeId.USMALLINT) 0)
      | LogicalTypeId.UINTEGER \<Rightarrow> Inr (num_val (simple_type LogicalTypeId.UINTEGER) 0)
      | LogicalTypeId.UBIGINT \<Rightarrow> Inr (num_val (simple_type LogicalTypeId.UBIGINT) 0)
      | LogicalTypeId.DATE \<Rightarrow> Inr (num_val (simple_type LogicalTypeId.DATE) DATE_MIN)
      | LogicalTypeId.TIME \<Rightarrow> Inr (num_val (simple_type LogicalTypeId.TIME) 0)
      | LogicalTypeId.TIMESTAMP \<Rightarrow> Inr (num_val (simple_type LogicalTypeId.TIMESTAMP) TIMESTAMP_MIN)
      | LogicalTypeId.TIMESTAMP_SEC \<Rightarrow>
          Inr (num_val (simple_type LogicalTypeId.TIMESTAMP_SEC) (trunc_div TIMESTAMP_MIN 1000000))
      | LogicalTypeId.TIMESTAMP_MS \<Rightarrow>
          Inr (num_val (simple_type LogicalTypeId.TIMESTAMP_MS) (trunc_div TIMESTAMP_MIN 1000))
      | LogicalTypeId.TIMESTAMP_NS \<Rightarrow> Inr (num_val (simple_type LogicalTypeId.TIMESTAMP_NS) (- (2 ^ 63)))
      | LogicalTypeId.TIME_TZ \<Rightarrow>
          Inr (num_val (simple_type LogicalTypeId.TIME_TZ) (TIME_TZ_MAX_OFFSET - TIME_TZ_MAX_OFFSET))
      | LogicalTypeId.TIMESTAMP_TZ \<Rightarrow> Inr (num_val (simple_type LogicalTypeId.TIMESTAMP_TZ) TIMESTAMP_MIN)
      | LogicalTypeId.FLOAT \<Rightarrow> Inr (num_val (simple_type LogicalTypeId.FLOAT) 0xFF7FFFFF)
      | LogicalTypeId.DOUBLE \<Rightarrow> Inr (num_val (simple_type LogicalTypeId.DOUBLE) 0xFFEFFFFFFFFFFFFF)
      | LogicalTypeId.DECIMAL \<Rightarrow>
          (case type_info ty of
             Some (DecimalTypeInfo width scale) \<Rightarrow>
               (if InternalType ty \<in> {PhysicalType.INT16, PhysicalType.INT32, PhysicalType.INT64, PhysicalType.INT128}
                then Inr (num_val ty (- (10 ^ width) + 1)) else Inl InternalException)
           | _ \<Rightarrow> Inl BadCast)
      | LogicalTypeId.ENUM \<Rightarrow> Inr (num_val ty 0)
      | _ \<Rightarrow> Inl InvalidTypeException)"

definition MaximumValue :: "LogicalType \<Rightarrow> exc + Value" where
  "MaximumValue ty =
     (case type_id ty of
        LogicalTypeId.BOOLEAN \<Rightarrow> Inr (num_val (simple_type LogicalTypeId.BOOLEAN) 1)
      | LogicalTypeId.TINYINT \<Rightarrow> Inr (num_val (simple_type LogicalTypeId.TINYINT) (2 ^ 7 - 1))
      | LogicalTypeId.SMALLINT \<Rightarrow> Inr (num_val (simple_type LogicalTypeId.SMALLINT) (2 ^ 15 - 1))
      | LogicalTypeId.INTEGER \<Rightarrow> Inr (num_val (simple_type LogicalTypeId.INTEGER) (2 ^ 31 - 1))
      | LogicalTypeId.SQLNULL \<Rightarrow> Inr (num_val (simple_type LogicalTypeId.INTEGER) (2 ^ 31 - 1))
      | LogicalTypeId.BIGINT \<Rightarrow> Inr (num_val (simple_type LogicalTypeId.BIGINT) (2 ^ 63 - 1))
      | LogicalTypeId.HUGEINT \<Rightarrow> Inr (num_val (simple_type LogicalTypeId.HUGEINT) (2 ^ 127 - 1))
      | LogicalTypeId.UHUGEINT \<Rightarrow> Inr (num_val (simple_type LogicalTypeId.UHUGEINT) (2 ^ 128 - 1))
      | LogicalTypeId.UUID \<Rightarrow> Inr (num_val (simple_type LogicalTypeId.UUID) (2 ^ 127 - 1))
      | LogicalTypeId.UTINYINT \<Rightarrow> Inr (num_val (simple_type LogicalTypeId.UTINYINT) (2 ^ 8 - 1))
      | LogicalTypeId.USMALLINT \<Rightarrow> Inr (num_val (simple_type LogicalTypeId.USMALLINT) (2 ^ 16 - 1))
      | LogicalTypeId.UINTEGER \<Rightarrow> Inr (num_val (simple_type LogicalTypeId.UINTEGER) (2 ^ 32 - 1))
      | LogicalTypeId.UBIGINT \<Rightarrow> Inr (num_val (simple_type LogicalTypeId.UBIGINT) (2 ^ 64 - 1))
      | LogicalTypeId.DATE \<Rightarrow> Inr (num_val (simple_type LogicalTypeId.DATE) DATE_MAX)
      | LogicalTypeId.TIME \<Rightarrow> Inr (num_val (simple_type LogicalTypeId.TIME) MICROS_PER_DAY)
      | LogicalTypeId.TIMESTAMP \<Rightarrow> Inr (num_val (simple_type LogicalTypeId.TIMESTAMP) TIMESTAMP_MAX)
      | LogicalTypeId.TIMESTAMP_MS \<Rightarrow>
          Inr (num_val (simple_type LogicalTypeId.TIMESTAMP_MS) (trunc_div TIMESTAMP_MAX 1000))
      | LogicalTypeId.TIMESTAMP_NS \<Rightarrow> Inr (num_val (simple_type LogicalTypeId.TIMESTAMP_NS) (2 ^ 63 - 2))
      | LogicalTypeId.TIMESTAMP_SEC \<Rightarrow>
          Inr (num_val (simple_type LogicalTypeId.TIMESTAMP_SEC) (trunc_div TIMESTAMP_MAX 1000000))
      | LogicalTypeId.TIME_TZ \<Rightarrow>
          Inr (num_val (simple_type LogicalTypeId.TIME_TZ) (MICROS_PER_DAY * 2 ^ 24 + 2 * TIME_TZ_MAX_OFFSET))
      | LogicalTypeId.TIMESTAMP_TZ \<Rightarrow> Inr (num_val (simple_type LogicalTypeId.TIMESTAMP) TIMESTAMP_MAX)
      | LogicalTypeId.FLOAT \<Rightarrow> Inr (num_val (simple_type LogicalTypeId.FLOAT) 0x7F7FFFFF)
      | LogicalTypeId.DOUBLE \<Rightarrow> Inr (num_val (simple_type LogicalTypeId.DOUBLE) 0x7FEFFFFFFFFFFFFF)
      | LogicalTypeId.DECIMAL \<Rightarrow>
          (case type_info ty of
             Some (DecimalTypeInfo width scale) \<Rightarrow>
               (if InternalType ty \<in> {PhysicalType.INT16, PhysicalType.INT32, PhysicalType.INT64, PhysicalType.INT128}
                then Inr (num_val ty (10 ^ width - 1)) else Inl InternalException)
           | _ \<Rightarrow> Inl BadCast)
      | LogicalTypeId.ENUM \<Rightarrow>
          (case type_info ty of
             Some (EnumTypeInfo sz) \<Rightarrow> Inr (num_val ty (int sz - 1))
           | _ \<Rightarrow> Inl BadCast)
      | _ \<Rightarrow> Inl InvalidTypeException)"

section \<open>Comparison operators\<close>

definition EqualsFloat :: "PhysicalType \<Rightarrow> numeric_union \<Rightarrow> numeric_union \<Rightarrow> bool" where
  "EqualsFloat T left right =
     (if IsNan T left \<and> IsNan T right then True
      else \<not> IsNan T left \<and> \<not> IsNan T right \<and> num_value T left = num_value T right)"

definition GreaterThanFloat :: "PhysicalType \<Rightarrow> numeric_union \<Rightarrow> numeric_union \<Rightarrow> bool" where
  "GreaterThanFloat T left right =
     (if IsNan T right then False
      else if IsNan T left then True
      else num_value T left > num_value T right)"

definition GreaterThanEqualsFloat :: "PhysicalType \<Rightarrow> numeric_union \<Rightarrow> numeric_union \<Rightarrow> bool" where
  "GreaterThanEqualsFloat T left right =
     (if IsNan T right then IsNan T left
      else if IsNan T left then True
      else num_value T left \<ge> num_value T right)"

definition Equals :: "PhysicalType \<Rightarrow> numeric_union \<Rightarrow> numeric_union \<Rightarrow> bool" where
  "Equals T left right =
     (if is_float T then EqualsFloat T left right else num_value T left = num_value T right)"

definition NotEquals :: "PhysicalType \<Rightarrow> numeric_union \<Rightarrow> numeric_union \<Rightarrow> bool" where
  "NotEquals T left right = (\<not> Equals T left right)"

definition GreaterThan :: "PhysicalType \<Rightarrow> numeric_union \<Rightarrow> numeric_union \<Rightarrow> bool" where
  "GreaterThan T left right =
     (if is_float T then GreaterThanFloat T left right else num_value T left > num_value T right)"

definition GreaterThanEquals :: "PhysicalType \<Rightarrow> numeric_union \<Rightarrow> numeric_union \<Rightarrow> bool" where
  "GreaterThanEquals T left right =
     (if is_float T then GreaterThanEqualsFloat T left right else \<not> GreaterThan T right left)"

definition LessThan :: "PhysicalType \<Rightarrow> numeric_union \<Rightarrow> numeric_union \<Rightarrow> bool" where
  "LessThan T left right = GreaterThan T right left"

definition LessThanEquals :: "PhysicalType \<Rightarrow> numeric_union \<Rightarrow> numeric_union \<Rightarrow> bool" where
  "LessThanEquals T left right = (\<not> GreaterThan T left right)"

section \<open>The interface of a total comparison\<close>

locale total_comparison =
  fixes eq gt ge lt le :: "'a \<Rightarrow> 'a \<Rightarrow> bool"
  assumes gt_asym: "gt a b \<Longrightarrow> \<not> gt b a"
    and not_gt_trans: "\<not> gt a b \<Longrightarrow> \<not> gt b c \<Longrightarrow> \<not> gt a c"
    and eq_iff: "eq a b \<longleftrightarrow> \<not> gt a b \<and> \<not> gt b a"
    and ge_iff: "ge a b \<longleftrightarrow> \<not> gt b a"
    and lt_iff: "lt a b \<longleftrightarrow> gt b a"
    and le_iff: "le a b \<longleftrightarrow> \<not> gt a b"
begin

lemma gt_irrefl: "\<not> gt a a"
  using gt_asym by blast

lemma gt_le_trans: "gt a b \<Longrightarrow> \<not> gt c b \<Longrightarrow> gt a c"
  using not_gt_trans by blast

lemma le_gt_trans: "\<not> gt b a \<Longrightarrow> gt b c \<Longrightarrow> gt a c"
  using not_gt_trans by blast

lemma eq_equivp: "eq a a" "eq a b \<Longrightarrow> eq b a" "eq a b \<Longrightarrow> eq b c \<Longrightarrow> eq a c"
  by (auto simp: eq_iff gt_irrefl dest: not_gt_trans)

lemmas order_iffs = eq_iff ge_iff lt_iff le_iff

end

text \<open>An integer that orders the values of a type, the NaNs above everything else.\<close>

definition total_key :: "PhysicalType \<Rightarrow> numeric_union \<Rightarrow> int" where
  "total_key T x = (if IsNan T x then 2 ^ 64 else num_value T x)"

lemma float_signed_bound: "w \<le> 64 \<Longrightarrow> float_signed w x < 2 ^ 64"
proof -
  assume "w \<le> 64"
  have "float_magnitude w x < 2 ^ (w - 1)"
    by (simp add: float_magnitude_def unsigned_take_bit_eq take_bit_int_less_exp)
  also have "(2::int) ^ (w - 1) \<le> 2 ^ 64" using \<open>w \<le> 64\<close> by (intro power_increasing) auto
  moreover have "0 \<le> float_magnitude w x" by (simp add: float_magnitude_def)
  ultimately show ?thesis by (simp add: float_signed_def)
qed

lemma float_key_bound: "is_float T \<Longrightarrow> num_value T x < 2 ^ 64"
  using float_signed_bound [of 32 x] float_signed_bound [of 64 x] by (auto simp: is_float_def num_value_def)

lemma IsNan_float: "IsNan T x \<Longrightarrow> is_float T"
  by (cases T) (auto simp: IsNan_def is_float_def)

lemma comparison_key:
  shows "GreaterThan T a b \<longleftrightarrow> total_key T a > total_key T b"
    and "Equals T a b \<longleftrightarrow> total_key T a = total_key T b"
    and "GreaterThanEquals T a b \<longleftrightarrow> total_key T a \<ge> total_key T b"
    and "LessThan T a b \<longleftrightarrow> total_key T a < total_key T b"
    and "LessThanEquals T a b \<longleftrightarrow> total_key T a \<le> total_key T b"
    and "NotEquals T a b \<longleftrightarrow> total_key T a \<noteq> total_key T b"
proof -
  have b: "is_float T \<Longrightarrow> num_value T x < 2 ^ 64" for x by (rule float_key_bound)
  show gt: "GreaterThan T a b \<longleftrightarrow> total_key T a > total_key T b" for a b
    using b [of a] b [of b] IsNan_float [of T a] IsNan_float [of T b]
    by (auto simp: GreaterThan_def GreaterThanFloat_def total_key_def)
  show eq: "Equals T a b \<longleftrightarrow> total_key T a = total_key T b"
    using b [of a] b [of b] IsNan_float [of T a] IsNan_float [of T b]
    by (auto simp: Equals_def EqualsFloat_def total_key_def)
  show "GreaterThanEquals T a b \<longleftrightarrow> total_key T a \<ge> total_key T b"
    using b [of a] b [of b] IsNan_float [of T a] IsNan_float [of T b]
    by (auto simp: GreaterThanEquals_def GreaterThanEqualsFloat_def gt total_key_def)
  show "LessThan T a b \<longleftrightarrow> total_key T a < total_key T b" by (simp add: LessThan_def gt)
  show "LessThanEquals T a b \<longleftrightarrow> total_key T a \<le> total_key T b" by (auto simp: LessThanEquals_def gt)
  show "NotEquals T a b \<longleftrightarrow> total_key T a \<noteq> total_key T b" by (simp add: NotEquals_def eq)
qed

lemmas num_eval = comparison_key total_key_def IsNan_def num_value_def InternalType_def num_val_def num_of_def

interpretation num_cmp: total_comparison "Equals T" "GreaterThan T" "GreaterThanEquals T" "LessThan T"
    "LessThanEquals T" for T
  by unfold_locales (auto simp: comparison_key)

end
