(* ===== verification/Numeric_Stats.thy ===== *)
theory Numeric_Stats
  imports Logical_Types
begin

unbundle bit_operations_syntax

text \<open>
  Numeric zone maps, \<^verbatim>\<open>src/src/storage/statistics/numeric_stats.cpp\<close> and
  \<^verbatim>\<open>src/src/include/duckdb/storage/statistics/numeric_stats.hpp\<close>: the minimum and the
  maximum of a segment, and what they decide about a comparison with a constant.

  The functions take the type of the statistics and their numeric data, the two parts of
  \<open>BaseStatistics\<close> the code uses; \<open>Base_Statistics\<close> puts them together. The serialized form is
  a tree of numbered fields.
\<close>

section \<open>Enumerations\<close>

datatype FilterPropagateResult =
    NO_PRUNING_POSSIBLE | FILTER_ALWAYS_TRUE | FILTER_ALWAYS_FALSE | FILTER_TRUE_OR_NULL | FILTER_FALSE_OR_NULL

datatype ExpressionType =
    COMPARE_EQUAL | COMPARE_NOTEQUAL | COMPARE_LESSTHAN | COMPARE_GREATERTHAN
  | COMPARE_LESSTHANOREQUALTO | COMPARE_GREATERTHANOREQUALTO | COMPARE_IN | COMPARE_NOT_IN
  | COMPARE_DISTINCT_FROM | COMPARE_BETWEEN | COMPARE_NOT_BETWEEN | COMPARE_NOT_DISTINCT_FROM

section \<open>Serialized form\<close>

text \<open>
  \<open>WriteProperty(id, tag, value)\<close> appends a field, \<open>WriteObject\<close> and \<open>WriteList\<close> nest. The
  reader takes the fields in order and throws when the field id is not the one it expects.
\<close>

datatype Serialized =
    SerBool bool
  | SerNat nat
  | SerNum numeric_union
  | SerBytes "8 word list"
  | SerObject "(nat \<times> string \<times> Serialized) list"
  | SerList "Serialized list"

type_synonym fields = "(nat \<times> string \<times> Serialized) list"

definition read_field :: "nat \<Rightarrow> string \<Rightarrow> fields \<Rightarrow> exc + Serialized \<times> fields" where
  "read_field i tag fs =
     (case fs of
        [] \<Rightarrow> Inl SerializationException
      | (j, t, v) # rest \<Rightarrow> if j = i then Inr (v, rest) else Inl SerializationException)"

definition read_bool :: "nat \<Rightarrow> string \<Rightarrow> fields \<Rightarrow> exc + bool \<times> fields" where
  "read_bool i tag fs = bind_res (read_field i tag fs)
     (\<lambda>(v, rest). case v of SerBool b \<Rightarrow> Inr (b, rest) | _ \<Rightarrow> Inl SerializationException)"

definition read_nat :: "nat \<Rightarrow> string \<Rightarrow> fields \<Rightarrow> exc + nat \<times> fields" where
  "read_nat i tag fs = bind_res (read_field i tag fs)
     (\<lambda>(v, rest). case v of SerNat b \<Rightarrow> Inr (b, rest) | _ \<Rightarrow> Inl SerializationException)"

definition read_num :: "nat \<Rightarrow> string \<Rightarrow> fields \<Rightarrow> exc + numeric_union \<times> fields" where
  "read_num i tag fs = bind_res (read_field i tag fs)
     (\<lambda>(v, rest). case v of SerNum b \<Rightarrow> Inr (b, rest) | _ \<Rightarrow> Inl SerializationException)"

definition read_bytes :: "nat \<Rightarrow> string \<Rightarrow> fields \<Rightarrow> exc + 8 word list \<times> fields" where
  "read_bytes i tag fs = bind_res (read_field i tag fs)
     (\<lambda>(v, rest). case v of SerBytes b \<Rightarrow> Inr (b, rest) | _ \<Rightarrow> Inl SerializationException)"

definition read_object :: "nat \<Rightarrow> string \<Rightarrow> fields \<Rightarrow> exc + fields \<times> fields" where
  "read_object i tag fs = bind_res (read_field i tag fs)
     (\<lambda>(v, rest). case v of SerObject b \<Rightarrow> Inr (b, rest) | _ \<Rightarrow> Inl SerializationException)"

definition read_list :: "nat \<Rightarrow> string \<Rightarrow> fields \<Rightarrow> exc + Serialized list \<times> fields" where
  "read_list i tag fs = bind_res (read_field i tag fs)
     (\<lambda>(v, rest). case v of SerList b \<Rightarrow> Inr (b, rest) | _ \<Rightarrow> Inl SerializationException)"

named_theorems ser_simps \<open>reading back what was written\<close>

lemma read_written [ser_simps]:
  "read_bool i t ((i, t', SerBool b) # fs) = Inr (b, fs)"
  "read_nat i t ((i, t', SerNat n) # fs) = Inr (n, fs)"
  "read_num i t ((i, t', SerNum x) # fs) = Inr (x, fs)"
  "read_bytes i t ((i, t', SerBytes bs) # fs) = Inr (bs, fs)"
  "read_object i t ((i, t', SerObject os) # fs) = Inr (os, fs)"
  "read_list i t ((i, t', SerList vs) # fs) = Inr (vs, fs)"
  by (simp_all add: read_bool_def read_nat_def read_num_def read_bytes_def read_object_def read_list_def
      read_field_def)

section \<open>The data\<close>

record NumericStatsData =
  has_min :: bool
  has_max :: bool
  nmin :: numeric_union
  nmax :: numeric_union

text \<open>What a freshly constructed object holds before it is initialised.\<close>

definition numeric_uninit :: NumericStatsData where
  "numeric_uninit = \<lparr>has_min = False, has_max = False, nmin = 0, nmax = 0\<rparr>"

text \<open>The number of bits of the union member that a numeric type selects, 0 for other types.\<close>

definition type_width :: "PhysicalType \<Rightarrow> nat" where
  "type_width T =
     (case T of
        PhysicalType.BOOL \<Rightarrow> 8 | PhysicalType.INT8 \<Rightarrow> 8 | PhysicalType.UINT8 \<Rightarrow> 8
      | PhysicalType.INT16 \<Rightarrow> 16 | PhysicalType.UINT16 \<Rightarrow> 16
      | PhysicalType.INT32 \<Rightarrow> 32 | PhysicalType.UINT32 \<Rightarrow> 32 | PhysicalType.FLOAT \<Rightarrow> 32
      | PhysicalType.INT64 \<Rightarrow> 64 | PhysicalType.UINT64 \<Rightarrow> 64 | PhysicalType.DOUBLE \<Rightarrow> 64
      | PhysicalType.INT128 \<Rightarrow> 128 | PhysicalType.UINT128 \<Rightarrow> 128
      | _ \<Rightarrow> 0)"

abbreviation is_numeric :: "PhysicalType \<Rightarrow> bool" where
  "is_numeric T \<equiv> 0 < type_width T"

text \<open>The types that \<open>CheckZonemap\<close> and \<open>Verify\<close> dispatch on: all numeric ones but \<open>BOOL\<close>.\<close>

abbreviation zonemap_type :: "PhysicalType \<Rightarrow> bool" where
  "zonemap_type T \<equiv> is_numeric T \<and> T \<noteq> PhysicalType.BOOL"

definition read_member :: "PhysicalType \<Rightarrow> numeric_union \<Rightarrow> numeric_union" where
  "read_member T x = take_bit (type_width T) x"

definition SetNumericValueInternal ::
  "Value \<Rightarrow> LogicalType \<Rightarrow> numeric_union \<times> bool \<Rightarrow> exc + numeric_union \<times> bool" where
  "SetNumericValueInternal input ty = (\<lambda>(val, has_val).
     if IsNull input then Inr (val, False)
     else if InternalType (v_type input) \<noteq> InternalType ty then Inl InternalException
     else if is_numeric (InternalType ty) then Inr (read_member (InternalType ty) (num_of input), True)
     else Inl InternalException)"

definition SetMin :: "LogicalType \<Rightarrow> Value \<Rightarrow> NumericStatsData \<Rightarrow> exc + NumericStatsData" where
  "SetMin ty v d = bind_res (SetNumericValueInternal v ty (nmin d, has_min d))
     (\<lambda>(x, h). Inr (d\<lparr>nmin := x, has_min := h\<rparr>))"

definition SetMax :: "LogicalType \<Rightarrow> Value \<Rightarrow> NumericStatsData \<Rightarrow> exc + NumericStatsData" where
  "SetMax ty v d = bind_res (SetNumericValueInternal v ty (nmax d, has_max d))
     (\<lambda>(x, h). Inr (d\<lparr>nmax := x, has_max := h\<rparr>))"

definition NumericValueUnionToValue :: "LogicalType \<Rightarrow> numeric_union \<Rightarrow> exc + Value" where
  "NumericValueUnionToValue ty x =
     (if is_numeric (InternalType ty) then Inr (Value ty False (NumPayload (read_member (InternalType ty) x)))
      else Inl InternalException)"

definition HasMin :: "LogicalType \<Rightarrow> NumericStatsData \<Rightarrow> bool" where
  "HasMin ty d = (if type_id ty = LogicalTypeId.SQLNULL then False else has_min d)"

definition HasMax :: "LogicalType \<Rightarrow> NumericStatsData \<Rightarrow> bool" where
  "HasMax ty d = (if type_id ty = LogicalTypeId.SQLNULL then False else has_max d)"

definition HasMinMax :: "LogicalType \<Rightarrow> NumericStatsData \<Rightarrow> bool" where
  "HasMinMax ty d \<longleftrightarrow> HasMin ty d \<and> HasMax ty d"

definition Min_stats :: "LogicalType \<Rightarrow> NumericStatsData \<Rightarrow> exc + Value" where
  "Min_stats ty d = (if \<not> HasMin ty d then Inl InternalException else NumericValueUnionToValue ty (nmin d))"

definition Max_stats :: "LogicalType \<Rightarrow> NumericStatsData \<Rightarrow> exc + Value" where
  "Max_stats ty d = (if \<not> HasMax ty d then Inl InternalException else NumericValueUnionToValue ty (nmax d))"

definition MinOrNull :: "LogicalType \<Rightarrow> NumericStatsData \<Rightarrow> exc + Value" where
  "MinOrNull ty d = (if \<not> HasMin ty d then Inr (null_value ty) else Min_stats ty d)"

definition MaxOrNull :: "LogicalType \<Rightarrow> NumericStatsData \<Rightarrow> exc + Value" where
  "MaxOrNull ty d = (if \<not> HasMax ty d then Inr (null_value ty) else Max_stats ty d)"

definition NumericStats_CreateUnknown :: "LogicalType \<Rightarrow> exc + NumericStatsData" where
  "NumericStats_CreateUnknown ty =
     bind_res (SetMin ty (null_value ty) numeric_uninit) (SetMax ty (null_value ty))"

definition NumericStats_CreateEmpty :: "LogicalType \<Rightarrow> exc + NumericStatsData" where
  "NumericStats_CreateEmpty ty =
     bind_res (MaximumValue ty) (\<lambda>mx. bind_res (SetMin ty mx numeric_uninit) (\<lambda>d.
     bind_res (MinimumValue ty) (\<lambda>mn. SetMax ty mn d)))"

text \<open>The operators \<open><\<close> and \<open>>\<close> of \<open>Value\<close>, on two numeric values of the type of the statistics.\<close>

definition NumericStats_Merge ::
  "LogicalType \<Rightarrow> NumericStatsData \<Rightarrow> LogicalType \<Rightarrow> NumericStatsData \<Rightarrow> exc + NumericStatsData" where
  "NumericStats_Merge ty d oty od =
     (if type_id oty = LogicalTypeId.VALIDITY then Inr d
      else
        bind_res
          (if HasMin oty od \<and> HasMin ty d
           then bind_res (Min_stats oty od) (\<lambda>other_min. bind_res (Min_stats ty d) (\<lambda>this_min.
                  if LessThan (InternalType ty) (num_of other_min) (num_of this_min)
                  then SetMin ty other_min d else Inr d))
           else SetMin ty (null_value (simple_type LogicalTypeId.SQLNULL)) d) (\<lambda>d.
          if HasMax oty od \<and> HasMax ty d
          then bind_res (Max_stats oty od) (\<lambda>other_max. bind_res (Max_stats ty d) (\<lambda>this_max.
                 if GreaterThan (InternalType ty) (num_of other_max) (num_of this_max)
                 then SetMax ty other_max d else Inr d))
          else SetMax ty (null_value (simple_type LogicalTypeId.SQLNULL)) d))"

text \<open>\<open>UpdateValue\<close> and \<open>Update<T>\<close>.\<close>

definition NumericStats_Update :: "PhysicalType \<Rightarrow> numeric_union \<Rightarrow> NumericStatsData \<Rightarrow> NumericStatsData" where
  "NumericStats_Update T new_value d =
     (let d = (if LessThan T new_value (nmin d) then d\<lparr>nmin := new_value\<rparr> else d)
      in if GreaterThan T new_value (nmax d) then d\<lparr>nmax := new_value\<rparr> else d)"

definition NumericStats_IsConstant :: "LogicalType \<Rightarrow> NumericStatsData \<Rightarrow> exc + bool" where
  "NumericStats_IsConstant ty d =
     bind_res (Max_stats ty d) (\<lambda>mx. bind_res (Min_stats ty d) (\<lambda>mn.
       Inr (LessThanEquals (InternalType ty) (num_of mx) (num_of mn))))"

section \<open>Zone map check\<close>

definition ConstantExactRange :: "PhysicalType \<Rightarrow> numeric_union \<Rightarrow> numeric_union \<Rightarrow> numeric_union \<Rightarrow> bool" where
  "ConstantExactRange T mn mx c \<longleftrightarrow> Equals T c mn \<and> Equals T c mx"

definition ConstantValueInRange :: "PhysicalType \<Rightarrow> numeric_union \<Rightarrow> numeric_union \<Rightarrow> numeric_union \<Rightarrow> bool" where
  "ConstantValueInRange T mn mx c \<longleftrightarrow> \<not> (LessThan T c mn \<or> GreaterThan T c mx)"

definition CheckZonemapTemplated ::
  "PhysicalType \<Rightarrow> NumericStatsData \<Rightarrow> ExpressionType \<Rightarrow> numeric_union \<Rightarrow> exc + FilterPropagateResult" where
  "CheckZonemapTemplated T d comparison_type c =
     (let min_value = nmin d; max_value = nmax d
      in case comparison_type of
           COMPARE_EQUAL \<Rightarrow>
             if ConstantExactRange T min_value max_value c then Inr FILTER_ALWAYS_TRUE
             else if ConstantValueInRange T min_value max_value c then Inr NO_PRUNING_POSSIBLE
             else Inr FILTER_ALWAYS_FALSE
         | COMPARE_NOTEQUAL \<Rightarrow>
             if \<not> ConstantValueInRange T min_value max_value c then Inr FILTER_ALWAYS_TRUE
             else if ConstantExactRange T min_value max_value c then Inr FILTER_ALWAYS_FALSE
             else Inr NO_PRUNING_POSSIBLE
         | COMPARE_GREATERTHANOREQUALTO \<Rightarrow>
             if GreaterThanEquals T min_value c then Inr FILTER_ALWAYS_TRUE
             else if GreaterThanEquals T max_value c then Inr NO_PRUNING_POSSIBLE
             else Inr FILTER_ALWAYS_FALSE
         | COMPARE_GREATERTHAN \<Rightarrow>
             if GreaterThan T min_value c then Inr FILTER_ALWAYS_TRUE
             else if GreaterThan T max_value c then Inr NO_PRUNING_POSSIBLE
             else Inr FILTER_ALWAYS_FALSE
         | COMPARE_LESSTHANOREQUALTO \<Rightarrow>
             if LessThanEquals T max_value c then Inr FILTER_ALWAYS_TRUE
             else if LessThanEquals T min_value c then Inr NO_PRUNING_POSSIBLE
             else Inr FILTER_ALWAYS_FALSE
         | COMPARE_LESSTHAN \<Rightarrow>
             if LessThan T max_value c then Inr FILTER_ALWAYS_TRUE
             else if LessThan T min_value c then Inr NO_PRUNING_POSSIBLE
             else Inr FILTER_ALWAYS_FALSE
         | _ \<Rightarrow> Inl InternalException)"

definition NumericStats_CheckZonemap ::
  "LogicalType \<Rightarrow> NumericStatsData \<Rightarrow> ExpressionType \<Rightarrow> Value \<Rightarrow> exc + FilterPropagateResult" where
  "NumericStats_CheckZonemap ty d comparison_type c =
     (if IsNull c then Inr FILTER_ALWAYS_FALSE
      else if \<not> HasMinMax ty d then Inr NO_PRUNING_POSSIBLE
      else if zonemap_type (InternalType ty)
           then CheckZonemapTemplated (InternalType ty) d comparison_type (num_of c)
      else Inl InternalException)"

section \<open>Serialization\<close>

definition SerializeNumericStatsValue ::
  "LogicalType \<Rightarrow> numeric_union \<Rightarrow> bool \<Rightarrow> exc + fields" where
  "SerializeNumericStatsValue ty val has_value =
     (if \<not> has_value then Inr [(100, ''has_value'', SerBool has_value)]
      else if is_numeric (InternalType ty)
           then Inr [(100, ''has_value'', SerBool has_value),
                     (101, ''value'', SerNum (read_member (InternalType ty) val))]
      else Inl InternalException)"

definition DeserializeNumericStatsValue ::
  "LogicalType \<Rightarrow> fields \<Rightarrow> numeric_union \<times> bool \<Rightarrow> exc + numeric_union \<times> bool" where
  "DeserializeNumericStatsValue ty fs = (\<lambda>(result, has_stats).
     bind_res (read_bool 100 ''has_value'' fs) (\<lambda>(has_value, fs).
       if \<not> has_value then Inr (result, False)
       else if is_numeric (InternalType ty)
            then bind_res (read_num 101 ''value'' fs) (\<lambda>(x, fs). Inr (read_member (InternalType ty) x, True))
       else Inl InternalException))"

text \<open>The minimum is written under the name \<open>max\<close> and the maximum under \<open>min\<close>; the reader does the same.\<close>

definition NumericStats_Serialize :: "LogicalType \<Rightarrow> NumericStatsData \<Rightarrow> exc + fields" where
  "NumericStats_Serialize ty d =
     bind_res (SerializeNumericStatsValue ty (nmin d) (has_min d)) (\<lambda>o1.
     bind_res (SerializeNumericStatsValue ty (nmax d) (has_max d)) (\<lambda>o2.
       Inr [(200, ''max'', SerObject o1), (201, ''min'', SerObject o2)]))"

definition NumericStats_Deserialize :: "LogicalType \<Rightarrow> fields \<Rightarrow> NumericStatsData \<Rightarrow> exc + NumericStatsData" where
  "NumericStats_Deserialize ty fs d =
     bind_res (read_object 200 ''max'' fs) (\<lambda>(o1, fs).
     bind_res (DeserializeNumericStatsValue ty o1 (nmin d, has_min d)) (\<lambda>(mn, hmn).
     bind_res (read_object 201 ''min'' fs) (\<lambda>(o2, fs).
     bind_res (DeserializeNumericStatsValue ty o2 (nmax d, has_max d)) (\<lambda>(mx, hmx).
       Inr (d\<lparr>nmin := mn, has_min := hmn, nmax := mx, has_max := hmx\<rparr>)))))"

section \<open>Verification of a vector\<close>

text \<open>
  A vector in unified format: the rows are reached through the caller's selection and the
  selection of the format; a row has a validity bit and a value.
\<close>

record 'a UnifiedVectorFormat =
  usel :: "nat \<Rightarrow> nat"
  uvalid :: "nat \<Rightarrow> bool"
  udata :: "nat \<Rightarrow> 'a"

text \<open>The body of \<open>TemplatedVerify\<close> for one row.\<close>

definition verify_row :: "PhysicalType \<Rightarrow> Value \<Rightarrow> Value \<Rightarrow> numeric_union \<Rightarrow> exc + unit" where
  "verify_row T min_value max_value x =
     (if \<not> IsNull min_value \<and> LessThan T x (num_of min_value) then Inl InternalException
      else if \<not> IsNull max_value \<and> GreaterThan T x (num_of max_value) then Inl InternalException
      else Inr ())"

definition TemplatedVerify ::
  "PhysicalType \<Rightarrow> LogicalType \<Rightarrow> NumericStatsData \<Rightarrow> numeric_union UnifiedVectorFormat \<Rightarrow> (nat \<Rightarrow> nat) \<Rightarrow> nat
    \<Rightarrow> exc + unit" where
  "TemplatedVerify T ty d vdata sel cnt =
     bind_res (MinOrNull ty d) (\<lambda>min_value. bind_res (MaxOrNull ty d) (\<lambda>max_value.
       fold_res (\<lambda>i u. let index = usel vdata (sel i)
                       in if \<not> uvalid vdata index then Inr ()
                          else verify_row T min_value max_value (udata vdata index))
         [0..<cnt] ()))"

definition NumericStats_Verify ::
  "LogicalType \<Rightarrow> NumericStatsData \<Rightarrow> numeric_union UnifiedVectorFormat \<Rightarrow> (nat \<Rightarrow> nat) \<Rightarrow> nat \<Rightarrow> exc + unit" where
  "NumericStats_Verify ty d vdata sel cnt =
     (if InternalType ty = PhysicalType.BOOL then Inr ()
      else if zonemap_type (InternalType ty) then TemplatedVerify (InternalType ty) ty d vdata sel cnt
      else Inl InternalException)"

section \<open>What the statistics promise\<close>

text \<open>A number lies within the statistics; what a comparison with a constant means.\<close>

definition num_contains :: "LogicalType \<Rightarrow> NumericStatsData \<Rightarrow> numeric_union \<Rightarrow> bool" where
  "num_contains ty d x \<longleftrightarrow>
     (HasMin ty d \<longrightarrow> \<not> LessThan (InternalType ty) x (nmin d))
     \<and> (HasMax ty d \<longrightarrow> \<not> GreaterThan (InternalType ty) x (nmax d))"

definition comparison_holds :: "PhysicalType \<Rightarrow> ExpressionType \<Rightarrow> numeric_union \<Rightarrow> numeric_union \<Rightarrow> bool" where
  "comparison_holds T op x c =
     (case op of
        COMPARE_EQUAL \<Rightarrow> Equals T x c
      | COMPARE_NOTEQUAL \<Rightarrow> NotEquals T x c
      | COMPARE_LESSTHAN \<Rightarrow> LessThan T x c
      | COMPARE_GREATERTHAN \<Rightarrow> GreaterThan T x c
      | COMPARE_LESSTHANOREQUALTO \<Rightarrow> LessThanEquals T x c
      | COMPARE_GREATERTHANOREQUALTO \<Rightarrow> GreaterThanEquals T x c
      | _ \<Rightarrow> False)"

text \<open>
  The interface of a zone map: what its client, the table filters, rely on. \<open>contains z v\<close> says
  that the value is one the zone map was built for.
\<close>

locale zonemap =
  fixes contains :: "'z \<Rightarrow> 'v \<Rightarrow> bool"
    and holds :: "'op \<Rightarrow> 'v \<Rightarrow> 'c \<Rightarrow> bool"
    and check :: "'z \<Rightarrow> 'op \<Rightarrow> 'c \<Rightarrow> exc + FilterPropagateResult"
  assumes always_true: "contains z v \<Longrightarrow> check z op c = Inr FILTER_ALWAYS_TRUE \<Longrightarrow> holds op v c"
    and always_false: "contains z v \<Longrightarrow> check z op c = Inr FILTER_ALWAYS_FALSE \<Longrightarrow> \<not> holds op v c"
    and two_valued: "check z op c = Inr r \<Longrightarrow> r \<in> {NO_PRUNING_POSSIBLE, FILTER_ALWAYS_TRUE, FILTER_ALWAYS_FALSE}"
begin

lemma skip_segment:
  "\<forall>v \<in> set vs. contains z v \<Longrightarrow> check z op c = Inr FILTER_ALWAYS_FALSE \<Longrightarrow> filter (\<lambda>v. holds op v c) vs = []"
  using always_false by (auto simp: filter_empty_conv)

lemma keep_segment:
  "\<forall>v \<in> set vs. contains z v \<Longrightarrow> check z op c = Inr FILTER_ALWAYS_TRUE \<Longrightarrow> filter (\<lambda>v. holds op v c) vs = vs"
  using always_true by (auto simp: filter_id_conv)

end

lemma CheckZonemapTemplated_cases:
  "CheckZonemapTemplated T d op c = Inr r \<Longrightarrow>
     r \<in> {NO_PRUNING_POSSIBLE, FILTER_ALWAYS_TRUE, FILTER_ALWAYS_FALSE}"
  by (cases op) (auto simp: CheckZonemapTemplated_def Let_def split: if_splits)

lemma CheckZonemapTemplated_true:
  assumes "\<not> LessThan T x (nmin d)" "\<not> GreaterThan T x (nmax d)"
    and "CheckZonemapTemplated T d op c = Inr FILTER_ALWAYS_TRUE"
  shows "comparison_holds T op x c"
  using assms by (cases op) (auto simp: CheckZonemapTemplated_def comparison_holds_def ConstantExactRange_def
      ConstantValueInRange_def comparison_key Let_def split: if_splits)

lemma CheckZonemapTemplated_false:
  assumes "\<not> LessThan T x (nmin d)" "\<not> GreaterThan T x (nmax d)"
    and "CheckZonemapTemplated T d op c = Inr FILTER_ALWAYS_FALSE"
  shows "\<not> comparison_holds T op x c"
  using assms by (cases op) (auto simp: CheckZonemapTemplated_def comparison_holds_def ConstantExactRange_def
      ConstantValueInRange_def comparison_key Let_def split: if_splits)

text \<open>The instance: a numeric column, its statistics, and constants that can be NULL.\<close>

definition num_stats_contain :: "LogicalType \<times> NumericStatsData \<Rightarrow> numeric_union \<Rightarrow> bool" where
  "num_stats_contain = (\<lambda>(ty, d). num_contains ty d)"

definition num_filter_holds :: "PhysicalType \<times> ExpressionType \<Rightarrow> numeric_union \<Rightarrow> Value \<Rightarrow> bool" where
  "num_filter_holds = (\<lambda>(T, op) x c. \<not> IsNull c \<and> comparison_holds T op x (num_of c))"

definition num_check :: "LogicalType \<times> NumericStatsData \<Rightarrow> PhysicalType \<times> ExpressionType \<Rightarrow> Value \<Rightarrow> exc + FilterPropagateResult" where
  "num_check = (\<lambda>(ty, d) (T, op) c. if T = InternalType ty then NumericStats_CheckZonemap ty d op c else Inl BadCast)"

interpretation numeric_zonemap: zonemap num_stats_contain num_filter_holds num_check
proof
  fix z :: "LogicalType \<times> NumericStatsData" and v :: numeric_union and op :: "PhysicalType \<times> ExpressionType"
    and c :: Value and r
  obtain ty d T e where [simp]: "z = (ty, d)" "op = (T, e)" by (cases z, cases op) auto
  {
    assume "num_stats_contain z v" "num_check z op c = Inr FILTER_ALWAYS_TRUE"
    then show "num_filter_holds op v c"
      using CheckZonemapTemplated_true [of T v d e "num_of c"]
      by (auto simp: num_stats_contain_def num_check_def num_filter_holds_def num_contains_def HasMinMax_def
          NumericStats_CheckZonemap_def split: if_splits)
  next
    assume "num_stats_contain z v" "num_check z op c = Inr FILTER_ALWAYS_FALSE"
    then show "\<not> num_filter_holds op v c"
      using CheckZonemapTemplated_false [of T v d e "num_of c"]
      by (auto simp: num_stats_contain_def num_check_def num_filter_holds_def num_contains_def HasMinMax_def
          NumericStats_CheckZonemap_def split: if_splits)
  next
    assume "num_check z op c = Inr r"
    then show "r \<in> {NO_PRUNING_POSSIBLE, FILTER_ALWAYS_TRUE, FILTER_ALWAYS_FALSE}"
      by (auto simp: num_check_def NumericStats_CheckZonemap_def dest: CheckZonemapTemplated_cases split: if_splits)
  }
qed

section \<open>Reading members of the union\<close>

lemma ucast_take_bit: "LENGTH('w::len) \<le> w \<Longrightarrow> (ucast (take_bit w (x :: 128 word)) :: 'w word) = ucast x"
  by (intro bit_word_eqI) (simp add: bit_ucast_iff bit_take_bit_iff)

lemma take_bit_128: "take_bit 128 (x :: 128 word) = x"
  by (intro bit_word_eqI) (simp add: bit_take_bit_iff)

lemma num_value_read_member: "num_value T (read_member T x) = num_value T x"
proof -
  have m: "float_magnitude w (take_bit w x) = float_magnitude w x" for w
    by (simp add: float_magnitude_def min_def)
  have b: "0 < w \<Longrightarrow> w \<le> 128 \<Longrightarrow> bit (take_bit w x) (w - 1) = bit x (w - 1)" for w
    by (simp add: bit_take_bit_iff)
  have f: "0 < w \<Longrightarrow> w \<le> 128 \<Longrightarrow> float_signed w (take_bit w x) = float_signed w x" for w
    by (simp only: float_signed_def m b)
  show ?thesis
    by (cases T) (simp_all add: num_value_def read_member_def type_width_def f ucast_take_bit take_bit_128)
qed

lemma IsNan_read_member: "IsNan T (read_member T x) = IsNan T x"
proof -
  have "float_magnitude w (take_bit w x) = float_magnitude w x" for w
    by (simp add: float_magnitude_def min_def)
  then show ?thesis by (cases T) (simp_all add: IsNan_def read_member_def type_width_def)
qed

lemma total_key_read_member [simp]: "total_key T (read_member T x) = total_key T x"
  by (simp add: total_key_def num_value_read_member IsNan_read_member)

lemma read_member_idem [simp]: "read_member T (read_member T x) = read_member T x"
  by (simp add: read_member_def)

lemmas stats_simps = SetMin_def SetMax_def SetNumericValueInternal_def Min_stats_def Max_stats_def
  NumericValueUnionToValue_def num_of_def null_value_def

lemmas zonemap_eval = NumericStats_CheckZonemap_def CheckZonemapTemplated_def HasMinMax_def HasMin_def HasMax_def
  type_width_def num_eval

text \<open>Statistics whose unused members hold what a fresh object holds.\<close>

definition num_canonical :: "LogicalType \<Rightarrow> NumericStatsData \<Rightarrow> bool" where
  "num_canonical ty d \<longleftrightarrow>
     (if has_min d then nmin d = read_member (InternalType ty) (nmin d) else nmin d = 0)
     \<and> (if has_max d then nmax d = read_member (InternalType ty) (nmax d) else nmax d = 0)"

lemma NumericStats_roundtrip:
  assumes "is_numeric (InternalType ty)" "num_canonical ty d"
  shows "\<exists>fs. NumericStats_Serialize ty d = Inr fs \<and> NumericStats_Deserialize ty fs numeric_uninit = Inr d"
  using assms by (cases d)
    (auto simp: NumericStats_Serialize_def NumericStats_Deserialize_def SerializeNumericStatsValue_def
      DeserializeNumericStatsValue_def num_canonical_def numeric_uninit_def ser_simps split: if_splits)

section \<open>Properties\<close>

text \<open>
  The comparison operators the statistics use are a total preorder on every physical type,
  floating-point types included: NaN equals NaN, is above every other value, and \<open>==\<close>, \<open>>=\<close>,
  \<open><\<close>, \<open><=\<close> all follow from \<open>>\<close>.
\<close>

lemma comparison_total_preorder:
  "(\<not> GreaterThan T a b \<and> \<not> GreaterThan T b c \<longrightarrow> \<not> GreaterThan T a c)
   \<and> \<not> (GreaterThan T a b \<and> GreaterThan T b a)
   \<and> (Equals T a b \<longleftrightarrow> \<not> GreaterThan T a b \<and> \<not> GreaterThan T b a)
   \<and> (GreaterThanEquals T a b \<longleftrightarrow> \<not> GreaterThan T b a)
   \<and> (IsNan T a \<and> \<not> IsNan T b \<longrightarrow> GreaterThan T a b)"
proof -
  have "IsNan T a \<and> \<not> IsNan T b \<Longrightarrow> GreaterThan T a b"
    using IsNan_float [of T a] by (simp add: GreaterThan_def GreaterThanFloat_def)
  then show ?thesis
    using num_cmp.not_gt_trans [of T a b c] num_cmp.gt_asym [of T a b] num_cmp.eq_iff [of T a b] num_cmp.ge_iff [of T a b]
    by blast
qed

text \<open>
  The numeric zone map is sound. For every value within the statistics of a column, every
  comparison and every constant, NULL included: \<open>FILTER_ALWAYS_TRUE\<close> means the comparison holds,
  \<open>FILTER_ALWAYS_FALSE\<close> that it does not.
\<close>

lemma CheckZonemap_sound:
  assumes "num_contains ty d x" "NumericStats_CheckZonemap ty d op c = Inr r"
  shows "(r = FILTER_ALWAYS_TRUE \<longrightarrow> \<not> IsNull c \<and> comparison_holds (InternalType ty) op x (num_of c))
    \<and> (r = FILTER_ALWAYS_FALSE \<longrightarrow> IsNull c \<or> \<not> comparison_holds (InternalType ty) op x (num_of c))"
  using numeric_zonemap.always_true [of "(ty, d)" x "(InternalType ty, op)" c]
    numeric_zonemap.always_false [of "(ty, d)" x "(InternalType ty, op)" c] assms
  by (auto simp: num_stats_contain_def num_filter_holds_def num_check_def)

text \<open>
  For the four order comparisons the zone map is as precise as a minimum and a maximum can
  be: when it answers \<open>NO_PRUNING_POSSIBLE\<close>, one of the two bounds satisfies the comparison and
  the other does not.
\<close>

lemma CheckZonemap_precise:
  assumes "NumericStats_CheckZonemap ty d op c = Inr NO_PRUNING_POSSIBLE" "HasMinMax ty d"
    and "op \<in> {COMPARE_LESSTHAN, COMPARE_LESSTHANOREQUALTO, COMPARE_GREATERTHAN, COMPARE_GREATERTHANOREQUALTO}"
  shows "comparison_holds (InternalType ty) op (nmin d) (num_of c)
    \<noteq> comparison_holds (InternalType ty) op (nmax d) (num_of c)"
proof -
  have "CheckZonemapTemplated (InternalType ty) d op (num_of c) = Inr NO_PRUNING_POSSIBLE"
    using assms(1,2) by (simp add: NumericStats_CheckZonemap_def split: if_splits)
  with assms(3) show ?thesis
    by (elim insertE emptyE) (simp_all add: CheckZonemapTemplated_def comparison_holds_def Let_def split: if_splits)
qed

text \<open>
  C26: \<open>Update\<close> extends the statistics: afterwards they contain the new value and every value they
  contained before, provided both bounds are in use.
\<close>

theorem Update_extends:
  assumes "HasMinMax ty d" "y = x \<or> num_contains ty d y"
  shows "num_contains ty (NumericStats_Update (InternalType ty) x d) y"
proof -
  let ?T = "InternalType ty"
  have has: "type_id ty \<noteq> LogicalTypeId.SQLNULL" "has_min d" "has_max d"
    using assms(1) by (auto simp: HasMinMax_def HasMin_def HasMax_def split: if_splits)
  have y: "y = x \<or> total_key ?T (nmin d) \<le> total_key ?T y \<and> total_key ?T y \<le> total_key ?T (nmax d)"
    using assms(2) has by (auto simp: num_contains_def HasMin_def HasMax_def comparison_key)
  show ?thesis
    using y has by (cases "LessThan ?T x (nmin d)"; cases "GreaterThan ?T x (nmax d)")
      (auto simp: num_contains_def NumericStats_Update_def HasMin_def HasMax_def comparison_key)
qed

theorem Update_extends_witness:
  "let ty = simple_type LogicalTypeId.INTEGER; d = \<lparr>has_min = True, has_max = True, nmin = 3, nmax = 7\<rparr>
   in num_contains ty (NumericStats_Update (InternalType ty) 9 d) 9"
proof -
  let ?ty = "simple_type LogicalTypeId.INTEGER" and ?d = "\<lparr>has_min = True, has_max = True, nmin = 3, nmax = 7\<rparr>"
  have "HasMinMax ?ty ?d" by (simp add: HasMinMax_def HasMin_def HasMax_def)
  from Update_extends [OF this, of 9 9] show ?thesis by (simp add: Let_def)
qed

lemma Merge_min:
  assumes "is_numeric (InternalType ty)"
  shows "\<exists>d'. (if HasMin ty od \<and> HasMin ty d
           then bind_res (Min_stats ty od) (\<lambda>other_min. bind_res (Min_stats ty d) (\<lambda>this_min.
                  if LessThan (InternalType ty) (num_of other_min) (num_of this_min)
                  then SetMin ty other_min d else Inr d))
           else SetMin ty (null_value (simple_type LogicalTypeId.SQLNULL)) d) = Inr d'
    \<and> has_max d' = has_max d \<and> nmax d' = nmax d
    \<and> (HasMin ty d' \<longrightarrow> HasMin ty d \<and> HasMin ty od \<and> total_key (InternalType ty) (nmin d') \<le> total_key (InternalType ty) (nmin d)
         \<and> total_key (InternalType ty) (nmin d') \<le> total_key (InternalType ty) (nmin od))"
proof (cases "HasMin ty od \<and> HasMin ty d")
  case True
  then show ?thesis using assms
    by (cases "total_key (InternalType ty) (nmin od) < total_key (InternalType ty) (nmin d)")
      (simp_all add: stats_simps comparison_key)
next
  case False
  then show ?thesis by (auto simp: stats_simps HasMin_def)
qed

lemma Merge_max:
  assumes "is_numeric (InternalType ty)"
  shows "\<exists>d'. (if HasMax ty od \<and> HasMax ty d
           then bind_res (Max_stats ty od) (\<lambda>other_max. bind_res (Max_stats ty d) (\<lambda>this_max.
                  if GreaterThan (InternalType ty) (num_of other_max) (num_of this_max)
                  then SetMax ty other_max d else Inr d))
           else SetMax ty (null_value (simple_type LogicalTypeId.SQLNULL)) d) = Inr d'
    \<and> has_min d' = has_min d \<and> nmin d' = nmin d
    \<and> (HasMax ty d' \<longrightarrow> HasMax ty d \<and> HasMax ty od \<and> total_key (InternalType ty) (nmax d) \<le> total_key (InternalType ty) (nmax d')
         \<and> total_key (InternalType ty) (nmax od) \<le> total_key (InternalType ty) (nmax d'))"
proof (cases "HasMax ty od \<and> HasMax ty d")
  case True
  then show ?thesis using assms
    by (cases "total_key (InternalType ty) (nmax d) < total_key (InternalType ty) (nmax od)")
      (simp_all add: stats_simps comparison_key)
next
  case False
  then show ?thesis by (auto simp: stats_simps HasMax_def)
qed

lemma NumericStats_Merge_sound:
  assumes num: "is_numeric (InternalType ty)" and "type_id ty \<noteq> LogicalTypeId.VALIDITY"
  shows "\<exists>d'. NumericStats_Merge ty d ty od = Inr d'
    \<and> (\<forall>x. num_contains ty d x \<or> num_contains ty od x \<longrightarrow> num_contains ty d' x)"
proof -
  let ?k = "total_key (InternalType ty)"
  from Merge_min [OF num, of od d] obtain d1 where d1:
    "(if HasMin ty od \<and> HasMin ty d
           then bind_res (Min_stats ty od) (\<lambda>other_min. bind_res (Min_stats ty d) (\<lambda>this_min.
                  if LessThan (InternalType ty) (num_of other_min) (num_of this_min)
                  then SetMin ty other_min d else Inr d))
           else SetMin ty (null_value (simple_type LogicalTypeId.SQLNULL)) d) = Inr d1"
    "has_max d1 = has_max d" "nmax d1 = nmax d"
    "HasMin ty d1 \<longrightarrow> HasMin ty d \<and> HasMin ty od \<and> ?k (nmin d1) \<le> ?k (nmin d) \<and> ?k (nmin d1) \<le> ?k (nmin od)"
    by blast
  from Merge_max [OF num, of od d1] obtain d2 where d2:
    "(if HasMax ty od \<and> HasMax ty d1
           then bind_res (Max_stats ty od) (\<lambda>other_max. bind_res (Max_stats ty d1) (\<lambda>this_max.
                  if GreaterThan (InternalType ty) (num_of other_max) (num_of this_max)
                  then SetMax ty other_max d1 else Inr d1))
           else SetMax ty (null_value (simple_type LogicalTypeId.SQLNULL)) d1) = Inr d2"
    "has_min d2 = has_min d1" "nmin d2 = nmin d1"
    "HasMax ty d2 \<longrightarrow> HasMax ty d1 \<and> HasMax ty od \<and> ?k (nmax d1) \<le> ?k (nmax d2) \<and> ?k (nmax od) \<le> ?k (nmax d2)"
    by blast
  have "NumericStats_Merge ty d ty od = Inr d2"
    unfolding NumericStats_Merge_def using assms(2) d1(1) d2(1) by (simp only: if_False bind_res_Inr)
  moreover have "num_contains ty d2 x" if "num_contains ty d x \<or> num_contains ty od x" for x
  proof -
    have "HasMin ty d2 = HasMin ty d1" "HasMax ty d1 = HasMax ty d" using d1(2) d2(2) by (simp_all add: HasMin_def HasMax_def)
    with that d1(3,4) d2(3,4) show ?thesis unfolding num_contains_def comparison_key by force
  qed
  ultimately show ?thesis by blast
qed

text \<open>
  C32: \<open>Merge\<close> of two statistics of the same numeric type does not fail, and the result contains
  every value that either of them contains.
\<close>

lemma NumericStats_Merge_contains:
  assumes "is_numeric (InternalType ty)" "type_id ty \<noteq> LogicalTypeId.VALIDITY"
    and "num_contains ty d x \<or> num_contains ty od x"
  shows "\<exists>d'. NumericStats_Merge ty d ty od = Inr d' \<and> num_contains ty d' x"
  using NumericStats_Merge_sound [OF assms(1,2), of d od] assms(3) by blast

lemma fold_res_unit_Inr: "fold_res f is () = Inr u \<longleftrightarrow> (\<forall>i \<in> set is. f i () = Inr ())"
  by (induction "is") (auto simp: bind_res_eq_Inr)

lemma verify_row_iff:
  assumes "is_numeric (InternalType ty)"
  shows "\<exists>mn mx. MinOrNull ty d = Inr mn \<and> MaxOrNull ty d = Inr mx
    \<and> (\<forall>x. verify_row (InternalType ty) mn mx x = Inr () \<longleftrightarrow> num_contains ty d x)"
  using assms by (cases "HasMin ty d"; cases "HasMax ty d")
    (auto simp: MinOrNull_def MaxOrNull_def stats_simps verify_row_def num_contains_def comparison_key)

text \<open>
  A vector passes \<open>Verify\<close> exactly when every valid row it selects lies within the
  statistics, for every numeric type but \<open>BOOL\<close> (which the code does not check).
\<close>

lemma NumericStats_Verify_iff:
  assumes "zonemap_type (InternalType ty)"
  shows "NumericStats_Verify ty d vdata sel n = Inr () \<longleftrightarrow>
    (\<forall>i<n. uvalid vdata (usel vdata (sel i)) \<longrightarrow> num_contains ty d (udata vdata (usel vdata (sel i))))"
proof -
  obtain mn mx where "MinOrNull ty d = Inr mn" "MaxOrNull ty d = Inr mx"
    "\<forall>x. verify_row (InternalType ty) mn mx x = Inr () \<longleftrightarrow> num_contains ty d x"
    using verify_row_iff [of ty d] assms by auto
  then show ?thesis using assms
    by (auto simp: NumericStats_Verify_def TemplatedVerify_def fold_res_unit_Inr Let_def split: if_splits)
qed

end
