(* ===== verification/String_Stats.thy ===== *)
theory String_Stats
  imports Numeric_Stats
begin

unbundle bit_operations_syntax

text \<open>
  String zone maps, \<^verbatim>\<open>src/src/storage/statistics/string_stats.cpp\<close>: the first eight bytes of
  the smallest and of the largest string of a segment, padded with zeros, the longest length
  and whether there is Unicode.

  A string is the list of its bytes. Its order is that of \<open>string_t\<close>: the first byte that
  differs decides, and a proper prefix is smaller. \<open>Utf8Proc::Analyze\<close> of the third-party
  library is a parameter of the operations that call it.
\<close>

section \<open>The data\<close>

definition MAX_STRING_MINMAX_SIZE :: nat where
  "MAX_STRING_MINMAX_SIZE = 8"

record StringStatsData =
  smin :: "8 word list"
  smax :: "8 word list"
  has_unicode :: bool
  has_max_string_length :: bool
  max_string_length :: nat

datatype UnicodeType = UNICODE_INVALID | ASCII | UNICODE

definition StringStats_CreateUnknown :: StringStatsData where
  "StringStats_CreateUnknown =
     \<lparr>smin = replicate MAX_STRING_MINMAX_SIZE 0, smax = replicate MAX_STRING_MINMAX_SIZE 0xFF,
      has_unicode = True, has_max_string_length = False, max_string_length = 0\<rparr>"

definition StringStats_CreateEmpty :: StringStatsData where
  "StringStats_CreateEmpty =
     \<lparr>smin = replicate MAX_STRING_MINMAX_SIZE 0xFF, smax = replicate MAX_STRING_MINMAX_SIZE 0,
      has_unicode = False, has_max_string_length = True, max_string_length = 0\<rparr>"

definition HasMaxStringLength :: "LogicalType \<Rightarrow> StringStatsData \<Rightarrow> bool" where
  "HasMaxStringLength ty d = (if type_id ty = LogicalTypeId.SQLNULL then False else has_max_string_length d)"

definition MaxStringLength :: "LogicalType \<Rightarrow> StringStatsData \<Rightarrow> exc + nat" where
  "MaxStringLength ty d = (if \<not> HasMaxStringLength ty d then Inl InternalException else Inr (max_string_length d))"

definition CanContainUnicode :: "LogicalType \<Rightarrow> StringStatsData \<Rightarrow> bool" where
  "CanContainUnicode ty d = (if type_id ty = LogicalTypeId.SQLNULL then True else has_unicode d)"

text \<open>The bytes before the first zero.\<close>

definition GetStringMinMaxValue :: "8 word list \<Rightarrow> 8 word list" where
  "GetStringMinMaxValue data = takeWhile (\<lambda>b. b \<noteq> 0) (take MAX_STRING_MINMAX_SIZE data)"

definition ResetMaxStringLength :: "StringStatsData \<Rightarrow> StringStatsData" where
  "ResetMaxStringLength d = d\<lparr>has_max_string_length := False\<rparr>"

definition SetContainsUnicode :: "StringStatsData \<Rightarrow> StringStatsData" where
  "SetContainsUnicode d = d\<lparr>has_unicode := True\<rparr>"

text \<open>The comparison of the first \<open>len\<close> bytes: -1, 0 or 1.\<close>

fun StringValueComparison :: "8 word list \<Rightarrow> nat \<Rightarrow> 8 word list \<Rightarrow> int" where
  "StringValueComparison data 0 comparison = 0"
| "StringValueComparison (d # data) (Suc len) (c # comparison) =
     (if d < c then - 1 else if d > c then 1 else StringValueComparison data len comparison)"
| "StringValueComparison data (Suc len) comparison = 0"

text \<open>The string cut to eight bytes, or padded with zeros.\<close>

definition ConstructValue :: "8 word list \<Rightarrow> 8 word list" where
  "ConstructValue data =
     (let value_size = (if length data > MAX_STRING_MINMAX_SIZE then MAX_STRING_MINMAX_SIZE else length data)
      in take value_size data @ replicate (MAX_STRING_MINMAX_SIZE - value_size) 0)"

definition StringStats_Update ::
  "(8 word list \<Rightarrow> UnicodeType) \<Rightarrow> LogicalType \<Rightarrow> 8 word list \<Rightarrow> StringStatsData \<Rightarrow> exc + StringStatsData" where
  "StringStats_Update Analyze ty data d =
     (let target = ConstructValue data;
          d = (if StringValueComparison target MAX_STRING_MINMAX_SIZE (smin d) < 0 then d\<lparr>smin := target\<rparr> else d);
          d = (if StringValueComparison target MAX_STRING_MINMAX_SIZE (smax d) > 0 then d\<lparr>smax := target\<rparr> else d);
          d = (if length data > max_string_length d then d\<lparr>max_string_length := length data\<rparr> else d)
      in if type_id ty = LogicalTypeId.VARCHAR \<and> \<not> has_unicode d
         then case Analyze data of
                UNICODE \<Rightarrow> Inr (d\<lparr>has_unicode := True\<rparr>)
              | UNICODE_INVALID \<Rightarrow> Inl InvalidUnicodeError
              | ASCII \<Rightarrow> Inr d
         else Inr d)"

definition StringStats_Merge :: "StringStatsData \<Rightarrow> LogicalType \<Rightarrow> StringStatsData \<Rightarrow> StringStatsData" where
  "StringStats_Merge d oty od =
     (if type_id oty = LogicalTypeId.VALIDITY then d
      else
        let d = (if StringValueComparison (smin od) MAX_STRING_MINMAX_SIZE (smin d) < 0 then d\<lparr>smin := smin od\<rparr> else d);
            d = (if StringValueComparison (smax od) MAX_STRING_MINMAX_SIZE (smax d) > 0 then d\<lparr>smax := smax od\<rparr> else d)
        in d\<lparr>has_unicode := has_unicode d \<or> has_unicode od,
             has_max_string_length := has_max_string_length d \<and> has_max_string_length od,
             max_string_length := max (max_string_length d) (max_string_length od)\<rparr>)"

definition StringStats_CheckZonemap ::
  "StringStatsData \<Rightarrow> ExpressionType \<Rightarrow> 8 word list \<Rightarrow> exc + FilterPropagateResult" where
  "StringStats_CheckZonemap d comparison_type c =
     (let value_size = (if length c > MAX_STRING_MINMAX_SIZE then MAX_STRING_MINMAX_SIZE else length c);
          min_comp = StringValueComparison c value_size (smin d);
          max_comp = StringValueComparison c value_size (smax d)
      in case comparison_type of
           COMPARE_EQUAL \<Rightarrow>
             if min_comp \<ge> 0 \<and> max_comp \<le> 0 then Inr NO_PRUNING_POSSIBLE else Inr FILTER_ALWAYS_FALSE
         | COMPARE_NOTEQUAL \<Rightarrow>
             if min_comp < 0 \<or> max_comp > 0 then Inr FILTER_ALWAYS_TRUE else Inr NO_PRUNING_POSSIBLE
         | COMPARE_GREATERTHANOREQUALTO \<Rightarrow>
             if max_comp \<le> 0 then Inr NO_PRUNING_POSSIBLE else Inr FILTER_ALWAYS_FALSE
         | COMPARE_GREATERTHAN \<Rightarrow>
             if max_comp \<le> 0 then Inr NO_PRUNING_POSSIBLE else Inr FILTER_ALWAYS_FALSE
         | COMPARE_LESSTHAN \<Rightarrow>
             if min_comp \<ge> 0 then Inr NO_PRUNING_POSSIBLE else Inr FILTER_ALWAYS_FALSE
         | COMPARE_LESSTHANOREQUALTO \<Rightarrow>
             if min_comp \<ge> 0 then Inr NO_PRUNING_POSSIBLE else Inr FILTER_ALWAYS_FALSE
         | _ \<Rightarrow> Inl InternalException)"

text \<open>The body of the loop of \<open>Verify\<close>.\<close>

definition StringStats_verify_row ::
  "(8 word list \<Rightarrow> UnicodeType) \<Rightarrow> LogicalType \<Rightarrow> StringStatsData \<Rightarrow> 8 word list \<Rightarrow> exc + unit" where
  "StringStats_verify_row Analyze ty d data =
     (let len = length data; n = min len MAX_STRING_MINMAX_SIZE
      in if has_max_string_length d \<and> len > max_string_length d then Inl InternalException
         else if type_id ty = LogicalTypeId.VARCHAR \<and> \<not> has_unicode d \<and> Analyze data \<noteq> ASCII then Inl InternalException
         else if StringValueComparison data n (smin d) < 0 then Inl InternalException
         else if StringValueComparison data n (smax d) > 0 then Inl InternalException
         else Inr ())"

definition StringStats_Verify ::
  "(8 word list \<Rightarrow> UnicodeType) \<Rightarrow> LogicalType \<Rightarrow> StringStatsData \<Rightarrow> 8 word list UnifiedVectorFormat \<Rightarrow> (nat \<Rightarrow> nat)
    \<Rightarrow> nat \<Rightarrow> exc + unit" where
  "StringStats_Verify Analyze ty d vdata sel cnt =
     fold_res (\<lambda>i u. let index = usel vdata (sel i)
                     in if \<not> uvalid vdata index then Inr ()
                        else StringStats_verify_row Analyze ty d (udata vdata index))
       [0..<cnt] ()"

section \<open>Serialization\<close>

definition StringStats_Serialize :: "StringStatsData \<Rightarrow> fields" where
  "StringStats_Serialize d =
     [(200, ''min'', SerBytes (smin d)), (201, ''max'', SerBytes (smax d)),
      (202, ''has_unicode'', SerBool (has_unicode d)),
      (203, ''has_max_string_length'', SerBool (has_max_string_length d)),
      (204, ''max_string_length'', SerNat (max_string_length d))]"

definition StringStats_Deserialize :: "fields \<Rightarrow> exc + StringStatsData" where
  "StringStats_Deserialize fs =
     bind_res (read_bytes 200 ''min'' fs) (\<lambda>(mn, fs).
     bind_res (read_bytes 201 ''max'' fs) (\<lambda>(mx, fs).
     bind_res (read_bool 202 ''has_unicode'' fs) (\<lambda>(u, fs).
     bind_res (read_bool 203 ''has_max_string_length'' fs) (\<lambda>(h, fs).
     bind_res (read_nat 204 ''max_string_length'' fs) (\<lambda>(n, fs).
       Inr \<lparr>smin = mn, smax = mx, has_unicode = u, has_max_string_length = h, max_string_length = n\<rparr>)))))"

lemma StringStats_roundtrip: "StringStats_Deserialize (StringStats_Serialize d) = Inr d"
  by (simp add: StringStats_Deserialize_def StringStats_Serialize_def ser_simps)

section \<open>The order of strings\<close>

fun bytes_less :: "8 word list \<Rightarrow> 8 word list \<Rightarrow> bool" where
  "bytes_less xs [] = False"
| "bytes_less [] (y # ys) = True"
| "bytes_less (x # xs) (y # ys) = (x < y \<or> x = y \<and> bytes_less xs ys)"

definition string_holds :: "ExpressionType \<Rightarrow> 8 word list \<Rightarrow> 8 word list \<Rightarrow> bool" where
  "string_holds op x c =
     (case op of
        COMPARE_EQUAL \<Rightarrow> x = c
      | COMPARE_NOTEQUAL \<Rightarrow> x \<noteq> c
      | COMPARE_LESSTHAN \<Rightarrow> bytes_less x c
      | COMPARE_GREATERTHAN \<Rightarrow> bytes_less c x
      | COMPARE_LESSTHANOREQUALTO \<Rightarrow> \<not> bytes_less c x
      | COMPARE_GREATERTHANOREQUALTO \<Rightarrow> \<not> bytes_less x c
      | _ \<Rightarrow> False)"

lemma bytes_less_irrefl: "\<not> bytes_less x x"
  by (induction x) auto

lemma bytes_less_asym: "bytes_less x y \<Longrightarrow> \<not> bytes_less y x"
  by (induction x y rule: bytes_less.induct) auto

text \<open>The padded prefix of the string lies between the two bounds.\<close>

definition str_contains :: "StringStatsData \<Rightarrow> 8 word list \<Rightarrow> bool" where
  "str_contains d x \<longleftrightarrow>
     \<not> StringValueComparison (ConstructValue x) MAX_STRING_MINMAX_SIZE (smin d) < 0
     \<and> \<not> StringValueComparison (ConstructValue x) MAX_STRING_MINMAX_SIZE (smax d) > 0"

definition str_wf :: "StringStatsData \<Rightarrow> bool" where
  "str_wf d \<longleftrightarrow> length (smin d) = MAX_STRING_MINMAX_SIZE \<and> length (smax d) = MAX_STRING_MINMAX_SIZE"

text \<open>Comparison of a string with the padded prefix of another one, byte by byte.\<close>

fun pad :: "nat \<Rightarrow> 8 word list \<Rightarrow> 8 word list" where
  "pad 0 xs = []"
| "pad (Suc n) [] = 0 # pad n []"
| "pad (Suc n) (x # xs) = x # pad n xs"

lemma pad_Nil: "pad n [] = replicate n 0"
  by (induction n) auto

lemma ConstructValue_pad: "ConstructValue xs = pad MAX_STRING_MINMAX_SIZE xs"
proof -
  have "take (min n (length xs)) xs @ replicate (n - min n (length xs)) 0 = pad n xs" for n
    by (induction n xs rule: pad.induct) (auto simp: pad_Nil)
  from this [of MAX_STRING_MINMAX_SIZE] show ?thesis
    by (cases "length xs > MAX_STRING_MINMAX_SIZE") (simp_all add: ConstructValue_def Let_def)
qed

lemma length_pad [simp]: "length (pad n xs) = n"
  by (induction n xs rule: pad.induct) auto

lemma cmp_trans_less:
  assumes "length a = n" "length b = n" "length c = n"
  shows "StringValueComparison a n b \<le> 0 \<Longrightarrow> StringValueComparison b n c \<le> 0 \<Longrightarrow> StringValueComparison a n c \<le> 0"
  using assms
proof (induction n arbitrary: a b c)
  case (Suc n)
  then obtain x a' y b' z c' where abc: "a = x # a'" "b = y # b'" "c = z # c'" by (metis length_Suc_conv)
  have "x \<le> y" "y \<le> z" using Suc.prems(1,2) by (auto simp: abc split: if_splits)
  with Suc.IH [of a' b' c'] Suc.prems show ?case by (cases "x = y"; cases "y = z") (auto simp: abc)
qed simp

lemma cmp_antisym: "length a = n \<Longrightarrow> length b = n \<Longrightarrow> StringValueComparison a n b = - StringValueComparison b n a"
proof (induction n arbitrary: a b)
  case (Suc n)
  then obtain x a' y b' where "a = x # a'" "b = y # b'" by (metis length_Suc_conv)
  with Suc.IH [of a' b'] Suc.prems show ?case by auto
qed simp

text \<open>The key facts: a strict difference with a bound decides the order of the whole strings.\<close>

lemma below_min:
  assumes "length m = n" "k \<le> length c" "k \<le> n"
    and "StringValueComparison c k m < 0" "\<not> StringValueComparison (pad n x) n m < 0"
  shows "bytes_less c x"
  using assms
proof (induction k arbitrary: c m x n)
  case (Suc k)
  then obtain b c' where c: "c = b # c'" by (cases c) auto
  from Suc.prems obtain n' where n: "n = Suc n'" by (cases n) auto
  from Suc.prems n obtain e m' where m: "m = e # m'" by (cases m) auto
  show ?case
  proof (cases x)
    case Nil
    then show ?thesis using Suc.prems Suc.IH [of m' n' c' "[]"] c m n
      by (auto simp: word_gt_0 word_not_simps split: if_splits)
  next
    case (Cons a x')
    then show ?thesis using Suc.prems Suc.IH [of m' n' c' x'] c m n by (auto split: if_splits)
  qed
qed simp

lemma above_max:
  assumes "length m = n" "k \<le> length c" "k \<le> n"
    and "StringValueComparison c k m > 0" "\<not> StringValueComparison (pad n x) n m > 0"
  shows "bytes_less x c"
  using assms
proof (induction k arbitrary: c m x n)
  case (Suc k)
  then obtain b c' where c: "c = b # c'" by (cases c) auto
  from Suc.prems obtain n' where n: "n = Suc n'" by (cases n) auto
  from Suc.prems n obtain e m' where m: "m = e # m'" by (cases m) auto
  show ?case
  proof (cases x)
    case Nil
    then show ?thesis by (simp add: c)
  next
    case (Cons a x')
    then show ?thesis using Suc.prems Suc.IH [of m' n' c' x'] c m n by (auto split: if_splits)
  qed
qed simp

lemma cmp_prefix:
  assumes "length m = n" "k \<le> length x" "k \<le> n" "StringValueComparison x k m \<noteq> 0"
  shows "StringValueComparison (pad n x) n m = StringValueComparison x k m"
  using assms
proof (induction k arbitrary: x m n)
  case (Suc k)
  then obtain b x' where x: "x = b # x'" by (cases x) auto
  from Suc.prems obtain n' where n: "n = Suc n'" by (cases n) auto
  from Suc.prems n obtain e m' where m: "m = e # m'" by (cases m) auto
  show ?case using Suc.prems Suc.IH [of m' n' x'] x m n by auto
qed simp

text \<open>The instance of the zone map interface.\<close>

definition str_stats_contain :: "StringStatsData \<Rightarrow> 8 word list \<Rightarrow> bool" where
  "str_stats_contain d x \<longleftrightarrow> str_wf d \<and> str_contains d x"

lemma value_size_bounds:
  "(if length c > n then n else length c) \<le> length c" "(if length c > n then n else length c) \<le> n" for n :: nat
  by auto

lemma StringStats_CheckZonemap_cases:
  fixes c
  defines "k \<equiv> (if length c > MAX_STRING_MINMAX_SIZE then MAX_STRING_MINMAX_SIZE else length c)"
  assumes "StringStats_CheckZonemap d op c = Inr r"
  shows "r = NO_PRUNING_POSSIBLE
    \<or> r = FILTER_ALWAYS_TRUE \<and> op = COMPARE_NOTEQUAL
        \<and> (StringValueComparison c k (smin d) < 0 \<or> StringValueComparison c k (smax d) > 0)
    \<or> r = FILTER_ALWAYS_FALSE \<and> op = COMPARE_EQUAL
        \<and> (StringValueComparison c k (smin d) < 0 \<or> StringValueComparison c k (smax d) > 0)
    \<or> r = FILTER_ALWAYS_FALSE \<and> op \<in> {COMPARE_GREATERTHAN, COMPARE_GREATERTHANOREQUALTO}
        \<and> StringValueComparison c k (smax d) > 0
    \<or> r = FILTER_ALWAYS_FALSE \<and> op \<in> {COMPARE_LESSTHAN, COMPARE_LESSTHANOREQUALTO}
        \<and> StringValueComparison c k (smin d) < 0"
  using assms(2) unfolding StringStats_CheckZonemap_def Let_def k_def [symmetric]
  by (cases op) (simp_all add: not_le split: if_splits)

interpretation string_zonemap: zonemap str_stats_contain string_holds StringStats_CheckZonemap
proof
  fix d :: StringStatsData and x c :: "8 word list" and op r
  let ?n = MAX_STRING_MINMAX_SIZE
  let ?k = "if length c > ?n then ?n else length c"
  have lo: "bytes_less c x" if "str_stats_contain d x" "StringValueComparison c ?k (smin d) < 0"
    using below_min [of "smin d" ?n ?k c x] value_size_bounds [where c = c and n = ?n] that
    by (auto simp: str_stats_contain_def str_wf_def str_contains_def ConstructValue_pad)
  have hi: "bytes_less x c" if "str_stats_contain d x" "StringValueComparison c ?k (smax d) > 0"
    using above_max [of "smax d" ?n ?k c x] value_size_bounds [where c = c and n = ?n] that
    by (auto simp: str_stats_contain_def str_wf_def str_contains_def ConstructValue_pad)
  {
    assume "str_stats_contain d x" "StringStats_CheckZonemap d op c = Inr FILTER_ALWAYS_TRUE"
    then show "string_holds op x c"
      using StringStats_CheckZonemap_cases [of d op c FILTER_ALWAYS_TRUE] lo hi bytes_less_irrefl
      by (auto simp: string_holds_def)
  next
    assume "str_stats_contain d x" "StringStats_CheckZonemap d op c = Inr FILTER_ALWAYS_FALSE"
    then show "\<not> string_holds op x c"
      using StringStats_CheckZonemap_cases [of d op c FILTER_ALWAYS_FALSE] lo hi bytes_less_irrefl
        bytes_less_asym [of x c] bytes_less_asym [of c x]
      by (auto simp: string_holds_def)
  next
    assume "StringStats_CheckZonemap d op c = Inr r"
    then show "r \<in> {NO_PRUNING_POSSIBLE, FILTER_ALWAYS_TRUE, FILTER_ALWAYS_FALSE}"
      using StringStats_CheckZonemap_cases [of d op c r] by blast
  }
qed

section \<open>Properties\<close>

text \<open>
  The string zone map is sound although it keeps eight bytes only: for every string whose
  padded prefix lies within the bounds, \<open>FILTER_ALWAYS_TRUE\<close> means the comparison of the full
  strings holds and \<open>FILTER_ALWAYS_FALSE\<close> that it does not.
\<close>

lemma StringStats_CheckZonemap_sound:
  assumes "str_wf d" "str_contains d x" "StringStats_CheckZonemap d op c = Inr r"
  shows "(r = FILTER_ALWAYS_TRUE \<longrightarrow> string_holds op x c) \<and> (r = FILTER_ALWAYS_FALSE \<longrightarrow> \<not> string_holds op x c)"
  using string_zonemap.always_true [of d x op c] string_zonemap.always_false [of d x op c] assms
  by (auto simp: str_stats_contain_def)

lemma cmp_le_refl: "StringValueComparison a n a = 0"
proof (induction n arbitrary: a)
  case (Suc n)
  then show ?case by (cases a) auto
qed simp

lemma cmp_not_less: "length a = n \<Longrightarrow> length b = n \<Longrightarrow> \<not> StringValueComparison a n b < 0 \<longleftrightarrow> StringValueComparison b n a \<le> 0"
  using cmp_antisym [of a n b] by auto

definition pad_le :: "8 word list \<Rightarrow> 8 word list \<Rightarrow> bool" where
  "pad_le a b \<longleftrightarrow> StringValueComparison a MAX_STRING_MINMAX_SIZE b \<le> 0"

lemma str_contains_le:
  "str_wf d \<Longrightarrow> str_contains d x \<longleftrightarrow> pad_le (smin d) (ConstructValue x) \<and> pad_le (ConstructValue x) (smax d)"
  by (auto simp: str_contains_def pad_le_def str_wf_def ConstructValue_pad cmp_not_less)

lemma pad_le_trans:
  "length a = MAX_STRING_MINMAX_SIZE \<Longrightarrow> length b = MAX_STRING_MINMAX_SIZE \<Longrightarrow> length c = MAX_STRING_MINMAX_SIZE \<Longrightarrow>
    pad_le a b \<Longrightarrow> pad_le b c \<Longrightarrow> pad_le a c"
  unfolding pad_le_def by (rule cmp_trans_less)

lemma pad_le_linear:
  "length a = MAX_STRING_MINMAX_SIZE \<Longrightarrow> length b = MAX_STRING_MINMAX_SIZE \<Longrightarrow>
    (StringValueComparison a MAX_STRING_MINMAX_SIZE b < 0 \<longrightarrow> pad_le a b) \<and>
    (\<not> StringValueComparison a MAX_STRING_MINMAX_SIZE b < 0 \<longrightarrow> pad_le b a) \<and>
    (StringValueComparison a MAX_STRING_MINMAX_SIZE b > 0 \<longrightarrow> pad_le b a) \<and>
    (\<not> StringValueComparison a MAX_STRING_MINMAX_SIZE b > 0 \<longrightarrow> pad_le a b)"
  using cmp_antisym [of a MAX_STRING_MINMAX_SIZE b] by (auto simp: pad_le_def)

lemma length_ConstructValue [simp]: "length (ConstructValue x) = MAX_STRING_MINMAX_SIZE"
  by (simp add: ConstructValue_pad)

lemma pad_le_refl: "pad_le a a"
  by (simp add: pad_le_def cmp_le_refl)

text \<open>Widening the bounds.\<close>

lemma str_contains_widen:
  assumes "str_wf d" "str_wf d'" "pad_le (smin d') (smin d)" "pad_le (smax d) (smax d')" "str_contains d x"
  shows "str_contains d' x"
proof -
  have "pad_le (smin d) (ConstructValue x)" "pad_le (ConstructValue x) (smax d)"
    using assms(1,5) by (simp_all add: str_contains_le)
  then show ?thesis
    using assms pad_le_trans [of "smin d'" "smin d" "ConstructValue x"] pad_le_trans [of "ConstructValue x" "smax d" "smax d'"]
    by (simp add: str_contains_le str_wf_def)
qed

lemma StringStats_Update_bounds:
  assumes "str_wf d" "StringStats_Update Analyze ty x d = Inr d'"
  shows "str_wf d' \<and> pad_le (smin d') (smin d) \<and> pad_le (smax d) (smax d')
    \<and> pad_le (smin d') (ConstructValue x) \<and> pad_le (ConstructValue x) (smax d')"
proof -
  let ?t = "ConstructValue x" and ?n = MAX_STRING_MINMAX_SIZE
  have b: "smin d' = (if StringValueComparison ?t ?n (smin d) < 0 then ?t else smin d)"
    "smax d' = (if StringValueComparison ?t ?n (smax d) > 0 then ?t else smax d)"
    using assms(2) by (auto simp: StringStats_Update_def Let_def split: if_splits UnicodeType.splits)
  have l: "length (smin d) = ?n" "length (smax d) = ?n" using assms(1) by (simp_all add: str_wf_def)
  show ?thesis
    using pad_le_linear [of ?t "smin d"] pad_le_linear [of ?t "smax d"] l
    by (simp add: b str_wf_def pad_le_refl)
qed

lemma StringStats_Merge_bounds:
  assumes "str_wf d" "str_wf od" "type_id ty \<noteq> LogicalTypeId.VALIDITY"
  shows "str_wf (StringStats_Merge d ty od) \<and> pad_le (smin (StringStats_Merge d ty od)) (smin d)
    \<and> pad_le (smin (StringStats_Merge d ty od)) (smin od)
    \<and> pad_le (smax d) (smax (StringStats_Merge d ty od)) \<and> pad_le (smax od) (smax (StringStats_Merge d ty od))"
proof -
  let ?n = MAX_STRING_MINMAX_SIZE
  have b: "smin (StringStats_Merge d ty od) = (if StringValueComparison (smin od) ?n (smin d) < 0 then smin od else smin d)"
    "smax (StringStats_Merge d ty od) = (if StringValueComparison (smax od) ?n (smax d) > 0 then smax od else smax d)"
    using assms(3) by (simp_all add: StringStats_Merge_def Let_def)
  show ?thesis
    using pad_le_linear [of "smin od" "smin d"] pad_le_linear [of "smax od" "smax d"] assms(1,2)
    by (simp add: b str_wf_def pad_le_refl)
qed

text \<open>
  C28: \<open>Update\<close> and \<open>Merge\<close> of string statistics only extend them: after an update that accepts the
  string they contain it and everything they contained before, and a merge contains what either
  side contained; both keep the eight-byte bounds.
\<close>

theorem StringStats_extend:
  assumes "str_wf d" "str_wf od" "type_id ty \<noteq> LogicalTypeId.VALIDITY"
    and "StringStats_Update Analyze ty x d = Inr d'"
  shows "str_wf d' \<and> str_wf (StringStats_Merge d ty od)
    \<and> str_contains d' x \<and> (str_contains d y \<longrightarrow> str_contains d' y)
    \<and> (str_contains d y \<or> str_contains od y \<longrightarrow> str_contains (StringStats_Merge d ty od) y)"
proof -
  note u = StringStats_Update_bounds [OF assms(1,4)] and m = StringStats_Merge_bounds [OF assms(1,2,3)]
  have "str_contains d' x" using u by (simp add: str_contains_le)
  moreover have "str_contains d y \<longrightarrow> str_contains d' y" using u str_contains_widen [OF assms(1), of d' y] by blast
  moreover have "str_contains d y \<or> str_contains od y \<longrightarrow> str_contains (StringStats_Merge d ty od) y"
    using m str_contains_widen [OF assms(1), of "StringStats_Merge d ty od" y]
      str_contains_widen [OF assms(2), of "StringStats_Merge d ty od" y] by blast
  ultimately show ?thesis using u m by blast
qed

theorem StringStats_extend_witness:
  "\<exists>d'. StringStats_Update (\<lambda>_. ASCII) (simple_type LogicalTypeId.VARCHAR) [97, 98] StringStats_CreateEmpty = Inr d'
     \<and> str_contains d' [97, 98]"
proof -
  have wf: "str_wf StringStats_CreateEmpty" by (simp add: str_wf_def StringStats_CreateEmpty_def)
  obtain d' where d': "StringStats_Update (\<lambda>_. ASCII) (simple_type LogicalTypeId.VARCHAR) [97, 98] StringStats_CreateEmpty = Inr d'"
    by (simp add: StringStats_Update_def Let_def cong: if_cong)
  from StringStats_extend [OF wf wf _ d'] d' show ?thesis by simp
qed

text \<open>
  A string that the statistics contain, that is not longer than their maximum length and
  whose Unicode class they allow passes \<open>Verify\<close>.
\<close>

lemma StringStats_Verify_complete:
  assumes "str_wf d" "str_contains d x"
    and "has_max_string_length d \<longrightarrow> length x \<le> max_string_length d"
    and "type_id ty = LogicalTypeId.VARCHAR \<and> \<not> has_unicode d \<longrightarrow> Analyze x = ASCII"
  shows "StringStats_verify_row Analyze ty d x = Inr ()"
proof -
  let ?n = MAX_STRING_MINMAX_SIZE and ?k = "min (length x) MAX_STRING_MINMAX_SIZE"
  have "\<not> StringValueComparison x ?k (smin d) < 0" "\<not> StringValueComparison x ?k (smax d) > 0"
    using assms(1,2) cmp_prefix [of "smin d" ?n ?k x] cmp_prefix [of "smax d" ?n ?k x]
    by (auto simp: str_wf_def str_contains_def ConstructValue_pad)
  then show ?thesis using assms(3,4) by (auto simp: StringStats_verify_row_def Let_def)
qed

end
