(* ===== verification/Base_Statistics.thy ===== *)
theory Base_Statistics
  imports String_Stats
begin

unbundle bit_operations_syntax

text \<open>
  The statistics of a column of any type, \<^verbatim>\<open>src/src/storage/statistics/base_statistics.cpp\<close>
  with \<^verbatim>\<open>list_stats.cpp\<close>, \<^verbatim>\<open>struct_stats.cpp\<close> and \<^verbatim>\<open>array_stats.cpp\<close>: a tree that
  follows the type, with numeric or string data at the leaves.

  \<open>stats_contain s v\<close> says that the statistics allow the value; the lemmas show that merging,
  constants, copies and serialization respect it.
\<close>

section \<open>The class\<close>

datatype StatisticsType = NUMERIC_STATS | STRING_STATS | LIST_STATS | STRUCT_STATS | BASE_STATS | ARRAY_STATS

datatype StatsInfo =
    CAN_HAVE_NULL_VALUES | CANNOT_HAVE_NULL_VALUES | CAN_HAVE_VALID_VALUES | CANNOT_HAVE_VALID_VALUES
  | CAN_HAVE_NULL_AND_VALID_VALUES

datatype BaseStatistics =
  BaseStatistics (stats_ty: LogicalType) (has_null: bool) (has_no_null: bool) (distinct_count: nat)
    (numeric_data: NumericStatsData) (string_data: StringStatsData) (child_stats: "BaseStatistics list")

definition GetStatsType :: "LogicalType \<Rightarrow> StatisticsType" where
  "GetStatsType ty =
     (if type_id ty = LogicalTypeId.SQLNULL then BASE_STATS
      else case InternalType ty of
             PhysicalType.BOOL \<Rightarrow> NUMERIC_STATS
           | PhysicalType.INT8 \<Rightarrow> NUMERIC_STATS
           | PhysicalType.INT16 \<Rightarrow> NUMERIC_STATS
           | PhysicalType.INT32 \<Rightarrow> NUMERIC_STATS
           | PhysicalType.INT64 \<Rightarrow> NUMERIC_STATS
           | PhysicalType.UINT8 \<Rightarrow> NUMERIC_STATS
           | PhysicalType.UINT16 \<Rightarrow> NUMERIC_STATS
           | PhysicalType.UINT32 \<Rightarrow> NUMERIC_STATS
           | PhysicalType.UINT64 \<Rightarrow> NUMERIC_STATS
           | PhysicalType.INT128 \<Rightarrow> NUMERIC_STATS
           | PhysicalType.UINT128 \<Rightarrow> NUMERIC_STATS
           | PhysicalType.FLOAT \<Rightarrow> NUMERIC_STATS
           | PhysicalType.DOUBLE \<Rightarrow> NUMERIC_STATS
           | PhysicalType.VARCHAR \<Rightarrow> STRING_STATS
           | PhysicalType.STRUCT \<Rightarrow> STRUCT_STATS
           | PhysicalType.LIST \<Rightarrow> LIST_STATS
           | PhysicalType.ARRAY \<Rightarrow> ARRAY_STATS
           | _ \<Rightarrow> BASE_STATS)"

abbreviation nested_stats :: "StatisticsType \<Rightarrow> bool" where
  "nested_stats t \<equiv> t = LIST_STATS \<or> t = STRUCT_STATS \<or> t = ARRAY_STATS"

definition string_uninit :: StringStatsData where
  "string_uninit = \<lparr>smin = replicate MAX_STRING_MINMAX_SIZE 0, smax = replicate MAX_STRING_MINMAX_SIZE 0,
     has_unicode = False, has_max_string_length = False, max_string_length = 0\<rparr>"

text \<open>
  \<open>Construct\<close> builds the tree of the type; the other fields are not initialised. \<open>ListStats::Construct\<close>,
  \<open>StructStats::Construct\<close> and \<open>ArrayStats::Construct\<close> construct one child per child type.
\<close>

function Construct :: "LogicalType \<Rightarrow> BaseStatistics" where
  "Construct ty =
     BaseStatistics ty False False 0 numeric_uninit string_uninit
       (if nested_stats (GetStatsType ty) then map Construct (child_types ty) else [])"
  by pat_completeness auto
termination by (relation "measure size") (auto dest: child_types_size)

declare Construct.simps [simp del]

definition set_null :: "bool \<Rightarrow> bool \<Rightarrow> BaseStatistics \<Rightarrow> BaseStatistics" where
  "set_null n nn s = BaseStatistics (stats_ty s) n nn (distinct_count s) (numeric_data s) (string_data s) (child_stats s)"

definition set_distinct :: "nat \<Rightarrow> BaseStatistics \<Rightarrow> BaseStatistics" where
  "set_distinct k s = BaseStatistics (stats_ty s) (has_null s) (has_no_null s) k (numeric_data s) (string_data s) (child_stats s)"

definition set_numeric :: "NumericStatsData \<Rightarrow> BaseStatistics \<Rightarrow> BaseStatistics" where
  "set_numeric d s = BaseStatistics (stats_ty s) (has_null s) (has_no_null s) (distinct_count s) d (string_data s) (child_stats s)"

definition set_string :: "StringStatsData \<Rightarrow> BaseStatistics \<Rightarrow> BaseStatistics" where
  "set_string d s = BaseStatistics (stats_ty s) (has_null s) (has_no_null s) (distinct_count s) (numeric_data s) d (child_stats s)"

definition set_children :: "BaseStatistics list \<Rightarrow> BaseStatistics \<Rightarrow> BaseStatistics" where
  "set_children cs s = BaseStatistics (stats_ty s) (has_null s) (has_no_null s) (distinct_count s) (numeric_data s) (string_data s) cs"

lemmas set_defs = set_null_def set_distinct_def set_numeric_def set_string_def set_children_def

lemma set_sel [simp]:
  "stats_ty (set_null n nn s) = stats_ty s" "has_null (set_null n nn s) = n" "has_no_null (set_null n nn s) = nn"
  "numeric_data (set_null n nn s) = numeric_data s" "string_data (set_null n nn s) = string_data s"
  "child_stats (set_null n nn s) = child_stats s"
  "stats_ty (set_distinct k s) = stats_ty s" "has_null (set_distinct k s) = has_null s"
  "has_no_null (set_distinct k s) = has_no_null s" "numeric_data (set_distinct k s) = numeric_data s"
  "string_data (set_distinct k s) = string_data s" "child_stats (set_distinct k s) = child_stats s"
  "stats_ty (set_numeric d s) = stats_ty s" "has_null (set_numeric d s) = has_null s"
  "has_no_null (set_numeric d s) = has_no_null s" "numeric_data (set_numeric d s) = d"
  "string_data (set_numeric d s) = string_data s" "child_stats (set_numeric d s) = child_stats s"
  "stats_ty (set_string e s) = stats_ty s" "has_null (set_string e s) = has_null s"
  "has_no_null (set_string e s) = has_no_null s" "numeric_data (set_string e s) = numeric_data s"
  "string_data (set_string e s) = e" "child_stats (set_string e s) = child_stats s"
  "stats_ty (set_children cs s) = stats_ty s" "has_null (set_children cs s) = has_null s"
  "has_no_null (set_children cs s) = has_no_null s" "numeric_data (set_children cs s) = numeric_data s"
  "string_data (set_children cs s) = string_data s" "child_stats (set_children cs s) = cs"
  by (simp_all add: set_defs)

lemma child_stats_size: "c \<in> set (child_stats s) \<Longrightarrow> size c < size s"
proof (cases s)
  case (BaseStatistics ty n nn k d e cs)
  assume "c \<in> set (child_stats s)"
  then have "size c < size_list size cs" unfolding BaseStatistics by (induction cs) auto
  then show ?thesis unfolding BaseStatistics by simp
qed

definition InitializeUnknown :: "BaseStatistics \<Rightarrow> BaseStatistics" where
  "InitializeUnknown = set_null True True"

definition InitializeEmpty :: "BaseStatistics \<Rightarrow> BaseStatistics" where
  "InitializeEmpty = set_null False True"

text \<open>
  \<open>Copy\<close>: the base fields, the union and, for a nested type, the children one by one; the type
  of the target stays.
\<close>

function Copy :: "BaseStatistics \<Rightarrow> BaseStatistics \<Rightarrow> BaseStatistics" where
  "Copy s other =
     BaseStatistics (stats_ty s) (has_null other) (has_no_null other) (distinct_count other)
       (numeric_data other) (string_data other)
       (if nested_stats (GetStatsType (stats_ty s))
        then map (\<lambda>(a, b). Copy a b) (zip (child_stats s) (child_stats other)) else child_stats s)"
  by pat_completeness auto
termination by (relation "measure (\<lambda>(a, b). size a)") (auto dest: set_zip_leftD child_stats_size)

declare Copy.simps [simp del]

text \<open>
  \<open>CreateUnknown\<close>: \<open>CreateUnknownType\<close> on the stats type, then \<open>InitializeUnknown\<close>. The children of a
  nested type are constructed and then overwritten by a copy.
\<close>

function CreateUnknown :: "LogicalType \<Rightarrow> exc + BaseStatistics" where
  "CreateUnknown ty =
     bind_res
       (case GetStatsType ty of
          NUMERIC_STATS \<Rightarrow> bind_res (NumericStats_CreateUnknown ty)
            (\<lambda>d. Inr (set_numeric d (InitializeUnknown (Construct ty))))
        | STRING_STATS \<Rightarrow> Inr (set_string StringStats_CreateUnknown (InitializeUnknown (Construct ty)))
        | BASE_STATS \<Rightarrow> Inr (Construct ty)
        | _ \<Rightarrow> bind_res (map_res CreateUnknown (child_types ty))
            (\<lambda>cs. Inr (set_children (map (\<lambda>(a, b). Copy a b) (zip (child_stats (Construct ty)) cs))
                        (InitializeUnknown (Construct ty)))))
       (\<lambda>s. Inr (InitializeUnknown s))"
  by pat_completeness auto
termination by (relation "measure size") (auto dest: child_types_size)

declare CreateUnknown.simps [simp del]

function CreateEmpty :: "LogicalType \<Rightarrow> exc + BaseStatistics" where
  "CreateEmpty ty =
     (if InternalType ty = PhysicalType.BIT then Inr (set_null False False (Construct ty))
      else
        bind_res
          (case GetStatsType ty of
             NUMERIC_STATS \<Rightarrow> bind_res (NumericStats_CreateEmpty ty)
               (\<lambda>d. Inr (set_numeric d (InitializeEmpty (Construct ty))))
           | STRING_STATS \<Rightarrow> Inr (set_string StringStats_CreateEmpty (InitializeEmpty (Construct ty)))
           | BASE_STATS \<Rightarrow> Inr (Construct ty)
           | _ \<Rightarrow> bind_res (map_res CreateEmpty (child_types ty))
               (\<lambda>cs. Inr (set_children (map (\<lambda>(a, b). Copy a b) (zip (child_stats (Construct ty)) cs))
                           (InitializeEmpty (Construct ty)))))
          (\<lambda>s. Inr (InitializeEmpty s)))"
  by pat_completeness auto
termination by (relation "measure size") (auto dest: child_types_size)

declare CreateEmpty.simps [simp del]

definition IsConstant :: "BaseStatistics \<Rightarrow> exc + bool" where
  "IsConstant s =
     (if type_id (stats_ty s) = LogicalTypeId.VALIDITY
      then Inr (has_null s \<and> \<not> has_no_null s \<or> \<not> has_null s \<and> has_no_null s)
      else if GetStatsType (stats_ty s) = NUMERIC_STATS
           then NumericStats_IsConstant (stats_ty s) (numeric_data s)
      else Inr False)"

text \<open>
  \<open>Merge\<close> with \<open>NumericStats::Merge\<close>, \<open>StringStats::Merge\<close>, \<open>ListStats::Merge\<close>, \<open>StructStats::Merge\<close>
  and \<open>ArrayStats::Merge\<close>. \<open>GetChildStats\<close> of a list throws when the other statistics are not
  those of a list; a struct reads as many children as its type has.
\<close>

function Merge :: "BaseStatistics \<Rightarrow> BaseStatistics \<Rightarrow> exc + BaseStatistics" where
  "Merge s other =
     (let s' = set_null (has_null s \<or> has_null other) (has_no_null s \<or> has_no_null other) s;
          ty = stats_ty s; oty = stats_ty other
      in case GetStatsType ty of
           NUMERIC_STATS \<Rightarrow> bind_res (NumericStats_Merge ty (numeric_data s) oty (numeric_data other))
             (\<lambda>d. Inr (set_numeric d s'))
         | STRING_STATS \<Rightarrow> Inr (set_string (StringStats_Merge (string_data s) oty (string_data other)) s')
         | BASE_STATS \<Rightarrow> Inr s'
         | t \<Rightarrow>
             if type_id oty = LogicalTypeId.VALIDITY then Inr s'
             else if t \<noteq> STRUCT_STATS \<and> GetStatsType oty \<noteq> t then Inl InternalException
             else if length (child_stats s) \<noteq> length (child_stats other) then Inl OutOfBounds
             else bind_res (map_res (\<lambda>(a, b). Merge a b) (zip (child_stats s) (child_stats other)))
                    (\<lambda>cs. Inr (set_children cs s')))"
  by pat_completeness auto
termination by (relation "measure (\<lambda>(a, b). size a)") (auto dest: set_zip_leftD child_stats_size)

declare Merge.simps [simp del]

text \<open>\<open>SetHasNull\<close> and \<open>SetHasNoNull\<close> go down into the children of a struct.\<close>

function SetHasNull :: "BaseStatistics \<Rightarrow> BaseStatistics" where
  "SetHasNull s =
     set_children (if InternalType (stats_ty s) = PhysicalType.STRUCT then map SetHasNull (child_stats s) else child_stats s)
       (set_null True (has_no_null s) s)"
  by pat_completeness auto
termination by (relation "measure size") (auto dest: child_stats_size)

function SetHasNoNull :: "BaseStatistics \<Rightarrow> BaseStatistics" where
  "SetHasNoNull s =
     set_children (if InternalType (stats_ty s) = PhysicalType.STRUCT then map SetHasNoNull (child_stats s) else child_stats s)
       (set_null (has_null s) True s)"
  by pat_completeness auto
termination by (relation "measure size") (auto dest: child_stats_size)

declare SetHasNull.simps [simp del] SetHasNoNull.simps [simp del]

definition Set_info :: "StatsInfo \<Rightarrow> BaseStatistics \<Rightarrow> BaseStatistics" where
  "Set_info info s =
     (case info of
        CAN_HAVE_NULL_VALUES \<Rightarrow> SetHasNull s
      | CANNOT_HAVE_NULL_VALUES \<Rightarrow> set_null False (has_no_null s) s
      | CAN_HAVE_VALID_VALUES \<Rightarrow> SetHasNoNull s
      | CANNOT_HAVE_VALID_VALUES \<Rightarrow> set_null (has_null s) False s
      | CAN_HAVE_NULL_AND_VALID_VALUES \<Rightarrow> SetHasNoNull (SetHasNull s))"

definition CombineValidity :: "BaseStatistics \<Rightarrow> BaseStatistics \<Rightarrow> BaseStatistics \<Rightarrow> BaseStatistics" where
  "CombineValidity s left right = set_null (has_null left \<or> has_null right) (has_no_null left \<or> has_no_null right) s"

definition CopyValidity :: "BaseStatistics \<Rightarrow> BaseStatistics \<Rightarrow> BaseStatistics" where
  "CopyValidity s other = set_null (has_null other) (has_no_null other) s"

section \<open>Serialization\<close>

function Serialize :: "BaseStatistics \<Rightarrow> exc + fields" where
  "Serialize s =
     bind_res
       (case GetStatsType (stats_ty s) of
          NUMERIC_STATS \<Rightarrow> NumericStats_Serialize (stats_ty s) (numeric_data s)
        | STRING_STATS \<Rightarrow> Inr (StringStats_Serialize (string_data s))
        | BASE_STATS \<Rightarrow> Inr []
        | STRUCT_STATS \<Rightarrow> bind_res (map_res Serialize (child_stats s))
            (\<lambda>cs. Inr [(200, ''child_stats'', SerList (map SerObject cs))])
        | _ \<Rightarrow> bind_res (map_res Serialize (child_stats s))
            (\<lambda>cs. case cs of [c] \<Rightarrow> Inr [(200, ''child_stats'', SerObject c)] | _ \<Rightarrow> Inl OutOfBounds))
       (\<lambda>type_stats.
          Inr [(100, ''has_null'', SerBool (has_null s)), (101, ''has_no_null'', SerBool (has_no_null s)),
               (102, ''distinct_count'', SerNat (distinct_count s)), (103, ''type_stats'', SerObject type_stats)])"
  by pat_completeness auto
termination by (relation "measure size") (auto dest: child_stats_size)

declare Serialize.simps [simp del]

text \<open>
  \<open>Deserialize\<close>; the logical type comes from the context of the deserializer. The elements of
  the list of a struct are read with the types of its children; one more element than the
  type has children reads past the end of the child types.
\<close>

definition ser_fields :: "Serialized \<Rightarrow> exc + fields" where
  "ser_fields v = (case v of SerObject fs \<Rightarrow> Inr fs | _ \<Rightarrow> Inl SerializationException)"

function Deserialize :: "LogicalType \<Rightarrow> fields \<Rightarrow> exc + BaseStatistics" where
  "Deserialize ty fs =
     bind_res (read_bool 100 ''has_null'' fs) (\<lambda>(hn, fs).
     bind_res (read_bool 101 ''has_no_null'' fs) (\<lambda>(hnn, fs).
     bind_res (read_nat 102 ''distinct_count'' fs) (\<lambda>(dc, fs).
     let stats = set_distinct dc (set_null hn hnn (Construct ty))
     in bind_res (read_object 103 ''type_stats'' fs) (\<lambda>(obj, fs).
        case GetStatsType ty of
          NUMERIC_STATS \<Rightarrow> bind_res (NumericStats_Deserialize ty obj (numeric_data stats)) (\<lambda>d. Inr (set_numeric d stats))
        | STRING_STATS \<Rightarrow> bind_res (StringStats_Deserialize obj) (\<lambda>d. Inr (set_string d stats))
        | BASE_STATS \<Rightarrow> Inr stats
        | STRUCT_STATS \<Rightarrow> bind_res (read_list 200 ''child_stats'' obj) (\<lambda>(elems, obj).
            if length elems > length (child_types ty) then Inl OutOfBounds
            else bind_res (map_res (\<lambda>(cty, e). bind_res (ser_fields e) (Deserialize cty)) (zip (child_types ty) elems))
              (\<lambda>cs. Inr (set_children (map (\<lambda>(a, b). Copy a b) (zip (child_stats stats) cs)
                            @ drop (length cs) (child_stats stats)) stats)))
        | _ \<Rightarrow> bind_res (read_object 200 ''child_stats'' obj) (\<lambda>(e, obj).
            bind_res (map_res (\<lambda>cty. Deserialize cty e) (child_types ty))
              (\<lambda>cs. Inr (set_children (map (\<lambda>(a, b). Copy a b) (zip (child_stats stats) cs)) stats)))))))"
  by pat_completeness auto
termination by (relation "measure (\<lambda>(ty, fs). size ty)") (auto dest: set_zip_leftD child_types_size)

declare Deserialize.simps [simp del]

section \<open>Statistics of a constant\<close>

lemma null_value_size: "size (null_value ty) \<le> size v" for v :: Value
  by (cases v) (simp add: null_value_def)

lemma v_type_null_value [simp]: "v_type (null_value ty) = ty"
  by (simp add: null_value_def)

text \<open>The statistics of the elements of a list or array are merged into those of the only child.\<close>

definition merge_all :: "BaseStatistics \<Rightarrow> BaseStatistics list \<Rightarrow> exc + BaseStatistics" where
  "merge_all s others = fold_res (\<lambda>elem st. Merge st elem) others s"

function FromConstant ::
  "(8 word list \<Rightarrow> UnicodeType) \<Rightarrow> Value \<Rightarrow> exc + BaseStatistics" where
  "FromConstant Analyze input =
     (let ty = v_type input
      in bind_res
           (case GetStatsType ty of
              NUMERIC_STATS \<Rightarrow>
                bind_res (NumericStats_CreateEmpty ty) (\<lambda>d.
                bind_res (SetMin ty input d) (\<lambda>d.
                bind_res (SetMax ty input d) (\<lambda>d.
                  Inr (set_numeric d (InitializeEmpty (Construct ty))))))
            | STRING_STATS \<Rightarrow>
                (if IsNull input then Inr (set_string StringStats_CreateEmpty (InitializeEmpty (Construct ty)))
                 else bind_res (StringStats_Update Analyze ty (str_of input) StringStats_CreateEmpty) (\<lambda>d.
                        Inr (set_string d (InitializeEmpty (Construct ty)))))
            | STRUCT_STATS \<Rightarrow>
                bind_res (CreateEmpty ty) (\<lambda>result.
                bind_res
                  (if IsNull input then map_res (\<lambda>cty. FromConstant Analyze (null_value cty)) (child_types ty)
                   else map_res (FromConstant Analyze) (children_of input)) (\<lambda>cs.
                if length cs < length (child_stats result) then Inl OutOfBounds
                else Inr (set_children (map (\<lambda>(a, b). Copy a b) (zip (child_stats result) cs)) (InitializeEmpty result))))
            | BASE_STATS \<Rightarrow> Inr (Construct ty)
            | _ \<Rightarrow>
                bind_res (CreateEmpty ty) (\<lambda>result.
                if IsNull input then Inr (InitializeEmpty result)
                else bind_res (map_res (FromConstant Analyze) (children_of input)) (\<lambda>elems.
                     bind_res (map_res (\<lambda>c. merge_all c elems) (child_stats result)) (\<lambda>cs.
                       Inr (set_children cs (InitializeEmpty result))))))
           (\<lambda>s. let s = set_distinct 1 s
                in Inr (if IsNull input
                        then Set_info CANNOT_HAVE_VALID_VALUES (Set_info CAN_HAVE_NULL_VALUES s)
                        else Set_info CAN_HAVE_VALID_VALUES (Set_info CANNOT_HAVE_NULL_VALUES s))))"
  by pat_completeness auto
termination
proof (relation "measures [\<lambda>(A, v). size v, \<lambda>(A, v). size (v_type v)]")
  fix A and v :: Value and ty cty s
  assume "ty = v_type v" "cty \<in> set (child_types ty)"
  then show "((A :: 8 word list \<Rightarrow> UnicodeType, null_value cty), (A, v)) \<in> measures [\<lambda>(A, v). size v, \<lambda>(A, v). size (v_type v)]"
    using null_value_size [of cty v] child_types_size [of cty ty] by (auto simp: le_less)
qed (auto dest: children_of_size)

declare FromConstant.simps [simp del]

section \<open>Well-formed statistics\<close>

text \<open>The tree follows the type, and the string bounds have their eight bytes.\<close>

function well_shaped :: "BaseStatistics \<Rightarrow> bool" where
  "well_shaped s \<longleftrightarrow>
     str_wf (string_data s)
     \<and> (if nested_stats (GetStatsType (stats_ty s))
        then map stats_ty (child_stats s) = child_types (stats_ty s) \<and> (\<forall>c \<in> set (child_stats s). well_shaped c)
        else child_stats s = [])"
  by pat_completeness auto
termination by (relation "measure size") (auto dest: child_stats_size)

declare well_shaped.simps [simp del]

text \<open>What the statistics promise about a value of the column.\<close>

function stats_contain :: "BaseStatistics \<Rightarrow> Value \<Rightarrow> bool" where
  "stats_contain s v \<longleftrightarrow>
     (if IsNull v then has_null s
      else has_no_null s \<and>
        (case GetStatsType (stats_ty s) of
           NUMERIC_STATS \<Rightarrow> num_contains (stats_ty s) (numeric_data s) (num_of v)
         | STRING_STATS \<Rightarrow> str_contains (string_data s) (str_of v)
         | BASE_STATS \<Rightarrow> True
         | STRUCT_STATS \<Rightarrow> length (children_of v) = length (child_stats s)
             \<and> (\<forall>(a, b) \<in> set (zip (child_stats s) (children_of v)). stats_contain a b)
         | _ \<Rightarrow> \<forall>a \<in> set (child_stats s). \<forall>b \<in> set (children_of v). stats_contain a b))"
  by pat_completeness auto
termination by (relation "measure (\<lambda>(s, v). size s)") (auto dest: set_zip_leftD child_stats_size)

declare stats_contain.simps [simp del]

lemma str_wf_init [simp]: "str_wf string_uninit" "str_wf StringStats_CreateUnknown" "str_wf StringStats_CreateEmpty"
  by (simp_all add: str_wf_def string_uninit_def StringStats_CreateUnknown_def StringStats_CreateEmpty_def)

lemma stats_ty_Construct [simp]: "stats_ty (Construct ty) = ty"
  by (simp add: Construct.simps)

lemma Construct_sel:
  "has_null (Construct ty) = False" "has_no_null (Construct ty) = False" "numeric_data (Construct ty) = numeric_uninit"
  "string_data (Construct ty) = string_uninit"
  "child_stats (Construct ty) = (if nested_stats (GetStatsType ty) then map Construct (child_types ty) else [])"
  by (simp_all add: Construct.simps [of ty])

lemma well_shaped_Construct: "well_shaped (Construct ty)"
proof (induction ty rule: Construct.induct)
  case (1 ty)
  then show ?case by (subst well_shaped.simps) (auto simp: Construct_sel comp_def)
qed

text \<open>A copy into statistics of the same type is the original.\<close>

lemma Copy_id: "well_shaped a \<Longrightarrow> well_shaped b \<Longrightarrow> stats_ty a = stats_ty b \<Longrightarrow> Copy a b = b"
proof (induction a b rule: Copy.induct)
  case (1 a b)
  show ?case
  proof (cases "nested_stats (GetStatsType (stats_ty a))")
    case True
    have a: "map stats_ty (child_stats a) = child_types (stats_ty a)" "\<forall>c \<in> set (child_stats a). well_shaped c"
      and b: "map stats_ty (child_stats b) = child_types (stats_ty b)" "\<forall>c \<in> set (child_stats b). well_shaped c"
      using 1(2,3,4) True by (simp_all add: well_shaped.simps [of a] well_shaped.simps [of b])
    then have len: "length (child_stats a) = length (child_stats b)" using 1(4) by (metis length_map)
    have "map (\<lambda>(a, b). Copy a b) (zip (child_stats a) (child_stats b)) = child_stats b"
    proof (rule nth_equalityI)
      fix i assume "i < length (map (\<lambda>(a, b). Copy a b) (zip (child_stats a) (child_stats b)))"
      then have i: "i < length (child_stats a)" "i < length (child_stats b)" by simp_all
      have "stats_ty (child_stats a ! i) = stats_ty (child_stats b ! i)"
        using a(1) b(1) 1(4) i by (metis nth_map)
      moreover have "(child_stats a ! i, child_stats b ! i) \<in> set (zip (child_stats a) (child_stats b))"
        using i by (auto simp: set_zip)
      ultimately show "map (\<lambda>(a, b). Copy a b) (zip (child_stats a) (child_stats b)) ! i = child_stats b ! i"
        using 1(1) [OF True] a(2) b(2) i by simp
    qed (use len in simp)
    then show ?thesis using True 1(4) by (subst Copy.simps) simp
  next
    case False
    then have "child_stats a = child_stats b"
      using 1(2,3,4) by (simp add: well_shaped.simps [of a] well_shaped.simps [of b])
    then show ?thesis using False 1(4) by (subst Copy.simps) simp
  qed
qed

lemma map_Copy_children:
  assumes "list_all2 (\<lambda>ty c. well_shaped c \<and> stats_ty c = ty) tys cs"
  shows "map (\<lambda>(a, b). Copy a b) (zip (map Construct tys) cs) = cs"
  using assms
proof (induction rule: list_all2_induct)
  case (Cons ty tys c cs)
  then show ?case using Copy_id [OF well_shaped_Construct, of c ty] by simp
qed simp

lemma shaped_children:
  assumes "list_all2 (\<lambda>ty c. well_shaped c \<and> stats_ty c = ty) tys cs"
  shows "map stats_ty cs = tys" "\<forall>c \<in> set cs. well_shaped c"
  using assms by (induction rule: list_all2_induct) auto

lemma map_res_shape:
  assumes "map_res f xs = Inr ys" "\<And>x y. x \<in> set xs \<Longrightarrow> f x = Inr y \<Longrightarrow> Q x y"
  shows "list_all2 Q xs ys"
  using assms unfolding map_res_Inr_iff by (auto simp: list_all2_conv_all_nth)

lemma CreateUnknown_shape: "CreateUnknown ty = Inr s \<Longrightarrow> well_shaped s \<and> stats_ty s = ty \<and> has_null s \<and> has_no_null s"
proof (induction ty arbitrary: s rule: measure_induct_rule [of size])
  case (less ty)
  show ?case
  proof (cases "nested_stats (GetStatsType ty)")
    case True
    then obtain cs where cs: "map_res CreateUnknown (child_types ty) = Inr cs"
      and s: "s = InitializeUnknown (set_children (map (\<lambda>(a, b). Copy a b) (zip (child_stats (Construct ty)) cs))
        (InitializeUnknown (Construct ty)))"
      using less.prems unfolding CreateUnknown.simps [of ty] by (elim disjE) (auto simp: bind_res_eq_Inr)
    have l: "list_all2 (\<lambda>cty c. well_shaped c \<and> stats_ty c = cty) (child_types ty) cs"
      using less.IH child_types_size by (intro map_res_shape [OF cs]) blast
    show ?thesis
      using True by (subst well_shaped.simps)
        (auto simp: s InitializeUnknown_def Construct_sel map_Copy_children [OF l] shaped_children [OF l])
  next
    case False
    then show ?thesis using less.prems unfolding CreateUnknown.simps [of ty]
      by (cases "GetStatsType ty") (auto simp: bind_res_eq_Inr well_shaped.simps [of s] InitializeUnknown_def Construct_sel)
  qed
qed

lemma CreateEmpty_shape: "CreateEmpty ty = Inr s \<Longrightarrow> well_shaped s \<and> stats_ty s = ty"
proof (induction ty arbitrary: s rule: measure_induct_rule [of size])
  case (less ty)
  show ?case
  proof (cases "nested_stats (GetStatsType ty)")
    case True
    then have "InternalType ty \<noteq> PhysicalType.BIT" by (auto simp: GetStatsType_def split: if_splits)
    with True obtain cs where cs: "map_res CreateEmpty (child_types ty) = Inr cs"
      and s: "s = InitializeEmpty (set_children (map (\<lambda>(a, b). Copy a b) (zip (child_stats (Construct ty)) cs))
        (InitializeEmpty (Construct ty)))"
      using less.prems unfolding CreateEmpty.simps [of ty] by (elim disjE) (auto simp: bind_res_eq_Inr)
    have l: "list_all2 (\<lambda>cty c. well_shaped c \<and> stats_ty c = cty) (child_types ty) cs"
      using less.IH child_types_size by (intro map_res_shape [OF cs]) blast
    show ?thesis
      using True by (subst well_shaped.simps)
        (auto simp: s InitializeEmpty_def Construct_sel map_Copy_children [OF l] shaped_children [OF l])
  next
    case False
    then show ?thesis using less.prems unfolding CreateEmpty.simps [of ty]
      by (cases "GetStatsType ty") (auto simp: bind_res_eq_Inr well_shaped.simps [of s] InitializeEmpty_def Construct_sel
          split: if_splits)
  qed
qed

section \<open>Merging\<close>

lemma GetStatsType_numeric: "GetStatsType ty = NUMERIC_STATS \<Longrightarrow> is_numeric (InternalType ty)"
  by (auto simp: GetStatsType_def type_width_def split: if_splits PhysicalType.splits)

lemma GetStatsType_not_VALIDITY: "GetStatsType ty \<noteq> BASE_STATS \<Longrightarrow> type_id ty \<noteq> LogicalTypeId.VALIDITY"
  by (cases ty) (auto simp: GetStatsType_def InternalType_def split: if_splits)

lemma stats_contain_struct:
  "GetStatsType (stats_ty s) = STRUCT_STATS \<Longrightarrow> \<not> IsNull v \<Longrightarrow> stats_contain s v \<longleftrightarrow>
     has_no_null s \<and> length (children_of v) = length (child_stats s)
     \<and> (\<forall>i<length (child_stats s). stats_contain (child_stats s ! i) (children_of v ! i))"
  by (subst stats_contain.simps) (fastforce simp: set_zip)

lemma stats_contain_list:
  "GetStatsType (stats_ty s) = LIST_STATS \<or> GetStatsType (stats_ty s) = ARRAY_STATS \<Longrightarrow> \<not> IsNull v \<Longrightarrow>
    stats_contain s v \<longleftrightarrow> has_no_null s \<and> (\<forall>a \<in> set (child_stats s). \<forall>b \<in> set (children_of v). stats_contain a b)"
  by (subst stats_contain.simps) auto

lemma Merge_sound:
  assumes "well_shaped a" "well_shaped b" "stats_ty a = stats_ty b"
  shows "\<exists>c. Merge a b = Inr c \<and> well_shaped c \<and> stats_ty c = stats_ty a
    \<and> (\<forall>v. stats_contain a v \<or> stats_contain b v \<longrightarrow> stats_contain c v)"
  using assms
proof (induction a arbitrary: b rule: measure_induct_rule [of size])
  case (less a)
  let ?ty = "stats_ty a"
  let ?s = "set_null (has_null a \<or> has_null b) (has_no_null a \<or> has_no_null b) a"
  have wa: "str_wf (string_data a)" and wb: "str_wf (string_data b)"
    using less.prems by (simp_all add: well_shaped.simps [of a] well_shaped.simps [of b])
  show ?case
  proof (cases "nested_stats (GetStatsType ?ty)")
    case False
    then have ch: "child_stats a = []" using less.prems(1) by (simp add: well_shaped.simps [of a])
    consider "GetStatsType ?ty = NUMERIC_STATS" | "GetStatsType ?ty = STRING_STATS" | "GetStatsType ?ty = BASE_STATS"
      using False by (cases "GetStatsType ?ty") auto
    then show ?thesis
    proof cases
      case 1
      note nv = GetStatsType_not_VALIDITY [of ?ty]
      from NumericStats_Merge_sound [OF GetStatsType_numeric [OF 1], of "numeric_data a" "numeric_data b"] 1 nv
      obtain d where d: "NumericStats_Merge ?ty (numeric_data a) ?ty (numeric_data b) = Inr d"
        "\<forall>x. num_contains ?ty (numeric_data a) x \<or> num_contains ?ty (numeric_data b) x \<longrightarrow> num_contains ?ty d x" by auto
      have "Merge a b = Inr (set_numeric d ?s)"
        using 1 d(1) less.prems(3) by (subst Merge.simps) (simp add: Let_def)
      then show ?thesis using 1 d(2) wa ch less.prems(3)
        by (auto simp: well_shaped.simps [of "set_numeric d ?s"] stats_contain.simps)
    next
      case 2
      let ?d = "StringStats_Merge (string_data a) ?ty (string_data b)"
      note m = StringStats_Merge_bounds [OF wa wb GetStatsType_not_VALIDITY [of ?ty]]
      have "Merge a b = Inr (set_string ?d ?s)" using 2 less.prems(3) by (subst Merge.simps) (simp add: Let_def)
      moreover have "str_contains (string_data a) x \<or> str_contains (string_data b) x \<longrightarrow> str_contains ?d x" for x
        using m 2 str_contains_widen [OF wa, of ?d x] str_contains_widen [OF wb, of ?d x] by auto
      moreover have "well_shaped (set_string ?d ?s)" using 2 m ch by (subst well_shaped.simps) simp
      ultimately show ?thesis using 2 less.prems(3) by (auto simp: stats_contain.simps)
    next
      case 3
      then have "Merge a b = Inr ?s" using less.prems(3) by (subst Merge.simps) (simp add: Let_def)
      then show ?thesis using 3 wa ch less.prems(3) by (auto simp: well_shaped.simps [of ?s] stats_contain.simps)
    qed
  next
    case True
    have a: "map stats_ty (child_stats a) = child_types ?ty" "\<forall>c \<in> set (child_stats a). well_shaped c"
      and b: "map stats_ty (child_stats b) = child_types ?ty" "\<forall>c \<in> set (child_stats b). well_shaped c"
      using less.prems True by (simp_all add: well_shaped.simps [of a] well_shaped.simps [of b])
    then have len: "length (child_stats a) = length (child_stats b)" by (metis length_map)
    have "\<exists>c. Merge (child_stats a ! i) (child_stats b ! i) = Inr c \<and> well_shaped c \<and> stats_ty c = child_types ?ty ! i
        \<and> (\<forall>v. stats_contain (child_stats a ! i) v \<or> stats_contain (child_stats b ! i) v \<longrightarrow> stats_contain c v)"
      if "i < length (child_stats a)" for i
      using less.IH [of "child_stats a ! i" "child_stats b ! i"] child_stats_size [of "child_stats a ! i" a] a b that len
      by (metis nth_map nth_mem)
    then obtain f where f: "\<And>i. i < length (child_stats a) \<Longrightarrow> Merge (child_stats a ! i) (child_stats b ! i) = Inr (f i)
        \<and> well_shaped (f i) \<and> stats_ty (f i) = child_types ?ty ! i
        \<and> (\<forall>v. stats_contain (child_stats a ! i) v \<or> stats_contain (child_stats b ! i) v \<longrightarrow> stats_contain (f i) v)"
      by metis
    let ?cs = "map f [0..<length (child_stats a)]"
    have "map_res (\<lambda>(a, b). Merge a b) (zip (child_stats a) (child_stats b)) = Inr ?cs"
      using f len unfolding map_res_Inr_iff by (auto simp: list_all2_conv_all_nth)
    moreover have "type_id ?ty \<noteq> LogicalTypeId.VALIDITY" using GetStatsType_not_VALIDITY [of ?ty] True by auto
    ultimately have m: "Merge a b = Inr (set_children ?cs ?s)"
      using True len less.prems(3) by (subst Merge.simps) (auto simp: Let_def)
    have len': "length (child_stats a) = length (child_types ?ty)" using a(1) by (metis length_map)
    have "map (\<lambda>i. stats_ty (f i)) [0..<length (child_stats a)] = child_types ?ty"
      using f len' by (intro nth_equalityI) auto
    then have "well_shaped (set_children ?cs ?s)"
      using True f wa by (subst well_shaped.simps) (auto simp: comp_def)
    moreover have "stats_contain (set_children ?cs ?s) v" if "stats_contain a v \<or> stats_contain b v" for v
    proof (cases "IsNull v")
      case False
      let ?n = "length (child_stats a)"
      have nn: "has_no_null a \<or> has_no_null b" using that False by (auto simp: stats_contain.simps)
      show ?thesis
      proof (cases "GetStatsType ?ty = STRUCT_STATS")
        case struct: True
        have "length (children_of v) = ?n"
          "\<And>i. i < ?n \<Longrightarrow> stats_contain (child_stats a ! i) (children_of v ! i) \<or> stats_contain (child_stats b ! i) (children_of v ! i)"
          using that len stats_contain_struct [of a v] stats_contain_struct [of b v] struct False less.prems(3) by auto
        then show ?thesis using nn f by (simp add: stats_contain_struct [OF _ False] struct) blast
      next
        case list: False
        then have t: "GetStatsType ?ty = LIST_STATS \<or> GetStatsType ?ty = ARRAY_STATS" using True by blast
        have "stats_contain (child_stats a ! i) y \<or> stats_contain (child_stats b ! i) y"
          if "i < ?n" "y \<in> set (children_of v)" for i y
        proof -
          have "child_stats a ! i \<in> set (child_stats a)" "child_stats b ! i \<in> set (child_stats b)" using that len by simp_all
          with t \<open>stats_contain a v \<or> stats_contain b v\<close> False less.prems(3) that(2) show ?thesis
            by (auto simp: stats_contain.simps [of _ v])
        qed
        then have "\<forall>i < ?n. \<forall>y \<in> set (children_of v). stats_contain (f i) y" using f by blast
        moreover have "GetStatsType (stats_ty (set_children ?cs ?s)) = LIST_STATS
            \<or> GetStatsType (stats_ty (set_children ?cs ?s)) = ARRAY_STATS" using t by simp
        ultimately show ?thesis using nn stats_contain_list [OF _ False, of "set_children ?cs ?s"] by simp
      qed
    qed (use that in \<open>auto simp: stats_contain.simps\<close>)
    ultimately show ?thesis using m by auto
  qed
qed

section \<open>Round trip of the serialized form\<close>

text \<open>Statistics in which only the member of the union that the type selects is set.\<close>

function canonical :: "BaseStatistics \<Rightarrow> bool" where
  "canonical s \<longleftrightarrow>
     (if GetStatsType (stats_ty s) = NUMERIC_STATS then num_canonical (stats_ty s) (numeric_data s)
      else numeric_data s = numeric_uninit)
     \<and> (GetStatsType (stats_ty s) \<noteq> STRING_STATS \<longrightarrow> string_data s = string_uninit)
     \<and> (GetStatsType (stats_ty s) \<in> {LIST_STATS, ARRAY_STATS} \<longrightarrow> length (child_stats s) = 1)
     \<and> (\<forall>c \<in> set (child_stats s). canonical c)"
  by pat_completeness auto
termination by (relation "measure size") (auto dest: child_stats_size)

declare canonical.simps [simp del]

lemma rebuild:
  "d = numeric_data s \<Longrightarrow> e = string_data s \<Longrightarrow> cs = child_stats s \<Longrightarrow>
    BaseStatistics (stats_ty s) (has_null s) (has_no_null s) (distinct_count s) d e cs = s"
  by (cases s) simp

lemma Serialize_roundtrip_aux:
  assumes "well_shaped s" "canonical s"
  shows "\<exists>fs. Serialize s = Inr fs \<and> Deserialize (stats_ty s) fs = Inr s"
  using assms
proof (induction s rule: measure_induct_rule [of size])
  case (less s)
  let ?ty = "stats_ty s"
  let ?st = "set_distinct (distinct_count s) (set_null (has_null s) (has_no_null s) (Construct ?ty))"
  have ser: "Serialize s = bind_res ts (\<lambda>type_stats.
          Inr [(100, ''has_null'', SerBool (has_null s)), (101, ''has_no_null'', SerBool (has_no_null s)),
               (102, ''distinct_count'', SerNat (distinct_count s)), (103, ''type_stats'', SerObject type_stats)])"
    if "ts = (case GetStatsType (stats_ty s) of
          NUMERIC_STATS \<Rightarrow> NumericStats_Serialize (stats_ty s) (numeric_data s)
        | STRING_STATS \<Rightarrow> Inr (StringStats_Serialize (string_data s))
        | BASE_STATS \<Rightarrow> Inr []
        | STRUCT_STATS \<Rightarrow> bind_res (map_res Serialize (child_stats s))
            (\<lambda>cs. Inr [(200, ''child_stats'', SerList (map SerObject cs))])
        | _ \<Rightarrow> bind_res (map_res Serialize (child_stats s))
            (\<lambda>cs. case cs of [c] \<Rightarrow> Inr [(200, ''child_stats'', SerObject c)] | _ \<Rightarrow> Inl OutOfBounds))" for ts
    using that by (subst Serialize.simps) simp
  show ?case
  proof (cases "nested_stats (GetStatsType ?ty)")
    case False
    then have ch: "child_stats s = []" using less.prems(1) by (simp add: well_shaped.simps [of s])
    consider "GetStatsType ?ty = NUMERIC_STATS" | "GetStatsType ?ty = STRING_STATS" | "GetStatsType ?ty = BASE_STATS"
      using False by (cases "GetStatsType ?ty") auto
    then show ?thesis
    proof cases
      case 1
      have can: "num_canonical ?ty (numeric_data s)" "string_data s = string_uninit"
        using less.prems(2) 1 by (simp_all add: canonical.simps [of s])
      from NumericStats_roundtrip [OF GetStatsType_numeric [OF 1] can(1)] obtain fs where fs:
        "NumericStats_Serialize ?ty (numeric_data s) = Inr fs" "NumericStats_Deserialize ?ty fs numeric_uninit = Inr (numeric_data s)"
        by blast
      show ?thesis using ser 1 fs ch can
        by (subst Deserialize.simps) (simp add: ser_simps Let_def Construct_sel set_defs rebuild [where s = s])
    next
      case 2
      then have "numeric_data s = numeric_uninit" using less.prems(2) by (simp add: canonical.simps [of s])
      then show ?thesis using ser 2 ch
        by (subst Deserialize.simps) (simp add: ser_simps Let_def Construct_sel set_defs StringStats_roundtrip rebuild [where s = s])
    next
      case 3
      then have "numeric_data s = numeric_uninit" "string_data s = string_uninit"
        using less.prems(2) by (simp_all add: canonical.simps [of s])
      then show ?thesis using ser 3 ch
        by (subst Deserialize.simps) (simp add: ser_simps Let_def Construct_sel set_defs rebuild [where s = s])
    qed
  next
    case True
    have sh: "map stats_ty (child_stats s) = child_types ?ty" "\<forall>c \<in> set (child_stats s). well_shaped c"
      using less.prems(1) True by (simp_all add: well_shaped.simps [of s])
    have can: "numeric_data s = numeric_uninit" "string_data s = string_uninit" "\<forall>c \<in> set (child_stats s). canonical c"
      "GetStatsType ?ty \<noteq> STRUCT_STATS \<Longrightarrow> length (child_stats s) = 1"
      using less.prems(2) True by (auto simp: canonical.simps [of s])
    have "\<forall>c \<in> set (child_stats s). \<exists>fs. Serialize c = Inr fs \<and> Deserialize (stats_ty c) fs = Inr c"
      using less.IH sh(2) can(3) child_stats_size by blast
    then obtain g where g: "\<And>c. c \<in> set (child_stats s) \<Longrightarrow> Serialize c = Inr (g c) \<and> Deserialize (stats_ty c) (g c) = Inr c"
      by metis
    have all: "map_res Serialize (child_stats s) = Inr (map g (child_stats s))" using g by (intro map_res_ok) blast
    have copy: "map (\<lambda>(a, b). Copy a b) (zip (map Construct (child_types ?ty)) (child_stats s)) = child_stats s"
      using sh by (intro map_Copy_children) (auto simp: list_all2_conv_all_nth simp flip: sh(1))
    have len: "length (child_types ?ty) = length (child_stats s)" using sh(1) by (metis length_map)
    show ?thesis
    proof (cases "GetStatsType ?ty = STRUCT_STATS")
      case struct: True
      have "map_res (\<lambda>(cty, e). bind_res (ser_fields e) (Deserialize cty))
          (zip (child_types ?ty) (map SerObject (map g (child_stats s)))) = Inr (child_stats s)"
        using g unfolding map_res_Inr_iff sh(1) [symmetric] by (auto simp: list_all2_conv_all_nth ser_fields_def)
      then show ?thesis using ser struct all copy len can
        by (subst Deserialize.simps) (simp add: ser_simps Let_def Construct_sel set_defs rebuild [where s = s])
    next
      case list: False
      then obtain c where c: "child_stats s = [c]" using can(4) by (metis length_0_conv length_Suc_conv One_nat_def)
      then have cty: "child_types ?ty = [stats_ty c]" using sh(1) by simp
      have "Deserialize (stats_ty c) (g c) = Inr c" "Serialize c = Inr (g c)" using g [of c] c by simp_all
      moreover have "GetStatsType ?ty = LIST_STATS \<or> GetStatsType ?ty = ARRAY_STATS" using True list by blast
      ultimately show ?thesis using ser copy c cty can
        by (elim disjE) (subst Deserialize.simps, simp add: ser_simps Let_def Construct_sel set_defs rebuild [where s = s])+
    qed
  qed
qed

section \<open>Statistics of values\<close>

text \<open>A value of a type: its children have the types of the children.\<close>

function value_ok :: "LogicalType \<Rightarrow> Value \<Rightarrow> bool" where
  "value_ok ty v \<longleftrightarrow>
     v_type v = ty \<and>
     (\<not> IsNull v \<longrightarrow>
        (case GetStatsType ty of
           STRUCT_STATS \<Rightarrow> length (children_of v) = length (child_types ty)
             \<and> (\<forall>(t, c) \<in> set (zip (child_types ty) (children_of v)). value_ok t c)
         | LIST_STATS \<Rightarrow> \<forall>t \<in> set (child_types ty). \<forall>c \<in> set (children_of v). value_ok t c
         | ARRAY_STATS \<Rightarrow> \<forall>t \<in> set (child_types ty). \<forall>c \<in> set (children_of v). value_ok t c
         | _ \<Rightarrow> True))"
  by pat_completeness auto
termination by (relation "measure (\<lambda>(ty, v). size ty)") (auto dest: set_zip_leftD child_types_size)

declare value_ok.simps [simp del]

lemma value_ok_null: "value_ok ty (null_value ty)"
  by (simp add: value_ok.simps null_value_def)

text \<open>Setting the null flags only adds values.\<close>

lemma SetHas_sel [simp]:
  "stats_ty (SetHasNull s) = stats_ty s" "stats_ty (SetHasNoNull s) = stats_ty s"
  "has_null (SetHasNull s)" "has_no_null (SetHasNoNull s)"
  "has_no_null (SetHasNull s) = has_no_null s" "has_null (SetHasNoNull s) = has_null s"
  "numeric_data (SetHasNull s) = numeric_data s" "string_data (SetHasNull s) = string_data s"
  "numeric_data (SetHasNoNull s) = numeric_data s" "string_data (SetHasNoNull s) = string_data s"
  by (simp_all add: SetHasNull.simps [of s] SetHasNoNull.simps [of s])

lemma GetStatsType_STRUCT: "InternalType ty = PhysicalType.STRUCT \<Longrightarrow> GetStatsType ty = STRUCT_STATS"
  by (cases ty) (auto simp: GetStatsType_def InternalType_def)

lemma GetStatsType_STRUCT_D: "GetStatsType ty = STRUCT_STATS \<Longrightarrow> InternalType ty = PhysicalType.STRUCT"
  by (auto simp: GetStatsType_def split: if_splits PhysicalType.splits)

lemma SetHas_shape: "well_shaped s \<Longrightarrow> well_shaped (SetHasNull s) \<and> well_shaped (SetHasNoNull s)"
proof (induction s rule: measure_induct_rule [of size])
  case (less s)
  show ?case
  proof (cases "InternalType (stats_ty s) = PhysicalType.STRUCT")
    case True
    have "map stats_ty (child_stats s) = child_types (stats_ty s)" "\<forall>c \<in> set (child_stats s). well_shaped c" "str_wf (string_data s)"
      using less.prems GetStatsType_STRUCT [OF True] by (simp_all add: well_shaped.simps [of s])
    moreover have "\<forall>c \<in> set (child_stats s). well_shaped (SetHasNull c) \<and> well_shaped (SetHasNoNull c)"
      using less.IH calculation(2) child_stats_size by blast
    ultimately show ?thesis using GetStatsType_STRUCT [OF True] True
      by (intro conjI; subst well_shaped.simps) (simp_all add: SetHasNull.simps [of s] SetHasNoNull.simps [of s] comp_def)
  next
    case False
    then show ?thesis using less.prems unfolding well_shaped.simps [of s]
      by (intro conjI; subst well_shaped.simps) (simp_all add: SetHasNull.simps [of s] SetHasNoNull.simps [of s])
  qed
qed

lemma SetHas_contain: "stats_contain s v \<Longrightarrow> stats_contain (SetHasNull s) v \<and> stats_contain (SetHasNoNull s) v"
proof (induction s arbitrary: v rule: measure_induct_rule [of size])
  case (less s)
  show ?case
  proof (cases "IsNull v")
    case True
    then show ?thesis using less.prems by (simp add: stats_contain.simps)
  next
    case False
    show ?thesis
    proof (cases "InternalType (stats_ty s) = PhysicalType.STRUCT")
      case True
      note st = GetStatsType_STRUCT [OF True]
      have "child_stats (SetHasNull s) = map SetHasNull (child_stats s)" "child_stats (SetHasNoNull s) = map SetHasNoNull (child_stats s)"
        using True by (simp_all add: SetHasNull.simps [of s] SetHasNoNull.simps [of s])
      then show ?thesis using less.prems less.IH child_stats_size
        by (simp add: stats_contain_struct [OF _ False] st)
    next
      case ns: False
      then have "GetStatsType (stats_ty s) \<noteq> STRUCT_STATS" using GetStatsType_STRUCT_D by blast
      moreover have "child_stats (SetHasNull s) = child_stats s" "child_stats (SetHasNoNull s) = child_stats s"
        using ns by (simp_all add: SetHasNull.simps [of s] SetHasNoNull.simps [of s])
      ultimately show ?thesis using less.prems False
        by (cases "GetStatsType (stats_ty s)") (simp_all add: stats_contain.simps [of _ v])
    qed
  qed
qed

lemma merge_all_sound:
  assumes "well_shaped s" "\<forall>e \<in> set es. well_shaped e \<and> stats_ty e = stats_ty s"
  shows "\<exists>c. merge_all s es = Inr c \<and> well_shaped c \<and> stats_ty c = stats_ty s
    \<and> (\<forall>v. stats_contain s v \<or> (\<exists>e \<in> set es. stats_contain e v) \<longrightarrow> stats_contain c v)"
  using assms
proof (induction es arbitrary: s)
  case (Cons e es)
  from Merge_sound [of s e] Cons.prems obtain m where m: "Merge s e = Inr m" "well_shaped m" "stats_ty m = stats_ty s"
    "\<forall>v. stats_contain s v \<or> stats_contain e v \<longrightarrow> stats_contain m v" by auto
  from Cons.IH [of m] Cons.prems m obtain c where "merge_all m es = Inr c" "well_shaped c" "stats_ty c = stats_ty s"
    "\<forall>v. stats_contain m v \<or> (\<exists>e \<in> set es. stats_contain e v) \<longrightarrow> stats_contain c v" by auto
  with m show ?case by (auto simp: merge_all_def)
qed (simp add: merge_all_def)

text \<open>The flags that \<open>FromConstant\<close> sets last.\<close>

lemma well_shaped_flags [simp]:
  "well_shaped (set_null n nn s) = well_shaped s" "well_shaped (set_distinct k s) = well_shaped s"
  unfolding well_shaped.simps [of s] by (subst well_shaped.simps, simp)+

lemma set_null_absorb [simp]:
  "set_null n nn (set_null n' nn' s) = set_null n nn s" "set_null n nn (set_distinct k s) = set_distinct k (set_null n nn s)"
  by (simp_all add: set_defs)

lemma stats_contain_distinct [simp]: "stats_contain (set_distinct k s) v = stats_contain s v"
  unfolding stats_contain.simps [of s] by (subst stats_contain.simps) (simp only: set_sel)

lemma flags_null:
  assumes "IsNull v" "well_shaped s"
  shows "let r = Set_info CANNOT_HAVE_VALID_VALUES (Set_info CAN_HAVE_NULL_VALUES (set_distinct k s))
    in well_shaped r \<and> stats_ty r = stats_ty s \<and> stats_contain r v"
proof -
  let ?r = "Set_info CANNOT_HAVE_VALID_VALUES (Set_info CAN_HAVE_NULL_VALUES (set_distinct k s))"
  have "stats_contain ?r v" using assms(1) by (subst stats_contain.simps) (simp add: Set_info_def)
  then show ?thesis using SetHas_shape [of "set_distinct k s"] assms by (simp add: Let_def Set_info_def)
qed

lemma flags_valid:
  assumes "\<not> IsNull v" "well_shaped s" "stats_contain (set_null False True s) v"
  shows "let r = Set_info CAN_HAVE_VALID_VALUES (Set_info CANNOT_HAVE_NULL_VALUES (set_distinct k s))
    in well_shaped r \<and> stats_ty r = stats_ty s \<and> stats_contain r v"
proof -
  have "SetHasNoNull (set_null False (has_no_null s) (set_distinct k s)) = SetHasNoNull (set_distinct k (set_null False True s))"
    by (simp add: SetHasNoNull.simps set_defs)
  then show ?thesis
    using SetHas_shape [of "set_distinct k (set_null False True s)"] SetHas_contain [of "set_distinct k (set_null False True s)" v] assms
    by (simp add: Let_def Set_info_def)
qed

lemma set_children_shape:
  assumes "well_shaped s" "nested_stats (GetStatsType (stats_ty s))"
    and "map stats_ty cs = child_types (stats_ty s)" "\<forall>c \<in> set cs. well_shaped c"
  shows "well_shaped (set_children cs s)"
  using assms(1,2) unfolding well_shaped.simps [of s] by (subst well_shaped.simps) (use assms in simp)

text \<open>Copying into the children of empty statistics replaces them.\<close>

lemma copy_into_empty:
  assumes "CreateEmpty ty = Inr e" "nested_stats (GetStatsType ty)"
    and "list_all2 (\<lambda>t c. well_shaped c \<and> stats_ty c = t) (child_types ty) cs"
  shows "map (\<lambda>(a, b). Copy a b) (zip (child_stats e) cs) = cs \<and> length (child_stats e) = length cs
    \<and> well_shaped (set_children cs (InitializeEmpty e))"
proof -
  have e: "well_shaped e" "stats_ty e = ty" using CreateEmpty_shape [OF assms(1)] by auto
  then have ch: "map stats_ty (child_stats e) = child_types ty" "\<forall>c \<in> set (child_stats e). well_shaped c"
    using assms(2) by (simp_all add: well_shaped.simps [of e])
  then have len: "length (child_stats e) = length cs" using list_all2_lengthD [OF assms(3)] by (metis length_map)
  have "Copy (child_stats e ! i) (cs ! i) = cs ! i" if i: "i < length cs" for i
  proof (rule Copy_id)
    have t: "stats_ty (child_stats e ! i) = child_types ty ! i" "i < length (child_stats e)" using ch(1) len i by (metis nth_map)+
    show "well_shaped (child_stats e ! i)" using ch(2) t by simp
    show "well_shaped (cs ! i)" "stats_ty (child_stats e ! i) = stats_ty (cs ! i)"
      using assms(3) i t by (auto simp: list_all2_conv_all_nth)
  qed
  then show ?thesis
    using len set_children_shape [of "InitializeEmpty e" cs] e shaped_children [OF assms(3)] assms(2)
    by (auto simp: InitializeEmpty_def intro!: nth_equalityI)
qed

lemma Construct_InitializeEmpty [simp]: "well_shaped (InitializeEmpty s) = well_shaped s" "stats_ty (InitializeEmpty s) = stats_ty s"
  by (simp_all add: InitializeEmpty_def)

lemma flat_shape [simp]: "well_shaped (set_numeric d s) = well_shaped s"
  unfolding well_shaped.simps [of s] by (subst well_shaped.simps) simp

lemma string_shape: "well_shaped s \<Longrightarrow> str_wf d \<Longrightarrow> well_shaped (set_string d s)"
  unfolding well_shaped.simps [of s] by (subst well_shaped.simps) simp

lemma FromConstant_null:
  "FromConstant A v = Inr s \<Longrightarrow> IsNull v \<Longrightarrow> well_shaped s \<and> stats_ty s = v_type v \<and> stats_contain s v"
proof (induction v arbitrary: s rule: measure_induct_rule [of "\<lambda>v. size (v_type v)"])
  case (less v)
  let ?ty = "v_type v"
  have "\<exists>b. s = Set_info CANNOT_HAVE_VALID_VALUES (Set_info CAN_HAVE_NULL_VALUES (set_distinct 1 b)) \<and> well_shaped b \<and> stats_ty b = ?ty"
  proof (cases "GetStatsType ?ty")
    case STRUCT_STATS
    with less.prems obtain e cs where e: "CreateEmpty ?ty = Inr e"
      and cs: "map_res (\<lambda>cty. FromConstant A (null_value cty)) (child_types ?ty) = Inr cs"
      and s: "s = Set_info CANNOT_HAVE_VALID_VALUES (Set_info CAN_HAVE_NULL_VALUES
        (set_distinct 1 (set_children (map (\<lambda>(a, b). Copy a b) (zip (child_stats e) cs)) (InitializeEmpty e))))"
      unfolding FromConstant.simps [of A v] Let_def by (auto simp: bind_res_eq_Inr split: if_splits)
    have "list_all2 (\<lambda>t c. well_shaped c \<and> stats_ty c = t) (child_types ?ty) cs"
    proof (rule map_res_shape [OF cs])
      fix t c assume "t \<in> set (child_types ?ty)" "FromConstant A (null_value t) = Inr c"
      with less.IH [of "null_value t" c] child_types_size [of t ?ty] show "well_shaped c \<and> stats_ty c = t"
        by (simp add: null_value_def)
    qed
    from copy_into_empty [OF e _ this] STRUCT_STATS s CreateEmpty_shape [OF e] show ?thesis by auto
  qed (use less.prems CreateEmpty_shape in \<open>force simp: FromConstant.simps [of A v] Let_def bind_res_eq_Inr
      well_shaped_Construct string_shape split: if_splits\<close>)+
  then show ?case using flags_null [OF less.prems(2)] by (auto simp: Let_def)
qed

text \<open>The body of \<open>FromConstantType\<close> on a value that is not NULL, by kind of statistics.\<close>

abbreviation valid_flags :: "BaseStatistics \<Rightarrow> BaseStatistics" where
  "valid_flags b \<equiv> Set_info CAN_HAVE_VALID_VALUES (Set_info CANNOT_HAVE_NULL_VALUES (set_distinct 1 b))"

lemma FromConstant_numeric:
  assumes "FromConstant A v = Inr s" "\<not> IsNull v" "GetStatsType (v_type v) = NUMERIC_STATS"
  shows "\<exists>b. s = valid_flags b \<and> well_shaped b \<and> stats_ty b = v_type v \<and> stats_contain (set_null False True b) v"
proof -
  from assms obtain d where s: "s = valid_flags (set_numeric d (InitializeEmpty (Construct (v_type v))))"
    and d: "nmin d = read_member (InternalType (v_type v)) (num_of v)" "nmax d = read_member (InternalType (v_type v)) (num_of v)"
    unfolding FromConstant.simps [of A v] Let_def
    by (auto simp: bind_res_eq_Inr SetMin_def SetMax_def SetNumericValueInternal_def split: if_splits)
  let ?b = "set_numeric d (InitializeEmpty (Construct (v_type v)))"
  have "stats_contain (set_null False True ?b) v"
    using assms(2,3) d by (subst stats_contain.simps) (simp add: num_contains_def comparison_key)
  then show ?thesis using s well_shaped_Construct by auto
qed

lemma FromConstant_string:
  assumes "FromConstant A v = Inr s" "\<not> IsNull v" "GetStatsType (v_type v) = STRING_STATS"
  shows "\<exists>b. s = valid_flags b \<and> well_shaped b \<and> stats_ty b = v_type v \<and> stats_contain (set_null False True b) v"
proof -
  from assms obtain d where s: "s = valid_flags (set_string d (InitializeEmpty (Construct (v_type v))))"
    and d: "StringStats_Update A (v_type v) (str_of v) StringStats_CreateEmpty = Inr d"
    unfolding FromConstant.simps [of A v] Let_def by (auto simp: bind_res_eq_Inr)
  have "str_wf d \<and> str_contains d (str_of v)" using StringStats_Update_bounds [OF _ d] by (simp add: str_contains_le)
  moreover from this have "stats_contain (set_null False True (set_string d (InitializeEmpty (Construct (v_type v))))) v"
    using assms(2,3) by (subst stats_contain.simps) simp
  ultimately show ?thesis using s well_shaped_Construct string_shape by auto
qed

lemma FromConstant_struct:
  assumes "FromConstant A v = Inr s" "\<not> IsNull v" "GetStatsType (v_type v) = STRUCT_STATS" "value_ok (v_type v) v"
    and IH: "\<And>c t r. c \<in> set (children_of v) \<Longrightarrow> value_ok t c \<Longrightarrow> FromConstant A c = Inr r \<Longrightarrow>
      well_shaped r \<and> stats_ty r = t \<and> stats_contain r c"
  shows "\<exists>b. s = valid_flags b \<and> well_shaped b \<and> stats_ty b = v_type v \<and> stats_contain (set_null False True b) v"
proof -
  let ?ty = "v_type v"
  from assms obtain e cs where e: "CreateEmpty ?ty = Inr e" and cs: "map_res (FromConstant A) (children_of v) = Inr cs"
    and s: "s = valid_flags (set_children (map (\<lambda>(a, b). Copy a b) (zip (child_stats e) cs)) (InitializeEmpty e))"
    unfolding FromConstant.simps [of A v] Let_def by (auto simp: bind_res_eq_Inr split: if_splits)
  have len: "length (children_of v) = length (child_types ?ty)"
    and ok: "\<And>i. i < length (child_types ?ty) \<Longrightarrow> value_ok (child_types ?ty ! i) (children_of v ! i)"
    using assms(2,3,4) by (fastforce simp: value_ok.simps [of ?ty v] set_zip)+
  have res: "length cs = length (children_of v)" "\<And>i. i < length cs \<Longrightarrow> FromConstant A (children_of v ! i) = Inr (cs ! i)"
    using cs unfolding map_res_Inr_iff by (auto simp: list_all2_conv_all_nth)
  have el: "well_shaped (cs ! i) \<and> stats_ty (cs ! i) = child_types ?ty ! i \<and> stats_contain (cs ! i) (children_of v ! i)"
    if "i < length cs" for i
    using IH [OF _ ok res(2) [OF that]] that res(1) len by simp
  then have "list_all2 (\<lambda>t c. well_shaped c \<and> stats_ty c = t) (child_types ?ty) cs"
    using res(1) len by (simp add: list_all2_conv_all_nth)
  from copy_into_empty [OF e _ this] assms(3) have b: "map (\<lambda>(a, b). Copy a b) (zip (child_stats e) cs) = cs"
    "well_shaped (set_children cs (InitializeEmpty e))" by auto
  have "stats_contain (set_null False True (set_children cs (InitializeEmpty e))) v"
    using assms(2,3) el res(1) CreateEmpty_shape [OF e] by (subst stats_contain_struct) auto
  then show ?thesis using s b CreateEmpty_shape [OF e] by auto
qed

lemma FromConstant_list:
  assumes "FromConstant A v = Inr s" "\<not> IsNull v" "GetStatsType (v_type v) = LIST_STATS \<or> GetStatsType (v_type v) = ARRAY_STATS"
    and "value_ok (v_type v) v"
    and IH: "\<And>c t r. c \<in> set (children_of v) \<Longrightarrow> value_ok t c \<Longrightarrow> FromConstant A c = Inr r \<Longrightarrow>
      well_shaped r \<and> stats_ty r = t \<and> stats_contain r c"
  shows "\<exists>b. s = valid_flags b \<and> well_shaped b \<and> stats_ty b = v_type v \<and> stats_contain (set_null False True b) v"
proof -
  let ?ty = "v_type v"
  from assms(1-3) obtain e es cs where e: "CreateEmpty ?ty = Inr e" and es: "map_res (FromConstant A) (children_of v) = Inr es"
    and cs: "map_res (\<lambda>c. merge_all c es) (child_stats e) = Inr cs"
    and s: "s = valid_flags (set_children cs (InitializeEmpty e))"
    unfolding FromConstant.simps [of A v] Let_def by (elim disjE) (auto simp: bind_res_eq_Inr)
  note E = CreateEmpty_shape [OF e]
  have ch: "map stats_ty (child_stats e) = child_types ?ty" "\<forall>c \<in> set (child_stats e). well_shaped c"
    using E assms(3) by (auto simp: well_shaped.simps [of e])
  have ok: "\<forall>t \<in> set (child_types ?ty). \<forall>c \<in> set (children_of v). value_ok t c"
    using assms(2-4) by (auto simp: value_ok.simps [of ?ty v])
  have res: "length es = length (children_of v)" "\<And>i. i < length es \<Longrightarrow> FromConstant A (children_of v ! i) = Inr (es ! i)"
    using es unfolding map_res_Inr_iff by (auto simp: list_all2_conv_all_nth)
  have el: "\<forall>r \<in> set es. well_shaped r \<and> stats_ty r = t" "\<forall>x \<in> set (children_of v). \<exists>r \<in> set es. stats_contain r x"
    if "t \<in> set (child_types ?ty)" for t
    using IH [OF _ _ res(2)] ok that res(1) by (fastforce simp: in_set_conv_nth)+
  have m: "list_all2 (\<lambda>c r. well_shaped r \<and> stats_ty r = stats_ty c \<and> (\<forall>x \<in> set (children_of v). stats_contain r x)) (child_stats e) cs"
  proof (rule map_res_shape [OF cs])
    fix c r assume c: "c \<in> set (child_stats e)" and r: "merge_all c es = Inr r"
    from c have t: "stats_ty c \<in> set (child_types ?ty)" using ch(1) by (metis image_eqI set_map)
    from merge_all_sound [of c es] c ch(2) el(1) [OF t] r el(2) [OF t]
    show "well_shaped r \<and> stats_ty r = stats_ty c \<and> (\<forall>x \<in> set (children_of v). stats_contain r x)" by auto
  qed
  then have "map stats_ty cs = child_types ?ty" "\<forall>c \<in> set cs. well_shaped c \<and> (\<forall>x \<in> set (children_of v). stats_contain c x)"
    unfolding ch(1) [symmetric] by (induction rule: list_all2_induct) auto
  moreover from this have "stats_contain (set_null False True (set_children cs (InitializeEmpty e))) v"
    using assms(2,3) E by (subst stats_contain_list) auto
  ultimately show ?thesis using s E assms(3) set_children_shape [of "InitializeEmpty e" cs] by auto
qed

lemma FromConstant_sound:
  "FromConstant A v = Inr s \<Longrightarrow> value_ok ty v \<Longrightarrow> well_shaped s \<and> stats_ty s = ty \<and> stats_contain s v"
proof (induction v arbitrary: s ty rule: measure_induct_rule [of size])
  case (less v)
  have ty: "v_type v = ty" using less.prems(2) by (simp add: value_ok.simps)
  show ?case
  proof (cases "IsNull v")
    case True
    then show ?thesis using FromConstant_null [OF less.prems(1)] ty by simp
  next
    case False
    note IH = less.IH [OF children_of_size]
    have "\<exists>b. s = valid_flags b \<and> well_shaped b \<and> stats_ty b = v_type v \<and> stats_contain (set_null False True b) v"
    proof (cases "GetStatsType (v_type v)")
      case BASE_STATS
      then have "s = valid_flags (Construct (v_type v))"
        using less.prems(1) False unfolding FromConstant.simps [of A v] Let_def by auto
      moreover have "stats_contain (set_null False True (Construct (v_type v))) v"
        using False BASE_STATS by (subst stats_contain.simps) simp
      ultimately show ?thesis using well_shaped_Construct by auto
    qed (use less.prems False ty IH FromConstant_numeric FromConstant_string FromConstant_struct FromConstant_list in blast)+
    then show ?thesis using flags_valid [OF False] ty by (auto simp: Let_def)
  qed
qed

section \<open>Unknown statistics\<close>

lemma cmp_bounds:
  "length x = n \<Longrightarrow> \<not> StringValueComparison x n (replicate n 0) < 0 \<and> \<not> StringValueComparison x n (replicate n 255) > 0"
proof (induction n arbitrary: x)
  case (Suc n)
  then obtain b y where x: "x = b # y" "length y = n" by (cases x) auto
  have "\<not> b < 0" "\<not> 255 < b" using unsigned_less [of b, where ?'a = nat] by (auto simp: not_less word_le_nat_alt)
  with Suc.IH [OF x(2)] x(1) show ?case by (auto simp: word_less_nat_alt)
qed simp

lemma str_contains_unknown: "str_contains StringStats_CreateUnknown x"
  using cmp_bounds [of "ConstructValue x" MAX_STRING_MINMAX_SIZE]
  by (simp add: str_contains_def StringStats_CreateUnknown_def ConstructValue_pad)

lemma CreateUnknown_children:
  assumes "nested_stats (GetStatsType ty)" "map_res CreateUnknown (child_types ty) = Inr cs"
  shows "CreateUnknown ty = Inr (InitializeUnknown (set_children cs (InitializeUnknown (Construct ty))))"
proof -
  have "list_all2 (\<lambda>cty c. well_shaped c \<and> stats_ty c = cty) (child_types ty) cs"
    using CreateUnknown_shape by (intro map_res_shape [OF assms(2)]) blast
  from map_Copy_children [OF this] assms show ?thesis
    unfolding CreateUnknown.simps [of ty] by (elim disjE) (auto simp: Construct_sel)
qed

lemma CreateUnknown_sound: "\<exists>s. CreateUnknown ty = Inr s \<and> (\<forall>v. value_ok ty v \<longrightarrow> stats_contain s v)"
proof (induction ty rule: measure_induct_rule [of size])
  case (less ty)
  show ?case
  proof (cases "nested_stats (GetStatsType ty)")
    case True
    have "\<exists>f. \<forall>t \<in> set (child_types ty). CreateUnknown t = Inr (f t) \<and> (\<forall>v. value_ok t v \<longrightarrow> stats_contain (f t) v)"
      using less.IH child_types_size by (intro bchoice) blast
    then obtain f where f: "\<And>t. t \<in> set (child_types ty) \<Longrightarrow>
        CreateUnknown t = Inr (f t) \<and> (\<forall>v. value_ok t v \<longrightarrow> stats_contain (f t) v)" by blast
    let ?s = "InitializeUnknown (set_children (map f (child_types ty)) (InitializeUnknown (Construct ty)))"
    have "map_res CreateUnknown (child_types ty) = Inr (map f (child_types ty))" using f by (intro map_res_ok) blast
    from CreateUnknown_children [OF True this] have "CreateUnknown ty = Inr ?s" .
    moreover have "stats_contain ?s v" if ok: "value_ok ty v" for v
    proof (cases "IsNull v")
      case null: True
      then show ?thesis by (subst stats_contain.simps) (simp add: InitializeUnknown_def)
    next
      case False
      show ?thesis
      proof (cases "GetStatsType ty = STRUCT_STATS")
        case struct: True
        then have "length (children_of v) = length (child_types ty)"
          "\<And>i. i < length (child_types ty) \<Longrightarrow> value_ok (child_types ty ! i) (children_of v ! i)"
          using ok False by (fastforce simp: value_ok.simps [of ty v] set_zip)+
        then show ?thesis using False struct f by (subst stats_contain_struct) (auto simp: InitializeUnknown_def)
      next
        case list: False
        then have "\<forall>t \<in> set (child_types ty). \<forall>c \<in> set (children_of v). value_ok t c"
          using ok False True by (auto simp: value_ok.simps [of ty v])
        then show ?thesis using list False True f by (subst stats_contain_list) (auto simp: InitializeUnknown_def)
      qed
    qed
    ultimately show ?thesis by blast
  next
    case False
    then show ?thesis unfolding CreateUnknown.simps [of ty]
      by (cases "GetStatsType ty") (auto simp: NumericStats_CreateUnknown_def stats_simps numeric_uninit_def InitializeUnknown_def
          stats_contain.simps num_contains_def HasMin_def HasMax_def str_contains_unknown)
  qed
qed

section \<open>Properties\<close>

text \<open>
  C19: the join of the statistics of two segments. Merging statistics of the same type always
  succeeds, keeps the shape of the tree, and the result contains every value (NULL, number,
  string, list, array or struct, however nested) that either argument contains.
\<close>

theorem BaseStatistics_Merge_contains:
  assumes "well_shaped a" "well_shaped b" "stats_ty a = stats_ty b"
  shows "\<exists>c. Merge a b = Inr c \<and> well_shaped c \<and> stats_ty c = stats_ty a
    \<and> (\<forall>v. stats_contain a v \<or> stats_contain b v \<longrightarrow> stats_contain c v)"
  using assms by (rule Merge_sound)

definition int_list_type :: LogicalType where
  "int_list_type = LogicalType LogicalTypeId.LIST (Some (ListTypeInfo (simple_type LogicalTypeId.INTEGER)))"

theorem BaseStatistics_Merge_contains_witness:
  "\<exists>c. Merge (Construct int_list_type) (SetHasNull (Construct int_list_type)) = Inr c
     \<and> stats_contain c (null_value int_list_type)"
proof -
  let ?a = "Construct int_list_type"
  have "well_shaped ?a" "well_shaped (SetHasNull ?a)" using well_shaped_Construct SetHas_shape by blast+
  moreover have "stats_contain (SetHasNull ?a) (null_value int_list_type)"
    by (subst stats_contain.simps) (simp add: null_value_def)
  ultimately show ?thesis using BaseStatistics_Merge_contains [of ?a "SetHasNull ?a"] by auto
qed

text \<open>
  C29: the serialized form of column statistics is read back without loss. For statistics of the
  right shape in which only the union member of the type is set, \<open>Serialize\<close> succeeds and
  \<open>Deserialize\<close>, with the type of the column, gives the same statistics, children included.
\<close>

theorem BaseStatistics_Serialize_roundtrip:
  assumes "well_shaped s" "canonical s"
  shows "\<exists>fs. Serialize s = Inr fs \<and> Deserialize (stats_ty s) fs = Inr s"
  using assms by (rule Serialize_roundtrip_aux)

theorem BaseStatistics_Serialize_roundtrip_witness:
  "\<exists>fs. Serialize (Construct int_list_type) = Inr fs \<and> Deserialize int_list_type fs = Inr (Construct int_list_type)"
proof -
  let ?i = "simple_type LogicalTypeId.INTEGER"
  have t: "child_types int_list_type = [?i]" "GetStatsType int_list_type = LIST_STATS" "GetStatsType ?i = NUMERIC_STATS"
    by (simp_all add: int_list_type_def GetStatsType_def InternalType_def)
  have "canonical (Construct ?i)"
    using t by (subst canonical.simps) (simp add: Construct_sel num_canonical_def numeric_uninit_def)
  then have "canonical (Construct int_list_type)" using t by (subst canonical.simps) (simp add: Construct_sel)
  from BaseStatistics_Serialize_roundtrip [OF well_shaped_Construct this] show ?thesis by simp
qed

text \<open>
  The statistics of a constant contain the constant. When \<open>FromConstant\<close> returns for a value
  of the column type (it throws for types without a minimum and for invalid unicode), the
  result has the shape of the type and contains the value, for NULL and for nested values too.
\<close>

lemma FromConstant_contains:
  assumes "FromConstant Analyze v = Inr s" "value_ok ty v"
  shows "well_shaped s \<and> stats_ty s = ty \<and> stats_contain s v"
  using assms by (rule FromConstant_sound)

text \<open>
  Unknown statistics exclude nothing. \<open>CreateUnknown\<close> succeeds for every type and its result
  contains every value of the type.
\<close>

lemma CreateUnknown_contains_all:
  "\<exists>s. CreateUnknown ty = Inr s \<and> well_shaped s \<and> stats_ty s = ty \<and> (\<forall>v. value_ok ty v \<longrightarrow> stats_contain s v)"
  using CreateUnknown_sound [of ty] CreateUnknown_shape [of ty] by blast

end
