(* ===== verification/Byte_Stream.thy ===== *)
theory Byte_Stream
  imports Prelude
begin

text \<open>
  The byte streams that the storage layer serializes to:
  \<^verbatim>\<open>src/src/include/duckdb/common/serializer/write_stream.hpp\<close>, \<^verbatim>\<open>read_stream.hpp\<close> and
  \<^verbatim>\<open>src/src/common/serializer/memory_stream.cpp\<close>.

  What a writer has written is the list of its bytes; a reader is the list of the bytes that are
  left. \<open>Write<T>\<close> writes the \<open>sizeof(T)\<close> bytes of the object in memory order, which is
  little-endian for the integers. A read past the end throws.

  \<open>MemoryStream\<close> implements both interfaces on one growing buffer.
\<close>

type_synonym bytes = "8 word list"

section \<open>Integers as bytes\<close>

definition le_bytes :: "nat \<Rightarrow> nat \<Rightarrow> bytes" where
  "le_bytes k x = map (\<lambda>i. word_of_nat (x div 256 ^ i)) [0..<k]"

definition le_nat :: "bytes \<Rightarrow> nat" where
  "le_nat bs = foldr (\<lambda>b acc. unat b + 256 * acc) bs 0"

definition Write_uint :: "nat \<Rightarrow> nat \<Rightarrow> bytes \<Rightarrow> bytes" where
  "Write_uint k x out = out @ le_bytes k x"

definition ReadData :: "nat \<Rightarrow> bytes \<Rightarrow> exc + bytes \<times> bytes" where
  "ReadData k inp = (if length inp < k then Inl SerializationException else Inr (take k inp, drop k inp))"

definition Read_uint :: "nat \<Rightarrow> bytes \<Rightarrow> exc + nat \<times> bytes" where
  "Read_uint k inp = bind_res (ReadData k inp) (\<lambda>(bs, rest). Inr (le_nat bs, rest))"

lemma length_le_bytes [simp]: "length (le_bytes k x) = k"
  by (simp add: le_bytes_def)

lemma le_bytes_Suc: "le_bytes (Suc k) x = word_of_nat x # le_bytes k (x div 256)"
proof -
  have "[0..<Suc k] = 0 # map Suc [0..<k]" by (simp add: map_Suc_upt upt_conv_Cons del: upt_Suc)
  then show ?thesis by (simp add: le_bytes_def div_mult2_eq comp_def)
qed

lemma le_nat_le_bytes: "le_nat (le_bytes k x) = x mod 256 ^ k"
proof (induction k arbitrary: x)
  case 0
  then show ?case by (simp add: le_nat_def le_bytes_def)
next
  case (Suc k)
  have "le_nat (le_bytes (Suc k) x) = x mod 256 + 256 * le_nat (le_bytes k (x div 256))"
    by (simp add: le_bytes_Suc le_nat_def unsigned_of_nat take_bit_eq_mod)
  then show ?case using Suc [of "x div 256"] mod_mult2_eq [of x 256 "256 ^ k"] by simp
qed

lemma ReadData_append [simp]: "length bs = k \<Longrightarrow> ReadData k (bs @ rest) = Inr (bs, rest)"
  by (simp add: ReadData_def)

lemma Read_written [simp]: "x < 256 ^ k \<Longrightarrow> Read_uint k (le_bytes k x @ rest) = Inr (x, rest)"
  by (simp add: Read_uint_def le_nat_le_bytes)

text \<open>Arrays of 64-bit words, as \<open>WriteData\<close> and \<open>ReadData\<close> copy them.\<close>

definition words_bytes :: "u64 list \<Rightarrow> bytes" where
  "words_bytes ws = concat (map (\<lambda>w. le_bytes 8 (unat w)) ws)"

fun bytes_words :: "nat \<Rightarrow> bytes \<Rightarrow> u64 list" where
  "bytes_words 0 bs = []"
| "bytes_words (Suc n) bs = word_of_nat (le_nat (take 8 bs)) # bytes_words n (drop 8 bs)"

lemma length_words_bytes [simp]: "length (words_bytes ws) = 8 * length ws"
  by (induction ws) (simp_all add: words_bytes_def)

lemma bytes_words_inverse: "bytes_words (length ws) (words_bytes ws) = ws"
proof (induction ws)
  case (Cons w ws)
  have "unat w < 256 ^ 8" using unsigned_less [of w, where ?'a = nat] by simp
  with Cons show ?case by (simp add: words_bytes_def le_nat_le_bytes)
qed (simp add: words_bytes_def)

section \<open>MemoryStream\<close>

record MemoryStream =
  position :: idx_t
  capacity :: idx_t
  owns_data :: bool
  mem :: bytes

text \<open>
  \<open>realloc\<close> keeps the content as far as it fits; the new bytes are arbitrary, here 0. The loop of
  \<open>WriteData\<close> doubles the capacity until the write fits. Positions and capacities are 64-bit
  numbers: \<open>capacity *= 2\<close> wraps round, and so does \<open>position + write_size\<close>. The loop is a partial
  function because a capacity that has become 0 never grows again.
\<close>

definition realloc :: "idx_t \<Rightarrow> bytes \<Rightarrow> bytes" where
  "realloc c data = take c data @ replicate (c - length data) 0"

partial_function (option) grow :: "idx_t \<Rightarrow> MemoryStream \<Rightarrow> (exc + MemoryStream) option" where
  "grow need s =
     (if need > capacity s
      then if owns_data s
           then let c = capacity s * 2 mod 2 ^ 64 in grow need (s\<lparr>capacity := c, mem := realloc c (mem s)\<rparr>)
           else Some (Inl SerializationException)
      else Some (Inr s))"

text \<open>
  \<open>None\<close>: the call does not return. The copy is outside the buffer when \<open>position + write_size\<close>
  wrapped round in the comparison.
\<close>

definition ms_WriteData :: "bytes \<Rightarrow> MemoryStream \<Rightarrow> (exc + MemoryStream) option" where
  "ms_WriteData src s =
     (let write_size = length src; need = (position s + write_size) mod 2 ^ 64
      in case grow need s of
           None \<Rightarrow> None
         | Some (Inl e) \<Rightarrow> Some (Inl e)
         | Some (Inr s) \<Rightarrow>
             if position s + write_size > length (mem s) then Some (Inl OutOfBounds)
             else Some (Inr (s\<lparr>position := need,
                    mem := take (position s) (mem s) @ src @ drop (position s + write_size) (mem s)\<rparr>)))"

definition ms_ReadData :: "idx_t \<Rightarrow> MemoryStream \<Rightarrow> exc + bytes \<times> MemoryStream" where
  "ms_ReadData read_size s =
     (let need = (position s + read_size) mod 2 ^ 64
      in if need > capacity s then Inl SerializationException
         else if position s + read_size > length (mem s) then Inl OutOfBounds
         else Inr (take read_size (drop (position s) (mem s)), s\<lparr>position := need\<rparr>))"

definition Rewind :: "MemoryStream \<Rightarrow> MemoryStream" where
  "Rewind s = s\<lparr>position := 0\<rparr>"

definition MemoryStream_new :: "idx_t \<Rightarrow> MemoryStream" where
  "MemoryStream_new c = \<lparr>position = 0, capacity = c, owns_data = True, mem = replicate c 0\<rparr>"

definition MemoryStream_buffer :: "bytes \<Rightarrow> MemoryStream" where
  "MemoryStream_buffer buffer = \<lparr>position = 0, capacity = length buffer, owns_data = False, mem = buffer\<rparr>"

definition Release :: "MemoryStream \<Rightarrow> MemoryStream" where
  "Release s = s\<lparr>owns_data := False\<rparr>"

definition ms_inv :: "MemoryStream \<Rightarrow> bool" where
  "ms_inv s \<longleftrightarrow> length (mem s) = capacity s \<and> position s \<le> capacity s \<and> 0 < capacity s \<and> capacity s < 2 ^ 64"

definition written :: "MemoryStream \<Rightarrow> bytes" where
  "written s = take (position s) (mem s)"

lemma realloc_larger: "length data \<le> c \<Longrightarrow> length (realloc c data) = c \<and> take (length data) (realloc c data) = data"
  by (simp add: realloc_def)

lemma grow_result:
  "\<lbrakk>ms_inv s; owns_data s; need \<le> 2 ^ 63\<rbrakk> \<Longrightarrow>
    \<exists>s'. grow need s = Some (Inr s') \<and> ms_inv s' \<and> owns_data s' \<and> position s' = position s \<and> written s' = written s
      \<and> need \<le> capacity s' \<and> (capacity s' = capacity s \<or> capacity s' < 2 * need)"
proof (induction "need - capacity s" arbitrary: s rule: less_induct)
  case less
  show ?case
  proof (cases "need > capacity s")
    case True
    define s2 where "s2 = s\<lparr>capacity := capacity s * 2, mem := realloc (capacity s * 2) (mem s)\<rparr>"
    have no_wrap: "capacity s * 2 mod 2 ^ 64 = capacity s * 2" using True less.prems(3) by simp
    have grow: "grow need s = grow need s2"
      using True less.prems(2) no_wrap by (subst grow.simps) (simp add: s2_def Let_def)
    have r: "length (realloc (capacity s * 2) (mem s)) = capacity s * 2"
        "take (length (mem s)) (realloc (capacity s * 2) (mem s)) = mem s"
      using realloc_larger [of "mem s" "capacity s * 2"] less.prems(1) by (simp_all add: ms_inv_def)
    have "take (position s) (realloc (capacity s * 2) (mem s)) = take (position s) (take (length (mem s)) (realloc (capacity s * 2) (mem s)))"
      using less.prems(1) by (simp add: ms_inv_def min_absorb1)
    then have "written s2 = written s" using r(2) by (simp add: s2_def written_def)
    moreover have "ms_inv s2" "owns_data s2" "position s2 = position s" "capacity s2 = capacity s * 2"
      using True less.prems r(1) by (simp_all add: s2_def ms_inv_def)
    moreover have "need - capacity s2 < need - capacity s" using True less.prems(1) unfolding s2_def ms_inv_def by (simp, linarith)
    ultimately show ?thesis using less.hyps [of s2] less.prems(3) True unfolding grow by fastforce
  next
    case False
    with less.prems show ?thesis by (subst grow.simps) simp
  qed
qed

lemma grow_borrowed: "\<not> owns_data s \<Longrightarrow> grow need s = (if need > capacity s then Some (Inl SerializationException) else Some (Inr s))"
  by (subst grow.simps) simp

text \<open>
  Past 2^63 the doubling of a power of two wraps round to 0 and the loop does not return: every
  unfolding asks for the same call. A capacity of 0 is in this state from the start.
\<close>

lemma grow_diverges:
  assumes "owns_data s" "capacity s = 0 \<and> 0 < need \<or> (\<exists>k<64. capacity s = 2 ^ k) \<and> 2 ^ 63 < need"
  shows "grow need s = None"
proof -
  have double: "2 ^ k * 2 mod 2 ^ 64 = (0::nat) \<or> (\<exists>j<64. 2 ^ k * 2 mod 2 ^ 64 = (2::nat) ^ j)" if "k < 64" for k
  proof (cases "k = 63")
    case False
    then have "(2::nat) ^ Suc k < 2 ^ 64" using that by (intro power_strict_increasing) auto
    moreover have "Suc k < 64" using that False by simp
    ultimately show ?thesis by (intro disjI2 exI [of _ "Suc k"]) (simp add: mult.commute)
  qed simp
  have small: "(2::nat) ^ k \<le> 2 ^ 63" if "k < 64" for k using that by (intro power_increasing) auto
  have "owns_data s \<longrightarrow> \<not> (capacity s = 0 \<and> 0 < need \<or> (\<exists>k<64. capacity s = 2 ^ k) \<and> 2 ^ 63 < need)"
    if "grow need s = Some r" for need s r
  proof (rule grow.raw_induct [OF _ that, of
        "\<lambda>need s r. owns_data s \<longrightarrow> \<not> (capacity s = 0 \<and> 0 < need \<or> (\<exists>k<64. capacity s = 2 ^ k) \<and> 2 ^ 63 < need)"])
    fix rec need s r
    assume IH: "\<And>need s r. rec need s = Some r \<Longrightarrow> owns_data s \<longrightarrow> \<not> (capacity s = 0 \<and> 0 < need \<or> (\<exists>k<64. capacity s = 2 ^ k) \<and> 2 ^ 63 < need)"
      and run: "(if need > capacity s
      then if owns_data s
           then let c = capacity s * 2 mod 2 ^ 64 in rec need (s\<lparr>capacity := c, mem := realloc c (mem s)\<rparr>)
           else Some (Inl SerializationException)
      else Some (Inr s)) = Some r"
    show "owns_data s \<longrightarrow> \<not> (capacity s = 0 \<and> 0 < need \<or> (\<exists>k<64. capacity s = 2 ^ k) \<and> 2 ^ 63 < need)"
    proof (intro impI notI)
      assume own: "owns_data s" and stuck: "capacity s = 0 \<and> 0 < need \<or> (\<exists>k<64. capacity s = 2 ^ k) \<and> 2 ^ 63 < need"
      have "need > capacity s" using stuck small by fastforce
      with run own have "rec need (s\<lparr>capacity := capacity s * 2 mod 2 ^ 64, mem := realloc (capacity s * 2 mod 2 ^ 64) (mem s)\<rparr>) = Some r"
        by (simp add: Let_def)
      from IH [OF this] own stuck double show False by fastforce
    qed
  qed
  with assms show ?thesis by (cases "grow need s") blast+
qed

lemma ms_WriteData_fits:
  assumes "ms_inv s" "position s + length src \<le> capacity s"
  shows "\<exists>s'. ms_WriteData src s = Some (Inr s') \<and> ms_inv s' \<and> written s' = written s @ src
    \<and> capacity s' = capacity s \<and> owns_data s' = owns_data s"
proof -
  have "grow (position s + length src) s = Some (Inr s)" using assms(2) by (subst grow.simps) simp
  with assms show ?thesis by (auto simp: ms_WriteData_def ms_inv_def written_def Let_def)
qed

lemma ms_WriteData_grown:
  assumes "ms_inv s" "owns_data s" "position s + length src \<le> 2 ^ 63"
  shows "\<exists>s'. ms_WriteData src s = Some (Inr s') \<and> ms_inv s' \<and> written s' = written s @ src
    \<and> (capacity s' = capacity s \<or> capacity s' < 2 * length (written s')) \<and> owns_data s'"
proof -
  obtain t where t: "grow (position s + length src) s = Some (Inr t)" "ms_inv t" "owns_data t" "position t = position s"
    "written t = written s" "position s + length src \<le> capacity t"
    "capacity t = capacity s \<or> capacity t < 2 * (position s + length src)"
    using grow_result [OF assms] by blast
  let ?t = "t\<lparr>position := position s + length src, mem := written s @ src @ drop (position s + length src) (mem t)\<rparr>"
  have len: "length (written s) = position s" using assms(1) by (simp add: ms_inv_def written_def)
  have "ms_WriteData src s = Some (Inr ?t)" using t assms(3) by (simp add: ms_WriteData_def ms_inv_def written_def Let_def)
  moreover have "ms_inv ?t" "written ?t = written s @ src" "owns_data ?t"
    using t len by (simp_all add: ms_inv_def written_def [of ?t])
  ultimately show ?thesis using t(7) len by auto
qed

lemma ms_WriteData_borrowed:
  assumes "ms_inv s" "\<not> owns_data s" "capacity s < position s + length src" "position s + length src \<le> 2 ^ 63"
  shows "ms_WriteData src s = Some (Inl SerializationException)"
  using assms by (simp add: ms_WriteData_def grow_borrowed)

text \<open>After a rewind the reader gets back what was written.\<close>

lemma ms_ReadData_rewound:
  assumes "ms_inv s" "k \<le> position s"
  shows "ms_ReadData k (Rewind s) = Inr (take k (written s), s\<lparr>position := k\<rparr>)"
  using assms by (simp add: ms_ReadData_def Rewind_def ms_inv_def written_def min_absorb1)

section \<open>Properties\<close>

text \<open>
  C31: while the end of the written data stays within 2^63 bytes, a write to a stream of positive
  capacity returns. A stream that owns its buffer appends exactly the bytes it is given, growing
  the buffer to less than twice what is written; a stream on a foreign buffer appends them in
  place when they fit and throws otherwise.
\<close>

theorem MemoryStream_write_terminates:
  assumes "ms_inv s" "position s + length src \<le> 2 ^ 63"
  shows "if owns_data s \<or> position s + length src \<le> capacity s
    then \<exists>s'. ms_WriteData src s = Some (Inr s') \<and> ms_inv s' \<and> written s' = written s @ src
      \<and> (capacity s' = capacity s \<or> owns_data s \<and> capacity s' < 2 * length (written s')) \<and> owns_data s' = owns_data s
    else ms_WriteData src s = Some (Inl SerializationException)"
proof (cases "owns_data s")
  case True
  with ms_WriteData_grown [OF assms(1) True assms(2)] show ?thesis by auto
next
  case False
  with ms_WriteData_fits [OF assms(1)] ms_WriteData_borrowed [OF assms(1) False _ assms(2)] show ?thesis
    by (auto simp: not_le)
qed

theorem MemoryStream_write_terminates_witness:
  "(\<exists>s'. ms_WriteData [1, 2, 3, 4, 5] (MemoryStream_new 2) = Some (Inr s') \<and> written s' = [1, 2, 3, 4, 5] \<and> capacity s' < 10)
    \<and> ms_WriteData [1, 2, 3, 4, 5] (MemoryStream_buffer [0, 0]) = Some (Inl SerializationException)"
proof -
  have "ms_inv (MemoryStream_new 2)" "owns_data (MemoryStream_new 2)" "written (MemoryStream_new 2) = []"
      "capacity (MemoryStream_new 2) = 2" "position (MemoryStream_new 2) = 0"
    by (simp_all add: ms_inv_def MemoryStream_new_def written_def)
  moreover have "ms_inv (MemoryStream_buffer [0, 0])" "\<not> owns_data (MemoryStream_buffer [0, 0])"
      "capacity (MemoryStream_buffer [0, 0]) = 2" "position (MemoryStream_buffer [0, 0]) = 0"
    by (simp_all add: ms_inv_def MemoryStream_buffer_def)
  ultimately show ?thesis
    using MemoryStream_write_terminates [of "MemoryStream_new 2" "[1, 2, 3, 4, 5]"]
      MemoryStream_write_terminates [of "MemoryStream_buffer [0, 0]" "[1, 2, 3, 4, 5]"] by auto
qed

end
