(* ===== verification/Validity_Mask.thy ===== *)
theory Validity_Mask
  imports Byte_Stream
begin

text \<open>
  Validity masks: \<^verbatim>\<open>src/src/include/duckdb/common/types/validity_mask.hpp\<close> and
  \<^verbatim>\<open>src/src/common/types/validity_mask.cpp\<close>.

  A mask has one bit per row in 64-bit entries; a set bit is a valid (not NULL) row. The null
  pointer stands for "all rows are valid" and is \<open>None\<close> here. A buffer is the list of its
  entries, an access outside of it is an error value. Two masks that share one buffer after
  \<open>Initialize(other)\<close> have equal entries here; writes through one of them to the other are not
  modelled.

  The interface is the locale \<open>bit_buffer\<close>: rows that can be set one at a time.
\<close>

section \<open>The mask\<close>

record ValidityMask =
  validity_mask :: "u64 list option"
  target_count :: idx_t

definition MAX_ENTRY :: u64 where
  "MAX_ENTRY = NOT 0"

definition EntryCount :: "idx_t \<Rightarrow> idx_t" where
  "EntryCount n = (n + (64 - 1)) div 64"

definition ValidityMask_new :: "idx_t \<Rightarrow> ValidityMask" where
  "ValidityMask_new n = \<lparr>validity_mask = None, target_count = n\<rparr>"

definition ValidityMaskSize :: "idx_t \<Rightarrow> idx_t" where
  "ValidityMaskSize n = EntryCount n * 8"

definition AllValid :: "ValidityMask \<Rightarrow> bool" where
  "AllValid m \<longleftrightarrow> validity_mask m = None"

definition get_entry :: "u64 list \<Rightarrow> idx_t \<Rightarrow> exc + u64" where
  "get_entry es i = (if i < length es then Inr (es ! i) else Inl OutOfBounds)"

definition put_entry :: "idx_t \<Rightarrow> u64 \<Rightarrow> u64 list \<Rightarrow> exc + u64 list" where
  "put_entry i e es = (if i < length es then Inr (es[i := e]) else Inl OutOfBounds)"

definition GetData :: "ValidityMask \<Rightarrow> exc + u64 list" where
  "GetData m = (case validity_mask m of None \<Rightarrow> Inl NullPointer | Some es \<Rightarrow> Inr es)"

definition GetValidityEntry :: "ValidityMask \<Rightarrow> idx_t \<Rightarrow> exc + u64" where
  "GetValidityEntry m i = (case validity_mask m of None \<Rightarrow> Inr MAX_ENTRY | Some es \<Rightarrow> get_entry es i)"

definition RowIsValid_entry :: "u64 \<Rightarrow> idx_t \<Rightarrow> bool" where
  "RowIsValid_entry e i \<longleftrightarrow> e AND bit_at i \<noteq> 0"

definition EntryWithValidBits :: "idx_t \<Rightarrow> u64" where
  "EntryWithValidBits n = (if n = 0 then 0 else drop_bit (64 - n) MAX_ENTRY)"

definition RowIsValid :: "ValidityMask \<Rightarrow> idx_t \<Rightarrow> exc + bool" where
  "RowIsValid m r =
     (if AllValid m then Inr True
      else bind_res (GetValidityEntry m (r div 64)) (\<lambda>e. Inr (RowIsValid_entry e (r mod 64))))"

definition Initialize_mask :: "idx_t \<Rightarrow> ValidityMask" where
  "Initialize_mask n = \<lparr>validity_mask = Some (replicate (EntryCount n) MAX_ENTRY), target_count = n\<rparr>"

definition Reset_mask :: "idx_t \<Rightarrow> ValidityMask" where
  "Reset_mask n = \<lparr>validity_mask = None, target_count = n\<rparr>"

definition EnsureWritable :: "ValidityMask \<Rightarrow> ValidityMask" where
  "EnsureWritable m = (if AllValid m then Initialize_mask (target_count m) else m)"

definition SetValidUnsafe :: "idx_t \<Rightarrow> ValidityMask \<Rightarrow> exc + ValidityMask" where
  "SetValidUnsafe r m =
     bind_res (GetData m) (\<lambda>es. bind_res (get_entry es (r div 64)) (\<lambda>e.
     bind_res (put_entry (r div 64) (e OR bit_at (r mod 64)) es) (\<lambda>es. Inr (m\<lparr>validity_mask := Some es\<rparr>))))"

definition SetValid :: "idx_t \<Rightarrow> ValidityMask \<Rightarrow> exc + ValidityMask" where
  "SetValid r m = (if AllValid m then Inr m else SetValidUnsafe r m)"

definition SetInvalidUnsafe :: "idx_t \<Rightarrow> ValidityMask \<Rightarrow> exc + ValidityMask" where
  "SetInvalidUnsafe r m =
     bind_res (GetData m) (\<lambda>es. bind_res (get_entry es (r div 64)) (\<lambda>e.
     bind_res (put_entry (r div 64) (e AND NOT (bit_at (r mod 64))) es) (\<lambda>es. Inr (m\<lparr>validity_mask := Some es\<rparr>))))"

definition SetInvalid :: "idx_t \<Rightarrow> ValidityMask \<Rightarrow> exc + ValidityMask" where
  "SetInvalid r m = SetInvalidUnsafe r (if AllValid m then Initialize_mask (target_count m) else m)"

definition Set_row :: "idx_t \<Rightarrow> bool \<Rightarrow> ValidityMask \<Rightarrow> exc + ValidityMask" where
  "Set_row r valid m = (if valid then SetValid r m else SetInvalid r m)"

text \<open>The loop over the entries before the last, then the last entry of \<open>count\<close> rows.\<close>

definition SetAllInvalid :: "idx_t \<Rightarrow> ValidityMask \<Rightarrow> exc + ValidityMask" where
  "SetAllInvalid n m =
     (let m = EnsureWritable m
      in if n = 0 then Inr m
         else
           let last_entry_index = EntryCount n - 1; last_entry_bits = n mod 64
           in bind_res (GetData m) (\<lambda>es.
              bind_res (fold_res (\<lambda>i es. put_entry i 0 es) [0..<last_entry_index] es) (\<lambda>es.
              bind_res (put_entry last_entry_index
                          (if last_entry_bits = 0 then 0 else push_bit last_entry_bits MAX_ENTRY) es) (\<lambda>es.
                Inr (m\<lparr>validity_mask := Some es\<rparr>)))))"

definition SetAllValid :: "idx_t \<Rightarrow> ValidityMask \<Rightarrow> exc + ValidityMask" where
  "SetAllValid n m =
     (let m = EnsureWritable m
      in if n = 0 then Inr m
         else
           let last_entry_index = EntryCount n - 1; last_entry_bits = n mod 64
           in bind_res (GetData m) (\<lambda>es.
              bind_res (fold_res (\<lambda>i es. put_entry i MAX_ENTRY es) [0..<last_entry_index] es) (\<lambda>es.
              bind_res (get_entry es last_entry_index) (\<lambda>e.
              bind_res (put_entry last_entry_index
                          (e OR (if last_entry_bits = 0 then MAX_ENTRY else NOT (push_bit last_entry_bits MAX_ENTRY))) es) (\<lambda>es.
                Inr (m\<lparr>validity_mask := Some es\<rparr>))))))"

definition CheckAllValid_range :: "ValidityMask \<Rightarrow> idx_t \<Rightarrow> idx_t \<Rightarrow> exc + bool" where
  "CheckAllValid_range m to from =
     (if AllValid m then Inr True
      else fold_res (\<lambda>i ok. if \<not> ok then Inr False else RowIsValid m i) [from..<to] True)"

text \<open>Kernighan's loop, and the loop of \<open>CountValid\<close> over the entries.\<close>

function kernighan :: "u64 \<Rightarrow> idx_t \<Rightarrow> idx_t" where
  "kernighan entry valid = (if entry = 0 then valid else kernighan (entry AND (entry - 1)) (Suc valid))"
  by pat_completeness auto
termination by (relation "measure (\<lambda>(e, v). unat e)") (use clear_lowest_less in \<open>auto simp: word_less_nat_alt\<close>)

declare kernighan.simps [simp del]

definition CountValid_entry :: "idx_t \<Rightarrow> idx_t \<Rightarrow> u64 \<Rightarrow> idx_t \<Rightarrow> idx_t" where
  "CountValid_entry n entry_idx entry valid =
     (if Suc entry_idx = EntryCount n \<and> n mod 64 \<noteq> 0
      then fold (\<lambda>i valid. valid + of_bool (RowIsValid_entry entry i)) [0..<n mod 64] valid
      else if entry = MAX_ENTRY then valid + 64
      else kernighan entry valid)"

definition CountValid :: "ValidityMask \<Rightarrow> idx_t \<Rightarrow> exc + idx_t" where
  "CountValid m n =
     (if AllValid m \<or> n = 0 then Inr n
      else fold_res (\<lambda>entry_idx valid. bind_res (GetValidityEntry m entry_idx)
             (\<lambda>entry. Inr (CountValid_entry n entry_idx entry valid))) [0..<EntryCount n] 0)"

definition CheckAllValid :: "ValidityMask \<Rightarrow> idx_t \<Rightarrow> exc + bool" where
  "CheckAllValid m n = bind_res (CountValid m n) (\<lambda>c. Inr (c = n))"

definition Copy_mask :: "ValidityMask \<Rightarrow> idx_t \<Rightarrow> exc + ValidityMask" where
  "Copy_mask other n =
     (case validity_mask other of
        None \<Rightarrow> Inr \<lparr>validity_mask = None, target_count = n\<rparr>
      | Some es \<Rightarrow> bind_res (map_res (get_entry es) [0..<EntryCount n])
          (\<lambda>es'. Inr \<lparr>validity_mask = Some es', target_count = n\<rparr>))"

text \<open>
  \<open>Combine\<close>; \<open>same_buffer\<close> is the comparison of the two pointers. Both buffers are read for
  \<open>count\<close> rows.
\<close>

definition Combine :: "bool \<Rightarrow> ValidityMask \<Rightarrow> ValidityMask \<Rightarrow> idx_t \<Rightarrow> exc + ValidityMask" where
  "Combine same_buffer m other n =
     (if AllValid other then Inr m
      else if AllValid m then Inr other
      else if same_buffer then Inr m
      else bind_res (GetData m) (\<lambda>es. bind_res (GetData other) (\<lambda>es'.
           bind_res (map_res (\<lambda>i. bind_res (get_entry es i) (\<lambda>a. bind_res (get_entry es' i) (\<lambda>b. Inr (a AND b))))
                       [0..<EntryCount n])
             (\<lambda>r. Inr \<lparr>validity_mask = Some r, target_count = n\<rparr>))))"

definition Resize :: "ValidityMask \<Rightarrow> idx_t \<Rightarrow> idx_t \<Rightarrow> exc + ValidityMask" where
  "Resize m old_size new_size =
     (case validity_mask m of
        None \<Rightarrow> Inr (m\<lparr>target_count := new_size\<rparr>)
      | Some es \<Rightarrow>
          bind_res (fold_res (\<lambda>i res. bind_res (get_entry es i) (\<lambda>e. put_entry i e res))
                      [0..<EntryCount old_size] (replicate (EntryCount new_size) MAX_ENTRY)) (\<lambda>res.
          bind_res (fold_res (\<lambda>i res. put_entry i MAX_ENTRY res) [EntryCount old_size..<EntryCount new_size] res)
            (\<lambda>res. Inr (m\<lparr>target_count := new_size, validity_mask := Some res\<rparr>))))"

definition IsAligned :: "idx_t \<Rightarrow> bool" where
  "IsAligned n \<longleftrightarrow> n mod 64 = 0"

text \<open>
  \<open>SliceInPlace\<close>, its three cases: whole entries by \<open>memcpy\<close>; an aligned target, where each
  entry takes the head of one source entry and the tail of the next; and row by row. The
  state of the loop of the second case is \<open>(src_entry, target)\<close>.
\<close>

definition slice_copy :: "u64 list \<Rightarrow> u64 list \<Rightarrow> idx_t \<Rightarrow> idx_t \<Rightarrow> idx_t \<Rightarrow> exc + u64 list" where
  "slice_copy tgt src target_offset source_offset n =
     fold_res (\<lambda>i tgt. bind_res (get_entry src (EntryCount source_offset + i))
                 (\<lambda>e. put_entry (EntryCount target_offset + i) e tgt)) [0..<EntryCount n] tgt"

definition slice_shift_step ::
  "u64 list \<Rightarrow> idx_t \<Rightarrow> idx_t \<Rightarrow> idx_t \<Rightarrow> idx_t \<Rightarrow> u64 \<times> u64 list \<Rightarrow> exc + u64 \<times> u64 list" where
  "slice_shift_step src source_offset target_offset tail i = (\<lambda>(src_entry, tgt).
     bind_res (get_entry src (source_offset div 64 + 1 + i)) (\<lambda>next.
     bind_res (put_entry (target_offset div 64 + i) (drop_bit tail src_entry OR push_bit (64 - tail) next) tgt)
       (\<lambda>tgt. Inr (next, tgt))))"

definition slice_shift :: "u64 list \<Rightarrow> u64 list \<Rightarrow> idx_t \<Rightarrow> idx_t \<Rightarrow> idx_t \<Rightarrow> exc + u64 list" where
  "slice_shift tgt src target_offset source_offset n =
     (let entire_units = n div 64; ragged = n mod 64; tail = source_offset mod 64; head = 64 - tail
      in bind_res (get_entry src (source_offset div 64)) (\<lambda>src_entry.
         bind_res (fold_res (slice_shift_step src source_offset target_offset tail) [0..<entire_units] (src_entry, tgt))
           (\<lambda>(src_entry, tgt).
              if ragged \<noteq> 0
              then
                bind_res
                  (if head < ragged
                   then bind_res (get_entry src (source_offset div 64 + 1 + entire_units))
                          (\<lambda>next. Inr (drop_bit tail src_entry OR push_bit head next))
                   else Inr (drop_bit tail src_entry)) (\<lambda>tgt_entry.
                bind_res (get_entry tgt (target_offset div 64 + entire_units)) (\<lambda>old.
                  put_entry (target_offset div 64 + entire_units)
                    (tgt_entry AND drop_bit (64 - ragged) MAX_ENTRY OR old AND push_bit ragged MAX_ENTRY) tgt))
              else Inr tgt)))"

definition SliceInPlace :: "ValidityMask \<Rightarrow> ValidityMask \<Rightarrow> idx_t \<Rightarrow> idx_t \<Rightarrow> idx_t \<Rightarrow> exc + ValidityMask" where
  "SliceInPlace m other target_offset source_offset n =
     (let m = EnsureWritable m
      in if IsAligned source_offset \<and> IsAligned target_offset
         then bind_res (GetData m) (\<lambda>tgt. bind_res (GetData other) (\<lambda>src.
              bind_res (slice_copy tgt src target_offset source_offset n) (\<lambda>tgt. Inr (m\<lparr>validity_mask := Some tgt\<rparr>))))
         else if IsAligned target_offset
         then bind_res (GetData m) (\<lambda>tgt. bind_res (GetData other) (\<lambda>src.
              bind_res (slice_shift tgt src target_offset source_offset n) (\<lambda>tgt. Inr (m\<lparr>validity_mask := Some tgt\<rparr>))))
         else fold_res (\<lambda>i m. bind_res (RowIsValid other (source_offset + i)) (\<lambda>b. Set_row (target_offset + i) b m))
                [0..<n] m)"

definition Slice_mask :: "ValidityMask \<Rightarrow> ValidityMask \<Rightarrow> idx_t \<Rightarrow> idx_t \<Rightarrow> exc + ValidityMask" where
  "Slice_mask m other source_offset n =
     (if AllValid other then Inr (m\<lparr>validity_mask := None\<rparr>)
      else if source_offset = 0 then Inr other
      else SliceInPlace (ValidityMask_new n) other 0 source_offset n)"

text \<open>
  \<open>Write\<close> and \<open>Read\<close>: either the positions of the valid or of the invalid rows, or the bitmask.
  The positions have 16 bits, or 32 bits for a large count. \<open>NumericCast<uint32_t>\<close> throws when
  the count does not fit.
\<close>

definition write_rows :: "ValidityMask \<Rightarrow> nat \<Rightarrow> bool \<Rightarrow> idx_t \<Rightarrow> bytes \<Rightarrow> exc + bytes" where
  "write_rows m bytes_per_value serialize_valid n out =
     fold_res (\<lambda>i out. bind_res (RowIsValid m i) (\<lambda>b.
        Inr (if b = serialize_valid then Write_uint bytes_per_value i out else out))) [0..<n] out"

definition Write_mask :: "ValidityMask \<Rightarrow> idx_t \<Rightarrow> bytes \<Rightarrow> exc + bytes" where
  "Write_mask m n out =
     bind_res (CountValid m n) (\<lambda>valid_values.
     let invalid_values = n - valid_values;
         bitmask_bytes = ValidityMaskSize n;
         bytes_per_value = (if n \<ge> 2 ^ 16 - 1 then 4 else 2);
         valid_value_size = bytes_per_value * valid_values + 4;
         invalid_value_size = bytes_per_value * invalid_values + 4
     in if valid_value_size < bitmask_bytes \<or> invalid_value_size < bitmask_bytes
        then
          let serialize_valid = (valid_value_size < invalid_value_size);
              value_count = min valid_values invalid_values
          in if value_count \<ge> 2 ^ 32 then Inl InternalException
             else write_rows m bytes_per_value serialize_valid n
                    (Write_uint 4 value_count (Write_uint 1 (if serialize_valid then 1 else 2) out))
        else bind_res (if bitmask_bytes = 0 then Inr [] else GetData m) (\<lambda>es.
               if length es < EntryCount n then Inl OutOfBounds
               else Inr (Write_uint 1 0 out @ words_bytes (take (EntryCount n) es))))"

fun read_rows :: "nat \<Rightarrow> bool \<Rightarrow> nat \<Rightarrow> bytes \<Rightarrow> ValidityMask \<Rightarrow> exc + ValidityMask \<times> bytes" where
  "read_rows k is_valid 0 inp m = Inr (m, inp)"
| "read_rows k is_valid (Suc c) inp m =
     bind_res (Read_uint k inp) (\<lambda>(index, inp). bind_res (Set_row index is_valid m) (read_rows k is_valid c inp))"

definition Read_mask :: "idx_t \<Rightarrow> bytes \<Rightarrow> exc + ValidityMask \<times> bytes" where
  "Read_mask n inp =
     (let m = Initialize_mask n
      in bind_res (Read_uint 1 inp) (\<lambda>(flag, inp).
         if flag = 0
         then bind_res (ReadData (ValidityMaskSize n) inp) (\<lambda>(bs, inp).
                Inr (m\<lparr>validity_mask := Some (bytes_words (EntryCount n) bs)\<rparr>, inp))
         else
           let is_u32 = (n \<ge> 2 ^ 16 - 1); is_valid = (flag = 1)
           in bind_res (Read_uint 4 inp) (\<lambda>(serialize_count, inp).
              bind_res (if is_valid then SetAllInvalid n m else Inr m) (\<lambda>m.
                read_rows (if is_u32 then 4 else 2) is_valid serialize_count inp m))))"

section \<open>The rows of a mask\<close>

text \<open>A row outside the buffer counts as valid; \<open>mask_capacity\<close> is the number of rows that can be written.\<close>

definition valid_row :: "ValidityMask \<Rightarrow> idx_t \<Rightarrow> bool" where
  "valid_row m r \<longleftrightarrow>
     (case validity_mask m of None \<Rightarrow> True
      | Some es \<Rightarrow> r div 64 < length es \<longrightarrow> bit (es ! (r div 64)) (r mod 64))"

definition mask_capacity :: "ValidityMask \<Rightarrow> idx_t" where
  "mask_capacity m = 64 * (case validity_mask m of None \<Rightarrow> EntryCount (target_count m) | Some es \<Rightarrow> length es)"

lemma div_64_less: "r div 64 < k \<longleftrightarrow> r < 64 * k" for r :: nat
  by (simp add: div_less_iff_less_mult mult.commute)

lemma EntryCount_bound: "n \<le> 64 * EntryCount n" "64 * EntryCount n < n + 64" "EntryCount n \<le> k \<longleftrightarrow> n \<le> 64 * k"
proof -
  have "n + 63 = 64 * ((n + 63) div 64) + (n + 63) mod 64" "(n + 63) mod 64 < 64" by simp_all
  then show "n \<le> 64 * EntryCount n" "64 * EntryCount n < n + 64" unfolding EntryCount_def by simp_all
  then show "EntryCount n \<le> k \<longleftrightarrow> n \<le> 64 * k" by linarith
qed

lemma EntryCount_eq: "EntryCount n = n div 64 + of_bool (n mod 64 \<noteq> 0)"
proof -
  define q r where qr: "q = n div 64" "r = n mod 64"
  then have "n = 64 * q + r" "r < 64" by simp_all
  then have "EntryCount n = (if r = 0 then q else Suc q)"
    using EntryCount_bound(1,2) [of n] by (cases "r = 0"; simp; presburger)
  then show ?thesis unfolding qr by simp
qed

lemma bit_MAX_ENTRY [simp]: "bit MAX_ENTRY i \<longleftrightarrow> i < 64"
  by (auto simp: MAX_ENTRY_def bit_not_iff dest: bit_imp_le_length)

lemma RowIsValid_entry_bit [simp]: "i < 64 \<Longrightarrow> RowIsValid_entry e i = bit e i"
  by (simp add: RowIsValid_entry_def and_bit_at_eq_0_iff)

lemma RowIsValid_ok: "r < mask_capacity m \<or> AllValid m \<Longrightarrow> RowIsValid m r = Inr (valid_row m r)"
  by (auto simp: RowIsValid_def AllValid_def valid_row_def mask_capacity_def GetValidityEntry_def get_entry_def div_64_less
      split: option.splits)

lemma mask_capacity_Initialize [simp]: "mask_capacity (Initialize_mask n) = 64 * EntryCount n"
  by (simp add: mask_capacity_def Initialize_mask_def)

lemma valid_row_Initialize [simp]: "valid_row (Initialize_mask n) r"
  by (simp add: valid_row_def Initialize_mask_def)

lemma EnsureWritable_simps [simp]:
  "valid_row (EnsureWritable m) = valid_row m" "mask_capacity (EnsureWritable m) = mask_capacity m"
  "\<exists>es. validity_mask (EnsureWritable m) = Some es" "target_count (EnsureWritable m) = target_count m"
  by (auto simp: EnsureWritable_def AllValid_def valid_row_def mask_capacity_def Initialize_mask_def fun_eq_iff)

locale bit_buffer =
  fixes put :: "nat \<Rightarrow> bool \<Rightarrow> 'm \<Rightarrow> exc + 'm" and get :: "'m \<Rightarrow> nat \<Rightarrow> bool" and cap :: "'m \<Rightarrow> nat"
  assumes put_ok: "r < cap m \<Longrightarrow> \<exists>m'. put r b m = Inr m' \<and> get m' = (get m)(r := b) \<and> cap m' = cap m"
begin

lemma put_rows:
  "\<forall>r \<in> set rs. r < cap m \<Longrightarrow>
    \<exists>m'. fold_res (\<lambda>r m. put r b m) rs m = Inr m' \<and> get m' = (\<lambda>r. if r \<in> set rs then b else get m r) \<and> cap m' = cap m"
proof (induction rs arbitrary: m)
  case (Cons r rs)
  from put_ok [of r m b] Cons.prems obtain m1 where m1: "put r b m = Inr m1" "get m1 = (get m)(r := b)" "cap m1 = cap m" by auto
  from Cons.IH [of m1] m1(3) Cons.prems obtain m2 where
    "fold_res (\<lambda>r m. put r b m) rs m1 = Inr m2" "get m2 = (\<lambda>r. if r \<in> set rs then b else get m1 r)" "cap m2 = cap m" by auto
  with m1 show ?case by (auto simp: fun_eq_iff)
qed simp

text \<open>A loop that writes one row per iteration, at increasing positions.\<close>

lemma put_range:
  assumes "a + n \<le> cap m" "\<And>i. i < n \<Longrightarrow> f i = Inr (g i)"
  shows "\<exists>m'. fold_res (\<lambda>i m. bind_res (f i) (\<lambda>b. put (a + i) b m)) [0..<n] m = Inr m'
    \<and> get m' = (\<lambda>r. if a \<le> r \<and> r < a + n then g (r - a) else get m r) \<and> cap m' = cap m"
proof -
  let ?I = "\<lambda>i m'. get m' = (\<lambda>r. if a \<le> r \<and> r < a + i then g (r - a) else get m r) \<and> cap m' = cap m"
  have "\<exists>m'. fold_res (\<lambda>i m. bind_res (f i) (\<lambda>b. put (a + i) b m)) [0..<n] m = Inr m' \<and> ?I n m'"
  proof (rule fold_res_upt_rule [where I = ?I])
    fix i m' assume "i < n" "?I i m'"
    with put_ok [of "a + i" m' "g i"] assms show "\<exists>m''. bind_res (f i) (\<lambda>b. put (a + i) b m') = Inr m'' \<and> ?I (Suc i) m''"
      by (force simp: fun_eq_iff)
  qed auto
  then show ?thesis by blast
qed

end

lemma set_entry_bit:
  assumes "r div 64 < length es" "\<And>j. j < 64 \<Longrightarrow> bit e j \<longleftrightarrow> (if j = r mod 64 then b else bit (es ! (r div 64)) j)"
  shows "valid_row (m\<lparr>validity_mask := Some (es[r div 64 := e])\<rparr>) = (valid_row (m\<lparr>validity_mask := Some es\<rparr>))(r := b)"
proof
  fix q :: nat
  have "q = r \<longleftrightarrow> q div 64 = r div 64 \<and> q mod 64 = r mod 64" by (metis div_mult_mod_eq)
  then show "valid_row (m\<lparr>validity_mask := Some (es[r div 64 := e])\<rparr>) q = ((valid_row (m\<lparr>validity_mask := Some es\<rparr>))(r := b)) q"
    using assms by (auto simp: valid_row_def nth_list_update)
qed

lemma Set_row_writable:
  assumes "r < mask_capacity m" "validity_mask m = Some es"
  shows "\<exists>m'. SetValidUnsafe r m = Inr m' \<and> valid_row m' = (valid_row m)(r := True) \<and> mask_capacity m' = mask_capacity m"
    and "\<exists>m'. SetInvalidUnsafe r m = Inr m' \<and> valid_row m' = (valid_row m)(r := False) \<and> mask_capacity m' = mask_capacity m"
proof -
  have lt: "r div 64 < length es" using assms by (simp add: mask_capacity_def div_64_less)
  have m: "m\<lparr>validity_mask := Some es\<rparr> = m" using assms(2) by simp
  have "bit (es ! (r div 64) OR bit_at (r mod 64)) j \<longleftrightarrow> (if j = r mod 64 then True else bit (es ! (r div 64)) j)"
    "bit (es ! (r div 64) AND NOT (bit_at (r mod 64))) j \<longleftrightarrow> (if j = r mod 64 then False else bit (es ! (r div 64)) j)"
    if "j < 64" for j
    using that by (auto simp: bit_or_iff bit_and_iff bit_not_iff dest: bit_imp_le_length)
  note bits = set_entry_bit [OF lt this(1), of m, unfolded m] set_entry_bit [OF lt this(2), of m, unfolded m]
  show "\<exists>m'. SetValidUnsafe r m = Inr m' \<and> valid_row m' = (valid_row m)(r := True) \<and> mask_capacity m' = mask_capacity m"
    "\<exists>m'. SetInvalidUnsafe r m = Inr m' \<and> valid_row m' = (valid_row m)(r := False) \<and> mask_capacity m' = mask_capacity m"
    using lt bits assms by (simp_all add: SetValidUnsafe_def SetInvalidUnsafe_def GetData_def get_entry_def put_entry_def mask_capacity_def)
qed

interpretation validity: bit_buffer Set_row valid_row mask_capacity
proof
  fix r m b
  assume r: "r < mask_capacity m"
  show "\<exists>m'. Set_row r b m = Inr m' \<and> valid_row m' = (valid_row m)(r := b) \<and> mask_capacity m' = mask_capacity m"
  proof (cases "validity_mask m")
    case None
    have "valid_row m = valid_row (Initialize_mask (target_count m))" "mask_capacity m = mask_capacity (Initialize_mask (target_count m))"
      using None by (auto simp: valid_row_def mask_capacity_def Initialize_mask_def fun_eq_iff)
    moreover have "valid_row m = (valid_row m)(r := True)" using None by (auto simp: valid_row_def fun_eq_iff)
    ultimately show ?thesis using None r Set_row_writable(2) [of r "Initialize_mask (target_count m)"]
      by (cases b) (auto simp: Set_row_def SetValid_def SetInvalid_def AllValid_def Initialize_mask_def)
  next
    case (Some es)
    then show ?thesis using Set_row_writable [OF r Some] by (cases b) (auto simp: Set_row_def SetValid_def SetInvalid_def AllValid_def)
  qed
qed

section \<open>Counting\<close>

lemma kernighan_bits: "kernighan e v = v + length (bits_of e)"
proof (induction e v rule: kernighan.induct)
  case (1 e v)
  show ?case
  proof (cases "e = 0")
    case True
    then show ?thesis by (simp add: kernighan.simps)
  next
    case False
    with 1 show ?thesis by (subst kernighan.simps) (simp add: bits_of_step [OF False])
  qed
qed

lemma bits_of_MAX_ENTRY: "length (bits_of MAX_ENTRY) = 64"
proof -
  have "bits_of MAX_ENTRY = [0..<64]" unfolding bits_of_def by (rule filter_True) simp
  then show ?thesis by simp
qed

lemma count_loop: "fold (\<lambda>i v. v + of_bool (P i)) is v = v + length (filter P is)"
  by (induction "is" arbitrary: v) auto

lemma CountValid_entry_count:
  assumes "64 * k < n"
  shows "CountValid_entry n k e v = v + length (filter (bit e) [0..<min 64 (n - 64 * k)])"
proof (cases "Suc k = EntryCount n \<and> n mod 64 \<noteq> 0")
  case True
  then have "k = n div 64" using EntryCount_eq [of n] by auto
  then have "n - 64 * k = n mod 64" by (simp add: minus_mult_div_eq_mod)
  moreover have "filter (RowIsValid_entry e) [0..<n mod 64] = filter (bit e) [0..<n mod 64]"
    by (rule filter_cong) auto
  ultimately show ?thesis using True by (simp add: CountValid_entry_def count_loop min_def)
next
  case False
  have "64 * Suc k \<le> n"
  proof (rule ccontr)
    assume "\<not> 64 * Suc k \<le> n"
    define d where "d = n - 64 * k"
    then have "n = 64 * k + d" "0 < d" "d < 64" using assms \<open>\<not> 64 * Suc k \<le> n\<close> by simp_all
    then have "n div 64 = k" "n mod 64 \<noteq> 0" by simp_all
    then show False using False by (simp add: EntryCount_eq)
  qed
  then have "min 64 (n - 64 * k) = 64" by simp
  moreover have "CountValid_entry n k e v = v + length (bits_of e)"
    unfolding CountValid_entry_def if_not_P [OF False] by (simp add: kernighan_bits bits_of_MAX_ENTRY)
  ultimately show ?thesis by (simp add: bits_of_def)
qed

lemma CountValid_ok:
  assumes "n \<le> mask_capacity m \<or> AllValid m"
  shows "CountValid m n = Inr (length (filter (valid_row m) [0..<n]))"
proof (cases "AllValid m \<or> n = 0")
  case True
  then have "filter (valid_row m) [0..<n] = [0..<n]" by (auto simp: AllValid_def valid_row_def)
  then show ?thesis using True by (simp add: CountValid_def)
next
  case False
  then obtain es where es: "validity_mask m = Some es" "n \<le> 64 * length es"
    using assms by (auto simp: AllValid_def mask_capacity_def)
  let ?I = "\<lambda>k v. v = length (filter (valid_row m) [0..<min (64 * k) n])"
  let ?b = "\<lambda>k v. bind_res (GetValidityEntry m k) (\<lambda>e. Inr (CountValid_entry n k e v))"
  have "\<exists>v. fold_res ?b [0..<EntryCount n] 0 = Inr v \<and> ?I (EntryCount n) v"
  proof (rule fold_res_upt_rule [where I = ?I])
    fix k v assume k: "k < EntryCount n" and v: "?I k v"
    have kn: "64 * k < n" using k EntryCount_bound(3) [of n k] by simp
    let ?m = "min 64 (n - 64 * k)"
    have "min (64 * Suc k) n = 64 * k + ?m" "min (64 * k) n = 64 * k" using kn by auto
    moreover have "filter (valid_row m) [0..<64 * k + ?m] = filter (valid_row m) [0..<64 * k] @ filter (valid_row m) [64 * k..<64 * k + ?m]"
      by (rule filter_upt_split) auto
    moreover have "filter (\<lambda>j. valid_row m (64 * k + j)) [0..<?m] = filter (bit (es ! k)) [0..<?m]"
    proof (rule filter_cong [OF refl])
      fix j assume "j \<in> set [0..<?m]"
      then have "(64 * k + j) div 64 = k" "(64 * k + j) mod 64 = j" by (auto simp: div_nat_eqI)
      moreover have "k < length es" using kn es(2) by linarith
      ultimately show "valid_row m (64 * k + j) = bit (es ! k) j" using es(1) by (simp add: valid_row_def)
    qed
    moreover have "k < length es" using kn es(2) by linarith
    ultimately show "\<exists>v'. ?b k v = Inr v' \<and> ?I (Suc k) v'"
      using v es(1) by (simp add: GetValidityEntry_def get_entry_def CountValid_entry_count [OF kn] filter_upt_shift)
  qed simp_all
  then show ?thesis using False EntryCount_bound(1) [of n] by (auto simp: CountValid_def min_def)
qed

section \<open>Writing whole entries\<close>

lemma fill_entries:
  assumes "\<And>i. i < n \<Longrightarrow> f i = Inr (g i)" "a + n \<le> length es"
  shows "\<exists>es'. fold_res (\<lambda>i es. bind_res (f i) (\<lambda>e. put_entry (a + i) e es)) [0..<n] es = Inr es' \<and> length es' = length es
    \<and> (\<forall>j<length es. es' ! j = (if a \<le> j \<and> j < a + n then g (j - a) else es ! j))"
proof -
  let ?I = "\<lambda>i es'. length es' = length es
    \<and> (\<forall>j<length es. es' ! j = (if a \<le> j \<and> j < a + i then g (j - a) else es ! j))"
  have "\<exists>es'. fold_res (\<lambda>i es. bind_res (f i) (\<lambda>e. put_entry (a + i) e es)) [0..<n] es = Inr es' \<and> ?I n es'"
  proof (rule fold_res_upt_rule [where I = ?I])
    fix i es' assume i: "i < n" and I: "?I i es'"
    then have "put_entry (a + i) (g i) es' = Inr (es'[a + i := g i])" using assms(2) by (simp add: put_entry_def)
    moreover have "?I (Suc i) (es'[a + i := g i])" using I i assms(2) by (auto simp: nth_list_update)
    ultimately show "\<exists>es''. bind_res (f i) (\<lambda>e. put_entry (a + i) e es') = Inr es'' \<and> ?I (Suc i) es''"
      using assms(1) [OF i] by auto
  qed auto
  then show ?thesis by blast
qed

text \<open>Rows of an entry.\<close>

lemma valid_row_entry:
  "validity_mask m = Some es \<Longrightarrow> k < length es \<Longrightarrow> j < 64 \<Longrightarrow> valid_row m (64 * k + j) = bit (es ! k) j"
  by (simp add: valid_row_def)

lemma row_by_entry: "(\<And>k j. j < 64 \<Longrightarrow> P (64 * k + j)) \<Longrightarrow> P r" for P :: "nat \<Rightarrow> bool"
proof -
  assume "\<And>k j. j < 64 \<Longrightarrow> P (64 * k + j)"
  from this [of "r mod 64" "r div 64"] show "P r" by simp
qed

text \<open>The last entry of \<open>n\<close> rows.\<close>

lemma last_entry:
  assumes "n \<noteq> 0" "l = EntryCount n - 1"
  shows "EntryCount n = Suc l" "64 * l < n" "n \<le> 64 * Suc l" "n mod 64 = (if n = 64 * Suc l then 0 else n - 64 * l)"
proof -
  show E: "EntryCount n = Suc l" using assms EntryCount_bound(1) [of n] by simp
  show b: "64 * l < n" "n \<le> 64 * Suc l" using EntryCount_bound(1,2) [of n] E by simp_all
  define d where "d = n - 64 * l"
  then have d: "n = 64 * l + d" "0 < d" "d \<le> 64" using b by simp_all
  show "n mod 64 = (if n = 64 * Suc l then 0 else n - 64 * l)" unfolding d(1) using d by (cases "d = 64") simp_all
qed

lemma last_entry_bits:
  assumes "n \<noteq> 0" "l = EntryCount n - 1" "j < 64"
  shows "bit (if n mod 64 = 0 then 0 else push_bit (n mod 64) MAX_ENTRY) j \<longleftrightarrow> n \<le> 64 * l + j"
    and "bit (if n mod 64 = 0 then MAX_ENTRY else NOT (push_bit (n mod 64) MAX_ENTRY)) j \<longleftrightarrow> 64 * l + j < n"
proof -
  note L = last_entry [OF assms(1,2)]
  show "bit (if n mod 64 = 0 then 0 else push_bit (n mod 64) MAX_ENTRY) j \<longleftrightarrow> n \<le> 64 * l + j"
    "bit (if n mod 64 = 0 then MAX_ENTRY else NOT (push_bit (n mod 64) MAX_ENTRY)) j \<longleftrightarrow> 64 * l + j < n"
    using L(2,3,4) assms(3) by (auto simp: bit_push_bit_iff bit_not_iff)
qed

lemma SetAll_entries:
  assumes "n \<noteq> 0" "n \<le> 64 * length es"
  shows "\<exists>es'. fold_res (\<lambda>i es. put_entry i e es) [0..<EntryCount n - 1] es = Inr es' \<and> length es' = length es
    \<and> (\<forall>j<length es. es' ! j = (if j < EntryCount n - 1 then e else es ! j)) \<and> EntryCount n - 1 < length es"
proof -
  have l: "EntryCount n - 1 < length es" using assms last_entry(2) [of n "EntryCount n - 1"] by simp
  with fill_entries [of "EntryCount n - 1" "\<lambda>_. Inr e" "\<lambda>_. e" 0 es] show ?thesis by simp
qed

lemma row_below: "k < l \<Longrightarrow> j < 64 \<Longrightarrow> 64 * l < n \<Longrightarrow> 64 * k + j < n" for k l j n :: nat
proof -
  assume "k < l" "j < 64" "64 * l < n"
  moreover from this have "64 * Suc k \<le> 64 * l" by simp
  ultimately show ?thesis by simp
qed

lemma writable_entries:
  obtains es where "validity_mask (EnsureWritable m) = Some es" "mask_capacity m = 64 * length es"
    "\<And>k j. k < length es \<Longrightarrow> j < 64 \<Longrightarrow> valid_row m (64 * k + j) = bit (es ! k) j"
    "\<And>k j. \<not> k < length es \<Longrightarrow> j < 64 \<Longrightarrow> valid_row m (64 * k + j)"
proof -
  obtain es where es: "validity_mask (EnsureWritable m) = Some es" using EnsureWritable_simps(3) by blast
  show ?thesis
  proof (rule that [OF es])
    show "mask_capacity m = 64 * length es" using es EnsureWritable_simps(2) [of m] by (simp add: mask_capacity_def)
    fix k j :: nat assume j: "j < 64"
    then have d: "(64 * k + j) div 64 = k" "(64 * k + j) mod 64 = j" by (simp_all add: div_nat_eqI)
    then show "valid_row m (64 * k + j) = bit (es ! k) j" if "k < length es"
      using that es EnsureWritable_simps(1) [of m] by (metis (no_types, lifting) valid_row_entry j)
    have "valid_row (EnsureWritable m) (64 * k + j)" if "\<not> k < length es"
      unfolding valid_row_def using that es d by simp
    then show "valid_row m (64 * k + j)" if "\<not> k < length es" using that by simp
  qed
qed

lemma SetAll_rows:
  assumes n: "n \<noteq> 0" "l = EntryCount n - 1" and es: "validity_mask (EnsureWritable m) = Some es" "mask_capacity m = 64 * length es"
    and es': "length es' = length es" "\<And>k. k < length es \<Longrightarrow> es' ! k = (if k < l then e else es ! k)" "l < length es"
    and e: "\<And>j. j < 64 \<Longrightarrow> bit e j \<longleftrightarrow> b"
    and x: "\<And>j. j < 64 \<Longrightarrow> bit x j \<longleftrightarrow> (if 64 * l + j < n then b else c (64 * l + j))"
  shows "valid_row ((EnsureWritable m)\<lparr>validity_mask := Some (es'[l := x])\<rparr>) r
    \<longleftrightarrow> (if r < n then b else if r < 64 * EntryCount n then c r else valid_row m r)"
proof (rule row_by_entry)
  fix k j :: nat assume j: "j < 64"
  note L = last_entry [OF n]
  have rows: "valid_row m (64 * k + j) = (k < length es \<longrightarrow> bit (es ! k) j)"
    by (rule writable_entries [of m]) (use es j in auto)
  have d: "(64 * k + j) div 64 = k" "(64 * k + j) mod 64 = j" "64 * k + j < 64 * EntryCount n \<longleftrightarrow> k \<le> l"
    using j unfolding L(1) by (simp_all add: div_nat_eqI) linarith
  have lt: "k < l \<Longrightarrow> 64 * k + j < n" using row_below [OF _ j L(2)] .
  have gt: "\<not> 64 * k + j < n" if "l < k"
  proof -
    have "64 * Suc l \<le> 64 * k" using that by simp
    with L(3) show ?thesis by linarith
  qed
  consider "k < l" | "k = l" | "l < k" by linarith
  then show "valid_row ((EnsureWritable m)\<lparr>validity_mask := Some (es'[l := x])\<rparr>) (64 * k + j)
    \<longleftrightarrow> (if 64 * k + j < n then b else if 64 * k + j < 64 * EntryCount n then c (64 * k + j) else valid_row m (64 * k + j))"
    by cases (use d lt gt es' e [OF j] x [OF j] rows in \<open>simp_all add: valid_row_def\<close>)
qed

lemma SetAllInvalid_ok:
  assumes "n \<le> mask_capacity m"
  shows "\<exists>m'. SetAllInvalid n m = Inr m' \<and> mask_capacity m' = mask_capacity m
    \<and> (\<forall>r. valid_row m' r \<longleftrightarrow> (if r < n then False else if r < 64 * EntryCount n then True else valid_row m r))"
proof (cases "n = 0")
  case True
  then show ?thesis by (simp add: SetAllInvalid_def Let_def EntryCount_def)
next
  case False
  obtain es where es: "validity_mask (EnsureWritable m) = Some es" "mask_capacity m = 64 * length es"
    by (rule writable_entries [of m]) blast
  define l where "l = EntryCount n - 1"
  let ?e = "if n mod 64 = 0 then 0 else push_bit (n mod 64) MAX_ENTRY"
  obtain es' where es': "fold_res (\<lambda>i es. put_entry i 0 es) [0..<l] es = Inr es'" "length es' = length es"
    "\<And>j. j < length es \<Longrightarrow> es' ! j = (if j < l then 0 else es ! j)" "l < length es"
    using SetAll_entries [of n es 0] False assms es(2) unfolding l_def by auto
  have "put_entry l ?e es' = Inr (es'[l := ?e])" using es' by (simp add: put_entry_def)
  then have "SetAllInvalid n m = Inr ((EnsureWritable m)\<lparr>validity_mask := Some (es'[l := ?e])\<rparr>)"
    using False es es'(1) unfolding SetAllInvalid_def Let_def l_def [symmetric] by (simp add: GetData_def)
  then show ?thesis
    using SetAll_rows [OF False l_def es es'(2-4), of False ?e "\<lambda>_. True"] last_entry_bits(1) [OF False l_def] es es'(2)
    by (simp add: mask_capacity_def not_less)
qed

lemma SetAllValid_ok:
  assumes "n \<le> mask_capacity m"
  shows "\<exists>m'. SetAllValid n m = Inr m' \<and> mask_capacity m' = mask_capacity m
    \<and> (\<forall>r. valid_row m' r \<longleftrightarrow> r < n \<or> valid_row m r)"
proof (cases "n = 0")
  case True
  then show ?thesis by (simp add: SetAllValid_def Let_def EntryCount_def)
next
  case False
  obtain es where es: "validity_mask (EnsureWritable m) = Some es" "mask_capacity m = 64 * length es"
    and rows: "\<And>k j. k < length es \<Longrightarrow> j < 64 \<Longrightarrow> valid_row m (64 * k + j) = bit (es ! k) j"
    by (rule writable_entries [of m]) blast
  define l where "l = EntryCount n - 1"
  obtain es' where es': "fold_res (\<lambda>i es. put_entry i MAX_ENTRY es) [0..<l] es = Inr es'" "length es' = length es"
    "\<And>j. j < length es \<Longrightarrow> es' ! j = (if j < l then MAX_ENTRY else es ! j)" "l < length es"
    using SetAll_entries [of n es MAX_ENTRY] False assms es(2) unfolding l_def by auto
  let ?e = "es ! l OR (if n mod 64 = 0 then MAX_ENTRY else NOT (push_bit (n mod 64) MAX_ENTRY))"
  have "put_entry l ?e es' = Inr (es'[l := ?e])" "get_entry es' l = Inr (es ! l)" using es' by (simp_all add: put_entry_def get_entry_def)
  then have "SetAllValid n m = Inr ((EnsureWritable m)\<lparr>validity_mask := Some (es'[l := ?e])\<rparr>)"
    using False es es'(1) unfolding SetAllValid_def Let_def l_def [symmetric] by (simp add: GetData_def)
  moreover have "bit ?e j \<longleftrightarrow> (if 64 * l + j < n then True else valid_row m (64 * l + j))" if "j < 64" for j
    using last_entry_bits(2) [OF False l_def that] rows [OF es'(4) that] by (auto simp: bit_or_iff)
  ultimately show ?thesis
    using SetAll_rows [OF False l_def es es'(2-4), of True ?e "valid_row m"] es es'(2)
    by (simp add: mask_capacity_def)
qed

section \<open>Slicing\<close>

abbreviation entry_bit :: "u64 list \<Rightarrow> nat \<Rightarrow> bool" where
  "entry_bit es r \<equiv> bit (es ! (r div 64)) (r mod 64)"

text \<open>The head of one entry followed by the tail of the next.\<close>

definition splice :: "nat \<Rightarrow> u64 \<Rightarrow> u64 \<Rightarrow> u64" where
  "splice t a b = drop_bit t a OR push_bit (64 - t) b"

lemma bit_splice: "0 < t \<Longrightarrow> t < 64 \<Longrightarrow> j < 64 \<Longrightarrow> bit (splice t a b) j \<longleftrightarrow> (if t + j < 64 then bit a (t + j) else bit b (t + j - 64))"
  by (auto simp: splice_def bit_or_iff bit_drop_bit_eq bit_push_bit_iff add.commute dest: bit_imp_le_length)

lemma entry_bit_shift:
  assumes "j < 64" "t < 64"
  shows "entry_bit es (64 * s + t + (64 * i + j)) \<longleftrightarrow>
    (if t + j < 64 then bit (es ! (s + i)) (t + j) else bit (es ! Suc (s + i)) (t + j - 64))"
proof -
  let ?r = "64 * s + t + (64 * i + j)"
  have r: "?r = 64 * (s + i) + (t + j)" by simp
  have "?r div 64 = s + i + (t + j) div 64" "?r mod 64 = (t + j) mod 64" unfolding r by (simp_all del: distrib_left_numeral)
  moreover have "(t + j) div 64 = (if t + j < 64 then 0 else 1)" using assms by (auto simp: div_nat_eqI)
  moreover have "(t + j) mod 64 = (if t + j < 64 then t + j else t + j - 64)" using assms by (auto simp: mod_if)
  ultimately show ?thesis by simp
qed

lemma slice_shift_loop:
  assumes "\<And>i. i < n \<Longrightarrow> s + Suc i < length src" "t + n \<le> length tgt" "0 < n \<or> s < length src"
    and "source_offset div 64 = s" "target_offset div 64 = t"
  shows "\<exists>tgt'. fold_res (slice_shift_step src source_offset target_offset tail) [0..<n] (src ! s, tgt) = Inr (src ! (s + n), tgt')
    \<and> length tgt' = length tgt
    \<and> (\<forall>k<length tgt. tgt' ! k = (if t \<le> k \<and> k < t + n then splice tail (src ! (s + (k - t))) (src ! Suc (s + (k - t))) else tgt ! k))"
proof -
  let ?I = "\<lambda>i (e, tgt'). e = src ! (s + i) \<and> length tgt' = length tgt
    \<and> (\<forall>k<length tgt. tgt' ! k = (if t \<le> k \<and> k < t + i then splice tail (src ! (s + (k - t))) (src ! Suc (s + (k - t))) else tgt ! k))"
  have "\<exists>st. fold_res (slice_shift_step src source_offset target_offset tail) [0..<n] (src ! s, tgt) = Inr st \<and> ?I n st"
  proof (rule fold_res_upt_rule [where I = ?I])
    fix i st assume i: "i < n" and I: "?I i st"
    obtain e tgt' where st: "st = (e, tgt')" by force
    have "slice_shift_step src source_offset target_offset tail i st =
        Inr (src ! Suc (s + i), tgt'[t + i := splice tail (src ! (s + i)) (src ! Suc (s + i))])"
      using i I assms(1) [OF i] assms(2,4,5) st by (simp add: slice_shift_step_def get_entry_def put_entry_def splice_def)
    moreover have "?I (Suc i) (src ! Suc (s + i), tgt'[t + i := splice tail (src ! (s + i)) (src ! Suc (s + i))])"
      using I st i assms(2) by (auto simp: nth_list_update)
    ultimately show "\<exists>st'. slice_shift_step src source_offset target_offset tail i st = Inr st' \<and> ?I (Suc i) st'" by blast
  qed auto
  then show ?thesis by auto
qed

lemma slice_shift_ok:
  assumes tail: "0 < tail" "tail < 64" and src: "64 * s + tail + n \<le> 64 * length src" and tgt: "64 * t + n \<le> 64 * length tgt"
  shows "\<exists>tgt'. slice_shift tgt src (64 * t) (64 * s + tail) n = Inr tgt' \<and> length tgt' = length tgt
    \<and> (\<forall>k<length tgt. \<forall>j<64. bit (tgt' ! k) j \<longleftrightarrow>
        (if 64 * t \<le> 64 * k + j \<and> 64 * k + j < 64 * t + n then entry_bit src (64 * s + tail + (64 * k + j - 64 * t)) else bit (tgt ! k) j))"
proof -
  define u where "u = n div 64"
  define g where "g = n mod 64"
  have n: "n = 64 * u + g" "g < 64" by (simp_all add: u_def g_def)
  have off: "(64 * s + tail) div 64 = s" "(64 * s + tail) mod 64 = tail" "(64 * t) div 64 = t" using tail by simp_all
  have len: "s < length src" "\<And>i. i < u \<Longrightarrow> s + Suc i < length src" "t + u \<le> length tgt"
    using src tgt n tail by linarith+
  obtain tgt1 where loop: "fold_res (slice_shift_step src (64 * s + tail) (64 * t) tail) [0..<u] (src ! s, tgt) = Inr (src ! (s + u), tgt1)"
    and tgt1: "length tgt1 = length tgt"
      "\<And>k. k < length tgt \<Longrightarrow> tgt1 ! k = (if t \<le> k \<and> k < t + u then splice tail (src ! (s + (k - t))) (src ! Suc (s + (k - t))) else tgt ! k)"
    using slice_shift_loop [of u s src t tgt "64 * s + tail" "64 * t" tail] len off by auto
  have units: "bit (tgt1 ! k) j \<longleftrightarrow> entry_bit src (64 * s + tail + (64 * k + j - 64 * t))"
    if "t \<le> k" "k < t + u" "j < 64" for k j
  proof -
    obtain i where i: "k = t + i" using \<open>t \<le> k\<close> le_Suc_ex by blast
    then have "64 * k + j - 64 * t = 64 * i + j" "i < u" "k < length tgt" using that len(3) by simp_all
    then show ?thesis using entry_bit_shift [of j tail src s i] bit_splice [OF tail \<open>j < 64\<close>] tail that i tgt1(2) [of k] by simp
  qed
  have keep: "tgt1 ! k = tgt ! k" if "k < length tgt" "\<not> (t \<le> k \<and> k < t + u)" for k using that tgt1(2) by auto
  show ?thesis
  proof (cases "g = 0")
    case True
    have "slice_shift tgt src (64 * t) (64 * s + tail) n = Inr tgt1"
      using loop len True unfolding slice_shift_def Let_def off u_def [symmetric] g_def [symmetric]
      by (simp add: get_entry_def)
    moreover have "64 * t \<le> 64 * k + j \<and> 64 * k + j < 64 * t + n \<longleftrightarrow> t \<le> k \<and> k < t + u" if "j < 64" for k j
      using that n True by auto
    moreover have "bit (tgt1 ! k) j \<longleftrightarrow>
        (if t \<le> k \<and> k < t + u then entry_bit src (64 * s + tail + (64 * k + j - 64 * t)) else bit (tgt ! k) j)"
      if "k < length tgt" "j < 64" for k j
      using units [of k j] keep [of k] that by (cases "t \<le> k \<and> k < t + u") (simp_all only: simp_thms if_True if_False)
    ultimately show ?thesis using tgt1(1) by (auto simp only: simp_thms)
  next
    case False
    have lt: "t + u < length tgt" using tgt n False by linarith
    have nxt: "64 - tail < g \<Longrightarrow> s + Suc u < length src" using src n tail by linarith
    let ?a = "if 64 - tail < g then splice tail (src ! (s + u)) (src ! Suc (s + u)) else drop_bit tail (src ! (s + u))"
    let ?e = "?a AND drop_bit (64 - g) MAX_ENTRY OR tgt1 ! (t + u) AND push_bit g MAX_ENTRY"
    have "slice_shift tgt src (64 * t) (64 * s + tail) n = Inr (tgt1[t + u := ?e])"
      using loop len False lt nxt tgt1(1) unfolding slice_shift_def Let_def off u_def [symmetric] g_def [symmetric]
      by (simp add: get_entry_def put_entry_def splice_def)
    moreover have last: "bit ?e j \<longleftrightarrow> (if j < g then entry_bit src (64 * s + tail + (64 * u + j)) else bit (tgt ! (t + u)) j)"
      if "j < 64" for j
    proof -
      have "bit ?a j \<longleftrightarrow> entry_bit src (64 * s + tail + (64 * u + j))" if "j < g"
        using that \<open>j < 64\<close> entry_bit_shift [of j tail src s u] bit_splice [OF tail \<open>j < 64\<close>] tail by (auto simp: bit_drop_bit_eq)
      then show ?thesis using that n(2) tgt1(2) [OF lt] False
        by (auto simp: bit_or_iff bit_and_iff bit_drop_bit_eq bit_push_bit_iff)
    qed
    moreover have "bit (tgt1[t + u := ?e] ! k) j \<longleftrightarrow>
        (if 64 * t \<le> 64 * k + j \<and> 64 * k + j < 64 * t + n then entry_bit src (64 * s + tail + (64 * k + j - 64 * t)) else bit (tgt ! k) j)"
      if k: "k < length tgt" and j: "j < 64" for k j
    proof (cases "k = t + u")
      case True
      then show ?thesis using last [OF j] lt tgt1(1) n by auto
    next
      case other: False
      then have "64 * t \<le> 64 * k + j \<and> 64 * k + j < 64 * t + n \<longleftrightarrow> t \<le> k \<and> k < t + u" using n j by auto
      then show ?thesis using other units [OF _ _ j, of k] keep [OF k] by auto
    qed
    ultimately show ?thesis using tgt1(1) by auto
  qed
qed

lemma slice_copy_ok:
  assumes "64 * s + n \<le> 64 * length src" "64 * t + n \<le> 64 * length tgt"
  shows "\<exists>tgt'. slice_copy tgt src (64 * t) (64 * s) n = Inr tgt' \<and> length tgt' = length tgt
    \<and> (\<forall>k<length tgt. tgt' ! k = (if t \<le> k \<and> k < t + EntryCount n then src ! (s + (k - t)) else tgt ! k))"
proof -
  have "EntryCount (64 * s) = s" "EntryCount (64 * t) = t" by (simp_all add: EntryCount_eq)
  moreover have "n \<le> 64 * (length src - s)" "n \<le> 64 * (length tgt - t)" using assms by linarith+
  then have "EntryCount n \<le> length src - s" "EntryCount n \<le> length tgt - t" unfolding EntryCount_bound(3) by simp_all
  moreover have "s \<le> length src" "t \<le> length tgt" using assms by linarith+
  ultimately show ?thesis
    using fill_entries [of "EntryCount n" "\<lambda>i. get_entry src (s + i)" "\<lambda>i. src ! (s + i)" t tgt]
    unfolding slice_copy_def by (simp add: get_entry_def)
qed

text \<open>How many rows of the target \<open>SliceInPlace\<close> writes: whole entries when both offsets are aligned.\<close>

definition slice_rows :: "idx_t \<Rightarrow> idx_t \<Rightarrow> idx_t \<Rightarrow> idx_t" where
  "slice_rows target_offset source_offset n =
     (if IsAligned source_offset \<and> IsAligned target_offset then 64 * EntryCount n else n)"

lemma entry_valid_row:
  "validity_mask m = Some es \<Longrightarrow> r < 64 * length es \<Longrightarrow> valid_row m r = entry_bit es r"
  by (simp add: valid_row_def div_64_less)

lemma SliceInPlace_ok:
  assumes other: "\<not> AllValid other" "source_offset + n \<le> mask_capacity other" and tgt: "target_offset + n \<le> mask_capacity m"
  shows "\<exists>m'. SliceInPlace m other target_offset source_offset n = Inr m' \<and> mask_capacity m' = mask_capacity m
    \<and> (\<forall>r. valid_row m' r \<longleftrightarrow>
        (if target_offset \<le> r \<and> r < target_offset + slice_rows target_offset source_offset n
         then valid_row other (source_offset + (r - target_offset)) else valid_row m r))"
proof -
  obtain es where es: "validity_mask (EnsureWritable m) = Some es" "mask_capacity m = 64 * length es"
    and rows: "\<And>k j. k < length es \<Longrightarrow> j < 64 \<Longrightarrow> valid_row m (64 * k + j) = bit (es ! k) j"
      "\<And>k j. \<not> k < length es \<Longrightarrow> j < 64 \<Longrightarrow> valid_row m (64 * k + j)"
    by (rule writable_entries [of m]) blast
  obtain src where src: "validity_mask other = Some src" "mask_capacity other = 64 * length src"
    using other(1) by (auto simp: AllValid_def mask_capacity_def)
  have lift: "valid_row ((EnsureWritable m)\<lparr>validity_mask := Some es'\<rparr>) r \<longleftrightarrow>
      (if target_offset \<le> r \<and> r < target_offset + w then valid_row other (source_offset + (r - target_offset)) else valid_row m r)"
    if "length es' = length es" "target_offset + w \<le> 64 * length es" "source_offset + w \<le> 64 * length src"
      "\<And>k j. k < length es \<Longrightarrow> j < 64 \<Longrightarrow> bit (es' ! k) j \<longleftrightarrow>
        (if target_offset \<le> 64 * k + j \<and> 64 * k + j < target_offset + w
         then entry_bit src (source_offset + (64 * k + j - target_offset)) else bit (es ! k) j)" for es' w r
  proof (rule row_by_entry)
    fix k j :: nat assume j: "j < 64"
    have d: "(64 * k + j) div 64 = k" "(64 * k + j) mod 64 = j" using j by (simp_all add: div_nat_eqI)
    show "valid_row ((EnsureWritable m)\<lparr>validity_mask := Some es'\<rparr>) (64 * k + j) \<longleftrightarrow>
      (if target_offset \<le> 64 * k + j \<and> 64 * k + j < target_offset + w
       then valid_row other (source_offset + (64 * k + j - target_offset)) else valid_row m (64 * k + j))"
    proof (cases "k < length es")
      case True
      have "valid_row other (source_offset + (64 * k + j - target_offset)) = entry_bit src (source_offset + (64 * k + j - target_offset))"
        if "target_offset \<le> 64 * k + j" "64 * k + j < target_offset + w"
        by (rule entry_valid_row [OF src(1)]) (use that \<open>source_offset + w \<le> 64 * length src\<close> in linarith)
      then show ?thesis using that(4) [OF True j] rows(1) [OF True j] that(1) True d by (simp add: valid_row_def)
    next
      case False
      then have "\<not> 64 * k + j < target_offset + w" using that(2) by linarith
      then show ?thesis using rows(2) [OF False j] that(1) False d by (simp add: valid_row_def)
    qed
  qed
  define s where "s = source_offset div 64"
  define t where "t = target_offset div 64"
  consider (aligned) "IsAligned source_offset" "IsAligned target_offset" | (shift) "\<not> IsAligned source_offset" "IsAligned target_offset"
    | (rows) "\<not> IsAligned target_offset" by blast
  then show ?thesis
  proof cases
    case aligned
    then have st: "source_offset = 64 * s" "target_offset = 64 * t" by (auto simp: IsAligned_def s_def t_def)
    have len: "n \<le> 64 * (length src - s)" "n \<le> 64 * (length es - t)" "s \<le> length src" "t \<le> length es"
      using other(2) tgt es(2) src(2) st by linarith+
    then have ec: "EntryCount n \<le> length src - s" "EntryCount n \<le> length es - t" by (simp_all add: EntryCount_bound(3))
    obtain es' where es': "slice_copy es src target_offset source_offset n = Inr es'" "length es' = length es"
      "\<And>k. k < length es \<Longrightarrow> es' ! k = (if t \<le> k \<and> k < t + EntryCount n then src ! (s + (k - t)) else es ! k)"
      using slice_copy_ok [of s n src t es] other(2) tgt es(2) src(2) st by auto
    have "bit (es' ! k) j \<longleftrightarrow>
        (if target_offset \<le> 64 * k + j \<and> 64 * k + j < target_offset + 64 * EntryCount n
         then entry_bit src (source_offset + (64 * k + j - target_offset)) else bit (es ! k) j)" if "k < length es" "j < 64" for k j
    proof -
      have "target_offset \<le> 64 * k + j \<and> 64 * k + j < target_offset + 64 * EntryCount n \<longleftrightarrow> t \<le> k \<and> k < t + EntryCount n"
        using that st by auto
      moreover have "source_offset + (64 * k + j - target_offset) = 64 * (s + (k - t)) + j" if "t \<le> k"
        using that st by simp
      ultimately show ?thesis using es'(3) [OF that(1)] that(2) by auto
    qed
    note rows' = lift [OF es'(2) _ _ this]
    have "SliceInPlace m other target_offset source_offset n = Inr ((EnsureWritable m)\<lparr>validity_mask := Some es'\<rparr>)"
      using aligned es src es'(1) by (simp add: SliceInPlace_def Let_def GetData_def)
    then show ?thesis using rows' aligned es es' ec len st by (simp add: slice_rows_def mask_capacity_def)
  next
    case shift
    then have st: "source_offset = 64 * s + source_offset mod 64" "target_offset = 64 * t" "0 < source_offset mod 64"
      by (auto simp: IsAligned_def s_def t_def)
    obtain es' where es': "slice_shift es src target_offset source_offset n = Inr es'" "length es' = length es"
      "\<And>k j. k < length es \<Longrightarrow> j < 64 \<Longrightarrow> bit (es' ! k) j \<longleftrightarrow>
        (if target_offset \<le> 64 * k + j \<and> 64 * k + j < target_offset + n
         then entry_bit src (source_offset + (64 * k + j - target_offset)) else bit (es ! k) j)"
      using slice_shift_ok [of "source_offset mod 64" s n src t es] st other(2) tgt es(2) src(2) by auto
    have "SliceInPlace m other target_offset source_offset n = Inr ((EnsureWritable m)\<lparr>validity_mask := Some es'\<rparr>)"
      using shift es src es'(1) by (simp add: SliceInPlace_def Let_def GetData_def)
    then show ?thesis using lift [OF es'(2) _ _ es'(3)] shift es es' other(2) tgt src by (simp add: slice_rows_def mask_capacity_def)
  next
    case rows
    have "RowIsValid other (source_offset + i) = Inr (valid_row other (source_offset + i))" if "i < n" for i
      using that other(2) by (intro RowIsValid_ok) simp
    from validity.put_range [of target_offset n "EnsureWritable m" "\<lambda>i. RowIsValid other (source_offset + i)"
        "\<lambda>i. valid_row other (source_offset + i)", OF _ this] tgt rows show ?thesis
      by (auto simp: SliceInPlace_def Let_def slice_rows_def)
  qed
qed

section \<open>Round trip of the serialized form\<close>

lemma write_rows_ok:
  assumes "n \<le> mask_capacity m \<or> AllValid m"
  shows "write_rows m k v n out = Inr (out @ concat (map (le_bytes k) (filter (\<lambda>i. valid_row m i = v) [0..<n])))"
proof -
  have "\<exists>out'. write_rows m k v n out = Inr out' \<and> out' = out @ concat (map (le_bytes k) (filter (\<lambda>i. valid_row m i = v) [0..<n]))"
    unfolding write_rows_def
  proof (rule fold_res_upt_rule)
    fix i out' assume "i < n" and I: "out' = out @ concat (map (le_bytes k) (filter (\<lambda>i. valid_row m i = v) [0..<i]))"
    then have "RowIsValid m i = Inr (valid_row m i)" using assms by (intro RowIsValid_ok) auto
    then show "\<exists>out''. bind_res (RowIsValid m i) (\<lambda>b. Inr (if b = v then Write_uint k i out' else out')) = Inr out''
        \<and> out'' = out @ concat (map (le_bytes k) (filter (\<lambda>i. valid_row m i = v) [0..<Suc i]))"
      using I by (simp add: Write_uint_def)
  qed simp_all
  then show ?thesis by blast
qed

lemma read_rows_ok:
  "\<forall>r \<in> set rs. r < 256 ^ k \<and> r < mask_capacity m \<Longrightarrow>
    \<exists>m'. read_rows k v (length rs) (concat (map (le_bytes k) rs) @ rest) m = Inr (m', rest)
      \<and> valid_row m' = (\<lambda>r. if r \<in> set rs then v else valid_row m r) \<and> mask_capacity m' = mask_capacity m"
proof (induction rs arbitrary: m)
  case (Cons r rs)
  from validity.put_ok [of r m v] Cons.prems obtain m1 where m1: "Set_row r v m = Inr m1" "valid_row m1 = (valid_row m)(r := v)"
    "mask_capacity m1 = mask_capacity m" by auto
  from Cons.IH [of m1] Cons.prems m1(3) obtain m2 where
    "read_rows k v (length rs) (concat (map (le_bytes k) rs) @ rest) m1 = Inr (m2, rest)"
    "valid_row m2 = (\<lambda>r. if r \<in> set rs then v else valid_row m1 r)" "mask_capacity m2 = mask_capacity m" by auto
  with m1 Cons.prems show ?case by (auto simp: fun_eq_iff)
qed simp

lemma count_complement: "length (filter P [0..<n]) + length (filter (\<lambda>i. \<not> P i) [0..<n]) = n"
  using sum_length_filter_compl [of P "[0..<n]"] by simp

lemma mask_roundtrip:
  assumes cap: "n \<le> mask_capacity m \<or> AllValid m" and small: "n < 2 ^ 32"
  shows "\<exists>bs. Write_mask m n out = Inr (out @ bs) \<and> (\<exists>m'. Read_mask n (bs @ rest) = Inr (m', rest)
    \<and> (\<forall>r<n. valid_row m' r = valid_row m r) \<and> n \<le> mask_capacity m')"
proof -
  define valids where "valids = length (filter (valid_row m) [0..<n])"
  define k :: nat where "k = (if n \<ge> 2 ^ 16 - 1 then 4 else 2)"
  have count: "CountValid m n = Inr valids" using CountValid_ok [OF cap] by (simp add: valids_def)
  have compl: "valids + length (filter (\<lambda>i. \<not> valid_row m i) [0..<n]) = n"
    using count_complement [of "valid_row m" n] by (simp add: valids_def)
  let ?vs = "k * valids + 4" and ?is = "k * (n - valids) + 4"
  show ?thesis
  proof (cases "?vs < ValidityMaskSize n \<or> ?is < ValidityMaskSize n")
    case True
    define v where "v = (?vs < ?is)"
    define rs where "rs = filter (\<lambda>i. valid_row m i = v) [0..<n]"
    have len: "length rs = min valids (n - valids)"
      using compl by (cases v) (auto simp: rs_def v_def valids_def k_def split: if_splits)
    then have small': "length rs < 2 ^ 32" "min valids (n - valids) < 2 ^ 32" using small by linarith+
    have rs: "\<forall>r \<in> set rs. r < 256 ^ k \<and> r < n" using small by (auto simp: rs_def k_def split: if_splits)
    let ?bs = "le_bytes 1 (if v then 1 else 2) @ le_bytes 4 (length rs) @ concat (map (le_bytes k) rs)"
    have "write_rows m k v n o' = Inr (o' @ concat (map (le_bytes k) rs))" for o' by (simp add: write_rows_ok [OF cap] rs_def)
    then have "Write_mask m n out = Inr (out @ ?bs)"
      using small' unfolding Write_mask_def count bind_res_Inr Let_def k_def [symmetric] if_P [OF True] v_def [symmetric] len [symmetric]
      by (simp add: Write_uint_def)
    moreover obtain m1 where m1: "(if v then SetAllInvalid n (Initialize_mask n) else Inr (Initialize_mask n)) = Inr m1"
      "\<forall>r<n. valid_row m1 r = (\<not> v)" "mask_capacity m1 = 64 * EntryCount n"
      using SetAllInvalid_ok [of n "Initialize_mask n"] EntryCount_bound(1) [of n] by (cases v) auto
    then obtain m2 where "read_rows k v (length rs) (concat (map (le_bytes k) rs) @ rest) m1 = Inr (m2, rest)"
      "valid_row m2 = (\<lambda>r. if r \<in> set rs then v else valid_row m1 r)" "mask_capacity m2 = 64 * EntryCount n"
      using read_rows_ok [of rs k m1 v rest] rs EntryCount_bound(1) [of n] by force
    moreover have "Read_mask n (?bs @ rest) = read_rows k v (length rs) (concat (map (le_bytes k) rs) @ rest) m1"
      using m1(1) small' unfolding Read_mask_def k_def [symmetric] Let_def by (cases v) simp_all
    ultimately show ?thesis using m1 EntryCount_bound(1) [of n] by (auto simp: rs_def)
  next
    case False
    have w: "Write_mask m n out = bind_res (if ValidityMaskSize n = 0 then Inr [] else GetData m) (\<lambda>es.
        if length es < EntryCount n then Inl OutOfBounds else Inr (Write_uint 1 0 out @ words_bytes (take (EntryCount n) es)))"
      using False unfolding Write_mask_def count Let_def k_def [symmetric] by simp
    show ?thesis
    proof (cases "n = 0")
      case True
      then show ?thesis using w
        by (simp add: ValidityMaskSize_def EntryCount_def Write_uint_def words_bytes_def Read_mask_def Let_def ReadData_def)
    next
      case pos: False
      then have size: "0 < EntryCount n" "ValidityMaskSize n = 8 * EntryCount n"
        using EntryCount_bound(1) [of n] by (auto simp: ValidityMaskSize_def intro: gr0I)
      have "\<not> AllValid m"
      proof
        assume "AllValid m"
        then have "valids = n" by (simp add: valids_def AllValid_def valid_row_def)
        then show False using False size by simp
      qed
      then obtain es where es: "validity_mask m = Some es" "n \<le> 64 * length es" "EntryCount n \<le> length es"
        using cap by (auto simp: AllValid_def mask_capacity_def EntryCount_bound(3))
      let ?es = "take (EntryCount n) es"
      let ?m = "(Initialize_mask n)\<lparr>validity_mask := Some ?es\<rparr>"
      have len: "length ?es = EntryCount n" using es(3) by simp
      have "bytes_words (EntryCount n) (words_bytes ?es) = ?es" using bytes_words_inverse [of ?es] unfolding len .
      moreover have "length (words_bytes ?es) = ValidityMaskSize n" using size es(3) by simp
      ultimately have "Read_mask n ((le_bytes 1 0 @ words_bytes ?es) @ rest) = Inr (?m, rest)"
        unfolding Read_mask_def Let_def by (simp del: length_words_bytes)
      moreover have "Write_mask m n out = Inr (out @ le_bytes 1 0 @ words_bytes ?es)"
        using w size es by (simp add: GetData_def Write_uint_def)
      moreover have "valid_row ?m r = valid_row m r" if "r < n" for r
        using that es EntryCount_bound(1) [of n] by (simp add: valid_row_def div_64_less)
      ultimately show ?thesis using len EntryCount_bound(1) [of n] by (auto simp: mask_capacity_def)
    qed
  qed
qed

section \<open>Combining and resizing\<close>

lemma Combine_ok:
  assumes "n \<le> mask_capacity m" "n \<le> mask_capacity other" "same \<Longrightarrow> validity_mask m = validity_mask other"
  shows "\<exists>m'. Combine same m other n = Inr m' \<and> (\<forall>r<n. valid_row m' r \<longleftrightarrow> valid_row m r \<and> valid_row other r)"
proof (cases "AllValid other \<or> AllValid m \<or> same")
  case True
  then show ?thesis using assms(3) by (auto simp: Combine_def AllValid_def valid_row_def)
next
  case False
  then obtain es es' where es: "validity_mask m = Some es" "validity_mask other = Some es'" by (auto simp: AllValid_def)
  have len: "EntryCount n \<le> length es" "EntryCount n \<le> length es'" "n \<le> 64 * length es" "n \<le> 64 * length es'"
    using assms(1,2) es by (auto simp: mask_capacity_def EntryCount_bound(3))
  have "map_res (\<lambda>i. bind_res (get_entry es i) (\<lambda>a. bind_res (get_entry es' i) (\<lambda>b. Inr (a AND b)))) [0..<EntryCount n] =
      Inr (map (\<lambda>i. es ! i AND es' ! i) [0..<EntryCount n])"
    using len by (intro map_res_ok) (simp add: get_entry_def)
  moreover have "r div 64 < EntryCount n" if "r < n" for r using that EntryCount_bound(1) [of n] by (simp add: div_64_less)
  ultimately show ?thesis using False es len by (auto simp: Combine_def GetData_def valid_row_def bit_and_iff div_64_less)
qed

lemma Resize_ok:
  assumes "n \<le> n'" "n \<le> mask_capacity m"
  shows "\<exists>m'. Resize m n n' = Inr m' \<and> target_count m' = n' \<and> n' \<le> mask_capacity m'
    \<and> (\<forall>r. valid_row m' r \<longleftrightarrow> (r < 64 * EntryCount n \<longrightarrow> valid_row m r))"
proof (cases "validity_mask m")
  case None
  then show ?thesis using EntryCount_bound(1) [of n'] by (simp add: Resize_def valid_row_def mask_capacity_def)
next
  case (Some es)
  let ?c = "EntryCount n" and ?c' = "EntryCount n'"
  have le: "?c \<le> ?c'" "?c \<le> length es" using assms Some EntryCount_bound(1) [of n']
    by (auto simp: EntryCount_bound(3) mask_capacity_def)
  obtain r1 where r1: "fold_res (\<lambda>i res. bind_res (get_entry es i) (\<lambda>e. put_entry i e res)) [0..<?c] (replicate ?c' MAX_ENTRY) = Inr r1"
    "length r1 = ?c'" "\<And>j. j < ?c' \<Longrightarrow> r1 ! j = (if j < ?c then es ! j else MAX_ENTRY)"
    using fill_entries [of ?c "get_entry es" "\<lambda>i. es ! i" 0 "replicate ?c' MAX_ENTRY"] le by (auto simp: get_entry_def)
  have "fold_res (\<lambda>i res. put_entry i MAX_ENTRY res) [?c..<?c'] r1 = Inr r1"
  proof -
    have "\<exists>r. fold_res (\<lambda>i res. put_entry i MAX_ENTRY res) [?c..<?c'] r1 = Inr r \<and> r = r1"
    proof (rule fold_res_upt_rule)
      fix i r assume "?c \<le> i" "i < ?c'" "r = r1"
      then show "\<exists>r'. put_entry i MAX_ENTRY r = Inr r' \<and> r' = r1"
        using r1(2) r1(3) [of i] list_update_id [of r1 i] by (simp add: put_entry_def)
    qed (use le in auto)
    then show ?thesis by blast
  qed
  then show ?thesis using r1 Some le EntryCount_bound(1) [of n']
    by (auto simp: Resize_def valid_row_def mask_capacity_def div_64_less)
qed

section \<open>Properties\<close>

text \<open>
  C26: \<open>CountValid\<close>, with its shortcut for full entries, Kernighan's loop on the others and the
  row loop on the ragged end, counts exactly the valid rows below \<open>n\<close>; it reads no entry outside
  the buffer and both of its loops terminate.
\<close>

lemma CountValid_correct:
  assumes "n \<le> mask_capacity m"
  shows "CountValid m n = Inr (length (filter (valid_row m) [0..<n]))"
  using assms by (intro CountValid_ok) simp

text \<open>
  C20: \<open>SliceInPlace\<close> moves a range of rows between masks at arbitrary bit offsets. All three of
  its cases (copy of whole entries, shift of entries, row by row) write the rows of the source
  into the target range, leave the rows outside of the written range as they are, and touch no
  memory outside the two buffers. The copy of whole entries also overwrites the rest of the
  last entry; the other two cases write exactly \<open>n\<close> rows.
\<close>

theorem SliceInPlace_correct:
  assumes "\<not> AllValid other" "source_offset + n \<le> mask_capacity other" "target_offset + n \<le> mask_capacity m"
  shows "\<exists>m'. SliceInPlace m other target_offset source_offset n = Inr m' \<and> mask_capacity m' = mask_capacity m
    \<and> (\<forall>r. valid_row m' r \<longleftrightarrow>
        (if target_offset \<le> r \<and> r < target_offset + slice_rows target_offset source_offset n
         then valid_row other (source_offset + (r - target_offset)) else valid_row m r))"
  using assms by (rule SliceInPlace_ok)

theorem SliceInPlace_correct_witness:
  "\<exists>m'. SliceInPlace (ValidityMask_new 64) \<lparr>validity_mask = Some [0, 1], target_count = 128\<rparr> 0 62 4 = Inr m'
     \<and> \<not> valid_row m' 1 \<and> valid_row m' 2 \<and> \<not> valid_row m' 3 \<and> valid_row m' 4"
proof -
  let ?o = "\<lparr>validity_mask = Some [0, 1], target_count = 128\<rparr>"
  have "\<not> AllValid ?o" "62 + 4 \<le> mask_capacity ?o" "0 + 4 \<le> mask_capacity (ValidityMask_new 64)"
    by (simp_all add: AllValid_def mask_capacity_def ValidityMask_new_def EntryCount_def)
  from SliceInPlace_correct [OF this] show ?thesis
    by (auto simp: slice_rows_def IsAligned_def valid_row_def ValidityMask_new_def)
qed

text \<open>
  C30: the serialized form of a mask (a list of valid rows, a list of invalid rows or the bitmask,
  whichever is smallest) is read back with the same validity for every row, the reader stops
  exactly where the writer stopped, and neither side runs out of its buffer.
\<close>

theorem ValidityMask_roundtrip:
  assumes "n \<le> mask_capacity m" "n < 2 ^ 32"
  shows "\<exists>bs. Write_mask m n out = Inr (out @ bs) \<and> (\<exists>m'. Read_mask n (bs @ rest) = Inr (m', rest)
    \<and> (\<forall>r<n. valid_row m' r = valid_row m r))"
  using mask_roundtrip [of n m out rest] assms by blast

theorem ValidityMask_roundtrip_witness:
  "\<exists>bs. Write_mask \<lparr>validity_mask = Some [5], target_count = 64\<rparr> 64 [] = Inr bs
     \<and> (\<exists>m'. Read_mask 64 (bs @ [9]) = Inr (m', [9]) \<and> valid_row m' 2 \<and> \<not> valid_row m' 1)"
proof -
  let ?m = "\<lparr>validity_mask = Some [5], target_count = 64\<rparr>"
  have "64 \<le> mask_capacity ?m" "(64 :: nat) < 2 ^ 32" by (simp_all add: mask_capacity_def)
  moreover have "valid_row ?m 2" "\<not> valid_row ?m 1" by code_simp+
  ultimately show ?thesis using ValidityMask_roundtrip [of 64 ?m "[]" "[9]"] by force
qed

end
