(* ===== verification/Chunk_Info.thy ===== *)
theory Chunk_Info
  imports Selection_Vector Validity_Mask
begin

text \<open>
  The version information of a vector of rows: \<^verbatim>\<open>src/src/storage/table/chunk_info.cpp\<close> and
  \<^verbatim>\<open>src/src/include/duckdb/storage/table/chunk_info.hpp\<close>, with the delete records of
  \<^verbatim>\<open>src/src/transaction/duck_transaction.cpp\<close>.

  Every row has the id that inserted it and the id that deleted it. An id is a commit
  timestamp, or the id of a running transaction; the latter start at \<open>TRANSACTION_ID_START\<close>,
  above every timestamp. A vector either shares one pair of ids (\<open>ChunkConstantInfo\<close>) or has an
  id per row (\<open>ChunkVectorInfo\<close>) with two flags that let a scan skip the arrays.

  The interface is the locale \<open>version_info\<close>: the fast path of a scan agrees with the fetch of
  single rows. Runs of operations of concurrent transactions are the relation \<open>version_step\<close>.
\<close>

section \<open>Transactions\<close>

type_synonym transaction_t = u64

definition TRANSACTION_ID_START :: transaction_t where
  "TRANSACTION_ID_START = 4611686018427388000"

definition NOT_DELETED_ID :: transaction_t where
  "NOT_DELETED_ID = 2 ^ 64 - 1 - 1"

record TransactionData =
  transaction_id :: transaction_t
  start_time :: transaction_t

record VersionOperator =
  UseInsertedVersion :: "transaction_t \<Rightarrow> transaction_t \<Rightarrow> transaction_t \<Rightarrow> bool"
  UseDeletedVersion :: "transaction_t \<Rightarrow> transaction_t \<Rightarrow> transaction_t \<Rightarrow> bool"

definition TransactionVersionOperator :: VersionOperator where
  "TransactionVersionOperator =
     \<lparr>UseInsertedVersion = (\<lambda>start_time transaction_id id. id < start_time \<or> id = transaction_id),
      UseDeletedVersion = (\<lambda>start_time transaction_id id. \<not> (id < start_time \<or> id = transaction_id))\<rparr>"

definition CommittedVersionOperator :: VersionOperator where
  "CommittedVersionOperator =
     \<lparr>UseInsertedVersion = (\<lambda>start_time transaction_id id. True),
      UseDeletedVersion = (\<lambda>min_start_time min_transaction_id id.
        (id \<ge> min_start_time \<and> id < TRANSACTION_ID_START) \<or> id = NOT_DELETED_ID)\<rparr>"

definition UseVersion :: "TransactionData \<Rightarrow> transaction_t \<Rightarrow> bool" where
  "UseVersion t i = UseInsertedVersion TransactionVersionOperator (start_time t) (transaction_id t) i"

section \<open>One pair of ids for a vector\<close>

record ChunkConstantInfo =
  cc_start :: idx_t
  cc_insert_id :: transaction_t
  cc_delete_id :: transaction_t

definition ChunkConstantInfo_new :: "idx_t \<Rightarrow> ChunkConstantInfo" where
  "ChunkConstantInfo_new start = \<lparr>cc_start = start, cc_insert_id = 0, cc_delete_id = NOT_DELETED_ID\<rparr>"

definition cc_GetSelVector ::
  "VersionOperator \<Rightarrow> transaction_t \<Rightarrow> transaction_t \<Rightarrow> ChunkConstantInfo \<Rightarrow> SelectionVector \<Rightarrow> idx_t
    \<Rightarrow> exc + idx_t \<times> SelectionVector" where
  "cc_GetSelVector OP st tid info sel max_count =
     Inr (if UseInsertedVersion OP st tid (cc_insert_id info)
             \<and> UseDeletedVersion OP st tid (cc_delete_id info)
          then max_count else 0, sel)"

definition cc_Fetch :: "TransactionData \<Rightarrow> idx_t \<Rightarrow> ChunkConstantInfo \<Rightarrow> exc + bool" where
  "cc_Fetch t row info = Inr (UseVersion t (cc_insert_id info) \<and> \<not> UseVersion t (cc_delete_id info))"

definition cc_CommitAppend :: "transaction_t \<Rightarrow> idx_t \<Rightarrow> idx_t \<Rightarrow> ChunkConstantInfo \<Rightarrow> ChunkConstantInfo" where
  "cc_CommitAppend commit_id start e info = info\<lparr>cc_insert_id := commit_id\<rparr>"

definition cc_HasDeletes :: "ChunkConstantInfo \<Rightarrow> bool" where
  "cc_HasDeletes info \<longleftrightarrow> cc_insert_id info \<ge> TRANSACTION_ID_START \<or> cc_delete_id info < TRANSACTION_ID_START"

definition cc_GetCommittedDeletedCount :: "idx_t \<Rightarrow> ChunkConstantInfo \<Rightarrow> idx_t" where
  "cc_GetCommittedDeletedCount max_count info = (if cc_delete_id info < TRANSACTION_ID_START then max_count else 0)"

section \<open>An id for every row\<close>

record ChunkVectorInfo =
  cv_start :: idx_t
  inserted :: "transaction_t list"
  insert_id :: transaction_t
  same_inserted_id :: bool
  deleted :: "transaction_t list"
  any_deleted :: bool

definition ChunkVectorInfo_new :: "idx_t \<Rightarrow> ChunkVectorInfo" where
  "ChunkVectorInfo_new start =
     \<lparr>cv_start = start, inserted = replicate STANDARD_VECTOR_SIZE 0, insert_id = 0, same_inserted_id = True,
      deleted = replicate STANDARD_VECTOR_SIZE NOT_DELETED_ID, any_deleted = False\<rparr>"

definition get_id :: "transaction_t list \<Rightarrow> idx_t \<Rightarrow> exc + transaction_t" where
  "get_id ids i = (if i < length ids then Inr (ids ! i) else Inl OutOfBounds)"

definition put_id :: "idx_t \<Rightarrow> transaction_t \<Rightarrow> transaction_t list \<Rightarrow> exc + transaction_t list" where
  "put_id i v ids = (if i < length ids then Inr (ids[i := v]) else Inl OutOfBounds)"

text \<open>
  \<open>TemplatedGetSelVector\<close>: a result of \<open>max_count\<close> means all rows and leaves the selection
  vector alone on the first path; otherwise the rows that are used are pushed.
\<close>

definition cv_GetSelVector ::
  "VersionOperator \<Rightarrow> transaction_t \<Rightarrow> transaction_t \<Rightarrow> ChunkVectorInfo \<Rightarrow> SelectionVector \<Rightarrow> idx_t
    \<Rightarrow> exc + idx_t \<times> SelectionVector" where
  "cv_GetSelVector OP st tid info sel max_count =
     (if same_inserted_id info \<and> \<not> any_deleted info
      then Inr (if UseInsertedVersion OP st tid (insert_id info) then max_count else 0, sel)
      else if same_inserted_id info
      then if \<not> UseInsertedVersion OP st tid (insert_id info) then Inr (0, sel)
           else fold_res (\<lambda>i acc. bind_res (get_id (deleted info) i) (\<lambda>d.
                  if UseDeletedVersion OP st tid d then push_row i acc else Inr acc)) [0..<max_count] (0, sel)
      else if \<not> any_deleted info
      then fold_res (\<lambda>i acc. bind_res (get_id (inserted info) i) (\<lambda>a.
             if UseInsertedVersion OP st tid a then push_row i acc else Inr acc)) [0..<max_count] (0, sel)
      else fold_res (\<lambda>i acc. bind_res (get_id (inserted info) i) (\<lambda>a.
             bind_res (if UseInsertedVersion OP st tid a
                       then bind_res (get_id (deleted info) i) (\<lambda>d. Inr (UseDeletedVersion OP st tid d))
                       else Inr False)
               (\<lambda>use. if use then push_row i acc else Inr acc))) [0..<max_count] (0, sel))"

definition cv_Fetch :: "TransactionData \<Rightarrow> idx_t \<Rightarrow> ChunkVectorInfo \<Rightarrow> exc + bool" where
  "cv_Fetch t row info =
     bind_res (get_id (inserted info) row) (\<lambda>a. bind_res (get_id (deleted info) row) (\<lambda>d.
       Inr (UseVersion t a \<and> \<not> UseVersion t d)))"

text \<open>
  \<open>Delete\<close> works in place on the caller's array of rows and leaves the rows that it deleted at
  its front. A conflict throws in the middle of the loop: the changes made so far stay. The
  result is the state at the return or the throw, with the exception if there is one. The
  loop state is \<open>(info, rows, deleted_tuples)\<close>.
\<close>

fun Delete_loop ::
  "transaction_t \<Rightarrow> idx_t list \<Rightarrow> ChunkVectorInfo \<times> idx_t list \<times> idx_t
    \<Rightarrow> (ChunkVectorInfo \<times> idx_t list \<times> idx_t) \<times> exc option" where
  "Delete_loop tid [] st = (st, None)"
| "Delete_loop tid (i # is) (info, rows, deleted_tuples) =
     (if i \<ge> length rows \<or> rows ! i \<ge> length (deleted info) then ((info, rows, deleted_tuples), Some OutOfBounds)
      else if deleted info ! (rows ! i) = tid then Delete_loop tid is (info, rows, deleted_tuples)
      else if deleted info ! (rows ! i) \<noteq> NOT_DELETED_ID then ((info, rows, deleted_tuples), Some TransactionException)
      else Delete_loop tid is
             (info\<lparr>deleted := (deleted info)[rows ! i := tid]\<rparr>,
              rows[deleted_tuples := rows ! i], Suc deleted_tuples))"

definition cv_Delete ::
  "transaction_t \<Rightarrow> idx_t list \<Rightarrow> idx_t \<Rightarrow> ChunkVectorInfo
    \<Rightarrow> (ChunkVectorInfo \<times> idx_t list \<times> idx_t) \<times> exc option" where
  "cv_Delete tid rows cnt info = Delete_loop tid [0..<cnt] (info\<lparr>any_deleted := True\<rparr>, rows, 0)"

text \<open>
  The record of a delete in the undo buffer, as \<open>PushDelete\<close> builds it: no rows are stored when
  they are 0, 1, 2 and so on. \<open>NumericCast<uint16_t>\<close> throws on a row that does not fit.
\<close>

record DeleteInfo =
  di_vector_idx :: idx_t
  di_count :: idx_t
  di_base_row :: idx_t
  is_consecutive :: bool
  di_rows :: "idx_t list"

definition PushDelete :: "idx_t \<Rightarrow> idx_t list \<Rightarrow> idx_t \<Rightarrow> idx_t \<Rightarrow> exc + DeleteInfo" where
  "PushDelete vector_idx rows cnt base_row =
     (if cnt > length rows then Inl OutOfBounds
      else
        let consecutive = (take cnt rows = [0..<cnt])
        in bind_res (if consecutive then Inr []
                     else map_res (\<lambda>r. if r < 2 ^ 16 then Inr r else Inl InternalException) (take cnt rows))
             (\<lambda>rs. Inr \<lparr>di_vector_idx = vector_idx, di_count = cnt, di_base_row = base_row,
                        is_consecutive = consecutive, di_rows = rs\<rparr>))"

definition GetRows :: "DeleteInfo \<Rightarrow> exc + idx_t list" where
  "GetRows info = (if is_consecutive info then Inl InternalException else Inr (di_rows info))"

definition cv_CommitDelete :: "transaction_t \<Rightarrow> DeleteInfo \<Rightarrow> ChunkVectorInfo \<Rightarrow> exc + ChunkVectorInfo" where
  "cv_CommitDelete commit_id dinfo info =
     bind_res
       (if is_consecutive dinfo
        then fold_res (\<lambda>i d. put_id i commit_id d) [0..<di_count dinfo] (deleted info)
        else bind_res (GetRows dinfo) (\<lambda>rows.
               if di_count dinfo > length rows then Inl OutOfBounds
               else fold_res (\<lambda>r d. put_id r commit_id d) (take (di_count dinfo) rows) (deleted info)))
       (\<lambda>d. Inr (info\<lparr>deleted := d\<rparr>))"

definition cv_Append :: "idx_t \<Rightarrow> idx_t \<Rightarrow> transaction_t \<Rightarrow> ChunkVectorInfo \<Rightarrow> exc + ChunkVectorInfo" where
  "cv_Append start e commit_id info =
     (let info = (if start = 0 then info\<lparr>insert_id := commit_id\<rparr>
                  else if insert_id info \<noteq> commit_id
                  then info\<lparr>same_inserted_id := False, insert_id := NOT_DELETED_ID\<rparr>
                  else info)
      in bind_res (fold_res (\<lambda>i ids. put_id i commit_id ids) [start..<e] (inserted info))
           (\<lambda>ids. Inr (info\<lparr>inserted := ids\<rparr>)))"

definition cv_CommitAppend :: "transaction_t \<Rightarrow> idx_t \<Rightarrow> idx_t \<Rightarrow> ChunkVectorInfo \<Rightarrow> exc + ChunkVectorInfo" where
  "cv_CommitAppend commit_id start e info =
     (let info = (if same_inserted_id info then info\<lparr>insert_id := commit_id\<rparr> else info)
      in bind_res (fold_res (\<lambda>i ids. put_id i commit_id ids) [start..<e] (inserted info))
           (\<lambda>ids. Inr (info\<lparr>inserted := ids\<rparr>)))"

definition cv_HasDeletes :: "ChunkVectorInfo \<Rightarrow> bool" where
  "cv_HasDeletes info = any_deleted info"

definition cv_GetCommittedDeletedCount :: "idx_t \<Rightarrow> ChunkVectorInfo \<Rightarrow> exc + idx_t" where
  "cv_GetCommittedDeletedCount max_count info =
     (if \<not> any_deleted info then Inr 0
      else fold_res (\<lambda>i n. bind_res (get_id (deleted info) i)
             (\<lambda>d. Inr (if d < TRANSACTION_ID_START then Suc n else n))) [0..<max_count] 0)"

section \<open>The dispatch on the kind of information\<close>

datatype ChunkInfo = ConstantInfo ChunkConstantInfo | VectorInfo ChunkVectorInfo

definition GetSelVector ::
  "VersionOperator \<Rightarrow> transaction_t \<Rightarrow> transaction_t \<Rightarrow> ChunkInfo \<Rightarrow> SelectionVector \<Rightarrow> idx_t \<Rightarrow> exc + idx_t \<times> SelectionVector" where
  "GetSelVector OP s i info sel n =
     (case info of ConstantInfo c \<Rightarrow> cc_GetSelVector OP s i c sel n | VectorInfo v \<Rightarrow> cv_GetSelVector OP s i v sel n)"

definition Fetch :: "TransactionData \<Rightarrow> idx_t \<Rightarrow> ChunkInfo \<Rightarrow> exc + bool" where
  "Fetch t row info = (case info of ConstantInfo c \<Rightarrow> cc_Fetch t row c | VectorInfo v \<Rightarrow> cv_Fetch t row v)"

definition CommitAppend :: "transaction_t \<Rightarrow> idx_t \<Rightarrow> idx_t \<Rightarrow> ChunkInfo \<Rightarrow> exc + ChunkInfo" where
  "CommitAppend commit_id start e info =
     (case info of ConstantInfo c \<Rightarrow> Inr (ConstantInfo (cc_CommitAppend commit_id start e c))
      | VectorInfo v \<Rightarrow> bind_res (cv_CommitAppend commit_id start e v) (\<lambda>v. Inr (VectorInfo v)))"

definition HasDeletes :: "ChunkInfo \<Rightarrow> bool" where
  "HasDeletes info = (case info of ConstantInfo c \<Rightarrow> cc_HasDeletes c | VectorInfo v \<Rightarrow> cv_HasDeletes v)"

definition GetCommittedDeletedCount :: "idx_t \<Rightarrow> ChunkInfo \<Rightarrow> exc + idx_t" where
  "GetCommittedDeletedCount n info =
     (case info of ConstantInfo c \<Rightarrow> Inr (cc_GetCommittedDeletedCount n c) | VectorInfo v \<Rightarrow> cv_GetCommittedDeletedCount n v)"

text \<open>The serialized form; the tag is the enumeration \<open>ChunkInfoType\<close>: constant 0, vector 1, empty 2.\<close>

definition cc_Write :: "ChunkConstantInfo \<Rightarrow> bytes \<Rightarrow> bytes" where
  "cc_Write info out = Write_uint 8 (cc_start info) (Write_uint 1 0 out)"

definition cv_Write :: "ChunkVectorInfo \<Rightarrow> bytes \<Rightarrow> exc + bytes" where
  "cv_Write info out =
     bind_res (cv_GetSelVector TransactionVersionOperator (TRANSACTION_ID_START - 1) (- 1) info
                 (Initialize_count STANDARD_VECTOR_SIZE) STANDARD_VECTOR_SIZE) (\<lambda>(cnt, sel).
     if cnt = STANDARD_VECTOR_SIZE then Inr (Write_uint 1 2 out)
     else if cnt = 0 then Inr (Write_uint 8 (cv_start info) (Write_uint 1 0 out))
     else bind_res (fold_res (\<lambda>i m. bind_res (get_index sel i) (\<lambda>r. SetInvalid r m)) [0..<cnt] (Initialize_mask STANDARD_VECTOR_SIZE))
            (\<lambda>mask. Write_mask mask STANDARD_VECTOR_SIZE (Write_uint 8 (cv_start info) (Write_uint 1 1 out))))"

definition Write_info :: "ChunkInfo \<Rightarrow> bytes \<Rightarrow> exc + bytes" where
  "Write_info info out = (case info of ConstantInfo c \<Rightarrow> Inr (cc_Write c out) | VectorInfo v \<Rightarrow> cv_Write v out)"

definition cc_Read :: "bytes \<Rightarrow> exc + ChunkConstantInfo \<times> bytes" where
  "cc_Read inp = bind_res (Read_uint 8 inp) (\<lambda>(start, inp).
     Inr ((ChunkConstantInfo_new start)\<lparr>cc_insert_id := 0, cc_delete_id := 0\<rparr>, inp))"

definition cv_Read :: "bytes \<Rightarrow> exc + ChunkVectorInfo \<times> bytes" where
  "cv_Read inp =
     bind_res (Read_uint 8 inp) (\<lambda>(start, inp).
     let result = (ChunkVectorInfo_new start)\<lparr>any_deleted := True\<rparr>
     in bind_res (Read_mask STANDARD_VECTOR_SIZE inp) (\<lambda>(mask, inp).
        bind_res (fold_res (\<lambda>i d. bind_res (RowIsValid mask i) (\<lambda>b. if b then put_id i 0 d else Inr d))
                    [0..<STANDARD_VECTOR_SIZE] (deleted result))
          (\<lambda>d. Inr (result\<lparr>deleted := d\<rparr>, inp))))"

text \<open>The empty tag gives the null pointer.\<close>

definition Read_info :: "bytes \<Rightarrow> exc + ChunkInfo option \<times> bytes" where
  "Read_info inp =
     bind_res (Read_uint 1 inp) (\<lambda>(tag, inp).
     if tag = 2 then Inr (None, inp)
     else if tag = 0 then bind_res (cc_Read inp) (\<lambda>(c, inp). Inr (Some (ConstantInfo c), inp))
     else if tag = 1 then bind_res (cv_Read inp) (\<lambda>(v, inp). Inr (Some (VectorInfo v), inp))
     else Inl SerializationException)"

section \<open>The interface of version information\<close>

text \<open>
  What a scan may rely on: the count, and the selection when not all rows are used. A reader
  is a transaction whose ids do not collide with the marker of rows that are not deleted.
\<close>

definition sel_result :: "nat \<Rightarrow> (nat \<Rightarrow> bool) \<Rightarrow> idx_t \<times> SelectionVector \<Rightarrow> bool" where
  "sel_result n used res \<longleftrightarrow>
     (let rows = filter used [0..<n]
      in fst res = length rows \<and> (length rows < n \<longrightarrow> sel_inv res \<and> sel_rows res = rows))"

definition valid_txn :: "TransactionData \<Rightarrow> bool" where
  "valid_txn t \<longleftrightarrow> start_time t \<le> NOT_DELETED_ID \<and> transaction_id t \<noteq> NOT_DELETED_ID"

locale version_info =
  fixes get_sel :: "TransactionData \<Rightarrow> 'i \<Rightarrow> SelectionVector \<Rightarrow> nat \<Rightarrow> exc + nat \<times> SelectionVector"
    and fetch :: "TransactionData \<Rightarrow> nat \<Rightarrow> 'i \<Rightarrow> exc + bool"
    and inv :: "nat \<Rightarrow> 'i \<Rightarrow> bool"
  assumes fetch_ok: "inv n i \<Longrightarrow> r < n \<Longrightarrow> \<exists>b. fetch t r i = Inr b"
    and get_sel_ok: "inv n i \<Longrightarrow> m \<le> n \<Longrightarrow> m \<le> length b \<Longrightarrow> m \<le> 2 ^ 32 \<Longrightarrow> valid_txn t \<Longrightarrow>
      \<exists>res. get_sel t i (SelBuf b) m = Inr res \<and> sel_result m (\<lambda>r. fetch t r i = Inr True) res"
begin

lemma get_sel_none:
  "inv n i \<Longrightarrow> m \<le> n \<Longrightarrow> m \<le> length b \<Longrightarrow> m \<le> 2 ^ 32 \<Longrightarrow> valid_txn t \<Longrightarrow> get_sel t i (SelBuf b) m = Inr (0, s) \<Longrightarrow>
    r < m \<Longrightarrow> fetch t r i = Inr False"
  using get_sel_ok [of n i m b t] fetch_ok [of n i r t] by (auto simp: sel_result_def Let_def filter_empty_conv)

lemma get_sel_all:
  assumes "inv n i" "m \<le> n" "m \<le> length b" "m \<le> 2 ^ 32" "valid_txn t" "get_sel t i (SelBuf b) m = Inr (m, s)" "r < m"
  shows "fetch t r i = Inr True"
proof -
  have "length (filter (\<lambda>r. fetch t r i = Inr True) [0..<m]) = length [0..<m]"
    using get_sel_ok [OF assms(1-5)] assms(6) by (auto simp: sel_result_def Let_def)
  then have "filter (\<lambda>r. fetch t r i = Inr True) [0..<m] = [0..<m]"
    by (metis filter_id_conv length_filter_less nat_less_le)
  then show ?thesis using assms(7) by (auto simp: filter_id_conv)
qed

end

section \<open>The fast paths agree with the arrays\<close>

definition used_row :: "VersionOperator \<Rightarrow> transaction_t \<Rightarrow> transaction_t \<Rightarrow> ChunkVectorInfo \<Rightarrow> nat \<Rightarrow> bool" where
  "used_row OP st tid info r \<longleftrightarrow>
     UseInsertedVersion OP st tid (inserted info ! r) \<and> UseDeletedVersion OP st tid (deleted info ! r)"

definition cv_inv :: "nat \<Rightarrow> ChunkVectorInfo \<Rightarrow> bool" where
  "cv_inv n info \<longleftrightarrow>
     n \<le> STANDARD_VECTOR_SIZE \<and> length (inserted info) = STANDARD_VECTOR_SIZE \<and> length (deleted info) = STANDARD_VECTOR_SIZE
     \<and> (same_inserted_id info \<longrightarrow> (\<forall>i<n. inserted info ! i = insert_id info))
     \<and> (\<not> any_deleted info \<longrightarrow> (\<forall>i<STANDARD_VECTOR_SIZE. deleted info ! i = NOT_DELETED_ID))"

lemma cv_inv_new: "n \<le> STANDARD_VECTOR_SIZE \<Longrightarrow> cv_inv n (ChunkVectorInfo_new start)"
  by (simp add: cv_inv_def ChunkVectorInfo_new_def)

lemma push_used:
  assumes "m \<le> length b" "m \<le> 2 ^ 32" "\<And>i acc. i < m \<Longrightarrow> body i acc = (if P i then push_row i acc else Inr acc)"
  shows "\<exists>res. fold_res body [0..<m] (0, SelBuf b) = Inr res \<and> sel_result m P res"
proof -
  have "fold_res body [0..<m] (0, SelBuf b) = fold_res (\<lambda>i acc. if P i then push_row i acc else Inr acc) [0..<m] (0, SelBuf b)"
    using assms(3) by (intro fold_res_cong) auto
  moreover have "length (filter P [0..<m]) \<le> length b" using length_filter_upt_le [of P 0 m] assms(1) by simp
  then obtain res where "fold_res (\<lambda>i acc. if P i then push_row i acc else Inr acc) [0..<m] (0, SelBuf b) = Inr res"
    "sel_inv res" "sel_rows res = filter P [0..<m]"
    using sel_sink.push_if [of "(0, SelBuf b)" P "[0..<m]" "\<lambda>i. i"] assms(2) by fastforce
  moreover from this have "fst res = length (filter P [0..<m])" by (metis length_sel_rows surjective_pairing)
  ultimately show ?thesis by (auto simp: sel_result_def Let_def)
qed

lemma all_or_none: "m \<le> length b \<Longrightarrow> (\<And>r. r < m \<Longrightarrow> P r = c) \<Longrightarrow> sel_result m P (if c then m else 0, SelBuf b)"
proof -
  assume "m \<le> length b" "\<And>r. r < m \<Longrightarrow> P r = c"
  moreover from this have "filter P [0..<m] = (if c then [0..<m] else [])" by (auto simp: filter_empty_conv filter_id_conv)
  ultimately show ?thesis by (simp add: sel_result_def)
qed

text \<open>
  What the four loops decide for a row, with the shortcuts of the two flags. Under the invariant
  this is the same as looking at the arrays.
\<close>

definition scan_row :: "VersionOperator \<Rightarrow> transaction_t \<Rightarrow> transaction_t \<Rightarrow> ChunkVectorInfo \<Rightarrow> nat \<Rightarrow> bool" where
  "scan_row OP st tid info r \<longleftrightarrow>
     UseInsertedVersion OP st tid (if same_inserted_id info then insert_id info else inserted info ! r)
     \<and> (any_deleted info \<longrightarrow> UseDeletedVersion OP st tid (deleted info ! r))"

lemma scan_row_used:
  "cv_inv n info \<Longrightarrow> r < n \<Longrightarrow> UseDeletedVersion OP st tid NOT_DELETED_ID \<Longrightarrow> scan_row OP st tid info r = used_row OP st tid info r"
  by (auto simp: scan_row_def used_row_def cv_inv_def)

lemma cv_GetSelVector_scan:
  assumes inv: "cv_inv n info" and m: "m \<le> STANDARD_VECTOR_SIZE" "m \<le> length b"
  shows "\<exists>res. cv_GetSelVector OP st tid info (SelBuf b) m = Inr res \<and> sel_result m (scan_row OP st tid info) res"
proof -
  have ids: "get_id (inserted info) i = Inr (inserted info ! i)" "get_id (deleted info) i = Inr (deleted info ! i)"
    if "i < m" for i
    using that inv m by (auto simp: cv_inv_def get_id_def)
  have m32: "m \<le> 2 ^ 32" using m(1) by (simp add: STANDARD_VECTOR_SIZE_def)
  note push = push_used [OF m(2) m32, of _ "scan_row OP st tid info"]
  consider (fast) "same_inserted_id info" "\<not> any_deleted info" | (none) "same_inserted_id info" "any_deleted info" "\<not> UseInsertedVersion OP st tid (insert_id info)"
    | (del) "same_inserted_id info" "any_deleted info" "UseInsertedVersion OP st tid (insert_id info)"
    | (ins) "\<not> same_inserted_id info" "\<not> any_deleted info" | (both) "\<not> same_inserted_id info" "any_deleted info" by blast
  then show ?thesis
  proof cases
    case fast
    then have "scan_row OP st tid info r = UseInsertedVersion OP st tid (insert_id info)" for r by (simp add: scan_row_def)
    from all_or_none [OF m(2) this] fast show ?thesis by (simp add: cv_GetSelVector_def)
  next
    case none
    then have "scan_row OP st tid info r = False" for r by (simp add: scan_row_def)
    from all_or_none [OF m(2) this] none show ?thesis by (simp add: cv_GetSelVector_def)
  next
    case del
    have "\<exists>res. fold_res (\<lambda>i acc. bind_res (get_id (deleted info) i) (\<lambda>d. if UseDeletedVersion OP st tid d then push_row i acc else Inr acc))
        [0..<m] (0, SelBuf b) = Inr res \<and> sel_result m (scan_row OP st tid info) res"
      by (rule push) (use del ids in \<open>simp add: scan_row_def\<close>)
    then show ?thesis using del by (simp add: cv_GetSelVector_def)
  next
    case ins
    have "\<exists>res. fold_res (\<lambda>i acc. bind_res (get_id (inserted info) i) (\<lambda>a. if UseInsertedVersion OP st tid a then push_row i acc else Inr acc))
        [0..<m] (0, SelBuf b) = Inr res \<and> sel_result m (scan_row OP st tid info) res"
      by (rule push) (use ins ids in \<open>simp add: scan_row_def\<close>)
    then show ?thesis using ins by (simp add: cv_GetSelVector_def)
  next
    case both
    have "\<exists>res. fold_res (\<lambda>i acc. bind_res (get_id (inserted info) i) (\<lambda>a.
        bind_res (if UseInsertedVersion OP st tid a
                  then bind_res (get_id (deleted info) i) (\<lambda>d. Inr (UseDeletedVersion OP st tid d)) else Inr False)
          (\<lambda>use. if use then push_row i acc else Inr acc)))
        [0..<m] (0, SelBuf b) = Inr res \<and> sel_result m (scan_row OP st tid info) res"
      by (rule push) (use both ids in \<open>simp add: scan_row_def\<close>)
    then show ?thesis using both by (simp add: cv_GetSelVector_def)
  qed
qed

lemma sel_result_cong: "(\<And>r. r < m \<Longrightarrow> P r = Q r) \<Longrightarrow> sel_result m P res = sel_result m Q res"
proof -
  assume "\<And>r. r < m \<Longrightarrow> P r = Q r"
  then have "filter P [0..<m] = filter Q [0..<m]" by (intro filter_cong) auto
  then show ?thesis by (simp add: sel_result_def)
qed

lemma cv_GetSelVector_ok:
  assumes "cv_inv n info" "m \<le> n" "m \<le> length b" "UseDeletedVersion OP st tid NOT_DELETED_ID"
  shows "\<exists>res. cv_GetSelVector OP st tid info (SelBuf b) m = Inr res \<and> sel_result m (used_row OP st tid info) res"
proof -
  have "m \<le> STANDARD_VECTOR_SIZE" using assms(1,2) by (simp add: cv_inv_def)
  from cv_GetSelVector_scan [OF assms(1) this assms(3)] show ?thesis
    using sel_result_cong [of m "scan_row OP st tid info"] scan_row_used [OF assms(1) _ assms(4)] assms(2) by (metis order_less_le_trans)
qed

abbreviation snapshot_sel :: "TransactionData \<Rightarrow> ChunkInfo \<Rightarrow> SelectionVector \<Rightarrow> nat \<Rightarrow> exc + nat \<times> SelectionVector" where
  "snapshot_sel t info sel m \<equiv> GetSelVector TransactionVersionOperator (start_time t) (transaction_id t) info sel m"

definition chunk_inv :: "nat \<Rightarrow> ChunkInfo \<Rightarrow> bool" where
  "chunk_inv n info \<longleftrightarrow> n \<le> STANDARD_VECTOR_SIZE \<and> (case info of ConstantInfo c \<Rightarrow> True | VectorInfo v \<Rightarrow> cv_inv n v)"

lemma cv_Fetch_used:
  "cv_inv n info \<Longrightarrow> r < n \<Longrightarrow> cv_Fetch t r info = Inr (used_row TransactionVersionOperator (start_time t) (transaction_id t) info r)"
  by (simp add: cv_Fetch_def cv_inv_def get_id_def used_row_def UseVersion_def TransactionVersionOperator_def)

lemma valid_txn_op: "valid_txn t \<Longrightarrow> UseDeletedVersion TransactionVersionOperator (start_time t) (transaction_id t) NOT_DELETED_ID"
  by (auto simp: valid_txn_def TransactionVersionOperator_def)

interpretation chunk_version: version_info snapshot_sel Fetch chunk_inv
proof
  fix n i r t
  assume "chunk_inv n i" "r < n"
  then show "\<exists>b. Fetch t r i = Inr b"
    by (cases i) (auto simp: chunk_inv_def Fetch_def cc_Fetch_def cv_Fetch_used)
next
  fix n i m t and b :: "sel_t option list"
  assume a: "chunk_inv n i" "m \<le> n" "m \<le> length b" "m \<le> 2 ^ 32" "valid_txn t"
  show "\<exists>res. snapshot_sel t i (SelBuf b) m = Inr res \<and> sel_result m (\<lambda>r. Fetch t r i = Inr True) res"
  proof (cases i)
    case (ConstantInfo c)
    then show ?thesis
      using all_or_none [OF a(3), of "\<lambda>r. Fetch t r i = Inr True" "UseVersion t (cc_insert_id c) \<and> \<not> UseVersion t (cc_delete_id c)"]
      by (simp add: GetSelVector_def cc_GetSelVector_def Fetch_def cc_Fetch_def UseVersion_def TransactionVersionOperator_def)
  next
    case (VectorInfo v)
    then have v: "cv_inv n v" using a(1) by (simp add: chunk_inv_def)
    from cv_GetSelVector_ok [OF v a(2,3) valid_txn_op [OF a(5)]] obtain res where
      res: "cv_GetSelVector TransactionVersionOperator (start_time t) (transaction_id t) v (SelBuf b) m = Inr res"
      "sel_result m (used_row TransactionVersionOperator (start_time t) (transaction_id t) v) res" by blast
    moreover have "sel_result m (\<lambda>r. Fetch t r i = Inr True) res"
      using res(2) VectorInfo a(2) cv_Fetch_used [OF v] by (subst sel_result_cong) (auto simp: Fetch_def)
    ultimately show ?thesis using VectorInfo by (simp add: GetSelVector_def)
  qed
qed

section \<open>What the operations do to the ids\<close>

lemma put_ids:
  "\<forall>i \<in> set is. i < length ids \<Longrightarrow>
    \<exists>ids'. fold_res (\<lambda>i ids. put_id i v ids) is ids = Inr ids' \<and> length ids' = length ids
      \<and> (\<forall>j<length ids. ids' ! j = (if j \<in> set is then v else ids ! j))"
proof (induction "is" arbitrary: ids)
  case (Cons i "is")
  from Cons.IH [of "ids[i := v]"] Cons.prems show ?case by (auto simp: put_id_def nth_list_update)
qed simp

lemma cv_Append_ok:
  assumes "cv_inv n info" "n \<le> e" "e \<le> STANDARD_VECTOR_SIZE"
  shows "\<exists>info'. cv_Append n e tid info = Inr info' \<and> cv_inv e info' \<and> deleted info' = deleted info
    \<and> (\<forall>j<STANDARD_VECTOR_SIZE. inserted info' ! j = (if n \<le> j \<and> j < e then tid else inserted info ! j))"
proof -
  have len: "length (inserted info) = STANDARD_VECTOR_SIZE" using assms(1) by (simp add: cv_inv_def)
  then obtain ids where ids: "fold_res (\<lambda>i ids. put_id i tid ids) [n..<e] (inserted info) = Inr ids"
    "length ids = STANDARD_VECTOR_SIZE" "\<And>j. j < STANDARD_VECTOR_SIZE \<Longrightarrow> ids ! j = (if n \<le> j \<and> j < e then tid else inserted info ! j)"
    using put_ids [of "[n..<e]" "inserted info" tid] assms(3) by auto
  let ?i = "if n = 0 then info\<lparr>insert_id := tid\<rparr>
    else if insert_id info \<noteq> tid then info\<lparr>same_inserted_id := False, insert_id := NOT_DELETED_ID\<rparr> else info"
  have "inserted ?i = inserted info" by simp
  then have "cv_Append n e tid info = Inr (?i\<lparr>inserted := ids\<rparr>)" using ids(1) unfolding cv_Append_def Let_def by simp
  moreover have "cv_inv e (?i\<lparr>inserted := ids\<rparr>)" using assms ids by (auto simp: cv_inv_def)
  moreover have "deleted (?i\<lparr>inserted := ids\<rparr>) = deleted info" by simp
  ultimately show ?thesis using ids(3) by simp
qed

lemma cv_CommitAppend_ok:
  assumes "cv_inv n info" "s \<le> e" "e \<le> n" "same_inserted_id info \<longrightarrow> s = 0 \<and> e = n"
  shows "\<exists>info'. cv_CommitAppend cid s e info = Inr info' \<and> cv_inv n info' \<and> deleted info' = deleted info
    \<and> (\<forall>j<STANDARD_VECTOR_SIZE. inserted info' ! j = (if s \<le> j \<and> j < e then cid else inserted info ! j))"
proof -
  have len: "length (inserted info) = STANDARD_VECTOR_SIZE" "n \<le> STANDARD_VECTOR_SIZE" using assms(1) by (simp_all add: cv_inv_def)
  then obtain ids where ids: "fold_res (\<lambda>i ids. put_id i cid ids) [s..<e] (inserted info) = Inr ids"
    "length ids = STANDARD_VECTOR_SIZE" "\<And>j. j < STANDARD_VECTOR_SIZE \<Longrightarrow> ids ! j = (if s \<le> j \<and> j < e then cid else inserted info ! j)"
    using put_ids [of "[s..<e]" "inserted info" cid] assms(3) by auto
  let ?i = "if same_inserted_id info then info\<lparr>insert_id := cid\<rparr> else info"
  have "inserted ?i = inserted info" by simp
  then have "cv_CommitAppend cid s e info = Inr (?i\<lparr>inserted := ids\<rparr>)" using ids(1) unfolding cv_CommitAppend_def Let_def by simp
  moreover have "cv_inv n (?i\<lparr>inserted := ids\<rparr>)" using assms ids by (auto simp: cv_inv_def)
  moreover have "deleted (?i\<lparr>inserted := ids\<rparr>) = deleted info" by simp
  ultimately show ?thesis using ids(3) by simp
qed

text \<open>The rows of a delete record.\<close>

definition rows_of :: "DeleteInfo \<Rightarrow> idx_t list" where
  "rows_of d = (if is_consecutive d then [0..<di_count d] else take (di_count d) (di_rows d))"

lemma PushDelete_rows:
  "PushDelete vidx rows cnt base = Inr d \<Longrightarrow> rows_of d = take cnt rows \<and> di_vector_idx d = vidx \<and> di_count d = cnt
    \<and> (\<not> is_consecutive d \<longrightarrow> di_count d = length (di_rows d))"
proof -
  assume d: "PushDelete vidx rows cnt base = Inr d"
  have "map_res (\<lambda>r. if r < 2 ^ 16 then Inr r else Inl InternalException) rs = Inr rs' \<Longrightarrow> rs' = rs" for rs rs' :: "nat list"
    unfolding map_res_Inr_iff by (auto simp: list_all2_conv_all_nth intro!: nth_equalityI split: if_splits)
  with d show ?thesis by (fastforce simp: PushDelete_def Let_def bind_res_eq_Inr rows_of_def split: if_splits)
qed

lemma PushDelete_ok:
  assumes "cnt \<le> length rows" "\<forall>r \<in> set (take cnt rows). r < 2 ^ 16"
  shows "\<exists>d. PushDelete vidx rows cnt base = Inr d"
proof -
  have "map_res (\<lambda>r. if r < 2 ^ 16 then Inr r else Inl InternalException) (take cnt rows) = Inr (map (\<lambda>r. r) (take cnt rows))"
    using assms(2) by (intro map_res_ok) auto
  then show ?thesis using assms(1) by (simp add: PushDelete_def Let_def)
qed

lemma cv_CommitDelete_ok:
  assumes "cv_inv n info" "\<forall>r \<in> set (rows_of d). r < STANDARD_VECTOR_SIZE" "any_deleted info \<or> cid = NOT_DELETED_ID \<or> rows_of d = []"
    and "\<not> is_consecutive d \<longrightarrow> di_count d \<le> length (di_rows d)"
  shows "\<exists>info'. cv_CommitDelete cid d info = Inr info' \<and> cv_inv n info' \<and> inserted info' = inserted info
    \<and> any_deleted info' = any_deleted info
    \<and> (\<forall>j<STANDARD_VECTOR_SIZE. deleted info' ! j = (if j \<in> set (rows_of d) then cid else deleted info ! j))"
proof -
  have len: "length (deleted info) = STANDARD_VECTOR_SIZE" using assms(1) by (simp add: cv_inv_def)
  then obtain ds where ds: "fold_res (\<lambda>i ds. put_id i cid ds) (rows_of d) (deleted info) = Inr ds" "length ds = STANDARD_VECTOR_SIZE"
    "\<And>j. j < STANDARD_VECTOR_SIZE \<Longrightarrow> ds ! j = (if j \<in> set (rows_of d) then cid else deleted info ! j)"
    using put_ids [of "rows_of d" "deleted info" cid] assms(2) by auto
  have "cv_CommitDelete cid d info = Inr (info\<lparr>deleted := ds\<rparr>)"
    using ds(1) assms(4) by (auto simp: cv_CommitDelete_def rows_of_def GetRows_def)
  moreover have "cv_inv n (info\<lparr>deleted := ds\<rparr>)" using assms(1,3) ds by (auto simp: cv_inv_def)
  ultimately show ?thesis using ds(3) by simp
qed

section \<open>Deleting rows\<close>

text \<open>
  The loop of \<open>Delete\<close>: \<open>rows0\<close> are the rows of the caller, \<open>k\<close> of them are deleted already, the
  front of the array holds these. The array is overwritten behind the read position only.
\<close>

definition delete_inv ::
  "transaction_t \<Rightarrow> ChunkVectorInfo \<Rightarrow> idx_t list \<Rightarrow> idx_t \<Rightarrow> ChunkVectorInfo \<times> idx_t list \<times> idx_t \<Rightarrow> bool" where
  "delete_inv tid info0 rows0 i = (\<lambda>(info, rows, k).
     inserted info = inserted info0 \<and> insert_id info = insert_id info0 \<and> same_inserted_id info = same_inserted_id info0
     \<and> any_deleted info \<and> length (deleted info) = length (deleted info0)
     \<and> length rows = length rows0 \<and> k \<le> i \<and> (\<forall>j. i \<le> j \<and> j < length rows0 \<longrightarrow> rows ! j = rows0 ! j)
     \<and> distinct (take k rows)
     \<and> set (take k rows) = {r \<in> set (take i rows0). deleted info0 ! r \<noteq> tid}
     \<and> (\<forall>r \<in> set (take k rows). deleted info0 ! r = NOT_DELETED_ID)
     \<and> (\<forall>j<length (deleted info0). deleted info ! j = (if j \<in> set (take i rows0) then tid else deleted info0 ! j)))"

lemma Delete_loop_step:
  assumes I: "delete_inv tid info0 rows0 i (info, rows, k)" and i: "i < length rows0" and r: "rows0 ! i < length (deleted info0)"
    and tid: "tid \<noteq> NOT_DELETED_ID"
  shows "rows ! i = rows0 ! i"
    and "deleted info ! (rows0 ! i) = tid \<Longrightarrow> delete_inv tid info0 rows0 (Suc i) (info, rows, k)"
    and "deleted info ! (rows0 ! i) = NOT_DELETED_ID \<Longrightarrow>
      delete_inv tid info0 rows0 (Suc i) (info\<lparr>deleted := (deleted info)[rows0 ! i := tid]\<rparr>, rows[k := rows0 ! i], Suc k)"
proof -
  let ?r = "rows0 ! i"
  have set_Suc: "set (take (Suc i) rows0) = insert ?r (set (take i rows0))" using i by (simp add: take_Suc_conv_app_nth)
  have len: "length (deleted info) = length (deleted info0)" "length rows = length rows0" "k \<le> i"
    and rest: "\<And>j. i \<le> j \<Longrightarrow> j < length rows0 \<Longrightarrow> rows ! j = rows0 ! j"
    and front: "distinct (take k rows)" "set (take k rows) = {r \<in> set (take i rows0). deleted info0 ! r \<noteq> tid}"
      "\<And>r. r \<in> set (take k rows) \<Longrightarrow> deleted info0 ! r = NOT_DELETED_ID"
    and del: "\<And>j. j < length (deleted info0) \<Longrightarrow> deleted info ! j = (if j \<in> set (take i rows0) then tid else deleted info0 ! j)"
    and same: "inserted info = inserted info0 \<and> insert_id info = insert_id info0 \<and> same_inserted_id info = same_inserted_id info0 \<and> any_deleted info"
    using I unfolding delete_inv_def prod.case by blast+
  show "rows ! i = ?r" using rest i by simp
  {
    assume "deleted info ! ?r = tid"
    then have old: "?r \<in> set (take i rows0) \<or> deleted info0 ! ?r = tid" using del [OF r] by (simp split: if_splits)
    have "set (take k rows) = {r \<in> set (take (Suc i) rows0). deleted info0 ! r \<noteq> tid}" unfolding set_Suc front(2) using old by blast
    moreover have "deleted info ! j = (if j \<in> set (take (Suc i) rows0) then tid else deleted info0 ! j)" if "j < length (deleted info0)" for j
      using del [OF that] \<open>deleted info ! ?r = tid\<close> unfolding set_Suc by auto
    ultimately show "delete_inv tid info0 rows0 (Suc i) (info, rows, k)"
      unfolding delete_inv_def prod.case using len rest front(1,3) same by simp
  }
  {
    assume nd: "deleted info ! ?r = NOT_DELETED_ID"
    then have new: "?r \<notin> set (take i rows0)" "deleted info0 ! ?r = NOT_DELETED_ID" using del [OF r] tid by (simp_all split: if_splits)
    have k: "k < length rows" using len i by simp
    have tk: "take (Suc k) (rows[k := ?r]) = take k rows @ [?r]" using k by (simp add: take_Suc_conv_app_nth)
    have "set (take k rows @ [?r]) = {r \<in> set (take (Suc i) rows0). deleted info0 ! r \<noteq> tid}"
      unfolding set_Suc using front(2) new(2) tid by auto
    moreover have "distinct (take k rows @ [?r])" using front(1,2) new(1) by simp
    moreover have "\<And>q. q \<in> set (take (Suc i) rows0) \<Longrightarrow> deleted info0 ! q \<noteq> tid \<Longrightarrow> deleted info0 ! q = NOT_DELETED_ID"
      unfolding set_Suc using front(2,3) new(2) by blast
    moreover have "(deleted info)[?r := tid] ! j = (if j \<in> set (take (Suc i) rows0) then tid else deleted info0 ! j)"
      if "j < length (deleted info0)" for j
      using del [OF that] that len(1) unfolding set_Suc by (cases "j = ?r") (auto simp: nth_list_update)
    ultimately show "delete_inv tid info0 rows0 (Suc i) (info\<lparr>deleted := (deleted info)[?r := tid]\<rparr>, rows[k := ?r], Suc k)"
      unfolding delete_inv_def prod.case tk using len rest front(3) new(2) same by (simp add: nth_list_update)
  }
qed

text \<open>On return all the rows are deleted by the transaction; on a conflict only those before it.\<close>

definition delete_outcome ::
  "transaction_t \<Rightarrow> ChunkVectorInfo \<Rightarrow> idx_t list \<Rightarrow> idx_t \<Rightarrow> idx_t
    \<Rightarrow> (ChunkVectorInfo \<times> idx_t list \<times> idx_t) \<times> exc option \<Rightarrow> bool" where
  "delete_outcome tid info0 rows0 m j = (\<lambda>(st, ex).
     j \<le> m \<and> delete_inv tid info0 rows0 j st
     \<and> (case ex of None \<Rightarrow> j = m
        | Some e \<Rightarrow> e = TransactionException \<and> j < m \<and> deleted info0 ! (rows0 ! j) \<notin> {tid, NOT_DELETED_ID}))"

lemma Delete_loop_ok:
  assumes "delete_inv tid info0 rows0 i st" "i \<le> m" "m \<le> length rows0" "\<forall>r \<in> set rows0. r < length (deleted info0)" "tid \<noteq> NOT_DELETED_ID"
  shows "\<exists>j. delete_outcome tid info0 rows0 m j (Delete_loop tid [i..<m] st)"
  using assms
proof (induction "m - i" arbitrary: i st)
  case 0
  then have "Delete_loop tid [i..<m] st = (st, None)" "i = m" by simp_all
  with 0 have "delete_outcome tid info0 rows0 m i (Delete_loop tid [i..<m] st)" by (simp add: delete_outcome_def)
  then show ?case by blast
next
  case (Suc d)
  obtain info rows k where st: "st = (info, rows, k)" by (cases st)
  note I = Suc.prems(1) [unfolded st]
  have i: "i < m" "i < length rows0" "[i..<m] = i # [Suc i..<m]" using Suc.hyps(2) Suc.prems(3) by (simp_all add: upt_conv_Cons)
  then have r: "rows0 ! i < length (deleted info0)" using Suc.prems(4) by simp
  note step = Delete_loop_step [OF I i(2) r Suc.prems(5)]
  have len: "length (deleted info) = length (deleted info0)" "length rows = length rows0"
    and del: "deleted info ! (rows0 ! i) = (if rows0 ! i \<in> set (take i rows0) then tid else deleted info0 ! (rows0 ! i))"
    using I r unfolding delete_inv_def prod.case by blast+
  have run: "Delete_loop tid [i..<m] st =
      (if deleted info ! (rows0 ! i) = tid then Delete_loop tid [Suc i..<m] (info, rows, k)
       else if deleted info ! (rows0 ! i) \<noteq> NOT_DELETED_ID then ((info, rows, k), Some TransactionException)
       else Delete_loop tid [Suc i..<m] (info\<lparr>deleted := (deleted info)[rows0 ! i := tid]\<rparr>, rows[k := rows0 ! i], Suc k))"
    using i r len step(1) by (simp add: st)
  have IH: "\<exists>j. delete_outcome tid info0 rows0 m j (Delete_loop tid [Suc i..<m] st2)" if "delete_inv tid info0 rows0 (Suc i) st2" for st2
    using Suc.hyps(1) [OF _ that] Suc.hyps(2) Suc.prems(3-5) i(1) by simp
  consider "deleted info ! (rows0 ! i) = tid" | "deleted info ! (rows0 ! i) = NOT_DELETED_ID"
    | "deleted info ! (rows0 ! i) \<noteq> tid" "deleted info ! (rows0 ! i) \<noteq> NOT_DELETED_ID" by blast
  then show ?case
  proof cases
    case 1
    then show ?thesis using IH [OF step(2)] run by simp
  next
    case 2
    then show ?thesis using IH [OF step(3)] run Suc.prems(5) by simp
  next
    case 3
    then have "Delete_loop tid [i..<m] st = (st, Some TransactionException)" "deleted info0 ! (rows0 ! i) \<notin> {tid, NOT_DELETED_ID}"
      using run del by (simp_all add: st split: if_splits)
    then have "delete_outcome tid info0 rows0 m i (Delete_loop tid [i..<m] st)"
      using Suc.prems(1) i(1) unfolding delete_outcome_def by simp
    then show ?thesis by blast
  qed
qed

lemma cv_Delete_ok:
  assumes "cv_inv n info" "m \<le> length rows" "\<forall>r \<in> set rows. r < STANDARD_VECTOR_SIZE" "tid \<noteq> NOT_DELETED_ID"
  shows "\<exists>j. delete_outcome tid info rows m j (cv_Delete tid rows m info)"
proof -
  have "delete_inv tid info rows 0 (info\<lparr>any_deleted := True\<rparr>, rows, 0)" by (simp add: delete_inv_def)
  from Delete_loop_ok [OF this _ assms(2) _ assms(4)] assms(1,3) show ?thesis by (simp add: cv_Delete_def cv_inv_def)
qed

lemma delete_invD:
  assumes "delete_inv tid info0 rows0 i (info, rows, k)"
  shows "inserted info = inserted info0" "insert_id info = insert_id info0" "same_inserted_id info = same_inserted_id info0"
    "any_deleted info" "length (deleted info) = length (deleted info0)" "length rows = length rows0" "k \<le> i" "distinct (take k rows)"
    and "set (take k rows) = {r \<in> set (take i rows0). deleted info0 ! r \<noteq> tid}"
    and "j < length (deleted info0) \<Longrightarrow> deleted info ! j = (if j \<in> set (take i rows0) then tid else deleted info0 ! j)"
    and "q \<in> set (take i rows0) \<Longrightarrow> deleted info0 ! q = tid \<or> deleted info0 ! q = NOT_DELETED_ID"
  using assms unfolding delete_inv_def prod.case by blast+

lemma delete_inv_cv_inv: "cv_inv n info0 \<Longrightarrow> delete_inv tid info0 rows0 i (info, rows, k) \<Longrightarrow> cv_inv n info"
  using delete_invD(1-5) [of tid info0 rows0 i info rows k] by (simp add: cv_inv_def)

section \<open>Round trip of the serialized form\<close>

text \<open>
  What a checkpoint keeps: the rows that are committed and not deleted. The last vector of a row
  group may hold \<open>n\<close> rows only; the positions behind them are written too, and are not rows.
\<close>

definition checkpoint_rows :: "ChunkVectorInfo \<Rightarrow> nat \<Rightarrow> bool" where
  "checkpoint_rows info = scan_row TransactionVersionOperator (TRANSACTION_ID_START - 1) (- 1) info"

text \<open>What a reader sees of version information that was read back; the null pointer hides nothing.\<close>

definition Fetch_opt :: "TransactionData \<Rightarrow> idx_t \<Rightarrow> ChunkInfo option \<Rightarrow> exc + bool" where
  "Fetch_opt t r info = (case info of None \<Rightarrow> Inr True | Some i \<Rightarrow> Fetch t r i)"

lemma checkpoint_sel:
  assumes "cv_inv n info"
  shows "\<exists>cnt sel. cv_GetSelVector TransactionVersionOperator (TRANSACTION_ID_START - 1) (- 1) info
      (Initialize_count STANDARD_VECTOR_SIZE) STANDARD_VECTOR_SIZE = Inr (cnt, sel)
    \<and> sel_result STANDARD_VECTOR_SIZE (checkpoint_rows info) (cnt, sel)"
  using cv_GetSelVector_scan [OF assms le_refl, of "replicate STANDARD_VECTOR_SIZE None"]
  by (simp add: Initialize_count_def checkpoint_rows_def)

definition committed_row :: "transaction_t \<Rightarrow> transaction_t \<Rightarrow> bool" where
  "committed_row ins del \<longleftrightarrow> (ins < TRANSACTION_ID_START - 1 \<or> ins = - 1) \<and> \<not> (del < TRANSACTION_ID_START - 1 \<or> del = - 1)"

lemma checkpoint_rows_committed:
  assumes "cv_inv n info" "r < n"
  shows "checkpoint_rows info r = committed_row (inserted info ! r) (deleted info ! r)"
proof -
  have "UseDeletedVersion TransactionVersionOperator (TRANSACTION_ID_START - 1) (- 1) NOT_DELETED_ID"
    by (simp add: TransactionVersionOperator_def TRANSACTION_ID_START_def NOT_DELETED_ID_def)
  from scan_row_used [OF assms this] show ?thesis
    by (auto simp: checkpoint_rows_def used_row_def TransactionVersionOperator_def committed_row_def)
qed

text \<open>The mask that \<open>Write\<close> fills: a bit is cleared for every row that is kept.\<close>

lemma STANDARD_VECTOR_SIZE_neq [simp]: "STANDARD_VECTOR_SIZE \<noteq> 0"
  by (simp add: STANDARD_VECTOR_SIZE_def)

lemma write_mask_rows:
  assumes "sel_inv (cnt, sel)" "\<forall>r \<in> set (sel_rows (cnt, sel)). r < n"
  shows "\<exists>m. fold_res (\<lambda>i m. bind_res (get_index sel i) (\<lambda>r. SetInvalid r m)) [0..<cnt] (Initialize_mask n) = Inr m
    \<and> (\<forall>r. valid_row m r \<longleftrightarrow> r \<notin> set (sel_rows (cnt, sel))) \<and> n \<le> mask_capacity m"
proof -
  let ?rows = "sel_rows (cnt, sel)"
  have rows: "?rows = map (\<lambda>i. ?rows ! i) [0..<cnt]" using map_nth [of ?rows] length_sel_rows [OF assms(1)] by simp
  have "fold_res (\<lambda>i m. bind_res (get_index sel i) (\<lambda>r. SetInvalid r m)) [0..<cnt] m
      = fold_res (\<lambda>r m. Set_row r False m) (map (\<lambda>i. ?rows ! i) [0..<cnt]) m" for m
    unfolding fold_res_map by (rule fold_res_cong) (use get_index_sel_rows [OF assms(1)] in \<open>auto simp: Set_row_def\<close>)
  then have eq: "fold_res (\<lambda>i m. bind_res (get_index sel i) (\<lambda>r. SetInvalid r m)) [0..<cnt] m = fold_res (\<lambda>r m. Set_row r False m) ?rows m" for m
    using rows by simp
  have "\<forall>r \<in> set ?rows. r < mask_capacity (Initialize_mask n)" using assms(2) EntryCount_bound(1) [of n] by force
  from validity.put_rows [OF this, of False] show ?thesis unfolding eq using EntryCount_bound(1) [of n] by auto
qed

lemma read_deleted:
  assumes "n \<le> mask_capacity m" "length ds = n"
  shows "\<exists>ds'. fold_res (\<lambda>i d. bind_res (RowIsValid m i) (\<lambda>b. if b then put_id i 0 d else Inr d)) [0..<n] ds = Inr ds'
    \<and> length ds' = n \<and> (\<forall>j<n. ds' ! j = (if valid_row m j then 0 else ds ! j))"
proof -
  have "fold_res (\<lambda>i d. bind_res (RowIsValid m i) (\<lambda>b. if b then put_id i 0 d else Inr d)) [0..<n] ds
      = fold_res (\<lambda>i d. if valid_row m i then put_id i 0 d else Inr d) [0..<n] ds"
    using assms(1) by (intro fold_res_cong) (auto simp: RowIsValid_ok)
  also have "\<dots> = fold_res (\<lambda>i d. put_id i 0 d) (filter (valid_row m) [0..<n]) ds" by (rule fold_res_filter)
  finally show ?thesis using put_ids [of "filter (valid_row m) [0..<n]" ds 0] assms(2) by auto
qed

lemma cv_Write_Read:
  assumes inv: "cv_inv n info" and start: "cv_start info < 2 ^ 64"
  shows "\<exists>bs. cv_Write info out = Inr (out @ bs) \<and> (\<exists>res. Read_info (bs @ rest) = Inr (res, rest)
    \<and> (\<forall>i. res = Some i \<longrightarrow> chunk_inv STANDARD_VECTOR_SIZE i)
    \<and> (\<forall>t r. valid_txn t \<and> 0 < start_time t \<and> r < STANDARD_VECTOR_SIZE \<longrightarrow> Fetch_opt t r res = Inr (checkpoint_rows info r)))"
proof -
  let ?n = STANDARD_VECTOR_SIZE and ?V = "checkpoint_rows info"
  obtain cnt sel where w: "cv_GetSelVector TransactionVersionOperator (TRANSACTION_ID_START - 1) (- 1) info (Initialize_count ?n) ?n = Inr (cnt, sel)"
    and res: "sel_result ?n ?V (cnt, sel)" using checkpoint_sel [OF inv] by blast
  have cnt: "cnt = length (filter ?V [0..<?n])" using res by (simp add: sel_result_def Let_def)
  have start': "cv_start info < 256 ^ 8" using start by simp
  have small: "?n < 2 ^ 32" by (simp add: STANDARD_VECTOR_SIZE_def)
  have use0: "UseVersion t 0" if "0 < start_time t" for t using that by (simp add: UseVersion_def TransactionVersionOperator_def)
  consider (all) "cnt = ?n" | (none) "cnt = 0" "cnt \<noteq> ?n" | (some) "0 < cnt" "cnt < ?n"
    using cnt length_filter_upt_le [of ?V 0 ?n] by linarith
  then show ?thesis
  proof cases
    case all
    then have V: "\<forall>r<?n. ?V r" using cnt filter_full [of ?V "[0..<?n]"] by simp
    have "cv_Write info out = Inr (out @ le_bytes 1 2)" using w all by (simp add: cv_Write_def Write_uint_def)
    moreover have "Read_info (le_bytes 1 2 @ rest) = Inr (None, rest)" by (simp add: Read_info_def)
    ultimately show ?thesis using V by (fastforce simp: Fetch_opt_def)
  next
    case none
    then have V: "\<forall>r<?n. \<not> ?V r" using cnt by (auto simp: filter_empty_conv)
    let ?bs = "le_bytes 1 0 @ le_bytes 8 (cv_start info)"
    have "cv_Write info out = Inr (out @ ?bs)" using w none by (simp add: cv_Write_def Write_uint_def)
    moreover have "Read_info (?bs @ rest) = Inr (Some (ConstantInfo \<lparr>cc_start = cv_start info, cc_insert_id = 0, cc_delete_id = 0\<rparr>), rest)"
      using start' by (simp add: Read_info_def cc_Read_def ChunkConstantInfo_new_def)
    moreover have "Fetch_opt t r (Some (ConstantInfo \<lparr>cc_start = cv_start info, cc_insert_id = 0, cc_delete_id = 0\<rparr>)) = Inr (?V r)"
      if "r < ?n" for t r using that V by (simp add: Fetch_opt_def Fetch_def cc_Fetch_def)
    moreover have "chunk_inv ?n (ConstantInfo c)" for c by (simp add: chunk_inv_def)
    ultimately show ?thesis by blast
  next
    case some
    then have sel: "sel_inv (cnt, sel)" "sel_rows (cnt, sel) = filter ?V [0..<?n]"
      using res cnt by (auto simp: sel_result_def Let_def)
    then obtain m where m: "fold_res (\<lambda>i m. bind_res (get_index sel i) (\<lambda>r. SetInvalid r m)) [0..<cnt] (Initialize_mask ?n) = Inr m"
      "\<And>r. r < ?n \<Longrightarrow> valid_row m r \<longleftrightarrow> \<not> ?V r" "?n \<le> mask_capacity m"
      using write_mask_rows [OF sel(1), of ?n] by auto
    let ?hd = "le_bytes 1 1 @ le_bytes 8 (cv_start info)"
    obtain bs m' where bs: "Write_mask m ?n (out @ ?hd) = Inr ((out @ ?hd) @ bs)" "Read_mask ?n (bs @ rest) = Inr (m', rest)"
      "\<And>r. r < ?n \<Longrightarrow> valid_row m' r = valid_row m r" "?n \<le> mask_capacity m'"
      using mask_roundtrip [of ?n m "out @ ?hd" rest] m(3) small by auto
    let ?new = "(ChunkVectorInfo_new (cv_start info))\<lparr>any_deleted := True\<rparr>"
    obtain ds where ds: "fold_res (\<lambda>i d. bind_res (RowIsValid m' i) (\<lambda>b. if b then put_id i 0 d else Inr d)) [0..<?n] (deleted ?new) = Inr ds"
      "length ds = ?n" "\<And>j. j < ?n \<Longrightarrow> ds ! j = (if valid_row m' j then 0 else NOT_DELETED_ID)"
      using read_deleted [OF bs(4), of "deleted ?new"] by (auto simp: ChunkVectorInfo_new_def)
    have "cv_Write info out = Inr (out @ ?hd @ bs)"
      using w some m(1) bs(1) by (simp add: cv_Write_def Write_uint_def)
    moreover have "Read_info ((?hd @ bs) @ rest) = Inr (Some (VectorInfo (?new\<lparr>deleted := ds\<rparr>)), rest)"
      using start' bs(2) ds(1) by (simp add: Read_info_def cv_Read_def Let_def)
    moreover have "Fetch_opt t r (Some (VectorInfo (?new\<lparr>deleted := ds\<rparr>))) = Inr (?V r)"
      if "valid_txn t" "0 < start_time t" "r < ?n" for t r
    proof -
      have "\<not> UseVersion t NOT_DELETED_ID" using that(1) by (auto simp: valid_txn_def UseVersion_def TransactionVersionOperator_def)
      then show ?thesis using that use0 [OF that(2)] ds(2,3) bs(3) [OF that(3)] m(2) [OF that(3)]
        by (simp add: Fetch_opt_def Fetch_def cv_Fetch_def get_id_def ChunkVectorInfo_new_def)
    qed
    moreover have "chunk_inv ?n (VectorInfo (?new\<lparr>deleted := ds\<rparr>))"
      using ds(2) by (simp add: chunk_inv_def cv_inv_def ChunkVectorInfo_new_def)
    ultimately show ?thesis by (intro exI [of _ "?hd @ bs"] conjI exI [of _ "Some (VectorInfo (?new\<lparr>deleted := ds\<rparr>))"]) auto
  qed
qed

section \<open>Deletes and checkpoints of a vector\<close>

lemma small_row: "i < 2048 \<Longrightarrow> i < STANDARD_VECTOR_SIZE"
  by (simp add: STANDARD_VECTOR_SIZE_def)

text \<open>
  Deleting rows. A call either marks all of the given rows with the transaction and leaves at
  the front of the caller's array, without duplicates, exactly the rows that it deleted itself; or
  it stops at the first row that another transaction has deleted, and throws. The other rows,
  the insert ids and the memory around the arrays are not touched.
\<close>

lemma Delete_outcome:
  assumes "cv_inv n info" "m \<le> length rows" "\<forall>r \<in> set rows. r < STANDARD_VECTOR_SIZE" "tid \<noteq> NOT_DELETED_ID"
    and "cv_Delete tid rows m info = ((info', rows', k), ex)"
  shows "\<exists>j \<le> m. (ex = None \<longrightarrow> j = m)
    \<and> (\<forall>e. ex = Some e \<longrightarrow> e = TransactionException \<and> j < m \<and> deleted info ! (rows ! j) \<notin> {tid, NOT_DELETED_ID})
    \<and> cv_inv n info' \<and> inserted info' = inserted info
    \<and> (\<forall>r<STANDARD_VECTOR_SIZE. deleted info' ! r = (if r \<in> set (take j rows) then tid else deleted info ! r))
    \<and> distinct (take k rows') \<and> set (take k rows') = {r \<in> set (take j rows). deleted info ! r = NOT_DELETED_ID}"
proof -
  obtain j where o: "delete_outcome tid info rows m j ((info', rows', k), ex)"
    using cv_Delete_ok [OF assms(1-4)] assms(5) by auto
  then have d: "delete_inv tid info rows j (info', rows', k)" by (simp add: delete_outcome_def)
  have "set (take k rows') = {r \<in> set (take j rows). deleted info ! r = NOT_DELETED_ID}"
    unfolding delete_invD(9) [OF d] using delete_invD(11) [OF d] assms(4) by blast
  then show ?thesis
    using o delete_inv_cv_inv [OF assms(1) d] delete_invD(1,8,10) [OF d] assms(1)
    by (intro exI [of _ j]) (auto simp: delete_outcome_def cv_inv_def split: option.splits)
qed

text \<open>
  Version information survives a checkpoint. Whatever form \<open>Write\<close> chooses (nothing, a
  constant or a mask), after \<open>Read\<close> every transaction sees exactly the rows that were committed
  and not deleted when the information was written.
\<close>

lemma ChunkVectorInfo_roundtrip:
  assumes "cv_inv n info" "cv_start info < 2 ^ 64"
  shows "\<exists>bs. cv_Write info out = Inr (out @ bs) \<and> (\<exists>res. Read_info (bs @ rest) = Inr (res, rest)
    \<and> (\<forall>t r. valid_txn t \<and> 0 < start_time t \<and> r < n \<longrightarrow>
          Fetch_opt t r res = Inr (committed_row (inserted info ! r) (deleted info ! r))))"
proof -
  have "n \<le> STANDARD_VECTOR_SIZE" using assms(1) by (simp add: cv_inv_def)
  moreover obtain bs res where "cv_Write info out = Inr (out @ bs)" "Read_info (bs @ rest) = Inr (res, rest)"
    and "\<forall>t r. valid_txn t \<and> 0 < start_time t \<and> r < STANDARD_VECTOR_SIZE \<longrightarrow> Fetch_opt t r res = Inr (checkpoint_rows info r)"
    using cv_Write_Read [OF assms, of out rest] by blast
  ultimately show ?thesis using checkpoint_rows_committed [OF assms(1)] by (intro exI [of _ bs] conjI exI [of _ res]) auto
qed

end
