(* ===== verification/Version_Steps.thy ===== *)
theory Version_Steps
  imports Chunk_Info
begin

text \<open>
  Concurrent transactions on the version information of one vector. A state is the number of
  appended rows and the \<open>ChunkVectorInfo\<close>; a step is one call of an operation of
  \<^verbatim>\<open>src/src/storage/table/chunk_info.cpp\<close> made by some transaction, in the situations in which
  the engine makes it: an append continues where the rows end
  (\<^verbatim>\<open>RowVersionManager::AppendVersionInfo\<close>), a commit touches what the transaction appended or
  deleted (\<^verbatim>\<open>src/src/transaction/commit_state.cpp\<close>), a rollback sets the rows of a delete record
  back to \<open>NOT_DELETED_ID\<close> (\<^verbatim>\<open>src/src/transaction/rollback_state.cpp\<close>). A delete may end in a
  conflict; its partial effect is a step too.
\<close>

datatype version_op =
    OpAppend transaction_t idx_t
  | OpCommitAppend transaction_t transaction_t idx_t idx_t
  | OpDelete transaction_t "idx_t list"
  | OpCommitDelete transaction_t transaction_t DeleteInfo
  | OpRollbackDelete transaction_t DeleteInfo

type_synonym version_state = "nat \<times> ChunkVectorInfo"

inductive version_step :: "version_op \<Rightarrow> version_state \<Rightarrow> version_state \<Rightarrow> bool" where
  append: "cv_Append n e tid info = Inr info' \<Longrightarrow> n \<le> e \<Longrightarrow> e \<le> STANDARD_VECTOR_SIZE \<Longrightarrow>
    version_step (OpAppend tid e) (n, info) (e, info')"
| commit_append: "cv_CommitAppend cid s e info = Inr info' \<Longrightarrow> s \<le> e \<Longrightarrow> e \<le> n \<Longrightarrow>
    (same_inserted_id info \<longrightarrow> s = 0 \<and> e = n) \<Longrightarrow> (\<forall>i. s \<le> i \<and> i < e \<longrightarrow> inserted info ! i = tid) \<Longrightarrow>
    version_step (OpCommitAppend tid cid s e) (n, info) (n, info')"
| delete: "cv_Delete tid rows (length rows) info = ((info', rows', k), ex) \<Longrightarrow> (\<forall>r \<in> set rows. r < n) \<Longrightarrow> tid \<noteq> NOT_DELETED_ID \<Longrightarrow>
    version_step (OpDelete tid rows) (n, info) (n, info')"
| commit_delete: "cv_CommitDelete cid d info = Inr info' \<Longrightarrow> (\<forall>r \<in> set (rows_of d). r < n \<and> deleted info ! r = tid) \<Longrightarrow>
    tid \<noteq> NOT_DELETED_ID \<Longrightarrow> version_step (OpCommitDelete tid cid d) (n, info) (n, info')"
| rollback_delete: "cv_CommitDelete NOT_DELETED_ID d info = Inr info' \<Longrightarrow> (\<forall>r \<in> set (rows_of d). r < n \<and> deleted info ! r = tid) \<Longrightarrow>
    version_step (OpRollbackDelete tid d) (n, info) (n, info')"

inductive_cases append_stepE: "version_step (OpAppend tid e) s s'"
inductive_cases commit_append_stepE: "version_step (OpCommitAppend tid cid a e) s s'"
inductive_cases delete_stepE: "version_step (OpDelete tid rows) s s'"
inductive_cases commit_delete_stepE: "version_step (OpCommitDelete tid cid d) s s'"
inductive_cases rollback_delete_stepE: "version_step (OpRollbackDelete tid d) s s'"

text \<open>Runs, and the states reachable from a fresh vector that holds \<open>n\<close> persistent rows.\<close>

inductive version_run :: "version_op list \<Rightarrow> version_state \<Rightarrow> version_state \<Rightarrow> bool" where
  run_nil: "version_run [] s s"
| run_cons: "version_step x s s' \<Longrightarrow> version_run ops s' s'' \<Longrightarrow> version_run (x # ops) s s''"

inductive_cases run_nilE: "version_run [] s s'"
inductive_cases run_consE: "version_run (x # ops) s s'"

section \<open>The invariant\<close>

lemma CommitDelete_inv:
  assumes "cv_inv n info" "cv_CommitDelete cid d info = Inr info'" "\<forall>r \<in> set (rows_of d). r < n"
    "any_deleted info \<or> cid = NOT_DELETED_ID \<or> rows_of d = []"
  shows "cv_inv n info' \<and> inserted info' = inserted info \<and> any_deleted info' = any_deleted info
    \<and> (\<forall>j<STANDARD_VECTOR_SIZE. deleted info' ! j = (if j \<in> set (rows_of d) then cid else deleted info ! j))"
proof -
  have "\<not> is_consecutive d \<longrightarrow> di_count d \<le> length (di_rows d)"
    using assms(2) by (auto simp: cv_CommitDelete_def bind_res_eq_Inr GetRows_def split: if_splits)
  moreover have "\<forall>r \<in> set (rows_of d). r < STANDARD_VECTOR_SIZE" using assms(1,3) by (auto simp: cv_inv_def)
  ultimately show ?thesis using cv_CommitDelete_ok [OF assms(1), of d cid] assms(2,4) by auto
qed

text \<open>A row whose deleting id is a running transaction sets the flag.\<close>

lemma deleted_flag: "cv_inv n info \<Longrightarrow> r < n \<Longrightarrow> deleted info ! r \<noteq> NOT_DELETED_ID \<Longrightarrow> any_deleted info"
  by (auto simp: cv_inv_def)

lemma step_inv: "version_step x (n, info) (n', info') \<Longrightarrow> cv_inv n info \<Longrightarrow> cv_inv n' info' \<and> n \<le> n'"
proof (induction x "(n, info)" "(n', info')" rule: version_step.induct)
  case (append tid)
  then show ?case using cv_Append_ok [of n info n' tid] by auto
next
  case (commit_append cid s e tid)
  then show ?case using cv_CommitAppend_ok [of n info s e cid] by auto
next
  case (delete tid rows rows' k ex)
  have "\<forall>r \<in> set rows. r < STANDARD_VECTOR_SIZE" using delete(2,5) by (auto simp: cv_inv_def)
  with cv_Delete_ok [OF delete(5), of "length rows" rows tid] delete obtain j where
    "delete_inv tid info rows j (info', rows', k)" by (auto simp: delete_outcome_def)
  then show ?case using delete_inv_cv_inv [OF delete(5)] delete(4) by blast
next
  case (commit_delete cid d tid)
  have "any_deleted info \<or> rows_of d = []"
    using commit_delete(2,3,5) deleted_flag [of n info] by (cases "rows_of d") auto
  then show ?case using CommitDelete_inv [OF commit_delete(5,1)] commit_delete(2,4) by auto
next
  case (rollback_delete d tid)
  then show ?case using CommitDelete_inv [OF rollback_delete(4,1)] by auto
qed

lemma run_inv: "version_run ops s s' \<Longrightarrow> cv_inv (fst s) (snd s) \<Longrightarrow> cv_inv (fst s') (snd s') \<and> fst s \<le> fst s'"
proof (induction rule: version_run.induct)
  case (run_cons x s s' ops s'')
  then show ?case using step_inv [of x "fst s" "snd s" "fst s'" "snd s'"] by auto
qed simp

section \<open>Snapshots\<close>

text \<open>
  The operations of other transactions: a running transaction other than the reader, whose
  commit timestamp is given out after the reader started.
\<close>

fun foreign :: "TransactionData \<Rightarrow> version_op \<Rightarrow> bool" where
  "foreign t (OpAppend tid e) \<longleftrightarrow> \<not> UseVersion t tid"
| "foreign t (OpCommitAppend tid cid s e) \<longleftrightarrow> \<not> UseVersion t tid \<and> \<not> UseVersion t cid"
| "foreign t (OpDelete tid rows) \<longleftrightarrow> \<not> UseVersion t tid"
| "foreign t (OpCommitDelete tid cid d) \<longleftrightarrow> \<not> UseVersion t tid \<and> \<not> UseVersion t cid"
| "foreign t (OpRollbackDelete tid d) \<longleftrightarrow> \<not> UseVersion t tid"

lemma foreign_tid: "TRANSACTION_ID_START \<le> tid \<Longrightarrow> start_time t \<le> TRANSACTION_ID_START \<Longrightarrow> tid \<noteq> transaction_id t \<Longrightarrow> \<not> UseVersion t tid"
  by (auto simp: UseVersion_def TransactionVersionOperator_def)

lemma foreign_cid: "start_time t \<le> cid \<Longrightarrow> cid \<noteq> transaction_id t \<Longrightarrow> \<not> UseVersion t cid"
  by (auto simp: UseVersion_def TransactionVersionOperator_def)

text \<open>The rows that a reader sees.\<close>

definition visible_rows :: "TransactionData \<Rightarrow> version_state \<Rightarrow> nat list" where
  "visible_rows t = (\<lambda>(n, info). filter (\<lambda>r. cv_Fetch t r info = Inr True) [0..<n])"

lemma cv_Fetch_eq:
  "cv_inv n info \<Longrightarrow> r < STANDARD_VECTOR_SIZE \<Longrightarrow>
    cv_Fetch t r info = Inr (UseVersion t (inserted info ! r) \<and> \<not> UseVersion t (deleted info ! r))"
  by (simp add: cv_Fetch_def get_id_def cv_inv_def)

lemma UseVersion_NOT_DELETED: "valid_txn t \<Longrightarrow> \<not> UseVersion t NOT_DELETED_ID"
  by (auto simp: valid_txn_def UseVersion_def TransactionVersionOperator_def)

lemma same_view:
  assumes "cv_inv n info" "cv_inv n' info'" "r < n" "n \<le> n'"
    and "UseVersion t (inserted info' ! r) = UseVersion t (inserted info ! r)"
    and "UseVersion t (deleted info' ! r) = UseVersion t (deleted info ! r)"
  shows "cv_Fetch t r info' = cv_Fetch t r info"
proof -
  have "r < STANDARD_VECTOR_SIZE" using assms(1,3) by (simp add: cv_inv_def)
  then show ?thesis using cv_Fetch_eq [OF assms(1)] cv_Fetch_eq [OF assms(2)] assms(5,6) by simp
qed

lemma foreign_step:
  assumes "version_step x (n, info) (n', info')" "cv_inv n info" "foreign t x" "valid_txn t"
  shows "r < n \<Longrightarrow> cv_Fetch t r info' = cv_Fetch t r info" and "n \<le> r \<Longrightarrow> r < n' \<Longrightarrow> cv_Fetch t r info' = Inr False"
proof -
  note inv' = step_inv [OF assms(1,2)]
  have VS: "n' \<le> STANDARD_VECTOR_SIZE" using inv' by (simp add: cv_inv_def)
  have nd: "\<not> UseVersion t NOT_DELETED_ID" using assms(4) by (rule UseVersion_NOT_DELETED)
  note view = same_view [OF assms(2) conjunct1 [OF inv'] _ conjunct2 [OF inv'], of r t]
  have both: "(r < n \<longrightarrow> cv_Fetch t r info' = cv_Fetch t r info) \<and> (n \<le> r \<and> r < n' \<longrightarrow> cv_Fetch t r info' = Inr False)"
  proof (cases x)
    case (OpAppend tid e)
    with assms(1) have a: "cv_Append n n' tid info = Inr info'" "n \<le> n'" "n' \<le> STANDARD_VECTOR_SIZE" by (auto elim: append_stepE)
    from cv_Append_ok [OF assms(2) a(2,3), of tid] a(1) have i: "deleted info' = deleted info"
      "\<And>j. j < STANDARD_VECTOR_SIZE \<Longrightarrow> inserted info' ! j = (if n \<le> j \<and> j < n' then tid else inserted info ! j)" by auto
    have "\<not> UseVersion t tid" using assms(3) OpAppend by simp
    then show ?thesis using view i VS inv' cv_Fetch_eq [of n' info' r t] by auto
  next
    case (OpCommitAppend tid cid s e)
    with assms(1) have a: "cv_CommitAppend cid s e info = Inr info'" "s \<le> e" "e \<le> n" "same_inserted_id info \<longrightarrow> s = 0 \<and> e = n"
      "\<And>i. s \<le> i \<and> i < e \<Longrightarrow> inserted info ! i = tid" "n' = n" by (auto elim: commit_append_stepE)
    from cv_CommitAppend_ok [OF assms(2) a(2-4), of cid] a(1) have i: "deleted info' = deleted info"
      "\<And>j. j < STANDARD_VECTOR_SIZE \<Longrightarrow> inserted info' ! j = (if s \<le> j \<and> j < e then cid else inserted info ! j)" by auto
    have "\<not> UseVersion t tid" "\<not> UseVersion t cid" using assms(3) OpCommitAppend by simp_all
    then show ?thesis using view i a(5,6) VS by auto
  next
    case (OpDelete tid rows)
    with assms(1) obtain rows' k ex where a: "cv_Delete tid rows (length rows) info = ((info', rows', k), ex)"
      "\<forall>r \<in> set rows. r < n" "tid \<noteq> NOT_DELETED_ID" "n' = n" by (auto elim: delete_stepE)
    have "\<forall>r \<in> set rows. r < STANDARD_VECTOR_SIZE" using a(2,4) VS by auto
    with cv_Delete_ok [OF assms(2), of "length rows" rows tid] a obtain j where d: "delete_inv tid info rows j (info', rows', k)"
      by (auto simp: delete_outcome_def)
    have "length (deleted info) = STANDARD_VECTOR_SIZE" using assms(2) by (simp add: cv_inv_def)
    then have i: "inserted info' = inserted info"
      "\<And>q. q < STANDARD_VECTOR_SIZE \<Longrightarrow> deleted info' ! q = (if q \<in> set (take j rows) then tid else deleted info ! q)"
      "\<And>q. q \<in> set (take j rows) \<Longrightarrow> deleted info ! q = tid \<or> deleted info ! q = NOT_DELETED_ID"
      using delete_invD(1,10,11) [OF d] by simp_all
    have "\<not> UseVersion t tid" using assms(3) OpDelete by simp
    then show ?thesis using view i(1) i(2) [of r] i(3) [of r] a(4) VS nd by (cases "r \<in> set (take j rows)") auto
  next
    case (OpCommitDelete tid cid d)
    with assms(1) have a: "cv_CommitDelete cid d info = Inr info'" "\<forall>r \<in> set (rows_of d). r < n \<and> deleted info ! r = tid"
      "tid \<noteq> NOT_DELETED_ID" "n' = n" by (auto elim: commit_delete_stepE)
    have "any_deleted info \<or> rows_of d = []" using a(2,3) deleted_flag [OF assms(2)] by (cases "rows_of d") auto
    with CommitDelete_inv [OF assms(2) a(1)] a(2) have i: "inserted info' = inserted info"
      "\<And>j. j < STANDARD_VECTOR_SIZE \<Longrightarrow> deleted info' ! j = (if j \<in> set (rows_of d) then cid else deleted info ! j)" by auto
    have "\<not> UseVersion t tid" "\<not> UseVersion t cid" using assms(3) OpCommitDelete by simp_all
    then show ?thesis using view i a(2,4) VS by auto
  next
    case (OpRollbackDelete tid d)
    with assms(1) have a: "cv_CommitDelete NOT_DELETED_ID d info = Inr info'" "\<forall>r \<in> set (rows_of d). r < n \<and> deleted info ! r = tid"
      "n' = n" by (auto elim: rollback_delete_stepE)
    with CommitDelete_inv [OF assms(2) a(1)] have i: "inserted info' = inserted info"
      "\<And>j. j < STANDARD_VECTOR_SIZE \<Longrightarrow> deleted info' ! j = (if j \<in> set (rows_of d) then NOT_DELETED_ID else deleted info ! j)" by auto
    have "\<not> UseVersion t tid" using assms(3) OpRollbackDelete by simp
    then show ?thesis using view i a(2,3) VS nd by auto
  qed
  then show "r < n \<Longrightarrow> cv_Fetch t r info' = cv_Fetch t r info" "n \<le> r \<Longrightarrow> r < n' \<Longrightarrow> cv_Fetch t r info' = Inr False" by auto
qed

lemma foreign_step_visible:
  assumes "version_step x s s'" "cv_inv (fst s) (snd s)" "foreign t x" "valid_txn t"
  shows "visible_rows t s' = visible_rows t s"
proof -
  obtain n info n' info' where s: "s = (n, info)" "s' = (n', info')" by (cases s, cases s')
  note st = foreign_step [OF assms(1) [unfolded s] _ assms(3,4)]
  have inv: "cv_inv n info" using assms(2) s by simp
  have le: "n \<le> n'" using step_inv [OF assms(1) [unfolded s] inv] by simp
  have "visible_rows t s' = filter (\<lambda>r. cv_Fetch t r info' = Inr True) [0..<n] @ filter (\<lambda>r. cv_Fetch t r info' = Inr True) [n..<n']"
    using filter_upt_split [of 0 n n' "\<lambda>r. cv_Fetch t r info' = Inr True"] le by (simp add: visible_rows_def s)
  also have "filter (\<lambda>r. cv_Fetch t r info' = Inr True) [n..<n'] = []" using st(2) [OF inv] by (auto simp: filter_empty_conv)
  also have "filter (\<lambda>r. cv_Fetch t r info' = Inr True) [0..<n] = visible_rows t s"
    unfolding visible_rows_def s prod.case using st(1) [OF inv] by (intro filter_cong) auto
  finally show ?thesis by simp
qed

lemma foreign_run_visible:
  "version_run ops s s' \<Longrightarrow> cv_inv (fst s) (snd s) \<Longrightarrow> \<forall>x \<in> set ops. foreign t x \<Longrightarrow> valid_txn t \<Longrightarrow> visible_rows t s' = visible_rows t s"
proof (induction rule: version_run.induct)
  case (run_cons x s s' ops s'')
  then show ?case using foreign_step_visible [OF run_cons(1), of t] step_inv [of x "fst s" "snd s" "fst s'" "snd s'"] by auto
qed simp

text \<open>
  The same condition in terms of the ids that the transaction manager hands out: ids of running
  transactions are at least \<open>TRANSACTION_ID_START\<close>, and a timestamp given to a commit is not
  below the start of a reader that is already running.
\<close>

fun other_txn :: "TransactionData \<Rightarrow> version_op \<Rightarrow> bool" where
  "other_txn t (OpAppend tid e) \<longleftrightarrow> TRANSACTION_ID_START \<le> tid \<and> tid \<noteq> transaction_id t"
| "other_txn t (OpCommitAppend tid cid s e) \<longleftrightarrow>
     TRANSACTION_ID_START \<le> tid \<and> tid \<noteq> transaction_id t \<and> start_time t \<le> cid \<and> cid \<noteq> transaction_id t"
| "other_txn t (OpDelete tid rows) \<longleftrightarrow> TRANSACTION_ID_START \<le> tid \<and> tid \<noteq> transaction_id t"
| "other_txn t (OpCommitDelete tid cid d) \<longleftrightarrow>
     TRANSACTION_ID_START \<le> tid \<and> tid \<noteq> transaction_id t \<and> start_time t \<le> cid \<and> cid \<noteq> transaction_id t"
| "other_txn t (OpRollbackDelete tid d) \<longleftrightarrow> TRANSACTION_ID_START \<le> tid \<and> tid \<noteq> transaction_id t"

lemma other_txn_foreign: "start_time t \<le> TRANSACTION_ID_START \<Longrightarrow> other_txn t x \<Longrightarrow> foreign t x"
  by (cases x) (auto simp: foreign_tid foreign_cid)

section \<open>Properties\<close>

lemma new_Fetch:
  "valid_txn t \<Longrightarrow> 0 < start_time t \<Longrightarrow> r < STANDARD_VECTOR_SIZE \<Longrightarrow> cv_Fetch t r (ChunkVectorInfo_new s) = Inr True"
  using UseVersion_NOT_DELETED [of t] cv_Fetch_eq [OF cv_inv_new [OF le_refl], of r t s]
  by (simp add: ChunkVectorInfo_new_def UseVersion_def TransactionVersionOperator_def)

text \<open>
  C13: snapshot isolation. Whatever other transactions do to a vector while a reader runs, in any
  interleaving of appends, deletes (also those that end in a conflict), commits and rollbacks, the
  reader sees the same rows.
\<close>

theorem snapshot_isolation:
  assumes "version_run ops (n, info) (n', info')" "cv_inv n info" "\<forall>x \<in> set ops. other_txn t x"
    and "valid_txn t" "start_time t \<le> TRANSACTION_ID_START"
  shows "visible_rows t (n', info') = visible_rows t (n, info)"
  using foreign_run_visible [OF assms(1)] assms(2-5) other_txn_foreign by auto

theorem snapshot_isolation_witness:
  "\<exists>info'. version_run [OpDelete TRANSACTION_ID_START [0]] (1, ChunkVectorInfo_new 0) (1, info')
     \<and> visible_rows \<lparr>transaction_id = TRANSACTION_ID_START + 1, start_time = 5\<rparr> (1, info') = [0]"
proof -
  let ?t = "\<lparr>transaction_id = TRANSACTION_ID_START + 1, start_time = 5\<rparr>" and ?i = "ChunkVectorInfo_new 0"
  have t: "valid_txn ?t" "0 < start_time ?t" "start_time ?t \<le> TRANSACTION_ID_START" "TRANSACTION_ID_START \<noteq> transaction_id ?t"
    by (simp_all add: valid_txn_def NOT_DELETED_ID_def TRANSACTION_ID_START_def)
  obtain info' rows' k ex where d: "cv_Delete TRANSACTION_ID_START [0] (length [0 :: nat]) ?i = ((info', rows', k), ex)" by (metis surj_pair)
  have "version_step (OpDelete TRANSACTION_ID_START [0]) (1, ?i) (1, info')"
    by (rule version_step.delete [OF d]) (simp_all add: NOT_DELETED_ID_def TRANSACTION_ID_START_def)
  then have run: "version_run [OpDelete TRANSACTION_ID_START [0]] (1, ?i) (1, info')" by (blast intro: version_run.intros)
  have "visible_rows ?t (1, info') = visible_rows ?t (1, ?i)"
    by (rule snapshot_isolation [OF run]) (use t in \<open>simp_all add: cv_inv_new small_row Suc_leI\<close>)
  also have "\<dots> = [0]" using new_Fetch [OF t(1,2), of 0 0] by (simp add: visible_rows_def)
  finally show ?thesis using run by blast
qed

text \<open>
  C14: the fast paths of a scan are right in every reachable state. After any sequence of
  operations on a vector that started with \<open>n0\<close> persistent rows, \<open>GetSelVector\<close> (which looks at
  two flags and at one shared id before it looks at the arrays) returns exactly the rows for which
  \<open>Fetch\<close> is true, in order, and never reads or writes outside an array.
\<close>

theorem GetSelVector_reachable:
  assumes "version_run ops (n0, ChunkVectorInfo_new start) (n, info)" "n0 \<le> STANDARD_VECTOR_SIZE"
    and "valid_txn t" "m \<le> n" "m \<le> length b"
  shows "\<exists>cnt sel. cv_GetSelVector TransactionVersionOperator (start_time t) (transaction_id t) info (SelBuf b) m = Inr (cnt, sel)
    \<and> cnt = length (filter (\<lambda>r. cv_Fetch t r info = Inr True) [0..<m])
    \<and> (cnt < m \<longrightarrow> sel_rows (cnt, sel) = filter (\<lambda>r. cv_Fetch t r info = Inr True) [0..<m])"
proof -
  have inv: "cv_inv n info" using run_inv [OF assms(1)] cv_inv_new [OF assms(2)] by simp
  then have "chunk_inv n (VectorInfo info)" "m \<le> 2 ^ 32"
    using assms(4) by (auto simp: chunk_inv_def cv_inv_def STANDARD_VECTOR_SIZE_def)
  from chunk_version.get_sel_ok [OF this(1) assms(4,5) this(2) assms(3)] show ?thesis
    by (auto simp: GetSelVector_def Fetch_def sel_result_def Let_def)
qed

theorem GetSelVector_reachable_witness:
  "\<exists>info' cnt sel. version_run [OpDelete TRANSACTION_ID_START [0]] (2, ChunkVectorInfo_new 0) (2, info')
     \<and> cv_GetSelVector TransactionVersionOperator 5 TRANSACTION_ID_START info' (SelBuf [None, None]) 2 = Inr (cnt, sel)
     \<and> cnt = 1 \<and> sel_rows (cnt, sel) = [1]"
proof -
  let ?t = "\<lparr>transaction_id = TRANSACTION_ID_START, start_time = 5\<rparr>" and ?i = "ChunkVectorInfo_new 0"
  define d where "d = replicate STANDARD_VECTOR_SIZE NOT_DELETED_ID"
  let ?i' = "?i\<lparr>any_deleted := True, deleted := d[0 := TRANSACTION_ID_START]\<rparr>"
  have nd: "TRANSACTION_ID_START \<noteq> NOT_DELETED_ID" by (simp add: NOT_DELETED_ID_def TRANSACTION_ID_START_def)
  have t: "valid_txn ?t" "\<not> UseVersion ?t NOT_DELETED_ID" "UseVersion ?t 0" "UseVersion ?t TRANSACTION_ID_START"
    by (simp_all add: valid_txn_def UseVersion_def TransactionVersionOperator_def NOT_DELETED_ID_def TRANSACTION_ID_START_def)
  have i: "deleted ?i = d" "inserted ?i = replicate STANDARD_VECTOR_SIZE 0" "length d = STANDARD_VECTOR_SIZE"
      "d ! 0 = NOT_DELETED_ID" "d ! 1 = NOT_DELETED_ID"
    using small_row [of 0] small_row [of 1] by (simp_all add: ChunkVectorInfo_new_def d_def)
  have "cv_Delete TRANSACTION_ID_START [0] (length [0 :: nat]) ?i = ((?i', [0], 1), None)"
    using i nd small_row [of 0] by (simp add: cv_Delete_def)
  then have "version_step (OpDelete TRANSACTION_ID_START [0]) (2, ?i) (2, ?i')"
    by (rule version_step.delete) (simp_all add: nd)
  then have run: "version_run [OpDelete TRANSACTION_ID_START [0]] (2, ?i) (2, ?i')" by (blast intro: version_run.intros)
  have "cv_Fetch ?t 0 ?i' = Inr False" "cv_Fetch ?t 1 ?i' = Inr True"
    using i t small_row [of 0] small_row [of 1] by (simp_all add: cv_Fetch_def get_id_def)
  then have "filter (\<lambda>r. cv_Fetch ?t r ?i' = Inr True) [0..<2] = [1]" by (simp add: upt_rec)
  then show ?thesis
    using GetSelVector_reachable [OF run _ t(1), of 2 "[None, None]"] run small_row [of 2] by (auto simp: less_imp_le_nat)
qed

text \<open>
  Rolling back a delete. When a delete succeeds, the record that \<open>PushDelete\<close> makes of the rows
  it returned (consecutive or listed) names exactly the rows that this call marked; setting them
  back to \<open>NOT_DELETED_ID\<close>, as a rollback does, restores the deleted ids of the whole vector.
\<close>

lemma rollback_restores:
  assumes "cv_inv n info" "\<forall>r \<in> set rows. r < n" "tid \<noteq> NOT_DELETED_ID"
    and "cv_Delete tid rows (length rows) info = ((info', rows', k), None)" "\<forall>r \<in> set rows. deleted info ! r \<noteq> tid"
  shows "\<exists>d info''. PushDelete vidx rows' k base = Inr d \<and> cv_CommitDelete NOT_DELETED_ID d info' = Inr info''
    \<and> cv_inv n info'' \<and> deleted info'' = deleted info \<and> inserted info'' = inserted info"
proof -
  have small: "\<forall>r \<in> set rows. r < STANDARD_VECTOR_SIZE" "STANDARD_VECTOR_SIZE < 2 ^ 16"
    using assms(1,2) by (auto simp: cv_inv_def STANDARD_VECTOR_SIZE_def)
  obtain j where "delete_outcome tid info rows (length rows) j ((info', rows', k), None)"
    using cv_Delete_ok [OF assms(1) le_refl small(1) assms(3)] assms(4) by auto
  then have d: "delete_inv tid info rows (length rows) (info', rows', k)" by (auto simp: delete_outcome_def)
  note D = delete_invD [OF d]
  have set: "set (take k rows') = set rows" unfolding D(9) using assms(5) by auto
  have k: "k \<le> length rows'" using D(6,7) by simp
  have "\<forall>r \<in> set (take k rows'). r < 2 ^ 16" using set small by auto
  then obtain di where di: "PushDelete vidx rows' k base = Inr di" using PushDelete_ok [OF k] by blast
  note P = PushDelete_rows [OF di]
  have inv': "cv_inv n info'" by (rule delete_inv_cv_inv [OF assms(1) d])
  have rows: "set (rows_of di) = set rows" using P set by simp
  then obtain info'' where c: "cv_CommitDelete NOT_DELETED_ID di info' = Inr info''"
    using cv_CommitDelete_ok [OF inv', of di NOT_DELETED_ID] P small by auto
  have i: "cv_inv n info''" "inserted info'' = inserted info'"
    "\<And>j. j < STANDARD_VECTOR_SIZE \<Longrightarrow> deleted info'' ! j = (if j \<in> set rows then NOT_DELETED_ID else deleted info' ! j)"
    using CommitDelete_inv [OF inv' c] rows assms(2) by auto
  have "deleted info'' = deleted info"
  proof (rule nth_equalityI)
    show "length (deleted info'') = length (deleted info)" using i(1) assms(1) by (simp add: cv_inv_def)
    fix j assume "j < length (deleted info'')"
    then have "j < STANDARD_VECTOR_SIZE" "j < length (deleted info)" using i(1) assms(1) by (simp_all add: cv_inv_def)
    then show "deleted info'' ! j = deleted info ! j"
      using i(3) [of j] D(10) [of j] D(11) [of j] assms(5) by (cases "j \<in> set rows") auto
  qed
  then show ?thesis using di c i D(1) by auto
qed

end
