(* ===== verification/Row_Version_Manager.thy ===== *)
theory Row_Version_Manager
  imports Version_Steps
begin

text \<open>
  The version information of a row group, \<^verbatim>\<open>src/src/storage/table/row_version_manager.cpp\<close>, and the
  delete of rows in \<^verbatim>\<open>src/src/storage/table/row_group.cpp\<close> that groups the row ids by vector, marks
  them and records them in the undo buffer.

  A row group has up to \<open>ROW_GROUP_VECTOR_COUNT\<close> vectors; the version information of a vector is the
  null pointer until a transaction changes the vector. \<open>storage_pointers\<close> is represented by the
  metadata that the pointers lead to (\<open>None\<close> for the empty list of pointers): the writer and the
  reader of metadata blocks transport a byte stream. The lock that every operation holds is not
  represented, the operations are atomic. The specification is the table \<open>row_ids\<close> of insert and delete
  ids; every operation is shown to be a simple update of it.
\<close>

section \<open>State and operations\<close>

record RowVersionManager =
  rvm_start :: idx_t
  vector_info :: "ChunkInfo option list"
  has_changes :: bool
  storage_pointers :: "bytes option"

definition RowVersionManager_new :: "idx_t \<Rightarrow> RowVersionManager" where
  "RowVersionManager_new start =
     \<lparr>rvm_start = start, vector_info = replicate ROW_GROUP_VECTOR_COUNT None, has_changes = False, storage_pointers = None\<rparr>"

text \<open>Access to an element of the array of pointers.\<close>

definition GetChunkInfo :: "idx_t \<Rightarrow> RowVersionManager \<Rightarrow> exc + ChunkInfo option" where
  "GetChunkInfo vector_idx m =
     (if vector_idx < length (vector_info m) then Inr (vector_info m ! vector_idx) else Inl OutOfBounds)"

definition update_slot :: "idx_t \<Rightarrow> (ChunkInfo option \<Rightarrow> exc + ChunkInfo option) \<Rightarrow> RowVersionManager \<Rightarrow> exc + RowVersionManager" where
  "update_slot vector_idx f m =
     bind_res (GetChunkInfo vector_idx m) (\<lambda>slot. bind_res (f slot) (\<lambda>slot'.
       Inr (m\<lparr>vector_info := (vector_info m)[vector_idx := slot']\<rparr>)))"

fun set_chunk_start :: "idx_t \<Rightarrow> ChunkInfo \<Rightarrow> ChunkInfo" where
  "set_chunk_start s (ConstantInfo c) = ConstantInfo (c\<lparr>cc_start := s\<rparr>)"
| "set_chunk_start s (VectorInfo v) = VectorInfo (v\<lparr>cv_start := s\<rparr>)"

definition SetStart :: "idx_t \<Rightarrow> RowVersionManager \<Rightarrow> exc + RowVersionManager" where
  "SetStart new_start m =
     fold_res (\<lambda>i. update_slot i (\<lambda>slot. Inr (map_option (set_chunk_start (new_start + i * STANDARD_VECTOR_SIZE)) slot)))
       [0..<ROW_GROUP_VECTOR_COUNT] (m\<lparr>rvm_start := new_start\<rparr>)"

definition rvm_GetCommittedDeletedCount :: "idx_t \<Rightarrow> RowVersionManager \<Rightarrow> exc + idx_t" where
  "rvm_GetCommittedDeletedCount cnt m =
     fold_res (\<lambda>i deleted_count. bind_res (GetChunkInfo i m) (\<lambda>slot.
         case slot of None \<Rightarrow> Inr deleted_count
         | Some info \<Rightarrow> bind_res (GetCommittedDeletedCount (min STANDARD_VECTOR_SIZE (cnt - i * STANDARD_VECTOR_SIZE)) info)
             (\<lambda>k. Inr (deleted_count + k))))
       [0..<(cnt + (STANDARD_VECTOR_SIZE - 1)) div STANDARD_VECTOR_SIZE] 0"

definition rvm_GetSelVector ::
  "VersionOperator \<Rightarrow> transaction_t \<Rightarrow> transaction_t \<Rightarrow> idx_t \<Rightarrow> SelectionVector \<Rightarrow> idx_t \<Rightarrow> RowVersionManager
    \<Rightarrow> exc + idx_t \<times> SelectionVector" where
  "rvm_GetSelVector OP st tid vector_idx sel max_count m =
     bind_res (GetChunkInfo vector_idx m) (\<lambda>slot.
       case slot of None \<Rightarrow> Inr (max_count, sel) | Some info \<Rightarrow> GetSelVector OP st tid info sel max_count)"

definition rvm_Fetch :: "TransactionData \<Rightarrow> idx_t \<Rightarrow> RowVersionManager \<Rightarrow> exc + bool" where
  "rvm_Fetch t row m =
     (let vector_index = row div STANDARD_VECTOR_SIZE
      in bind_res (GetChunkInfo vector_index m) (\<lambda>slot.
           case slot of None \<Rightarrow> Inr True | Some info \<Rightarrow> Fetch t (row - vector_index * STANDARD_VECTOR_SIZE) info))"

text \<open>The rows of a vector that the row range of an append covers.\<close>

definition vec_from :: "idx_t \<Rightarrow> idx_t \<Rightarrow> idx_t" where
  "vec_from s i = (if i = s div STANDARD_VECTOR_SIZE then s - (s div STANDARD_VECTOR_SIZE) * STANDARD_VECTOR_SIZE else 0)"

definition vec_to :: "idx_t \<Rightarrow> idx_t \<Rightarrow> idx_t" where
  "vec_to e i = (if i = (e - 1) div STANDARD_VECTOR_SIZE then e - ((e - 1) div STANDARD_VECTOR_SIZE) * STANDARD_VECTOR_SIZE
                 else STANDARD_VECTOR_SIZE)"

definition append_slot :: "idx_t \<Rightarrow> transaction_t \<Rightarrow> idx_t \<Rightarrow> idx_t \<Rightarrow> ChunkInfo option \<Rightarrow> exc + ChunkInfo option" where
  "append_slot vstart tid vfrom vto slot =
     (if vfrom = 0 \<and> vto = STANDARD_VECTOR_SIZE
      then Inr (Some (ConstantInfo ((ChunkConstantInfo_new vstart)\<lparr>cc_insert_id := tid, cc_delete_id := NOT_DELETED_ID\<rparr>)))
      else case slot of
        None \<Rightarrow> bind_res (cv_Append vfrom vto tid (ChunkVectorInfo_new vstart)) (\<lambda>v. Inr (Some (VectorInfo v)))
      | Some (VectorInfo v) \<Rightarrow> bind_res (cv_Append vfrom vto tid v) (\<lambda>v. Inr (Some (VectorInfo v)))
      | Some (ConstantInfo c) \<Rightarrow> Inl InternalException)"

text \<open>
  With \<open>row_group_end = 0\<close> the last vector index wraps around and the loop leaves the array.
\<close>

definition AppendVersionInfo :: "transaction_t \<Rightarrow> idx_t \<Rightarrow> idx_t \<Rightarrow> RowVersionManager \<Rightarrow> exc + RowVersionManager" where
  "AppendVersionInfo tid row_group_start row_group_end m =
     (if row_group_end = 0 then Inl OutOfBounds
      else fold_res (\<lambda>i. update_slot i (append_slot (rvm_start m + i * STANDARD_VECTOR_SIZE) tid (vec_from row_group_start i) (vec_to row_group_end i)))
             [row_group_start div STANDARD_VECTOR_SIZE..<Suc ((row_group_end - 1) div STANDARD_VECTOR_SIZE)]
             (m\<lparr>has_changes := True\<rparr>))"

text \<open>The pointer class throws when a null pointer is dereferenced.\<close>

definition rvm_CommitAppend :: "transaction_t \<Rightarrow> idx_t \<Rightarrow> idx_t \<Rightarrow> RowVersionManager \<Rightarrow> exc + RowVersionManager" where
  "rvm_CommitAppend commit_id row_group_start cnt m =
     (if cnt = 0 then Inr m
      else let row_group_end = row_group_start + cnt
           in fold_res (\<lambda>i. update_slot i (\<lambda>slot. case slot of None \<Rightarrow> Inl InternalException
                | Some info \<Rightarrow> bind_res (CommitAppend commit_id (vec_from row_group_start i) (vec_to row_group_end i) info) (\<lambda>info. Inr (Some info))))
                [row_group_start div STANDARD_VECTOR_SIZE..<Suc ((row_group_end - 1) div STANDARD_VECTOR_SIZE)] m)"

definition RevertAppend :: "idx_t \<Rightarrow> RowVersionManager \<Rightarrow> exc + RowVersionManager" where
  "RevertAppend start_row m =
     fold_res (\<lambda>i. update_slot i (\<lambda>slot. Inr None))
       [(start_row + (STANDARD_VECTOR_SIZE - 1)) mod 2 ^ 64 div STANDARD_VECTOR_SIZE..<ROW_GROUP_VECTOR_COUNT] m"

definition to_vector_info :: "idx_t \<Rightarrow> ChunkInfo option \<Rightarrow> ChunkVectorInfo" where
  "to_vector_info vstart slot =
     (case slot of None \<Rightarrow> ChunkVectorInfo_new vstart
      | Some (ConstantInfo c) \<Rightarrow>
          (ChunkVectorInfo_new vstart)\<lparr>insert_id := cc_insert_id c, inserted := replicate STANDARD_VECTOR_SIZE (cc_insert_id c)\<rparr>
      | Some (VectorInfo v) \<Rightarrow> v)"

definition GetVectorInfo :: "idx_t \<Rightarrow> RowVersionManager \<Rightarrow> exc + ChunkVectorInfo" where
  "GetVectorInfo vector_idx m =
     bind_res (GetChunkInfo vector_idx m) (\<lambda>slot. Inr (to_vector_info (rvm_start m + vector_idx * STANDARD_VECTOR_SIZE) slot))"

definition set_slot :: "idx_t \<Rightarrow> ChunkVectorInfo \<Rightarrow> RowVersionManager \<Rightarrow> RowVersionManager" where
  "set_slot vector_idx v m = m\<lparr>vector_info := (vector_info m)[vector_idx := Some (VectorInfo v)]\<rparr>"

text \<open>A delete that throws keeps what it has changed so far; the rows array belongs to the caller.\<close>

definition DeleteRows ::
  "idx_t \<Rightarrow> transaction_t \<Rightarrow> idx_t list \<Rightarrow> idx_t \<Rightarrow> RowVersionManager
    \<Rightarrow> (RowVersionManager \<times> idx_t list \<times> idx_t) \<times> exc option" where
  "DeleteRows vector_idx tid rows cnt m =
     (let m = m\<lparr>has_changes := True\<rparr>
      in case GetVectorInfo vector_idx m of Inl e \<Rightarrow> ((m, rows, 0), Some e)
         | Inr v \<Rightarrow> case cv_Delete tid rows cnt v of ((v', rows', k), ex) \<Rightarrow> ((set_slot vector_idx v' m, rows', k), ex))"

definition rvm_CommitDelete :: "idx_t \<Rightarrow> transaction_t \<Rightarrow> DeleteInfo \<Rightarrow> RowVersionManager \<Rightarrow> exc + RowVersionManager" where
  "rvm_CommitDelete vector_idx commit_id info m =
     (let m = m\<lparr>has_changes := True\<rparr>
      in bind_res (GetVectorInfo vector_idx m) (\<lambda>v. bind_res (cv_CommitDelete commit_id info v) (\<lambda>v'. Inr (set_slot vector_idx v' m))))"

section \<open>Checkpoints\<close>

definition to_serialize :: "RowVersionManager \<Rightarrow> (idx_t \<times> ChunkInfo) list" where
  "to_serialize m =
     concat (map (\<lambda>i. case vector_info m ! i of None \<Rightarrow> [] | Some info \<Rightarrow> if HasDeletes info then [(i, info)] else [])
       [0..<length (vector_info m)])"

definition write_entries :: "(idx_t \<times> ChunkInfo) list \<Rightarrow> bytes \<Rightarrow> exc + bytes" where
  "write_entries = fold_res (\<lambda>(i, info) out. Write_info info (Write_uint 8 i out))"

definition Checkpoint :: "RowVersionManager \<Rightarrow> exc + bytes option \<times> RowVersionManager" where
  "Checkpoint m =
     (if \<not> has_changes m \<and> storage_pointers m \<noteq> None then Inr (storage_pointers m, m)
      else let es = to_serialize m
           in if es = [] then Inr (None, m)
              else bind_res (write_entries es (Write_uint 8 (length es) []))
                     (\<lambda>out. Inr (Some out, m\<lparr>storage_pointers := Some out, has_changes := False\<rparr>)))"

fun read_entries :: "nat \<Rightarrow> bytes \<Rightarrow> RowVersionManager \<Rightarrow> exc + RowVersionManager" where
  "read_entries 0 inp m = Inr m"
| "read_entries (Suc n) inp m =
     bind_res (Read_uint 8 inp) (\<lambda>(vector_index, inp).
       if vector_index \<ge> ROW_GROUP_VECTOR_COUNT then Inl InternalException
       else bind_res (Read_info inp) (\<lambda>(info, inp).
              bind_res (update_slot vector_index (\<lambda>slot. Inr info) m) (\<lambda>m. read_entries n inp m)))"

definition rvm_Deserialize :: "bytes option \<Rightarrow> idx_t \<Rightarrow> exc + RowVersionManager option" where
  "rvm_Deserialize delete_pointer start =
     (case delete_pointer of None \<Rightarrow> Inr None
      | Some inp \<Rightarrow> bind_res (Read_uint 8 inp) (\<lambda>(chunk_count, rest).
          bind_res (read_entries chunk_count rest ((RowVersionManager_new start)\<lparr>storage_pointers := Some inp\<rparr>))
            (\<lambda>m. Inr (Some (m\<lparr>has_changes := False\<rparr>)))))"

section \<open>The table of row ids\<close>

definition chunk_ids :: "ChunkInfo option \<Rightarrow> nat \<Rightarrow> transaction_t \<times> transaction_t" where
  "chunk_ids slot r =
     (case slot of None \<Rightarrow> (0, NOT_DELETED_ID)
      | Some (ConstantInfo c) \<Rightarrow> (cc_insert_id c, cc_delete_id c)
      | Some (VectorInfo v) \<Rightarrow> (inserted v ! r, deleted v ! r))"

definition row_ids :: "RowVersionManager \<Rightarrow> nat \<Rightarrow> transaction_t \<times> transaction_t" where
  "row_ids m r = chunk_ids (vector_info m ! (r div STANDARD_VECTOR_SIZE)) (r mod STANDARD_VECTOR_SIZE)"

definition sees :: "TransactionData \<Rightarrow> transaction_t \<times> transaction_t \<Rightarrow> bool" where
  "sees t ids \<longleftrightarrow> UseVersion t (fst ids) \<and> \<not> UseVersion t (snd ids)"

definition rows_in :: "nat \<Rightarrow> nat \<Rightarrow> nat" where
  "rows_in n i = min STANDARD_VECTOR_SIZE (n - i * STANDARD_VECTOR_SIZE)"

text \<open>
  With \<open>k\<close> rows in a vector: a constant describes a full vector, which is not deleted or was
  completely deleted when it was read from storage; positions behind the rows are not deleted.
\<close>

definition slot_inv :: "nat \<Rightarrow> ChunkInfo option \<Rightarrow> bool" where
  "slot_inv k slot \<longleftrightarrow>
     (case slot of None \<Rightarrow> True | Some (ConstantInfo c) \<Rightarrow> k = STANDARD_VECTOR_SIZE \<and> cc_delete_id c \<in> {NOT_DELETED_ID, 0}
      | Some (VectorInfo v) \<Rightarrow> cv_inv k v \<and> (\<forall>j. k \<le> j \<and> j < STANDARD_VECTOR_SIZE \<longrightarrow> deleted v ! j = NOT_DELETED_ID))"

definition rvm_inv :: "nat \<Rightarrow> RowVersionManager \<Rightarrow> bool" where
  "rvm_inv n m \<longleftrightarrow> n \<le> ROW_GROUP_SIZE \<and> length (vector_info m) = ROW_GROUP_VECTOR_COUNT
     \<and> (\<forall>i<ROW_GROUP_VECTOR_COUNT. slot_inv (rows_in n i) (vector_info m ! i))"

section \<open>Rows and vectors\<close>

lemma ROW_GROUP_SIZE_eq: "ROW_GROUP_SIZE = ROW_GROUP_VECTOR_COUNT * STANDARD_VECTOR_SIZE"
  by (simp add: ROW_GROUP_SIZE_def ROW_GROUP_VECTOR_COUNT_def STANDARD_VECTOR_SIZE_def)

lemma row_vector: "r < ROW_GROUP_SIZE \<Longrightarrow> r div STANDARD_VECTOR_SIZE < ROW_GROUP_VECTOR_COUNT"
  by (simp add: ROW_GROUP_SIZE_eq div_less_iff_less_mult)

lemma row_in_vector: "r < n \<Longrightarrow> r mod STANDARD_VECTOR_SIZE < rows_in n (r div STANDARD_VECTOR_SIZE)"
  unfolding rows_in_def min_less_iff_conj
  using div_mult_mod_eq [of r STANDARD_VECTOR_SIZE] mod_less_divisor [of STANDARD_VECTOR_SIZE r] by (simp, linarith)

lemma vec_bounds:
  assumes "s < e" "s div STANDARD_VECTOR_SIZE \<le> i" "i \<le> (e - 1) div STANDARD_VECTOR_SIZE"
  shows "vec_from s i = rows_in s i" "vec_to e i = rows_in e i"
proof -
  let ?N = STANDARD_VECTOR_SIZE
  have "s - s div ?N * ?N = s mod ?N" by (simp add: minus_div_mult_eq_mod)
  moreover have "s - i * ?N = 0" if "s div ?N < i"
    using that by (metis diff_is_0_eq div_less_iff_less_mult less_imp_le_nat STANDARD_VECTOR_SIZE_pos)
  moreover have "s mod ?N < ?N" by simp
  ultimately show "vec_from s i = rows_in s i" using assms(2) by (cases "i = s div ?N") (auto simp: vec_from_def rows_in_def)
  have e: "e - (e - 1) div ?N * ?N = Suc ((e - 1) mod ?N)" using assms(1) div_mult_mod_eq [of "e - 1" ?N] by linarith
  have lt: "Suc ((e - 1) mod ?N) \<le> ?N" by (simp add: Suc_le_eq)
  have "?N \<le> e - i * ?N" if "i < (e - 1) div ?N"
  proof -
    have "Suc i * ?N \<le> e - 1" using that by (metis Suc_leI div_times_less_eq_dividend mult_le_mono1 order_trans)
    then show ?thesis by simp
  qed
  then show "vec_to e i = rows_in e i" using e lt assms(3) by (cases "i = (e - 1) div ?N") (auto simp: vec_to_def rows_in_def)
qed

lemma rows_in_pos: "j < STANDARD_VECTOR_SIZE \<Longrightarrow> j < rows_in n i \<longleftrightarrow> i * STANDARD_VECTOR_SIZE + j < n"
  by (auto simp: rows_in_def)

lemma rows_in_outside:
  assumes "s < e" "i < s div STANDARD_VECTOR_SIZE \<or> (e - 1) div STANDARD_VECTOR_SIZE < i"
  shows "rows_in s i = rows_in e i"
proof -
  let ?N = STANDARD_VECTOR_SIZE
  have "Suc i * ?N \<le> s" if "i < s div ?N" using that by (metis Suc_leI div_times_less_eq_dividend mult_le_mono1 order_trans)
  moreover have "e - 1 < i * ?N" if "(e - 1) div ?N < i" using that by (simp add: div_less_iff_less_mult)
  ultimately show ?thesis using assms by (auto simp: rows_in_def)
qed

lemma rows_in_less:
  assumes "s < e" "s div STANDARD_VECTOR_SIZE \<le> i" "i \<le> (e - 1) div STANDARD_VECTOR_SIZE"
  shows "rows_in s i < rows_in e i"
proof -
  let ?N = STANDARD_VECTOR_SIZE
  have "s < ?N + i * ?N" using assms(2) by (metis div_less_iff_less_mult less_Suc_eq_le mult_Suc STANDARD_VECTOR_SIZE_pos)
  moreover have "i * ?N \<le> e - 1" using assms(3) by (metis div_times_less_eq_dividend mult_le_mono1 order_trans)
  moreover have "0 < ?N" by simp
  ultimately show ?thesis unfolding rows_in_def using assms(1) by linarith
qed

section \<open>Updating a range of vectors\<close>

lemma update_slots:
  assumes "a \<le> b" "b \<le> length (vector_info m)" "\<And>i. a \<le> i \<Longrightarrow> i < b \<Longrightarrow> f i (vector_info m ! i) = Inr (g i)"
  shows "fold_res (\<lambda>i. update_slot i (f i)) [a..<b] m
    = Inr (m\<lparr>vector_info := map (\<lambda>i. if a \<le> i \<and> i < b then g i else vector_info m ! i) [0..<length (vector_info m)]\<rparr>)"
  using assms
proof (induction b)
  case 0
  then show ?case by (simp add: map_nth)
next
  case (Suc b)
  show ?case
  proof (cases "a = Suc b")
    case True
    then have "map (\<lambda>i. if a \<le> i \<and> i < Suc b then g i else vector_info m ! i) [0..<length (vector_info m)] = vector_info m"
      by (intro nth_equalityI) auto
    then show ?thesis using True by simp
  next
    case False
    then have a: "a \<le> b" using Suc.prems(1) by simp
    let ?vi = "map (\<lambda>i. if a \<le> i \<and> i < b then g i else vector_info m ! i) [0..<length (vector_info m)]"
    have "?vi[b := g b] = map (\<lambda>i. if a \<le> i \<and> i < Suc b then g i else vector_info m ! i) [0..<length (vector_info m)]"
      using a Suc.prems(2) by (auto intro!: nth_equalityI simp: nth_list_update less_Suc_eq)
    then show ?thesis using Suc a by (simp add: fold_res_Suc update_slot_def GetChunkInfo_def del: upt_Suc)
  qed
qed

lemma slots_ok:
  assumes "a \<le> b" "b \<le> length (vector_info m)" "\<And>i. a \<le> i \<Longrightarrow> i < b \<Longrightarrow> \<exists>slot. f i (vector_info m ! i) = Inr slot \<and> P i slot"
  shows "\<exists>vi. fold_res (\<lambda>i. update_slot i (f i)) [a..<b] m = Inr (m\<lparr>vector_info := vi\<rparr>) \<and> length vi = length (vector_info m)
    \<and> (\<forall>i. a \<le> i \<and> i < b \<longrightarrow> P i (vi ! i)) \<and> (\<forall>i<length (vector_info m). \<not> (a \<le> i \<and> i < b) \<longrightarrow> vi ! i = vector_info m ! i)"
proof -
  have "\<forall>i. \<exists>slot. a \<le> i \<and> i < b \<longrightarrow> f i (vector_info m ! i) = Inr slot \<and> P i slot" using assms(3) by blast
  then obtain g where g: "\<And>i. a \<le> i \<Longrightarrow> i < b \<Longrightarrow> f i (vector_info m ! i) = Inr (g i) \<and> P i (g i)" by metis
  then show ?thesis using update_slots [OF assms(1,2), of f g]
    by (intro exI [of _ "map (\<lambda>i. if a \<le> i \<and> i < b then g i else vector_info m ! i) [0..<length (vector_info m)]"] conjI) (use assms(2) in auto)
qed

lemma row_idsI:
  assumes "r < ROW_GROUP_SIZE" "length (vector_info m) = ROW_GROUP_VECTOR_COUNT"
    and "\<And>i j. i < ROW_GROUP_VECTOR_COUNT \<Longrightarrow> j < STANDARD_VECTOR_SIZE \<Longrightarrow> chunk_ids (vi ! i) j = F (i * STANDARD_VECTOR_SIZE + j)"
  shows "row_ids (m\<lparr>vector_info := vi\<rparr>) r = F r"
  using assms(3) [OF row_vector [OF assms(1)], of "r mod STANDARD_VECTOR_SIZE"] by (simp add: row_ids_def)

lemma row_ids_at: "j < STANDARD_VECTOR_SIZE \<Longrightarrow> row_ids m (i * STANDARD_VECTOR_SIZE + j) = chunk_ids (vector_info m ! i) j"
  by (simp add: row_ids_def)

section \<open>Reading\<close>

lemma chunk_Fetch:
  assumes "slot_inv k slot" "j < k" "valid_txn t" "0 < start_time t"
  shows "Fetch_opt t j slot = Inr (sees t (chunk_ids slot j))"
proof -
  have "UseVersion t 0" "\<not> UseVersion t NOT_DELETED_ID"
    using assms(4) UseVersion_NOT_DELETED [OF assms(3)] by (simp_all add: UseVersion_def TransactionVersionOperator_def)
  then show ?thesis using assms(1,2)
    by (cases slot) (auto simp: slot_inv_def Fetch_opt_def Fetch_def cc_Fetch_def cv_Fetch_def chunk_ids_def sees_def get_id_def
        cv_inv_def split: ChunkInfo.splits)
qed

lemma rvm_Fetch_ok:
  assumes "rvm_inv n m" "r < n" "valid_txn t" "0 < start_time t"
  shows "rvm_Fetch t r m = Inr (sees t (row_ids m r))"
proof -
  let ?i = "r div STANDARD_VECTOR_SIZE" and ?j = "r mod STANDARD_VECTOR_SIZE"
  have i: "?i < ROW_GROUP_VECTOR_COUNT" "length (vector_info m) = ROW_GROUP_VECTOR_COUNT" using assms(1,2) row_vector [of r] by (auto simp: rvm_inv_def)
  then have "slot_inv (rows_in n ?i) (vector_info m ! ?i)" using assms(1) by (simp add: rvm_inv_def)
  from chunk_Fetch [OF this row_in_vector [OF assms(2)] assms(3,4)] i show ?thesis
    by (simp add: rvm_Fetch_def Let_def GetChunkInfo_def row_ids_def Fetch_opt_def minus_div_mult_eq_mod split: option.splits)
qed

section \<open>Appending\<close>

lemma append_slot_ok:
  assumes "slot_inv k slot" "k < k'" "k' \<le> STANDARD_VECTOR_SIZE"
  shows "\<exists>slot'. append_slot vs tid k k' slot = Inr slot' \<and> slot_inv k' slot'
    \<and> (\<forall>j<STANDARD_VECTOR_SIZE. chunk_ids slot' j = (if k \<le> j \<and> j < k' then (tid, NOT_DELETED_ID) else chunk_ids slot j))
    \<and> (\<forall>c. slot' = Some (ConstantInfo c) \<longrightarrow> k = 0)"
proof (cases "k = 0 \<and> k' = STANDARD_VECTOR_SIZE")
  case True
  then show ?thesis by (simp add: append_slot_def slot_inv_def chunk_ids_def)
next
  case False
  have step: "\<exists>slot'. bind_res (cv_Append k k' tid v) (\<lambda>v. Inr (Some (VectorInfo v))) = Inr slot' \<and> slot_inv k' slot'
      \<and> (\<forall>j<STANDARD_VECTOR_SIZE. chunk_ids slot' j = (if k \<le> j \<and> j < k' then (tid, NOT_DELETED_ID) else chunk_ids (Some (VectorInfo v)) j))
      \<and> (\<forall>c. slot' = Some (ConstantInfo c) \<longrightarrow> k = 0)" if "slot_inv k (Some (VectorInfo v))" for v
  proof -
    have v: "cv_inv k v" "\<And>j. k \<le> j \<Longrightarrow> j < STANDARD_VECTOR_SIZE \<Longrightarrow> deleted v ! j = NOT_DELETED_ID" using that by (auto simp: slot_inv_def)
    from cv_Append_ok [OF v(1) _ assms(3), of tid] assms(2) obtain v' where v': "cv_Append k k' tid v = Inr v'" "cv_inv k' v'" "deleted v' = deleted v"
      "\<forall>j<STANDARD_VECTOR_SIZE. inserted v' ! j = (if k \<le> j \<and> j < k' then tid else inserted v ! j)" by auto
    then show ?thesis using v(2) assms(2,3) by (auto simp: slot_inv_def chunk_ids_def)
  qed
  have new: "chunk_ids None j = chunk_ids (Some (VectorInfo (ChunkVectorInfo_new vs))) j" if "j < STANDARD_VECTOR_SIZE" for j
    using that by (simp add: chunk_ids_def ChunkVectorInfo_new_def)
  show ?thesis
  proof (cases slot)
    case None
    have "slot_inv k (Some (VectorInfo (ChunkVectorInfo_new vs)))"
      using assms(2,3) by (simp add: slot_inv_def cv_inv_new) (simp add: ChunkVectorInfo_new_def)
    from step [OF this] False None new show ?thesis by (auto simp: append_slot_def)
  next
    case (Some info)
    then obtain v where "info = VectorInfo v" using assms by (cases info) (auto simp: slot_inv_def)
    with step [of v] False Some assms(1) show ?thesis by (auto simp: append_slot_def)
  qed
qed

lemma AppendVersionInfo_ok:
  assumes inv: "rvm_inv n m" and e: "n < e" "e \<le> ROW_GROUP_SIZE"
  shows "\<exists>m'. AppendVersionInfo tid n e m = Inr m' \<and> rvm_inv e m' \<and> rvm_start m' = rvm_start m
    \<and> (\<forall>r<ROW_GROUP_SIZE. row_ids m' r = (if n \<le> r \<and> r < e then (tid, NOT_DELETED_ID) else row_ids m r))
    \<and> (\<forall>i<ROW_GROUP_VECTOR_COUNT. \<forall>c. vector_info m' ! i = Some (ConstantInfo c) \<longrightarrow> rows_in n i \<in> {0, STANDARD_VECTOR_SIZE})"
proof -
  let ?N = STANDARD_VECTOR_SIZE and ?a = "n div STANDARD_VECTOR_SIZE" and ?b = "Suc ((e - 1) div STANDARD_VECTOR_SIZE)"
  let ?m = "m\<lparr>has_changes := True\<rparr>"
  let ?P = "\<lambda>i slot'. slot_inv (rows_in e i) slot'
      \<and> (\<forall>j<?N. chunk_ids slot' j = (if rows_in n i \<le> j \<and> j < rows_in e i then (tid, NOT_DELETED_ID) else chunk_ids (vector_info m ! i) j))
      \<and> (\<forall>c. slot' = Some (ConstantInfo c) \<longrightarrow> rows_in n i = 0)"
  have len: "length (vector_info m) = ROW_GROUP_VECTOR_COUNT" using inv by (simp add: rvm_inv_def)
  have b: "?b \<le> ROW_GROUP_VECTOR_COUNT" using row_vector [of "e - 1"] e by (simp add: Suc_le_eq)
  have a: "?a \<le> ?b" using e by (simp add: div_le_mono le_SucI)
  note lt = rows_in_less [OF e(1)]
  have slot: "\<exists>slot'. append_slot (rvm_start m + i * ?N) tid (vec_from n i) (vec_to e i) (vector_info ?m ! i) = Inr slot' \<and> ?P i slot'"
    if "?a \<le> i" "i < ?b" for i
  proof -
    have "slot_inv (rows_in n i) (vector_info m ! i)" using inv that(2) b by (simp add: rvm_inv_def)
    from append_slot_ok [OF this lt [OF that(1)]] show ?thesis
      using vec_bounds [OF e(1) that(1)] that(2) by (simp add: rows_in_def)
  qed
  have lenm: "length (vector_info ?m) = ROW_GROUP_VECTOR_COUNT" "vector_info ?m = vector_info m" using len by simp_all
  from slots_ok [of ?a ?b ?m "\<lambda>i. append_slot (rvm_start m + i * ?N) tid (vec_from n i) (vec_to e i)" ?P, OF a _ slot, unfolded lenm, OF b [folded len]]
  obtain vi where
    vi: "fold_res (\<lambda>i. update_slot i (append_slot (rvm_start m + i * ?N) tid (vec_from n i) (vec_to e i))) [?a..<?b] ?m = Inr (?m\<lparr>vector_info := vi\<rparr>)"
    "length vi = ROW_GROUP_VECTOR_COUNT" and P: "\<And>i. ?a \<le> i \<and> i < ?b \<Longrightarrow> ?P i (vi ! i)"
    and Q: "\<And>i. i < ROW_GROUP_VECTOR_COUNT \<Longrightarrow> \<not> (?a \<le> i \<and> i < ?b) \<Longrightarrow> vi ! i = vector_info m ! i"
    unfolding len by blast
  have run: "AppendVersionInfo tid n e m = Inr (?m\<lparr>vector_info := vi\<rparr>)" using vi(1) e(1) by (simp add: AppendVersionInfo_def del: upt_Suc)
  have out: "rows_in n i = rows_in e i" if "\<not> (?a \<le> i \<and> i < ?b)" for i using rows_in_outside [OF e(1), of i] that by auto
  have inv': "rvm_inv e (?m\<lparr>vector_info := vi\<rparr>)"
  proof -
    have "slot_inv (rows_in e i) (vi ! i)" if "i < ROW_GROUP_VECTOR_COUNT" for i
    proof -
      have "slot_inv (rows_in n i) (vector_info m ! i)" using inv that by (simp add: rvm_inv_def)
      then show ?thesis using P [of i] Q [OF that] out [of i] by (cases "?a \<le> i \<and> i < ?b") auto
    qed
    then show ?thesis using vi(2) e(2) by (simp add: rvm_inv_def)
  qed
  have "row_ids (?m\<lparr>vector_info := vi\<rparr>) r = (if n \<le> r \<and> r < e then (tid, NOT_DELETED_ID) else row_ids m r)" if "r < ROW_GROUP_SIZE" for r
  proof (rule row_idsI [OF that])
    fix i j assume ij: "i < ROW_GROUP_VECTOR_COUNT" "j < ?N"
    have "n \<le> i * ?N + j \<and> i * ?N + j < e \<longleftrightarrow> rows_in n i \<le> j \<and> j < rows_in e i" using rows_in_pos [OF ij(2)] by (meson linorder_not_le)
    then show "chunk_ids (vi ! i) j = (if n \<le> i * ?N + j \<and> i * ?N + j < e then (tid, NOT_DELETED_ID) else row_ids m (i * ?N + j))"
      using P [of i] Q [OF ij(1)] out [of i] ij(2) by (cases "?a \<le> i \<and> i < ?b") (auto simp: row_ids_at)
  qed (simp add: len)
  moreover have "rows_in n i \<in> {0, ?N}" if "i < ROW_GROUP_VECTOR_COUNT" "vi ! i = Some (ConstantInfo c)" for i c
  proof (cases "?a \<le> i \<and> i < ?b")
    case True
    then show ?thesis using P [of i] that(2) by simp
  next
    case False
    then have "vector_info m ! i = Some (ConstantInfo c)" using Q that by simp
    moreover have "slot_inv (rows_in n i) (vector_info m ! i)" using inv that(1) by (simp add: rvm_inv_def)
    ultimately show ?thesis by (simp add: slot_inv_def)
  qed
  ultimately show ?thesis using run inv' by auto
qed

section \<open>Committing and reverting an append\<close>

text \<open>The rows from \<open>s\<close> to \<open>e\<close> are exactly the rows of the transaction in this row group.\<close>

definition inserted_by :: "transaction_t \<Rightarrow> nat \<Rightarrow> nat \<Rightarrow> nat \<Rightarrow> RowVersionManager \<Rightarrow> bool" where
  "inserted_by tid s e n m \<longleftrightarrow> s < e \<and> e \<le> n \<and> tid \<noteq> 0 \<and> (\<forall>r<n. fst (row_ids m r) = tid \<longleftrightarrow> s \<le> r \<and> r < e)"

lemma commit_slot_ok:
  assumes inv: "slot_inv k slot" and r: "s < e" "e \<le> k" "tid \<noteq> 0"
    and by_tid: "\<And>j. j < k \<Longrightarrow> fst (chunk_ids slot j) = tid \<longleftrightarrow> s \<le> j \<and> j < e"
  shows "\<exists>slot'. (case slot of None \<Rightarrow> Inl InternalException
        | Some info \<Rightarrow> bind_res (CommitAppend cid s e info) (\<lambda>info. Inr (Some info))) = Inr slot' \<and> slot_inv k slot'
    \<and> (\<forall>j<STANDARD_VECTOR_SIZE. chunk_ids slot' j = (if s \<le> j \<and> j < e then (cid, snd (chunk_ids slot j)) else chunk_ids slot j))"
proof (cases slot)
  case None
  then show ?thesis using by_tid [of s] r by (simp add: chunk_ids_def)
next
  case (Some info)
  show ?thesis
  proof (cases info)
    case (ConstantInfo c)
    then have k: "k = STANDARD_VECTOR_SIZE" "cc_delete_id c \<in> {NOT_DELETED_ID, 0}" using inv Some by (auto simp: slot_inv_def)
    have "cc_insert_id c = tid" using by_tid [of s] r ConstantInfo Some by (simp add: chunk_ids_def)
    then have "\<forall>j<k. s \<le> j \<and> j < e" using by_tid ConstantInfo Some by (simp add: chunk_ids_def)
    then show ?thesis using ConstantInfo Some k by (simp add: CommitAppend_def cc_CommitAppend_def slot_inv_def chunk_ids_def)
  next
    case (VectorInfo v)
    then have v: "cv_inv k v" "\<And>j. k \<le> j \<Longrightarrow> j < STANDARD_VECTOR_SIZE \<Longrightarrow> deleted v ! j = NOT_DELETED_ID"
      and ins: "\<And>j. j < k \<Longrightarrow> inserted v ! j = tid \<longleftrightarrow> s \<le> j \<and> j < e"
      using inv Some by_tid by (auto simp: slot_inv_def chunk_ids_def)
    have same: "s = 0 \<and> e = k" if "same_inserted_id v"
    proof -
      have "inserted v ! s = insert_id v" "inserted v ! 0 = insert_id v" "inserted v ! (k - 1) = insert_id v"
        using that v(1) r by (auto simp: cv_inv_def)
      then show ?thesis using ins [of s] ins [of 0] ins [of "k - 1"] r by auto
    qed
    from cv_CommitAppend_ok [OF v(1), of s e cid] r same obtain v' where "cv_CommitAppend cid s e v = Inr v'" "cv_inv k v'" "deleted v' = deleted v"
      "\<forall>j<STANDARD_VECTOR_SIZE. inserted v' ! j = (if s \<le> j \<and> j < e then cid else inserted v ! j)" by auto
    then show ?thesis using v(2) VectorInfo Some by (auto simp: CommitAppend_def slot_inv_def chunk_ids_def)
  qed
qed

lemma rvm_CommitAppend_ok:
  assumes inv: "rvm_inv n m" and by_tid: "inserted_by tid s e n m"
  shows "\<exists>m'. rvm_CommitAppend cid s (e - s) m = Inr m' \<and> rvm_inv n m'
    \<and> (\<forall>r<ROW_GROUP_SIZE. row_ids m' r = (if s \<le> r \<and> r < e then (cid, snd (row_ids m r)) else row_ids m r))"
proof -
  let ?N = STANDARD_VECTOR_SIZE and ?a = "s div STANDARD_VECTOR_SIZE" and ?b = "Suc ((e - 1) div STANDARD_VECTOR_SIZE)"
  let ?f = "\<lambda>i slot. case slot of None \<Rightarrow> Inl InternalException
    | Some info \<Rightarrow> bind_res (CommitAppend cid (vec_from s i) (vec_to e i) info) (\<lambda>info. Inr (Some info))"
  let ?P = "\<lambda>i slot'. slot_inv (rows_in n i) slot' \<and> (\<forall>j<?N. chunk_ids slot' j =
      (if rows_in s i \<le> j \<and> j < rows_in e i then (cid, snd (chunk_ids (vector_info m ! i) j)) else chunk_ids (vector_info m ! i) j))"
  have e: "s < e" "e \<le> n" "tid \<noteq> 0" and t: "\<And>r. r < n \<Longrightarrow> fst (row_ids m r) = tid \<longleftrightarrow> s \<le> r \<and> r < e"
    using by_tid by (auto simp: inserted_by_def)
  have len: "length (vector_info m) = ROW_GROUP_VECTOR_COUNT" "n \<le> ROW_GROUP_SIZE" using inv by (auto simp: rvm_inv_def)
  have b: "?b \<le> ROW_GROUP_VECTOR_COUNT" using row_vector [of "e - 1"] e len by (simp add: Suc_le_eq)
  have a: "?a \<le> ?b" using e by (simp add: div_le_mono le_SucI)
  have range: "s \<le> i * ?N + j \<and> i * ?N + j < e \<longleftrightarrow> rows_in s i \<le> j \<and> j < rows_in e i" if "j < ?N" for i j
    using rows_in_pos [OF that] by (meson linorder_not_le)
  have slot: "\<exists>slot'. ?f i (vector_info m ! i) = Inr slot' \<and> ?P i slot'" if "?a \<le> i" "i < ?b" for i
  proof -
    have inv_i: "slot_inv (rows_in n i) (vector_info m ! i)" using inv that(2) b by (simp add: rvm_inv_def)
    have le: "rows_in e i \<le> rows_in n i" using e(2) by (auto simp: rows_in_def)
    have "fst (chunk_ids (vector_info m ! i) j) = tid \<longleftrightarrow> rows_in s i \<le> j \<and> j < rows_in e i" if "j < rows_in n i" for j
    proof -
      have "j < ?N" "i * ?N + j < n" using that rows_in_pos [of j n i] by (auto simp: rows_in_def)
      then show ?thesis using t [of "i * ?N + j"] range [of j i] by (simp add: row_ids_at)
    qed
    from commit_slot_ok [OF inv_i _ le e(3) this, of cid] show ?thesis
      using that(2) rows_in_less [OF e(1) that(1)] vec_bounds [OF e(1) that(1)] by (simp only: less_Suc_eq_le simp_thms)
  qed
  from slots_ok [of ?a ?b m ?f ?P, OF a _ slot, unfolded len(1), OF b] obtain vi where
    vi: "fold_res (\<lambda>i. update_slot i (?f i)) [?a..<?b] m = Inr (m\<lparr>vector_info := vi\<rparr>)"
    "length vi = ROW_GROUP_VECTOR_COUNT" and P: "\<And>i. ?a \<le> i \<and> i < ?b \<Longrightarrow> ?P i (vi ! i)"
    and Q: "\<And>i. i < ROW_GROUP_VECTOR_COUNT \<Longrightarrow> \<not> (?a \<le> i \<and> i < ?b) \<Longrightarrow> vi ! i = vector_info m ! i"
    by blast
  have run: "rvm_CommitAppend cid s (e - s) m = Inr (m\<lparr>vector_info := vi\<rparr>)" using vi(1) e(1) by (simp add: rvm_CommitAppend_def Let_def del: upt_Suc)
  have inv': "rvm_inv n (m\<lparr>vector_info := vi\<rparr>)"
  proof -
    have "slot_inv (rows_in n i) (vi ! i)" if "i < ROW_GROUP_VECTOR_COUNT" for i
      using P [of i] Q [OF that] inv that by (cases "?a \<le> i \<and> i < ?b") (simp_all add: rvm_inv_def)
    then show ?thesis using vi(2) len by (simp add: rvm_inv_def)
  qed
  have out: "rows_in s i = rows_in e i" if "\<not> (?a \<le> i \<and> i < ?b)" for i using rows_in_outside [OF e(1), of i] that by auto
  have "row_ids (m\<lparr>vector_info := vi\<rparr>) r = (if s \<le> r \<and> r < e then (cid, snd (row_ids m r)) else row_ids m r)" if "r < ROW_GROUP_SIZE" for r
  proof (rule row_idsI [OF that])
    fix i j assume ij: "i < ROW_GROUP_VECTOR_COUNT" "j < ?N"
    then show "chunk_ids (vi ! i) j = (if s \<le> i * ?N + j \<and> i * ?N + j < e then (cid, snd (row_ids m (i * ?N + j))) else row_ids m (i * ?N + j))"
      using P [of i] Q [OF ij(1)] out [of i] range [OF ij(2), of i] by (cases "?a \<le> i \<and> i < ?b") (auto simp: row_ids_at)
  qed (simp add: len)
  then show ?thesis using run inv' by auto
qed

lemma RevertAppend_ok:
  assumes inv: "rvm_inv n m" and s: "s \<le> n" "\<And>r. s \<le> r \<Longrightarrow> r < n \<Longrightarrow> snd (row_ids m r) = NOT_DELETED_ID"
    and const: "\<And>i c. i < ROW_GROUP_VECTOR_COUNT \<Longrightarrow> vector_info m ! i = Some (ConstantInfo c) \<Longrightarrow> rows_in s i \<in> {0, STANDARD_VECTOR_SIZE}"
  shows "\<exists>m'. RevertAppend s m = Inr m' \<and> rvm_inv s m' \<and> (\<forall>r. r < s \<longrightarrow> row_ids m' r = row_ids m r)"
proof -
  let ?N = STANDARD_VECTOR_SIZE and ?a = "min ((s + (STANDARD_VECTOR_SIZE - 1)) div STANDARD_VECTOR_SIZE) ROW_GROUP_VECTOR_COUNT"
  have len: "length (vector_info m) = ROW_GROUP_VECTOR_COUNT" "n \<le> ROW_GROUP_SIZE" using inv by (auto simp: rvm_inv_def)
  have "(s + (?N - 1)) div ?N < Suc ROW_GROUP_VECTOR_COUNT"
    using s(1) len(2) unfolding ROW_GROUP_SIZE_eq div_less_iff_less_mult [OF STANDARD_VECTOR_SIZE_pos] mult_Suc
    using STANDARD_VECTOR_SIZE_pos by linarith
  moreover have wrap: "(s + (?N - 1)) mod 2 ^ 64 = s + (?N - 1)"
    using s(1) len(2) by (simp add: ROW_GROUP_SIZE_def STANDARD_VECTOR_SIZE_def)
  ultimately have a: "?a = (s + (?N - 1)) div ?N" by simp
  from slots_ok [of ?a ROW_GROUP_VECTOR_COUNT m "\<lambda>i slot. Inr None" "\<lambda>i slot. slot = None"] len obtain vi where
    vi: "fold_res (\<lambda>i. update_slot i (\<lambda>slot. Inr None)) [?a..<ROW_GROUP_VECTOR_COUNT] m = Inr (m\<lparr>vector_info := vi\<rparr>)"
    "length vi = ROW_GROUP_VECTOR_COUNT" and P: "\<And>i. i < ROW_GROUP_VECTOR_COUNT \<Longrightarrow> vi ! i = (if ?a \<le> i then None else vector_info m ! i)"
    by force
  have run: "RevertAppend s m = Inr (m\<lparr>vector_info := vi\<rparr>)" using vi(1) unfolding a RevertAppend_def wrap .
  have slot: "slot_inv (rows_in s i) (vector_info m ! i)" if i: "i < ROW_GROUP_VECTOR_COUNT" "i < ?a" for i
  proof -
    have "Suc i * ?N \<le> s + (?N - 1)" using i(2) unfolding a by (metis Suc_leI div_times_less_eq_dividend mult_le_mono1 order_trans)
    then have "0 < rows_in s i" using STANDARD_VECTOR_SIZE_pos unfolding rows_in_def mult_Suc by linarith
    moreover have si: "slot_inv (rows_in n i) (vector_info m ! i)" "rows_in s i \<le> rows_in n i" using inv i(1) s(1) by (auto simp: rvm_inv_def rows_in_def)
    moreover have "deleted v ! j = NOT_DELETED_ID" if "vector_info m ! i = Some (VectorInfo v)" "rows_in s i \<le> j" "j < ?N" for v j
    proof (cases "j < rows_in n i")
      case True
      then have "s \<le> i * ?N + j" "i * ?N + j < n" using that(2) rows_in_pos [OF that(3)] by (meson linorder_not_le)+
      then show ?thesis using s(2) [of "i * ?N + j"] that by (simp add: row_ids_at chunk_ids_def)
    next
      case False
      then show ?thesis using si(1) that by (auto simp: slot_inv_def)
    qed
    ultimately show ?thesis using const [OF i(1)]
      by (cases "vector_info m ! i") (auto simp: slot_inv_def cv_inv_def split: ChunkInfo.splits)
  qed
  have "rvm_inv s (m\<lparr>vector_info := vi\<rparr>)" using slot P vi(2) s(1) len(2) by (auto simp: rvm_inv_def slot_inv_def)
  moreover have "row_ids (m\<lparr>vector_info := vi\<rparr>) r = row_ids m r" if "r < s" for r
  proof -
    have "r + ?N \<le> s + (?N - 1)" using that STANDARD_VECTOR_SIZE_pos by linarith
    then have "r div ?N < ?a" unfolding a using div_le_mono [of "r + ?N" "s + (?N - 1)" ?N] div_add_self2 [of ?N r] by simp
    moreover have "r div ?N < ROW_GROUP_VECTOR_COUNT" using row_vector [of r] that s(1) len(2) by simp
    ultimately show ?thesis using P [of "r div ?N"] by (simp add: row_ids_def del: min_less_iff_conj)
  qed
  ultimately show ?thesis using run by auto
qed

section \<open>Deleting\<close>

lemma to_vector_info_ok:
  assumes "slot_inv k slot" "k \<le> STANDARD_VECTOR_SIZE" "\<And>c. slot = Some (ConstantInfo c) \<Longrightarrow> cc_delete_id c \<noteq> 0"
  shows "slot_inv k (Some (VectorInfo (to_vector_info vs slot)))"
    and "j < STANDARD_VECTOR_SIZE \<Longrightarrow> (inserted (to_vector_info vs slot) ! j, deleted (to_vector_info vs slot) ! j) = chunk_ids slot j"
  using assms
  by (cases slot; auto simp: to_vector_info_def slot_inv_def cv_inv_def ChunkVectorInfo_new_def chunk_ids_def split: ChunkInfo.splits)+

lemma set_slot_ids:
  assumes "i < length (vector_info m)"
  shows "row_ids (set_slot i v m) r
    = (if r div STANDARD_VECTOR_SIZE = i then (inserted v ! (r mod STANDARD_VECTOR_SIZE), deleted v ! (r mod STANDARD_VECTOR_SIZE)) else row_ids m r)"
  using assms by (auto simp: row_ids_def set_slot_def chunk_ids_def)

lemma set_slot_inv:
  assumes "rvm_inv n m" "slot_inv (rows_in n i) (Some (VectorInfo v))"
  shows "rvm_inv n (set_slot i v m)"
proof -
  have "slot_inv (rows_in n i') ((vector_info m)[i := Some (VectorInfo v)] ! i')" if "i' < ROW_GROUP_VECTOR_COUNT" for i'
    using assms that by (cases "i' = i") (simp_all add: rvm_inv_def)
  then show ?thesis using assms(1) by (simp add: rvm_inv_def set_slot_def)
qed

definition marked :: "nat \<Rightarrow> RowVersionManager \<Rightarrow> bool" where
  "marked i m \<longleftrightarrow> (\<exists>v. vector_info m ! i = Some (VectorInfo v) \<and> any_deleted v)"

lemma rvm_inv_changed [simp]: "rvm_inv n (m\<lparr>has_changes := b\<rparr>) = rvm_inv n m" "row_ids (m\<lparr>has_changes := b\<rparr>) = row_ids m"
  "marked i (m\<lparr>has_changes := b\<rparr>) = marked i m"
  by (auto simp: rvm_inv_def row_ids_def marked_def)

lemma DeleteRows_ok:
  assumes inv: "rvm_inv n m" and i: "i < ROW_GROUP_VECTOR_COUNT" and rows: "rows \<noteq> []"
    "\<And>j. j \<in> set rows \<Longrightarrow> j < rows_in n i \<and> snd (row_ids m (i * STANDARD_VECTOR_SIZE + j)) \<noteq> 0" and tid: "tid \<noteq> NOT_DELETED_ID"
    and run: "DeleteRows i tid rows (length rows) m = ((m', rows', k), ex)"
  shows "\<exists>j. rvm_inv n m' \<and> marked i m' \<and> (\<forall>i'. i' \<noteq> i \<longrightarrow> marked i' m' = marked i' m)
    \<and> (\<forall>r<ROW_GROUP_SIZE. row_ids m' r = (if r div STANDARD_VECTOR_SIZE = i \<and> r mod STANDARD_VECTOR_SIZE \<in> set (take j rows)
          then (fst (row_ids m r), tid) else row_ids m r))
    \<and> (case ex of None \<Rightarrow> j = length rows
       | Some x \<Rightarrow> x = TransactionException \<and> j < length rows \<and> snd (row_ids m (i * STANDARD_VECTOR_SIZE + rows ! j)) \<notin> {tid, NOT_DELETED_ID})
    \<and> k \<le> length rows' \<and> distinct (take k rows')
    \<and> set (take k rows') = {q \<in> set (take j rows). snd (row_ids m (i * STANDARD_VECTOR_SIZE + q)) = NOT_DELETED_ID}
    \<and> (\<forall>q \<in> set (take j rows). snd (row_ids m (i * STANDARD_VECTOR_SIZE + q)) \<in> {tid, NOT_DELETED_ID})"
proof -
  let ?N = STANDARD_VECTOR_SIZE and ?m = "m\<lparr>has_changes := True\<rparr>"
  let ?v = "to_vector_info (rvm_start m + i * STANDARD_VECTOR_SIZE) (vector_info m ! i)"
  have len: "length (vector_info m) = ROW_GROUP_VECTOR_COUNT" and si: "slot_inv (rows_in n i) (vector_info m ! i)" using inv i by (auto simp: rvm_inv_def)
  have small: "\<And>j. j \<in> set rows \<Longrightarrow> j < ?N" using rows(2) by (auto simp: rows_in_def)
  have "cc_delete_id c \<noteq> 0" if "vector_info m ! i = Some (ConstantInfo c)" for c
    using rows(2) [of "hd rows"] small [of "hd rows"] rows(1) that by (simp add: row_ids_at chunk_ids_def)
  note tv = to_vector_info_ok [OF si _ this, where vs = "rvm_start m + i * ?N"]
  have v: "cv_inv (rows_in n i) ?v" "\<And>j. rows_in n i \<le> j \<Longrightarrow> j < ?N \<Longrightarrow> deleted ?v ! j = NOT_DELETED_ID"
    using tv(1) by (auto simp: slot_inv_def rows_in_def)
  have ids: "(inserted ?v ! j, deleted ?v ! j) = row_ids m (i * ?N + j)" if "j < ?N" for j
    using tv(2) that by (simp add: row_ids_at rows_in_def)
  have del: "deleted ?v ! j = snd (row_ids m (i * ?N + j))" if "j < ?N" for j using ids [OF that] by (metis snd_conv)
  have g: "GetVectorInfo i ?m = Inr ?v" using i len by (simp add: GetVectorInfo_def GetChunkInfo_def)
  obtain v' where d: "cv_Delete tid rows (length rows) ?v = ((v', rows', k), ex)" and m': "m' = set_slot i v' ?m"
    using run g by (auto simp: DeleteRows_def Let_def split: prod.splits)
  obtain j where j: "delete_outcome tid ?v rows (length rows) j ((v', rows', k), ex)"
    using cv_Delete_ok [OF v(1) le_refl _ tid, of rows] small d by auto
  then have di: "delete_inv tid ?v rows j (v', rows', k)" by (simp add: delete_outcome_def)
  note D = delete_invD [OF di]
  have dl: "length (deleted ?v) = ?N" using v(1) by (simp add: cv_inv_def)
  have jl: "j \<le> length rows" using j by (simp add: delete_outcome_def)
  have tk: "set (take j rows) \<subseteq> set rows" by (rule set_take_subset)
  have slot': "slot_inv (rows_in n i) (Some (VectorInfo v'))"
    using delete_inv_cv_inv [OF v(1) di] v(2) D(10) dl tk rows(2) by (fastforce simp: slot_inv_def)
  have "rvm_inv n m'" unfolding m' using set_slot_inv [OF _ slot'] inv by simp
  moreover have "marked i m'" "\<And>i'. i' \<noteq> i \<Longrightarrow> marked i' m' = marked i' m"
    unfolding m' marked_def using D(4) i len by (auto simp: set_slot_def)
  moreover have "row_ids m' r = (if r div ?N = i \<and> r mod ?N \<in> set (take j rows) then (fst (row_ids m r), tid) else row_ids m r)" for r
  proof -
    have "r div ?N = i \<Longrightarrow> i * ?N + r mod ?N = r" by (metis div_mult_mod_eq)
    then show ?thesis using set_slot_ids [of i ?m v' r] i len ids [of "r mod ?N"] D(1) D(10) [of "r mod ?N"] dl
      unfolding m' by (auto simp: prod_eq_iff)
  qed
  moreover have "case ex of None \<Rightarrow> j = length rows
       | Some x \<Rightarrow> x = TransactionException \<and> j < length rows \<and> snd (row_ids m (i * ?N + rows ! j)) \<notin> {tid, NOT_DELETED_ID}"
    using j small del by (auto simp: delete_outcome_def split: option.splits dest!: nth_mem)
  moreover have "set (take k rows') = {q \<in> set (take j rows). snd (row_ids m (i * ?N + q)) = NOT_DELETED_ID}"
  proof -
    have "deleted ?v ! q \<noteq> tid \<longleftrightarrow> snd (row_ids m (i * ?N + q)) = NOT_DELETED_ID" if "q \<in> set (take j rows)" for q
      using D(11) [OF that] del [of q] small [of q] tk that tid by auto
    then show ?thesis unfolding D(9) by blast
  qed
  moreover have "snd (row_ids m (i * ?N + q)) \<in> {tid, NOT_DELETED_ID}" if "q \<in> set (take j rows)" for q
    using D(11) [OF that] del [of q] small [of q] tk that by auto
  moreover have "k \<le> length rows'" using D(6,7) jl by simp
  ultimately show ?thesis using D(8) by blast
qed

lemma rvm_CommitDelete_ok:
  assumes inv: "rvm_inv n m" and i: "i < ROW_GROUP_VECTOR_COUNT" and marked: "marked i m"
    and rows: "\<And>j. j \<in> set (rows_of d) \<Longrightarrow> j < rows_in n i" "\<not> is_consecutive d \<longrightarrow> di_count d \<le> length (di_rows d)"
  shows "\<exists>m'. rvm_CommitDelete i cid d m = Inr m' \<and> rvm_inv n m' \<and> (\<forall>i'. marked i' m' = marked i' m)
    \<and> (\<forall>r<ROW_GROUP_SIZE. row_ids m' r = (if r div STANDARD_VECTOR_SIZE = i \<and> r mod STANDARD_VECTOR_SIZE \<in> set (rows_of d)
          then (fst (row_ids m r), cid) else row_ids m r))"
proof -
  let ?N = STANDARD_VECTOR_SIZE and ?m = "m\<lparr>has_changes := True\<rparr>"
  obtain v where v: "vector_info m ! i = Some (VectorInfo v)" "any_deleted v" using marked by (auto simp: marked_def)
  have len: "length (vector_info m) = ROW_GROUP_VECTOR_COUNT" and si: "cv_inv (rows_in n i) v"
    "\<And>j. rows_in n i \<le> j \<Longrightarrow> j < ?N \<Longrightarrow> deleted v ! j = NOT_DELETED_ID" using inv i v(1) by (force simp: rvm_inv_def slot_inv_def)+
  have g: "GetVectorInfo i ?m = Inr v" using i len v(1) by (simp add: GetVectorInfo_def GetChunkInfo_def to_vector_info_def)
  have "\<forall>r \<in> set (rows_of d). r < ?N" using rows(1) by (auto simp: rows_in_def)
  from cv_CommitDelete_ok [OF si(1) this, of cid] rows(2) v(2) obtain v' where
    v': "cv_CommitDelete cid d v = Inr v'" "cv_inv (rows_in n i) v'" "inserted v' = inserted v" "any_deleted v'"
    "\<And>j. j < ?N \<Longrightarrow> deleted v' ! j = (if j \<in> set (rows_of d) then cid else deleted v ! j)" by auto
  have run: "rvm_CommitDelete i cid d m = Inr (set_slot i v' ?m)" using g v'(1) by (simp add: rvm_CommitDelete_def Let_def)
  have "slot_inv (rows_in n i) (Some (VectorInfo v'))" using v'(2,5) si(2) rows(1) by (fastforce simp: slot_inv_def)
  then have "rvm_inv n (set_slot i v' ?m)" using set_slot_inv [of n ?m] inv by simp
  moreover have "marked i' (set_slot i v' ?m) = marked i' m" for i'
    using v(2) v'(4) i len marked by (cases "i' = i") (auto simp: marked_def set_slot_def)
  moreover have "row_ids (set_slot i v' ?m) r = (if r div ?N = i \<and> r mod ?N \<in> set (rows_of d) then (fst (row_ids m r), cid) else row_ids m r)" for r
    using set_slot_ids [of i ?m v' r] i len v(1) v'(3) v'(5) [of "r mod ?N"] by (auto simp: row_ids_def chunk_ids_def)
  ultimately show ?thesis using run by blast
qed

section \<open>Reading a checkpoint back\<close>

text \<open>Writers only append to the stream.\<close>

lemma fold_res_out:
  assumes "\<And>i out. body i out = bind_res (w i) (\<lambda>bs. Inr (out @ bs))"
  shows "fold_res body is out = bind_res (fold_res body is []) (\<lambda>bs. Inr (out @ bs))"
proof (induction "is" arbitrary: out)
  case (Cons i "is")
  show ?case
  proof (cases "w i")
    case (Inr b)
    then have "fold_res body (i # is) o' = bind_res (fold_res body is []) (\<lambda>bs. Inr (o' @ b @ bs))" for o'
      using Cons [of "o' @ b"] assms [of i o'] by simp
    from this [of out] this [of "[]"] show ?thesis by (cases "fold_res body is []") simp_all
  qed (simp add: assms [of i])
qed simp

lemma write_rows_out: "write_rows m k v n out = bind_res (write_rows m k v n []) (\<lambda>bs. Inr (out @ bs))"
  unfolding write_rows_def
proof (rule fold_res_out)
  fix i out
  show "bind_res (RowIsValid m i) (\<lambda>b. Inr (if b = v then Write_uint k i out else out))
      = bind_res (bind_res (RowIsValid m i) (\<lambda>b. Inr (if b = v then le_bytes k i else []))) (\<lambda>bs. Inr (out @ bs))"
    by (cases "RowIsValid m i") (simp_all add: Write_uint_def)
qed

lemma Write_mask_out: "Write_mask m n out = bind_res (Write_mask m n []) (\<lambda>bs. Inr (out @ bs))"
proof (cases "CountValid m n")
  case (Inr c)
  let ?k = "if n \<ge> 2 ^ 16 - 1 then 4 else 2 :: nat"
  have w: "write_rows m ?k v n (Write_uint 4 x (Write_uint 1 y out)) = bind_res (write_rows m ?k v n (Write_uint 4 x (Write_uint 1 y []))) (\<lambda>bs. Inr (out @ bs))" for v x y
    using write_rows_out [of m ?k v n "Write_uint 4 x (Write_uint 1 y out)"] write_rows_out [of m ?k v n "Write_uint 4 x (Write_uint 1 y [])"]
    by (cases "write_rows m ?k v n []") (simp_all add: Write_uint_def)
  have g: "bind_res (if b = 0 then Inr [] else GetData m) (\<lambda>es. if length es < EntryCount n then Inl OutOfBounds
        else Inr (Write_uint 1 0 out @ words_bytes (take (EntryCount n) es)))
      = bind_res (bind_res (if b = 0 then Inr [] else GetData m) (\<lambda>es. if length es < EntryCount n then Inl OutOfBounds
        else Inr (Write_uint 1 0 [] @ words_bytes (take (EntryCount n) es)))) (\<lambda>bs. Inr (out @ bs))" for b :: nat
    by (cases "if b = 0 then Inr [] else GetData m") (simp_all add: Write_uint_def)
  show ?thesis unfolding Write_mask_def Inr bind_res_Inr Let_def if_distrib [of "\<lambda>x. bind_res x (\<lambda>bs. Inr (out @ bs))"]
      bind_res_Inl w [symmetric] g [symmetric] ..
qed (simp add: Write_mask_def)

lemma cv_Write_out: "cv_Write info out = bind_res (cv_Write info []) (\<lambda>bs. Inr (out @ bs))"
proof -
  have m: "Write_mask mask n (Write_uint 8 x (Write_uint 1 1 out)) = bind_res (Write_mask mask n (Write_uint 8 x (Write_uint 1 1 []))) (\<lambda>bs. Inr (out @ bs))" for mask n x
    using Write_mask_out [of mask n "Write_uint 8 x (Write_uint 1 1 out)"] Write_mask_out [of mask n "Write_uint 8 x (Write_uint 1 1 [])"]
    by (cases "Write_mask mask n []") (simp_all add: Write_uint_def)
  let ?g = "cv_GetSelVector TransactionVersionOperator (TRANSACTION_ID_START - 1) (- 1) info (Initialize_count STANDARD_VECTOR_SIZE) STANDARD_VECTOR_SIZE"
  show ?thesis
  proof (cases ?g)
    case (Inr r)
    obtain cnt sel where r: "r = (cnt, sel)" by (cases r)
    let ?f = "fold_res (\<lambda>i m. bind_res (get_index sel i) (\<lambda>r. SetInvalid r m)) [0..<cnt] (Initialize_mask STANDARD_VECTOR_SIZE)"
    show ?thesis using Inr m unfolding cv_Write_def r by (cases ?f) (simp_all add: Write_uint_def)
  qed (simp add: cv_Write_def)
qed

lemma Write_Read_info:
  assumes inv: "slot_inv k (Some info)" and start: "(case info of ConstantInfo c \<Rightarrow> cc_start c | VectorInfo v \<Rightarrow> cv_start v) < 2 ^ 64"
    and del: "HasDeletes info" and ins: "\<And>j. j < k \<Longrightarrow> fst (chunk_ids (Some info) j) < TRANSACTION_ID_START - 1"
  shows "\<exists>bs. (\<forall>out. Write_info info out = Inr (out @ bs)) \<and> (\<forall>rest. \<exists>res. Read_info (bs @ rest) = Inr (res, rest)
    \<and> (\<forall>t j. valid_txn t \<and> 0 < start_time t \<and> j < k \<longrightarrow> Fetch_opt t j res = Inr (case_prod committed_row (chunk_ids (Some info) j))))"
proof (cases info)
  case (ConstantInfo c)
  have k: "0 < k" "cc_delete_id c \<in> {NOT_DELETED_ID, 0}" using inv ConstantInfo by (auto simp: slot_inv_def)
  have t: "(0::64 word) < TRANSACTION_ID_START - 1" "\<not> NOT_DELETED_ID < TRANSACTION_ID_START" "\<not> TRANSACTION_ID_START \<le> x" if "x < TRANSACTION_ID_START - 1" for x
  proof -
    show "(0::64 word) < TRANSACTION_ID_START - 1" "\<not> NOT_DELETED_ID < TRANSACTION_ID_START" by (simp_all add: TRANSACTION_ID_START_def NOT_DELETED_ID_def)
    have "TRANSACTION_ID_START - 1 < TRANSACTION_ID_START" by (simp add: TRANSACTION_ID_START_def)
    then show "\<not> TRANSACTION_ID_START \<le> x" using that by order
  qed
  have i: "cc_insert_id c < TRANSACTION_ID_START - 1" using ins [OF k(1)] ConstantInfo by (simp add: chunk_ids_def)
  have "cc_delete_id c = 0" using del ConstantInfo k(2) t [OF i] by (auto simp: HasDeletes_def cc_HasDeletes_def)
  then have c: "\<not> committed_row (cc_insert_id c) (cc_delete_id c)" using t(1) [OF i] by (simp add: committed_row_def)
  let ?bs = "le_bytes 1 0 @ le_bytes 8 (cc_start c)"
  have "Write_info info out = Inr (out @ ?bs)" for out using ConstantInfo by (simp add: Write_info_def cc_Write_def Write_uint_def)
  moreover have "Read_info (?bs @ rest) = Inr (Some (ConstantInfo \<lparr>cc_start = cc_start c, cc_insert_id = 0, cc_delete_id = 0\<rparr>), rest)" for rest
    using start ConstantInfo by (simp add: Read_info_def cc_Read_def ChunkConstantInfo_new_def)
  moreover have "Fetch_opt t j (Some (ConstantInfo \<lparr>cc_start = x, cc_insert_id = 0, cc_delete_id = 0\<rparr>)) = Inr False" for t j x
    by (simp add: Fetch_opt_def Fetch_def cc_Fetch_def)
  ultimately show ?thesis using c ConstantInfo by (intro exI [of _ ?bs]) (auto simp: chunk_ids_def)
next
  case (VectorInfo v)
  then have v: "cv_inv k v" "cv_start v < 2 ^ 64" "k \<le> STANDARD_VECTOR_SIZE" using inv start by (auto simp: slot_inv_def cv_inv_def)
  obtain bs where bs: "cv_Write v [] = Inr bs" using cv_Write_Read [OF v(1,2), of "[]" "[]"] by auto
  have "Write_info info out = Inr (out @ bs)" for out using cv_Write_out [of v out] bs VectorInfo by (simp add: Write_info_def)
  moreover have "\<exists>res. Read_info (bs @ rest) = Inr (res, rest)
      \<and> (\<forall>t j. valid_txn t \<and> 0 < start_time t \<and> j < k \<longrightarrow> Fetch_opt t j res = Inr (case_prod committed_row (chunk_ids (Some info) j)))" for rest
  proof -
    obtain res where "Read_info (bs @ rest) = Inr (res, rest)"
      "\<forall>t r. valid_txn t \<and> 0 < start_time t \<and> r < STANDARD_VECTOR_SIZE \<longrightarrow> Fetch_opt t r res = Inr (checkpoint_rows v r)"
      using cv_Write_Read [OF v(1,2), of "[]" rest] bs by auto
    then show ?thesis using checkpoint_rows_committed [OF v(1)] v(3) VectorInfo by (intro exI [of _ res]) (auto simp: chunk_ids_def)
  qed
  ultimately show ?thesis by blast
qed

text \<open>
  The list of entries: written one after the other, read back into the array. \<open>R i\<close> is what is known
  of the information that is read back for vector \<open>i\<close>.
\<close>

definition entry_roundtrip :: "(idx_t \<Rightarrow> ChunkInfo option \<Rightarrow> bool) \<Rightarrow> idx_t \<Rightarrow> ChunkInfo \<Rightarrow> bool" where
  "entry_roundtrip R i info \<longleftrightarrow> i < ROW_GROUP_VECTOR_COUNT \<and> (\<exists>bs. (\<forall>out. Write_info info out = Inr (out @ bs))
     \<and> (\<forall>rest. \<exists>res. Read_info (bs @ rest) = Inr (res, rest) \<and> R i res))"

lemma entries_roundtrip:
  assumes "distinct (map fst es)" "\<And>i info. (i, info) \<in> set es \<Longrightarrow> entry_roundtrip R i info"
  shows "\<exists>bs. (\<forall>out. write_entries es out = Inr (out @ bs)) \<and> (\<forall>m rest. length (vector_info m) = ROW_GROUP_VECTOR_COUNT \<longrightarrow>
    (\<exists>vi. read_entries (length es) (bs @ rest) m = Inr (m\<lparr>vector_info := vi\<rparr>) \<and> length vi = ROW_GROUP_VECTOR_COUNT
      \<and> (\<forall>i \<in> fst ` set es. R i (vi ! i)) \<and> (\<forall>i. i \<notin> fst ` set es \<longrightarrow> vi ! i = vector_info m ! i)))"
  using assms
proof (induction es)
  case Nil
  have "\<exists>vi. m = m\<lparr>vector_info := vi\<rparr> \<and> length vi = ROW_GROUP_VECTOR_COUNT \<and> (\<forall>i. vi ! i = vector_info m ! i)"
    if "length (vector_info m) = ROW_GROUP_VECTOR_COUNT" for m :: RowVersionManager
    using that by (intro exI [of _ "vector_info m"]) simp
  then show ?case by (intro exI [of _ "[]"]) (auto simp: write_entries_def)
next
  case (Cons e es)
  obtain i info where e: "e = (i, info)" by (cases e)
  obtain b where i: "i < ROW_GROUP_VECTOR_COUNT" and b: "\<And>out. Write_info info out = Inr (out @ b)"
    "\<And>rest. \<exists>res. Read_info (b @ rest) = Inr (res, rest) \<and> R i res" using Cons.prems(2) [of i info] e by (auto simp: entry_roundtrip_def)
  have i8: "i < 256 ^ 8" using i by (simp add: ROW_GROUP_VECTOR_COUNT_def ROW_GROUP_SIZE_def STANDARD_VECTOR_SIZE_def)
  obtain bs where bs: "\<And>out. write_entries es out = Inr (out @ bs)" and IH: "\<And>m rest. length (vector_info m) = ROW_GROUP_VECTOR_COUNT \<Longrightarrow>
    (\<exists>vi. read_entries (length es) (bs @ rest) m = Inr (m\<lparr>vector_info := vi\<rparr>) \<and> length vi = ROW_GROUP_VECTOR_COUNT
      \<and> (\<forall>i \<in> fst ` set es. R i (vi ! i)) \<and> (\<forall>i. i \<notin> fst ` set es \<longrightarrow> vi ! i = vector_info m ! i))"
    using Cons.IH Cons.prems by auto
  let ?bs = "le_bytes 8 i @ b @ bs"
  have "write_entries (e # es) out = Inr (out @ ?bs)" for out
    using bs [of "out @ le_bytes 8 i @ b"] b(1) e by (simp add: write_entries_def Write_uint_def)
  moreover have "\<exists>vi. read_entries (length (e # es)) (?bs @ rest) m = Inr (m\<lparr>vector_info := vi\<rparr>)
      \<and> length vi = ROW_GROUP_VECTOR_COUNT \<and> (\<forall>i \<in> fst ` set (e # es). R i (vi ! i))
      \<and> (\<forall>i. i \<notin> fst ` set (e # es) \<longrightarrow> vi ! i = vector_info m ! i)" if len: "length (vector_info m) = ROW_GROUP_VECTOR_COUNT" for m rest
  proof -
    obtain res where res: "Read_info (b @ bs @ rest) = Inr (res, bs @ rest)" "R i res" using b(2) [of "bs @ rest"] by blast
    let ?m = "m\<lparr>vector_info := (vector_info m)[i := res]\<rparr>"
    obtain vi where vi: "read_entries (length es) (bs @ rest) ?m = Inr (?m\<lparr>vector_info := vi\<rparr>)" "length vi = ROW_GROUP_VECTOR_COUNT"
      "\<forall>i \<in> fst ` set es. R i (vi ! i)" "\<forall>i. i \<notin> fst ` set es \<longrightarrow> vi ! i = vector_info ?m ! i"
      using IH [of ?m rest] len by auto
    have "read_entries (length (e # es)) (?bs @ rest) m = Inr (m\<lparr>vector_info := vi\<rparr>)"
      using vi(1) res(1) i i8 len by (simp add: update_slot_def GetChunkInfo_def)
    moreover have "i \<notin> fst ` set es" using Cons.prems(1) e by simp
    then have "vi ! i = res" using vi(4) len i by simp
    ultimately show ?thesis using vi(2-4) res(2) e by (intro exI [of _ vi]) auto
  qed
  ultimately show ?case by blast
qed

definition storable :: "RowVersionManager \<Rightarrow> bool" where
  "storable m \<longleftrightarrow> (\<forall>info. Some info \<in> set (vector_info m) \<longrightarrow>
     (case info of ConstantInfo c \<Rightarrow> cc_start c | VectorInfo v \<Rightarrow> cv_start v) < 2 ^ 64)"

text \<open>What readers see when the version information of a row group is absent.\<close>

definition rvm_Fetch_opt :: "TransactionData \<Rightarrow> idx_t \<Rightarrow> RowVersionManager option \<Rightarrow> exc + bool" where
  "rvm_Fetch_opt t row mo = (case mo of None \<Rightarrow> Inr True | Some m \<Rightarrow> rvm_Fetch t row m)"

lemma to_serialize_set:
  "(i, info) \<in> set (to_serialize m) \<longleftrightarrow> i < length (vector_info m) \<and> vector_info m ! i = Some info \<and> HasDeletes info"
  by (auto simp: to_serialize_def split: option.splits if_splits)

lemma to_serialize_distinct: "distinct (map fst (to_serialize m))"
proof -
  have "map fst (concat (map (\<lambda>i. case vector_info m ! i of None \<Rightarrow> [] | Some info \<Rightarrow> if HasDeletes info then [(i, info)] else []) is))
      = filter (\<lambda>i. case vector_info m ! i of None \<Rightarrow> False | Some info \<Rightarrow> HasDeletes info) is" for "is"
    by (induction "is") (auto split: option.splits)
  then show ?thesis by (simp add: to_serialize_def)
qed

lemma no_deletes_committed:
  assumes inv: "slot_inv k slot" and j: "j < k" and ins: "fst (chunk_ids slot j) < TRANSACTION_ID_START - 1"
    and del: "case slot of None \<Rightarrow> True | Some info \<Rightarrow> \<not> HasDeletes info"
  shows "case_prod committed_row (chunk_ids slot j)"
proof -
  have t: "\<not> (NOT_DELETED_ID < TRANSACTION_ID_START - 1 \<or> NOT_DELETED_ID = - 1)" "0 < TRANSACTION_ID_START"
    by (simp_all add: TRANSACTION_ID_START_def NOT_DELETED_ID_def)
  have "snd (chunk_ids slot j) = NOT_DELETED_ID"
    using inv j del t(2) by (cases slot) (auto simp: chunk_ids_def slot_inv_def HasDeletes_def cc_HasDeletes_def cv_HasDeletes_def cv_inv_def split: ChunkInfo.splits)
  then show ?thesis using ins t(1) by (cases "chunk_ids slot j") (simp add: committed_row_def)
qed

text \<open>What a reader of the stored information sees of the rows of vector \<open>i\<close>.\<close>

definition reads_back :: "nat \<Rightarrow> RowVersionManager \<Rightarrow> idx_t \<Rightarrow> ChunkInfo option \<Rightarrow> bool" where
  "reads_back n m i res \<longleftrightarrow> (\<forall>t j. valid_txn t \<and> 0 < start_time t \<and> j < rows_in n i \<longrightarrow>
     Fetch_opt t j res = Inr (case_prod committed_row (chunk_ids (vector_info m ! i) j)))"

lemma reads_back_Fetch:
  assumes "length (vector_info m') = ROW_GROUP_VECTOR_COUNT" "reads_back n m (r div STANDARD_VECTOR_SIZE) (vector_info m' ! (r div STANDARD_VECTOR_SIZE))"
    and "valid_txn t" "0 < start_time t" "r < n" "n \<le> ROW_GROUP_SIZE"
  shows "rvm_Fetch t r m' = Inr (case_prod committed_row (row_ids m r))"
proof -
  have "r div STANDARD_VECTOR_SIZE < ROW_GROUP_VECTOR_COUNT" using assms(5,6) row_vector [of r] by simp
  then show ?thesis using assms row_in_vector [OF assms(5)]
    by (simp add: reads_back_def row_ids_def rvm_Fetch_def GetChunkInfo_def Let_def Fetch_opt_def minus_div_mult_eq_mod split: option.splits)
qed

lemma stored_entries:
  assumes inv: "rvm_inv n m" and st: "storable m" and ins: "\<And>r. r < n \<Longrightarrow> fst (row_ids m r) < TRANSACTION_ID_START - 1"
  shows "(i, info) \<in> set (to_serialize m) \<Longrightarrow> entry_roundtrip (reads_back n m) i info"
    and "i < ROW_GROUP_VECTOR_COUNT \<Longrightarrow> i \<notin> fst ` set (to_serialize m) \<Longrightarrow> reads_back n m i None"
proof -
  let ?N = STANDARD_VECTOR_SIZE
  have len: "length (vector_info m) = ROW_GROUP_VECTOR_COUNT" using inv by (simp add: rvm_inv_def)
  have si: "slot_inv (rows_in n i) (vector_info m ! i)" if "i < ROW_GROUP_VECTOR_COUNT" for i using inv that by (simp add: rvm_inv_def)
  have insj: "fst (chunk_ids (vector_info m ! i) j) < TRANSACTION_ID_START - 1" if "j < rows_in n i" for i j
  proof -
    have "j < ?N" using that by (simp add: rows_in_def)
    then show ?thesis using ins [of "i * ?N + j"] rows_in_pos [of j n i] that by (simp add: row_ids_at)
  qed
  show "entry_roundtrip (reads_back n m) i info" if "(i, info) \<in> set (to_serialize m)"
  proof -
    have i: "i < ROW_GROUP_VECTOR_COUNT" "vector_info m ! i = Some info" "HasDeletes info" using that len by (auto simp: to_serialize_set)
    then have "(case info of ConstantInfo c \<Rightarrow> cc_start c | VectorInfo v \<Rightarrow> cv_start v) < 2 ^ 64"
      using st len nth_mem [of i "vector_info m"] by (simp add: storable_def)
    from Write_Read_info [OF si [OF i(1), unfolded i(2)] this i(3)] insj [of _ i] i(1,2) show ?thesis
      by (simp add: entry_roundtrip_def reads_back_def)
  qed
  show "reads_back n m i None" if i: "i < ROW_GROUP_VECTOR_COUNT" "i \<notin> fst ` set (to_serialize m)"
  proof -
    have "case vector_info m ! i of None \<Rightarrow> True | Some info \<Rightarrow> \<not> HasDeletes info"
      using i len to_serialize_set [of i _ m] by (force split: option.split)
    then show ?thesis using no_deletes_committed [OF si [OF i(1)] _ insj] by (simp add: reads_back_def Fetch_opt_def)
  qed
qed

lemma Checkpoint_ok:
  assumes inv: "rvm_inv n m" and st: "storable m" and ins: "\<And>r. r < n \<Longrightarrow> fst (row_ids m r) < TRANSACTION_ID_START - 1"
    and fresh: "has_changes m \<or> storage_pointers m = None"
  shows "\<exists>p m'. Checkpoint m = Inr (p, m') \<and> row_ids m' = row_ids m \<and> (\<exists>mo. rvm_Deserialize p start = Inr mo
    \<and> (\<forall>t r. valid_txn t \<and> 0 < start_time t \<and> r < n \<longrightarrow> rvm_Fetch_opt t r mo = Inr (case_prod committed_row (row_ids m r))))"
proof -
  let ?es = "to_serialize m" and ?m0 = "RowVersionManager_new start"
  have len: "length (vector_info m) = ROW_GROUP_VECTOR_COUNT" "n \<le> ROW_GROUP_SIZE" using inv by (auto simp: rvm_inv_def)
  note stored = stored_entries [OF inv st ins]
  show ?thesis
  proof (cases "?es = []")
    case True
    then have run: "Checkpoint m = Inr (None, m)" using fresh by (auto simp: Checkpoint_def Let_def)
    have "reads_back n m i None" if "i < ROW_GROUP_VECTOR_COUNT" for i using stored(2) [OF _ that] True by simp
    then have "case_prod committed_row (row_ids m r)" if "r < n" "valid_txn t" "0 < start_time t" for r t
      using that row_vector [of r] row_in_vector [OF that(1)] len(2) by (fastforce simp: reads_back_def row_ids_def Fetch_opt_def)
    then show ?thesis using run by (force simp: rvm_Deserialize_def rvm_Fetch_opt_def)
  next
    case False
    have es: "length ?es < 256 ^ 8"
    proof -
      have "length ?es = card (set (map fst ?es))" using distinct_card [OF to_serialize_distinct [of m]] by simp
      also have "\<dots> \<le> card {..<ROW_GROUP_VECTOR_COUNT}" using len by (intro card_mono) (auto simp: to_serialize_set)
      finally show ?thesis by (simp add: ROW_GROUP_VECTOR_COUNT_def ROW_GROUP_SIZE_def STANDARD_VECTOR_SIZE_def)
    qed
    obtain bs where bs: "\<And>out. write_entries ?es out = Inr (out @ bs)" and rd: "\<And>m0 rest. length (vector_info m0) = ROW_GROUP_VECTOR_COUNT \<Longrightarrow>
        (\<exists>vi. read_entries (length ?es) (bs @ rest) m0 = Inr (m0\<lparr>vector_info := vi\<rparr>) \<and> length vi = ROW_GROUP_VECTOR_COUNT
          \<and> (\<forall>i \<in> fst ` set ?es. reads_back n m i (vi ! i)) \<and> (\<forall>i. i \<notin> fst ` set ?es \<longrightarrow> vi ! i = vector_info m0 ! i))"
      using entries_roundtrip [of ?es "reads_back n m", OF to_serialize_distinct stored(1)] by blast
    let ?out = "le_bytes 8 (length ?es) @ bs"
    let ?m1 = "?m0\<lparr>storage_pointers := Some ?out\<rparr>"
    have "length (vector_info ?m1) = ROW_GROUP_VECTOR_COUNT" by (simp add: RowVersionManager_new_def)
    from rd [OF this, of "[]"] obtain vi where vi: "read_entries (length ?es) bs ?m1 = Inr (?m1\<lparr>vector_info := vi\<rparr>)" "length vi = ROW_GROUP_VECTOR_COUNT"
      "\<And>i. i \<in> fst ` set ?es \<Longrightarrow> reads_back n m i (vi ! i)" "\<And>i. i \<notin> fst ` set ?es \<Longrightarrow> vi ! i = vector_info ?m1 ! i" by auto
    have rb: "reads_back n m i (vi ! i)" if "i < ROW_GROUP_VECTOR_COUNT" for i
      using vi(3,4) [of i] stored(2) [OF _ that] that by (cases "i \<in> fst ` set ?es") (auto simp: RowVersionManager_new_def)
    let ?m' = "?m1\<lparr>vector_info := vi, has_changes := False\<rparr>"
    have "rvm_Deserialize (Some ?out) start = Inr (Some ?m')" using vi(1) es by (simp add: rvm_Deserialize_def)
    moreover have "rvm_Fetch_opt t r (Some ?m') = Inr (case_prod committed_row (row_ids m r))" if "valid_txn t" "0 < start_time t" "r < n" for t r
      using reads_back_Fetch [of ?m', OF _ _ that len(2)] rb vi(2) row_vector [of r] that(3) len(2) by (simp add: rvm_Fetch_opt_def)
    moreover have "Checkpoint m = Inr (Some ?out, m\<lparr>storage_pointers := Some ?out, has_changes := False\<rparr>)"
      using fresh False bs by (auto simp: Checkpoint_def Let_def Write_uint_def)
    moreover have "row_ids (m\<lparr>storage_pointers := Some ?out, has_changes := False\<rparr>) = row_ids m" by (auto simp: row_ids_def)
    ultimately show ?thesis by blast
  qed
qed

end
