(* ===== verification/Row_Group_Versions.thy ===== *)
theory Row_Group_Versions
  imports Row_Version_Manager
begin

text \<open>
  The version side of a row group, \<^verbatim>\<open>src/src/storage/table/row_group.cpp\<close>: lazily loaded deletes, the
  visibility of rows, appending, committing and reverting rows, and deleting rows by row id. The
  undo buffer (\<^verbatim>\<open>src/src/transaction/undo_buffer.cpp\<close>, \<^verbatim>\<open>commit_state.cpp\<close>, \<^verbatim>\<open>rollback_state.cpp\<close>)
  is the list of its entries in insertion order; of its entries the ones that change version
  information are represented.

  The column data of the row group is not part of the state: \<open>RevertAppend\<close> also truncates the
  columns, and no operation here reads them.
\<close>

section \<open>State and operations\<close>

record RowGroup =
  rg_start :: idx_t
  rg_count :: idx_t
  rg_version_info :: "RowVersionManager option"
  deletes_pointers :: "bytes option"
  deletes_is_loaded :: bool

definition RowGroup_load :: "idx_t \<Rightarrow> idx_t \<Rightarrow> bytes option \<Rightarrow> RowGroup" where
  "RowGroup_load row_start tuple_count pointers =
     \<lparr>rg_start = row_start, rg_count = tuple_count, rg_version_info = None, deletes_pointers = pointers, deletes_is_loaded = False\<rparr>"

definition HasUnloadedDeletes :: "RowGroup \<Rightarrow> bool" where
  "HasUnloadedDeletes g \<longleftrightarrow> deletes_pointers g \<noteq> None \<and> \<not> deletes_is_loaded g"

definition GetVersionInfo :: "RowGroup \<Rightarrow> exc + RowVersionManager option \<times> RowGroup" where
  "GetVersionInfo g =
     (if \<not> HasUnloadedDeletes g then Inr (rg_version_info g, g)
      else bind_res (rvm_Deserialize (deletes_pointers g) (rg_start g)) (\<lambda>v.
             Inr (v, g\<lparr>rg_version_info := v, deletes_is_loaded := True\<rparr>)))"

definition GetOrCreateVersionInfo :: "RowGroup \<Rightarrow> exc + RowVersionManager \<times> RowGroup" where
  "GetOrCreateVersionInfo g =
     bind_res (GetVersionInfo g) (\<lambda>(v, g).
       case v of Some m \<Rightarrow> Inr (m, g)
       | None \<Rightarrow> let m = RowVersionManager_new (rg_start g) in Inr (m, g\<lparr>rg_version_info := Some m\<rparr>))"

definition rg_GetSelVector ::
  "VersionOperator \<Rightarrow> transaction_t \<Rightarrow> transaction_t \<Rightarrow> idx_t \<Rightarrow> SelectionVector \<Rightarrow> idx_t \<Rightarrow> RowGroup
    \<Rightarrow> exc + (idx_t \<times> SelectionVector) \<times> RowGroup" where
  "rg_GetSelVector OP st tid vector_idx sel max_count g =
     bind_res (GetVersionInfo g) (\<lambda>(v, g).
       case v of None \<Rightarrow> Inr ((max_count, sel), g)
       | Some m \<Rightarrow> bind_res (rvm_GetSelVector OP st tid vector_idx sel max_count m) (\<lambda>res. Inr (res, g)))"

definition rg_Fetch :: "TransactionData \<Rightarrow> idx_t \<Rightarrow> RowGroup \<Rightarrow> exc + bool \<times> RowGroup" where
  "rg_Fetch t row g =
     bind_res (GetVersionInfo g) (\<lambda>(v, g).
       case v of None \<Rightarrow> Inr (True, g) | Some m \<Rightarrow> bind_res (rvm_Fetch t row m) (\<lambda>b. Inr (b, g)))"

definition GetCommittedRowCount :: "RowGroup \<Rightarrow> exc + idx_t \<times> RowGroup" where
  "GetCommittedRowCount g =
     bind_res (GetVersionInfo g) (\<lambda>(v, g).
       case v of None \<Rightarrow> Inr (rg_count g, g)
       | Some m \<Rightarrow> bind_res (rvm_GetCommittedDeletedCount (rg_count g) m) (\<lambda>k. Inr (rg_count g - k, g)))"

definition rg_AppendVersionInfo :: "transaction_t \<Rightarrow> idx_t \<Rightarrow> RowGroup \<Rightarrow> exc + RowGroup" where
  "rg_AppendVersionInfo tid cnt g =
     (let row_group_start = rg_count g;
          row_group_end = (if row_group_start + cnt > ROW_GROUP_SIZE then ROW_GROUP_SIZE else row_group_start + cnt)
      in bind_res (GetOrCreateVersionInfo g) (\<lambda>(m, g).
         bind_res (AppendVersionInfo tid row_group_start row_group_end m) (\<lambda>m.
           Inr (g\<lparr>rg_version_info := Some m, rg_count := row_group_end\<rparr>))))"

definition rg_CommitAppend :: "transaction_t \<Rightarrow> idx_t \<Rightarrow> idx_t \<Rightarrow> RowGroup \<Rightarrow> exc + RowGroup" where
  "rg_CommitAppend commit_id row_group_start cnt g =
     bind_res (GetOrCreateVersionInfo g) (\<lambda>(m, g).
       bind_res (rvm_CommitAppend commit_id row_group_start cnt m) (\<lambda>m. Inr (g\<lparr>rg_version_info := Some m\<rparr>)))"

text \<open>The row ids of a table are signed 64-bit numbers; a difference is taken as an unsigned one and wraps round.\<close>

definition sub_row :: "idx_t \<Rightarrow> idx_t \<Rightarrow> idx_t" where
  "sub_row a b = nat ((int a - int b) mod 2 ^ 64)"

text \<open>
  The row id of \<open>RevertAppend\<close> is one of the table. The code also calls \<open>RevertAppend\<close> of every column,
  which truncates the column data; the columns are not part of the state.
\<close>

definition rg_RevertAppend :: "idx_t \<Rightarrow> RowGroup \<Rightarrow> exc + RowGroup" where
  "rg_RevertAppend row_group_start g =
     bind_res (GetOrCreateVersionInfo g) (\<lambda>(m, g).
     bind_res (RevertAppend (sub_row row_group_start (rg_start g)) m) (\<lambda>m.
       Inr (g\<lparr>rg_version_info := Some m, rg_count := min (sub_row row_group_start (rg_start g)) (rg_count g)\<rparr>)))"

definition CheckpointDeletes :: "RowGroup \<Rightarrow> exc + bytes option \<times> RowGroup" where
  "CheckpointDeletes g =
     (if HasUnloadedDeletes g then Inr (deletes_pointers g, g)
      else case rg_version_info g of None \<Rightarrow> Inr (None, g)
           | Some m \<Rightarrow> bind_res (Checkpoint m) (\<lambda>(p, m). Inr (p, g\<lparr>rg_version_info := Some m\<rparr>)))"

definition MoveToCollection :: "idx_t \<Rightarrow> RowGroup \<Rightarrow> exc + RowGroup" where
  "MoveToCollection new_start g =
     (let g = g\<lparr>rg_start := new_start\<rparr>
      in if HasUnloadedDeletes g then Inr g
         else bind_res (GetVersionInfo g) (\<lambda>(v, g).
                case v of None \<Rightarrow> Inr g | Some m \<Rightarrow> bind_res (SetStart new_start m) (\<lambda>m. Inr (g\<lparr>rg_version_info := Some m\<rparr>))))"

section \<open>Deleting rows\<close>

text \<open>
  \<open>VersionDeleteState\<close> collects the rows of one vector at a time. \<open>del_rows\<close> is the part of the array
  \<open>rows\<close> that is in use, its length is the field \<open>count\<close>. The undo buffer is absent when
  the delete runs without a transaction. \<open>DeleteStep\<close> results keep the state when an exception is thrown.
\<close>

record VersionDeleteState =
  current_chunk :: idx_t
  del_rows :: "idx_t list"
  chunk_row :: idx_t
  delete_count :: idx_t
  del_group :: RowGroup
  undo_buffer :: "DeleteInfo list option"

definition INVALID_INDEX :: idx_t where
  "INVALID_INDEX = 2 ^ 64 - 1"

definition Flush :: "transaction_t \<Rightarrow> VersionDeleteState \<Rightarrow> VersionDeleteState \<times> exc option" where
  "Flush tid st =
     (if del_rows st = [] then (st, None)
      else case GetOrCreateVersionInfo (del_group st) of
        Inl e \<Rightarrow> (st, Some e)
      | Inr (m, g) \<Rightarrow>
          (case DeleteRows (current_chunk st) tid (del_rows st) (length (del_rows st)) m of
            ((m', rows', k), ex) \<Rightarrow>
              let st = st\<lparr>del_group := g\<lparr>rg_version_info := Some m'\<rparr>\<rparr>
              in case ex of Some e \<Rightarrow> (st\<lparr>del_rows := rows'\<rparr>, Some e)
                 | None \<Rightarrow>
                     let st = st\<lparr>delete_count := delete_count st + k\<rparr>
                     in if undo_buffer st \<noteq> None \<and> k > 0
                        then case PushDelete (current_chunk st) rows' k (rg_start g + chunk_row st) of
                            Inl e \<Rightarrow> (st\<lparr>del_rows := rows'\<rparr>, Some e)
                          | Inr d \<Rightarrow> (st\<lparr>undo_buffer := map_option (\<lambda>ds. ds @ [d]) (undo_buffer st), del_rows := []\<rparr>, None)
                        else (st\<lparr>del_rows := []\<rparr>, None)))"

definition Delete_row :: "transaction_t \<Rightarrow> idx_t \<Rightarrow> VersionDeleteState \<Rightarrow> VersionDeleteState \<times> exc option" where
  "Delete_row tid row_id st =
     (let vector_idx = row_id div STANDARD_VECTOR_SIZE;
          idx_in_vector = row_id - vector_idx * STANDARD_VECTOR_SIZE;
          push = (\<lambda>st. if length (del_rows st) \<ge> STANDARD_VECTOR_SIZE then (st, Some OutOfBounds)
                       else (st\<lparr>del_rows := del_rows st @ [idx_in_vector]\<rparr>, None))
      in if current_chunk st \<noteq> vector_idx
         then case Flush tid st of
             (st, Some e) \<Rightarrow> (st, Some e)
           | (st, None) \<Rightarrow> push (st\<lparr>current_chunk := vector_idx, chunk_row := vector_idx * STANDARD_VECTOR_SIZE\<rparr>)
         else push st)"

fun Delete_rows :: "transaction_t \<Rightarrow> idx_t list \<Rightarrow> VersionDeleteState \<Rightarrow> VersionDeleteState \<times> exc option" where
  "Delete_rows tid [] st = Flush tid st"
| "Delete_rows tid (r # rs) st =
     (case Delete_row tid r st of (st, Some e) \<Rightarrow> (st, Some e) | (st, None) \<Rightarrow> Delete_rows tid rs st)"

definition rg_Delete ::
  "transaction_t \<Rightarrow> idx_t list \<Rightarrow> DeleteInfo list option \<Rightarrow> RowGroup \<Rightarrow> VersionDeleteState \<times> exc option" where
  "rg_Delete tid ids undo g =
     Delete_rows tid (map (\<lambda>id. sub_row id (rg_start g)) ids)
       \<lparr>current_chunk = INVALID_INDEX, del_rows = [], chunk_row = 0, delete_count = 0, del_group = g, undo_buffer = undo\<rparr>"

section \<open>Committing and rolling back\<close>

definition CommitEntry :: "transaction_t \<Rightarrow> DeleteInfo \<Rightarrow> RowVersionManager \<Rightarrow> exc + RowVersionManager" where
  "CommitEntry commit_id d m = rvm_CommitDelete (di_vector_idx d) commit_id d m"

definition RevertCommitEntry :: "transaction_t \<Rightarrow> DeleteInfo \<Rightarrow> RowVersionManager \<Rightarrow> exc + RowVersionManager" where
  "RevertCommitEntry tid d m = rvm_CommitDelete (di_vector_idx d) tid d m"

definition RollbackEntry :: "DeleteInfo \<Rightarrow> RowVersionManager \<Rightarrow> exc + RowVersionManager" where
  "RollbackEntry d m = rvm_CommitDelete (di_vector_idx d) NOT_DELETED_ID d m"

definition undo_Commit :: "transaction_t \<Rightarrow> DeleteInfo list \<Rightarrow> RowVersionManager \<Rightarrow> exc + RowVersionManager" where
  "undo_Commit commit_id entries m = fold_res (CommitEntry commit_id) entries m"

definition undo_Rollback :: "DeleteInfo list \<Rightarrow> RowVersionManager \<Rightarrow> exc + RowVersionManager" where
  "undo_Rollback entries m = fold_res RollbackEntry (rev entries) m"

section \<open>The table of row ids of a row group\<close>

definition versions_of :: "RowGroup \<Rightarrow> RowVersionManager" where
  "versions_of g = (case rg_version_info g of None \<Rightarrow> RowVersionManager_new (rg_start g) | Some m \<Rightarrow> m)"

definition rg_ids :: "RowGroup \<Rightarrow> nat \<Rightarrow> transaction_t \<times> transaction_t" where
  "rg_ids g = row_ids (versions_of g)"

definition rg_inv :: "RowGroup \<Rightarrow> bool" where
  "rg_inv g \<longleftrightarrow> \<not> HasUnloadedDeletes g \<and> rvm_inv (rg_count g) (versions_of g)"

lemma new_inv: "n \<le> ROW_GROUP_SIZE \<Longrightarrow> rvm_inv n (RowVersionManager_new start)"
  by (simp add: rvm_inv_def RowVersionManager_new_def slot_inv_def)

lemma new_row_ids: "r < ROW_GROUP_SIZE \<Longrightarrow> row_ids (RowVersionManager_new start) r = (0, NOT_DELETED_ID)"
  using row_vector [of r] by (simp add: row_ids_def RowVersionManager_new_def chunk_ids_def)

lemma GetOrCreate_loaded:
  "\<not> HasUnloadedDeletes g \<Longrightarrow> GetOrCreateVersionInfo g = Inr (versions_of g, g\<lparr>rg_version_info := Some (versions_of g)\<rparr>)"
  by (cases "rg_version_info g") (simp_all add: GetOrCreateVersionInfo_def GetVersionInfo_def versions_of_def Let_def)

lemma loaded_update [simp]:
  "HasUnloadedDeletes (g\<lparr>rg_version_info := v\<rparr>) = HasUnloadedDeletes g" "HasUnloadedDeletes (g\<lparr>rg_count := c\<rparr>) = HasUnloadedDeletes g"
  "versions_of (g\<lparr>rg_version_info := Some m\<rparr>) = m" "versions_of (g\<lparr>rg_count := c\<rparr>) = versions_of g"
  by (simp_all add: HasUnloadedDeletes_def versions_of_def split: option.split)

lemma rg_Fetch_ok:
  assumes "rg_inv g" "r < rg_count g" "valid_txn t" "0 < start_time t"
  shows "rg_Fetch t r g = Inr (sees t (rg_ids g r), g)"
proof (cases "rg_version_info g")
  case None
  have "r < ROW_GROUP_SIZE" using assms(1,2) by (auto simp: rg_inv_def rvm_inv_def)
  then show ?thesis using None assms UseVersion_NOT_DELETED [OF assms(3)]
    by (simp add: rg_Fetch_def GetVersionInfo_def rg_inv_def rg_ids_def versions_of_def new_row_ids sees_def UseVersion_def TransactionVersionOperator_def)
next
  case (Some m)
  then show ?thesis using assms rvm_Fetch_ok [of "rg_count g" m r t]
    by (simp add: rg_Fetch_def GetVersionInfo_def rg_inv_def rg_ids_def versions_of_def)
qed

section \<open>Appending\<close>

lemma rg_Append_ok:
  assumes "rg_inv g" "0 < cnt" "rg_count g < ROW_GROUP_SIZE"
  shows "\<exists>g'. rg_AppendVersionInfo tid cnt g = Inr g' \<and> rg_inv g' \<and> rg_start g' = rg_start g
    \<and> rg_count g' = min ROW_GROUP_SIZE (rg_count g + cnt)
    \<and> (\<forall>r<ROW_GROUP_SIZE. rg_ids g' r = (if rg_count g \<le> r \<and> r < rg_count g' then (tid, NOT_DELETED_ID) else rg_ids g r))
    \<and> (\<forall>i<ROW_GROUP_VECTOR_COUNT. \<forall>c. vector_info (versions_of g') ! i = Some (ConstantInfo c) \<longrightarrow> rows_in (rg_count g) i \<in> {0, STANDARD_VECTOR_SIZE})"
proof -
  let ?e = "min ROW_GROUP_SIZE (rg_count g + cnt)"
  have e: "(if rg_count g + cnt > ROW_GROUP_SIZE then ROW_GROUP_SIZE else rg_count g + cnt) = ?e" "rg_count g < ?e" "?e \<le> ROW_GROUP_SIZE"
    using assms(2,3) by auto
  have inv: "rvm_inv (rg_count g) (versions_of g)" "\<not> HasUnloadedDeletes g" using assms(1) by (auto simp: rg_inv_def)
  from AppendVersionInfo_ok [OF inv(1) e(2,3), of tid] obtain m where
    m: "AppendVersionInfo tid (rg_count g) ?e (versions_of g) = Inr m" "rvm_inv ?e m"
    "\<forall>r<ROW_GROUP_SIZE. row_ids m r = (if rg_count g \<le> r \<and> r < ?e then (tid, NOT_DELETED_ID) else row_ids (versions_of g) r)"
    "\<forall>i<ROW_GROUP_VECTOR_COUNT. \<forall>c. vector_info m ! i = Some (ConstantInfo c) \<longrightarrow> rows_in (rg_count g) i \<in> {0, STANDARD_VECTOR_SIZE}" by blast
  have "rg_AppendVersionInfo tid cnt g = Inr (g\<lparr>rg_version_info := Some m, rg_count := ?e\<rparr>)"
    unfolding rg_AppendVersionInfo_def Let_def e(1) using m(1) by (simp add: GetOrCreate_loaded [OF inv(2)])
  then show ?thesis using m(2-4) inv(2) by (simp add: rg_inv_def rg_ids_def)
qed

lemma rg_Revert_ok:
  assumes "rg_inv g" "s \<le> rg_count g" "\<And>r. s \<le> r \<Longrightarrow> r < rg_count g \<Longrightarrow> snd (rg_ids g r) = NOT_DELETED_ID"
    and "\<And>i c. i < ROW_GROUP_VECTOR_COUNT \<Longrightarrow> vector_info (versions_of g) ! i = Some (ConstantInfo c) \<Longrightarrow> rows_in s i \<in> {0, STANDARD_VECTOR_SIZE}"
  shows "\<exists>g'. rg_RevertAppend (rg_start g + s) g = Inr g' \<and> rg_inv g' \<and> rg_count g' = s \<and> (\<forall>r. r < s \<longrightarrow> rg_ids g' r = rg_ids g r)"
proof -
  have inv: "rvm_inv (rg_count g) (versions_of g)" "\<not> HasUnloadedDeletes g" using assms(1) by (auto simp: rg_inv_def)
  have "\<exists>m'. RevertAppend s (versions_of g) = Inr m' \<and> rvm_inv s m' \<and> (\<forall>r. r < s \<longrightarrow> row_ids m' r = row_ids (versions_of g) r)"
  proof (rule RevertAppend_ok [OF inv(1) assms(2)])
    show "snd (row_ids (versions_of g) r) = NOT_DELETED_ID" if "s \<le> r" "r < rg_count g" for r using assms(3) [OF that] by (simp add: rg_ids_def)
  qed (rule assms(4))
  moreover have sub: "sub_row (rg_start g + s) (rg_start g) = s"
    using assms(2) inv(1) by (simp add: sub_row_def rvm_inv_def ROW_GROUP_SIZE_def)
  ultimately obtain m where
    m: "RevertAppend s (versions_of g) = Inr m" "rvm_inv s m" "\<forall>r. r < s \<longrightarrow> row_ids m r = row_ids (versions_of g) r" by blast
  have "rg_RevertAppend (rg_start g + s) g = Inr (g\<lparr>rg_version_info := Some m, rg_count := s\<rparr>)"
    using m(1) assms(2) sub by (simp add: rg_RevertAppend_def GetOrCreate_loaded [OF inv(2)] min_def)
  then show ?thesis using m(2,3) inv(2) by (simp add: rg_inv_def rg_ids_def)
qed

lemma rg_Commit_ok:
  assumes "rg_inv g" "inserted_by tid s e (rg_count g) (versions_of g)"
  shows "\<exists>g'. rg_CommitAppend cid s (e - s) g = Inr g' \<and> rg_inv g' \<and> rg_count g' = rg_count g
    \<and> (\<forall>r<ROW_GROUP_SIZE. rg_ids g' r = (if s \<le> r \<and> r < e then (cid, snd (rg_ids g r)) else rg_ids g r))"
proof -
  have inv: "rvm_inv (rg_count g) (versions_of g)" "\<not> HasUnloadedDeletes g" using assms(1) by (auto simp: rg_inv_def)
  from rvm_CommitAppend_ok [OF inv(1) assms(2), of cid] obtain m where
    m: "rvm_CommitAppend cid s (e - s) (versions_of g) = Inr m" "rvm_inv (rg_count g) m"
    "\<forall>r<ROW_GROUP_SIZE. row_ids m r = (if s \<le> r \<and> r < e then (cid, snd (row_ids (versions_of g) r)) else row_ids (versions_of g) r)" by blast
  then have "rg_CommitAppend cid s (e - s) g = Inr (g\<lparr>rg_version_info := Some m\<rparr>)"
    by (simp add: rg_CommitAppend_def GetOrCreate_loaded [OF inv(2)])
  then show ?thesis using m(2,3) inv(2) by (simp add: rg_inv_def rg_ids_def)
qed

section \<open>Deleting\<close>

text \<open>The rows of the entries of the undo buffer, and what makes an entry applicable.\<close>

definition undo_rows :: "DeleteInfo list \<Rightarrow> nat set" where
  "undo_rows ds = (\<Union>d \<in> set ds. (\<lambda>j. di_vector_idx d * STANDARD_VECTOR_SIZE + j) ` set (rows_of d))"

definition entry_ok :: "nat \<Rightarrow> RowVersionManager \<Rightarrow> DeleteInfo \<Rightarrow> bool" where
  "entry_ok n m d \<longleftrightarrow> di_vector_idx d < ROW_GROUP_VECTOR_COUNT \<and> marked (di_vector_idx d) m
     \<and> (\<forall>j \<in> set (rows_of d). j < rows_in n (di_vector_idx d)) \<and> (\<not> is_consecutive d \<longrightarrow> di_count d \<le> length (di_rows d))"

lemma row_split:
  "\<forall>j \<in> S. j < STANDARD_VECTOR_SIZE \<Longrightarrow>
    r div STANDARD_VECTOR_SIZE = i \<and> r mod STANDARD_VECTOR_SIZE \<in> S \<longleftrightarrow> r \<in> (\<lambda>j. i * STANDARD_VECTOR_SIZE + j) ` S"
  by (auto intro!: image_eqI [of _ _ "r mod STANDARD_VECTOR_SIZE"])

lemma undo_rows_Cons: "r \<in> undo_rows (d # ds) \<longleftrightarrow> (\<exists>j \<in> set (rows_of d). r = di_vector_idx d * STANDARD_VECTOR_SIZE + j) \<or> r \<in> undo_rows ds"
  by (auto simp: undo_rows_def)

lemma apply_entries:
  assumes "rvm_inv n m" "\<And>d. d \<in> set ds \<Longrightarrow> entry_ok n m d"
  shows "\<exists>m'. fold_res (\<lambda>d. rvm_CommitDelete (di_vector_idx d) cid d) ds m = Inr m' \<and> rvm_inv n m' \<and> (\<forall>i. marked i m' = marked i m)
    \<and> (\<forall>r<ROW_GROUP_SIZE. row_ids m' r = (if r \<in> undo_rows ds then (fst (row_ids m r), cid) else row_ids m r))"
  using assms
proof (induction ds arbitrary: m)
  case Nil
  then show ?case by (simp add: undo_rows_def)
next
  case (Cons d ds)
  let ?N = STANDARD_VECTOR_SIZE and ?i = "di_vector_idx d"
  have d: "entry_ok n m d" using Cons.prems(2) by simp
  then have small: "j < ?N" if "j \<in> set (rows_of d)" for j using that by (auto simp: entry_ok_def rows_in_def)
  from d rvm_CommitDelete_ok [OF Cons.prems(1), of ?i d cid] obtain m1 where
    m1: "rvm_CommitDelete ?i cid d m = Inr m1" "rvm_inv n m1" "\<And>i. marked i m1 = marked i m"
    "\<And>r. r < ROW_GROUP_SIZE \<Longrightarrow> row_ids m1 r = (if r div ?N = ?i \<and> r mod ?N \<in> set (rows_of d) then (fst (row_ids m r), cid) else row_ids m r)"
    by (auto simp: entry_ok_def)
  have "entry_ok n m1 d'" if "d' \<in> set ds" for d' using Cons.prems(2) [of d'] that m1(3) by (simp add: entry_ok_def)
  from Cons.IH [OF m1(2) this] obtain m' where
    m': "fold_res (\<lambda>d. rvm_CommitDelete (di_vector_idx d) cid d) ds m1 = Inr m'" "rvm_inv n m'" "\<And>i. marked i m' = marked i m1"
    "\<And>r. r < ROW_GROUP_SIZE \<Longrightarrow> row_ids m' r = (if r \<in> undo_rows ds then (fst (row_ids m1 r), cid) else row_ids m1 r)" by blast
  have "r div ?N = ?i \<and> r mod ?N \<in> set (rows_of d) \<longleftrightarrow> (\<exists>j \<in> set (rows_of d). r = ?i * ?N + j)" for r
    using row_split [of "set (rows_of d)" r ?i] small by (simp add: image_iff)
  then have "row_ids m' r = (if r \<in> undo_rows (d # ds) then (fst (row_ids m r), cid) else row_ids m r)" if "r < ROW_GROUP_SIZE" for r
    using m1(4) [OF that] m'(4) [OF that] by (simp add: undo_rows_Cons)
  then show ?case using m1 m' by simp
qed

text \<open>
  The state of a delete: \<open>D\<close> are the rows (relative to the row group) that were handed to the version
  information, the undo buffer has the entries \<open>us\<close> of earlier statements and \<open>ds\<close> of this one.
\<close>

definition delete_state :: "transaction_t \<Rightarrow> RowGroup \<Rightarrow> DeleteInfo list option \<Rightarrow> nat set \<Rightarrow> DeleteInfo list \<Rightarrow> VersionDeleteState \<Rightarrow> bool" where
  "delete_state tid g us D ds st \<longleftrightarrow>
     rg_inv (del_group st) \<and> rg_count (del_group st) = rg_count g \<and> rg_start (del_group st) = rg_start g
     \<and> (\<forall>r<ROW_GROUP_SIZE. rg_ids (del_group st) r = (if r \<in> D then (fst (rg_ids g r), tid) else rg_ids g r))
     \<and> undo_buffer st = map_option (\<lambda>us. us @ ds) us
     \<and> (\<forall>d \<in> set ds. entry_ok (rg_count g) (versions_of (del_group st)) d)
     \<and> (us \<noteq> None \<longrightarrow> undo_rows ds = {r \<in> D. snd (rg_ids g r) = NOT_DELETED_ID})
     \<and> (\<forall>r \<in> D. r < rg_count g \<and> snd (rg_ids g r) \<in> {tid, NOT_DELETED_ID})"

text \<open>What a delete leaves in the version information, whether it returns or throws: the rows \<open>D\<close> are marked.\<close>

definition delete_marks :: "transaction_t \<Rightarrow> RowGroup \<Rightarrow> nat set \<Rightarrow> VersionDeleteState \<Rightarrow> bool" where
  "delete_marks tid g D st \<longleftrightarrow>
     rg_inv (del_group st) \<and> rg_count (del_group st) = rg_count g \<and> rg_start (del_group st) = rg_start g
     \<and> (\<forall>r<ROW_GROUP_SIZE. rg_ids (del_group st) r = (if r \<in> D then (fst (rg_ids g r), tid) else rg_ids g r))"

lemma delete_state_marks: "delete_state tid g us D ds st \<Longrightarrow> delete_marks tid g D st"
  by (simp add: delete_state_def delete_marks_def)

definition pending :: "VersionDeleteState \<Rightarrow> nat set" where
  "pending st = (\<lambda>j. current_chunk st * STANDARD_VECTOR_SIZE + j) ` set (del_rows st)"

text \<open>The rows that may be deleted: they exist, and were not deleted when they were loaded.\<close>

definition deletable :: "RowGroup \<Rightarrow> nat \<Rightarrow> bool" where
  "deletable g r \<longleftrightarrow> r < rg_count g \<and> snd (rg_ids g r) \<noteq> 0"

definition pending_ok :: "RowGroup \<Rightarrow> VersionDeleteState \<Rightarrow> bool" where
  "pending_ok g st \<longleftrightarrow> (\<forall>j \<in> set (del_rows st). j < STANDARD_VECTOR_SIZE) \<and> (\<forall>r \<in> pending st. deletable g r)"

lemma delete_state_update [simp]:
  "delete_state tid g us D ds (st\<lparr>del_rows := rows\<rparr>) = delete_state tid g us D ds st"
  "delete_state tid g us D ds (st\<lparr>current_chunk := c\<rparr>) = delete_state tid g us D ds st"
  "delete_state tid g us D ds (st\<lparr>chunk_row := c\<rparr>) = delete_state tid g us D ds st"
  by (simp_all add: delete_state_def)

text \<open>The rows of a vector, and the position of the first row in a list that another transaction has deleted.\<close>

definition vector_rows :: "idx_t \<Rightarrow> idx_t list \<Rightarrow> nat set" where
  "vector_rows i rows = (\<lambda>j. i * STANDARD_VECTOR_SIZE + j) ` set rows"

definition stops_at :: "transaction_t \<Rightarrow> RowGroup \<Rightarrow> idx_t \<Rightarrow> idx_t list \<Rightarrow> nat \<Rightarrow> bool" where
  "stops_at tid g i rows j \<longleftrightarrow> snd (rg_ids g (i * STANDARD_VECTOR_SIZE + rows ! j)) \<notin> {tid, NOT_DELETED_ID}
     \<and> (\<forall>q \<in> set (take j rows). snd (rg_ids g (i * STANDARD_VECTOR_SIZE + q)) \<in> {tid, NOT_DELETED_ID})"

lemma Flush_rows:
  assumes st: "delete_state tid g us D ds st" and tid: "tid \<noteq> NOT_DELETED_ID" "tid \<noteq> 0" and pend: "pending_ok g st" "del_rows st \<noteq> []"
    and run: "DeleteRows (current_chunk st) tid (del_rows st) (length (del_rows st)) (versions_of (del_group st)) = ((m', rows', k), ex)"
  shows "current_chunk st < ROW_GROUP_VECTOR_COUNT"
    and "ex = None \<Longrightarrow> rvm_inv (rg_count g) m' \<and> marked (current_chunk st) m'
      \<and> (\<forall>i. i \<noteq> current_chunk st \<longrightarrow> marked i m' = marked i (versions_of (del_group st)))
      \<and> (\<forall>r<ROW_GROUP_SIZE. row_ids m' r = (if r \<in> D \<union> pending st then (fst (rg_ids g r), tid) else rg_ids g r))
      \<and> k \<le> length rows' \<and> set (take k rows') \<subseteq> set (del_rows st)
      \<and> (\<lambda>j. current_chunk st * STANDARD_VECTOR_SIZE + j) ` set (take k rows') = {r \<in> pending st. r \<notin> D \<and> snd (rg_ids g r) = NOT_DELETED_ID}
      \<and> (\<forall>r \<in> pending st. snd (rg_ids g r) \<in> {tid, NOT_DELETED_ID})"
    and "ex = Some e \<Longrightarrow> e = TransactionException \<and> rvm_inv (rg_count g) m'
      \<and> (\<exists>j<length (del_rows st). stops_at tid g (current_chunk st) (del_rows st) j
          \<and> (\<forall>r<ROW_GROUP_SIZE. row_ids m' r = (if r \<in> D \<union> vector_rows (current_chunk st) (take j (del_rows st)) then (fst (rg_ids g r), tid) else rg_ids g r)))"
proof -
  let ?N = STANDARD_VECTOR_SIZE and ?i = "current_chunk st" and ?rows = "del_rows st" and ?m = "versions_of (del_group st)"
  have S: "rvm_inv (rg_count g) ?m" "\<And>r. r < ROW_GROUP_SIZE \<Longrightarrow> row_ids ?m r = (if r \<in> D then (fst (rg_ids g r), tid) else rg_ids g r)"
    using st by (auto simp: delete_state_def rg_inv_def rg_ids_def)
  have at: "j < ?N" "?i * ?N + j < rg_count g" "snd (rg_ids g (?i * ?N + j)) \<noteq> 0" "?i * ?N + j \<in> pending st" if "j \<in> set ?rows" for j
    using that pend(1) by (auto simp: pending_ok_def deletable_def pending_def)
  have n: "rg_count g \<le> ROW_GROUP_SIZE" using S(1) by (simp add: rvm_inv_def)
  have "hd ?rows \<in> set ?rows" using pend(2) by simp
  from at [OF this] have "?i * ?N + hd ?rows < ROW_GROUP_SIZE" "hd ?rows < ?N" using n by auto
  then show i: "?i < ROW_GROUP_VECTOR_COUNT" using row_vector [of "?i * ?N + hd ?rows"] by simp
  have "j < rows_in (rg_count g) ?i \<and> snd (row_ids ?m (?i * ?N + j)) \<noteq> 0" if "j \<in> set ?rows" for j
    using at [OF that] rows_in_pos [of j "rg_count g" ?i] S(2) [of "?i * ?N + j"] tid(2) n by simp
  from DeleteRows_ok [OF S(1) i pend(2) this tid(1) run] obtain j where
    R: "rvm_inv (rg_count g) m'" "marked ?i m'" "\<forall>i'. i' \<noteq> ?i \<longrightarrow> marked i' m' = marked i' ?m"
    "\<And>r. r < ROW_GROUP_SIZE \<Longrightarrow> row_ids m' r = (if r div ?N = ?i \<and> r mod ?N \<in> set (take j ?rows) then (fst (row_ids ?m r), tid) else row_ids ?m r)"
    and ex: "case ex of None \<Rightarrow> j = length ?rows
       | Some x \<Rightarrow> x = TransactionException \<and> j < length ?rows \<and> snd (row_ids ?m (?i * ?N + ?rows ! j)) \<notin> {tid, NOT_DELETED_ID}"
    and K: "k \<le> length rows'" "set (take k rows') = {q \<in> set (take j ?rows). snd (row_ids ?m (?i * ?N + q)) = NOT_DELETED_ID}"
    and own: "\<And>q. q \<in> set (take j ?rows) \<Longrightarrow> snd (row_ids ?m (?i * ?N + q)) \<in> {tid, NOT_DELETED_ID}" by blast
  have Dok: "\<And>r. r \<in> D \<Longrightarrow> snd (rg_ids g r) \<in> {tid, NOT_DELETED_ID}" using st by (simp add: delete_state_def)
  have nd: "snd (row_ids ?m (?i * ?N + q)) = NOT_DELETED_ID \<longleftrightarrow> ?i * ?N + q \<notin> D \<and> snd (rg_ids g (?i * ?N + q)) = NOT_DELETED_ID" if "q \<in> set ?rows" for q
    using S(2) [of "?i * ?N + q"] at [OF that] n tid(1) by auto
  show "rvm_inv (rg_count g) m' \<and> marked ?i m' \<and> (\<forall>i. i \<noteq> ?i \<longrightarrow> marked i m' = marked i ?m)
      \<and> (\<forall>r<ROW_GROUP_SIZE. row_ids m' r = (if r \<in> D \<union> pending st then (fst (rg_ids g r), tid) else rg_ids g r))
      \<and> k \<le> length rows' \<and> set (take k rows') \<subseteq> set ?rows
      \<and> (\<lambda>j. ?i * ?N + j) ` set (take k rows') = {r \<in> pending st. r \<notin> D \<and> snd (rg_ids g r) = NOT_DELETED_ID}
      \<and> (\<forall>r \<in> pending st. snd (rg_ids g r) \<in> {tid, NOT_DELETED_ID})" if "ex = None"
  proof -
    have j: "j = length ?rows" using ex that by simp
    have "r div ?N = ?i \<and> r mod ?N \<in> set (take j ?rows) \<longleftrightarrow> r \<in> pending st" for r
      using row_split [of "set ?rows" r ?i] at(1) unfolding j pending_def by simp
    then have "row_ids m' r = (if r \<in> D \<union> pending st then (fst (rg_ids g r), tid) else rg_ids g r)" if "r < ROW_GROUP_SIZE" for r
      using R(4) [OF that] S(2) [OF that] by simp
    moreover have "(\<lambda>j. ?i * ?N + j) ` set (take k rows') = {r \<in> pending st. r \<notin> D \<and> snd (rg_ids g r) = NOT_DELETED_ID}"
      unfolding K(2) j pending_def using nd by auto
    moreover have "set (take k rows') \<subseteq> set ?rows" unfolding K(2) j by auto
    moreover have "snd (rg_ids g (?i * ?N + q)) \<in> {tid, NOT_DELETED_ID}" if "q \<in> set ?rows" for q
      using own [of q] Dok [of "?i * ?N + q"] S(2) [of "?i * ?N + q"] at(2) [OF that] n that unfolding j by (cases "?i * ?N + q \<in> D") simp_all
    then have "\<forall>r \<in> pending st. snd (rg_ids g r) \<in> {tid, NOT_DELETED_ID}" unfolding pending_def by blast
    ultimately show ?thesis using R(1-3) K(1) by blast
  qed
  show "e = TransactionException \<and> rvm_inv (rg_count g) m'
      \<and> (\<exists>j<length ?rows. stops_at tid g ?i ?rows j
          \<and> (\<forall>r<ROW_GROUP_SIZE. row_ids m' r = (if r \<in> D \<union> vector_rows ?i (take j ?rows) then (fst (rg_ids g r), tid) else rg_ids g r)))"
    if e: "ex = Some e"
  proof -
    have j: "e = TransactionException" "j < length ?rows" "snd (row_ids ?m (?i * ?N + ?rows ! j)) \<notin> {tid, NOT_DELETED_ID}" using ex e by simp_all
    then have mem: "?rows ! j \<in> set ?rows" by simp
    then have "snd (rg_ids g (?i * ?N + ?rows ! j)) \<notin> {tid, NOT_DELETED_ID}"
      using j(3) S(2) [of "?i * ?N + ?rows ! j"] at(2) [OF mem] n by (auto split: if_splits)
    moreover have "snd (rg_ids g (?i * ?N + q)) \<in> {tid, NOT_DELETED_ID}" if q: "q \<in> set (take j ?rows)" for q
    proof -
      have "?i * ?N + q < rg_count g" by (rule at(2) [OF in_set_takeD [OF q]])
      then show ?thesis using own [OF q] Dok [of "?i * ?N + q"] S(2) [of "?i * ?N + q"] n by (cases "?i * ?N + q \<in> D") simp_all
    qed
    ultimately have "stops_at tid g ?i ?rows j" by (simp add: stops_at_def)
    moreover have "r div ?N = ?i \<and> r mod ?N \<in> set (take j ?rows) \<longleftrightarrow> r \<in> vector_rows ?i (take j ?rows)" for r
      unfolding vector_rows_def by (rule row_split) (use at(1) in \<open>auto dest: in_set_takeD\<close>)
    then have "row_ids m' r = (if r \<in> D \<union> vector_rows ?i (take j ?rows) then (fst (rg_ids g r), tid) else rg_ids g r)" if "r < ROW_GROUP_SIZE" for r
      using R(4) [OF that] S(2) [OF that] by simp
    ultimately show ?thesis using j(1,2) R(1) by blast
  qed
qed

lemma Flush_ok:
  assumes st: "delete_state tid g us D ds st" and tid: "tid \<noteq> NOT_DELETED_ID" "tid \<noteq> 0" and pend: "pending_ok g st"
    and run: "Flush tid st = (st', ex)"
  shows "(ex = None \<longrightarrow> del_rows st' = [] \<and> (\<exists>ds'. delete_state tid g us (D \<union> pending st) ds' st'))
    \<and> (\<forall>e. ex = Some e \<longrightarrow> e = TransactionException \<and> undo_buffer st' = undo_buffer st
         \<and> (\<exists>j<length (del_rows st). stops_at tid g (current_chunk st) (del_rows st) j
              \<and> delete_marks tid g (D \<union> vector_rows (current_chunk st) (take j (del_rows st))) st'))"
proof (cases "del_rows st = []")
  case True
  then have "st' = st" "ex = None" using run by (auto simp: Flush_def)
  then show ?thesis using True st by (auto simp: pending_def)
next
  case False
  let ?N = STANDARD_VECTOR_SIZE and ?i = "current_chunk st" and ?rows = "del_rows st" and ?m = "versions_of (del_group st)" and ?g = "del_group st"
  have loaded: "\<not> HasUnloadedDeletes ?g" "rg_count ?g = rg_count g" using st by (auto simp: delete_state_def rg_inv_def)
  obtain m' rows' k ex' where del: "DeleteRows ?i tid ?rows (length ?rows) ?m = ((m', rows', k), ex')" by (metis surj_pair)
  note F = Flush_rows [OF st tid pend False del]
  show ?thesis
  proof (cases ex')
    case (Some e)
    then have ex: "ex = Some e" and st': "st' = st\<lparr>del_group := ?g\<lparr>rg_version_info := Some m'\<rparr>, del_rows := rows'\<rparr>"
      using run False del by (auto simp: Flush_def GetOrCreate_loaded [OF loaded(1)] Let_def)
    obtain j where j: "e = TransactionException" "rvm_inv (rg_count g) m'" "j < length ?rows" "stops_at tid g ?i ?rows j"
      "\<And>r. r < ROW_GROUP_SIZE \<Longrightarrow> row_ids m' r = (if r \<in> D \<union> vector_rows ?i (take j ?rows) then (fst (rg_ids g r), tid) else rg_ids g r)"
      using F(3) [OF Some] by blast
    have "delete_marks tid g (D \<union> vector_rows ?i (take j ?rows)) st'"
      using j(2,5) loaded st by (simp add: delete_marks_def st' rg_inv_def rg_ids_def) (simp add: delete_state_def)
    then show ?thesis using ex j(1,3,4) by (auto simp: st')
  next
    case None
    have R: "rvm_inv (rg_count g) m'" "marked ?i m'" "\<And>i. i \<noteq> ?i \<Longrightarrow> marked i m' = marked i ?m"
      "\<And>r. r < ROW_GROUP_SIZE \<Longrightarrow> row_ids m' r = (if r \<in> D \<union> pending st then (fst (rg_ids g r), tid) else rg_ids g r)"
      "k \<le> length rows'" "set (take k rows') \<subseteq> set ?rows"
      "(\<lambda>j. ?i * ?N + j) ` set (take k rows') = {r \<in> pending st. r \<notin> D \<and> snd (rg_ids g r) = NOT_DELETED_ID}"
      "\<And>r. r \<in> pending st \<Longrightarrow> snd (rg_ids g r) \<in> {tid, NOT_DELETED_ID}"
      using F(2) [OF None] by blast+
    have p: "\<And>j. j \<in> set ?rows \<Longrightarrow> j < ?N" "\<And>r. r \<in> pending st \<Longrightarrow> r < rg_count g"
      using pend by (auto simp: pending_ok_def deletable_def)
    let ?st = "st\<lparr>del_group := ?g\<lparr>rg_version_info := Some m'\<rparr>, delete_count := delete_count st + k, del_rows := []\<rparr>"
    have state: "delete_state tid g us (D \<union> pending st) ds2 (?st\<lparr>undo_buffer := u\<rparr>)"
      if u: "u = map_option (\<lambda>us. us @ ds2) us" and ds2: "\<forall>d \<in> set ds2. entry_ok (rg_count g) m' d"
        and rows: "us \<noteq> None \<longrightarrow> undo_rows ds2 = {r \<in> D \<union> pending st. snd (rg_ids g r) = NOT_DELETED_ID}" for u ds2
      using st R(1,4,8) u ds2 rows p(2) loaded unfolding delete_state_def by (auto simp: rg_inv_def rg_ids_def)
    have old: "entry_ok (rg_count g) m' d" if "d \<in> set ds" for d
    proof -
      have "entry_ok (rg_count g) ?m d" using that st by (simp add: delete_state_def)
      then show ?thesis using R(2,3) by (cases "di_vector_idx d = ?i") (simp_all add: entry_ok_def)
    qed
    show ?thesis
    proof (cases "us \<noteq> None \<and> k > 0")
      case True
      have rows: "\<forall>r \<in> set (take k rows'). r < ?N" using R(6) p(1) by blast
      then have "\<forall>r \<in> set (take k rows'). r < 2 ^ 16" by (auto simp: STANDARD_VECTOR_SIZE_def)
      then obtain d where d: "PushDelete ?i rows' k (rg_start ?g + chunk_row st) = Inr d" using PushDelete_ok [OF R(5)] by blast
      note P = PushDelete_rows [OF d]
      have "entry_ok (rg_count g) m' d"
      proof -
        have "j < rows_in (rg_count g) ?i" if "j \<in> set (take k rows')" for j
          using that R(6) p rows_in_pos [of j "rg_count g" ?i] by (auto simp: pending_def)
        then show ?thesis using P F(1) R(2) by (auto simp: entry_ok_def)
      qed
      then have "\<forall>d \<in> set (ds @ [d]). entry_ok (rg_count g) m' d" using old by auto
      moreover have "undo_rows (ds @ [d]) = {r \<in> D \<union> pending st. snd (rg_ids g r) = NOT_DELETED_ID}"
      proof -
        have "undo_rows (ds @ [d]) = undo_rows ds \<union> (\<lambda>j. ?i * ?N + j) ` set (take k rows')" using P by (auto simp: undo_rows_def)
        also have "undo_rows ds = {r \<in> D. snd (rg_ids g r) = NOT_DELETED_ID}" using st True by (simp add: delete_state_def)
        finally show ?thesis unfolding R(7) by auto
      qed
      moreover have "ub = map_option (\<lambda>us. us @ ds) us \<Longrightarrow> map_option (\<lambda>e. e @ [d]) ub = map_option (\<lambda>us. us @ (ds @ [d])) us" for ub
        by (cases us) auto
      then have "map_option (\<lambda>e. e @ [d]) (undo_buffer st) = map_option (\<lambda>us. us @ (ds @ [d])) us" using st by (simp add: delete_state_def)
      ultimately have "delete_state tid g us (D \<union> pending st) (ds @ [d]) (?st\<lparr>undo_buffer := map_option (\<lambda>e. e @ [d]) (undo_buffer st)\<rparr>)"
        using state by blast
      moreover have "undo_buffer st \<noteq> None" using st True by (simp add: delete_state_def)
      then have "st' = ?st\<lparr>undo_buffer := map_option (\<lambda>e. e @ [d]) (undo_buffer st)\<rparr>" "ex = None"
        using run False del None d True by (auto simp: Flush_def GetOrCreate_loaded [OF loaded(1)] Let_def)
      ultimately show ?thesis by auto
    next
      case no: False
      have "undo_rows ds = {r \<in> D \<union> pending st. snd (rg_ids g r) = NOT_DELETED_ID}" if "us \<noteq> None"
      proof -
        have "{r \<in> pending st. r \<notin> D \<and> snd (rg_ids g r) = NOT_DELETED_ID} = {}" using R(7) no that by simp
        then show ?thesis using st that by (auto simp: delete_state_def)
      qed
      then have "delete_state tid g us (D \<union> pending st) ds (?st\<lparr>undo_buffer := undo_buffer st\<rparr>)"
        using state [of "undo_buffer st" ds] st old by (auto simp: delete_state_def)
      moreover have "undo_buffer st \<noteq> None \<longleftrightarrow> us \<noteq> None" using st by (simp add: delete_state_def)
      then have "st' = ?st" "ex = None"
        using run False del None no by (auto simp: Flush_def GetOrCreate_loaded [OF loaded(1)] Let_def)
      ultimately show ?thesis by auto
    qed
  qed
qed

lemma Flush_throws:
  assumes "delete_state tid g us D ds st" "tid \<noteq> NOT_DELETED_ID" "tid \<noteq> 0" "pending_ok g st" "Flush tid st = (st', Some e)"
  shows "e = TransactionException \<and> (\<exists>r \<in> pending st. snd (rg_ids g r) \<notin> {tid, NOT_DELETED_ID})
    \<and> (\<exists>P \<subseteq> D \<union> pending st. delete_marks tid g P st')"
proof -
  obtain j where j: "e = TransactionException" "j < length (del_rows st)" "stops_at tid g (current_chunk st) (del_rows st) j"
    "delete_marks tid g (D \<union> vector_rows (current_chunk st) (take j (del_rows st))) st'"
    using Flush_ok [OF assms] by blast
  have "vector_rows (current_chunk st) (take j (del_rows st)) \<subseteq> pending st"
    unfolding vector_rows_def pending_def by (intro image_mono set_take_subset)
  moreover have "current_chunk st * STANDARD_VECTOR_SIZE + del_rows st ! j \<in> pending st" using j(2) by (simp add: pending_def)
  ultimately show ?thesis using j(1,3,4) unfolding stops_at_def by blast
qed

lemma Delete_rows_ok:
  assumes "delete_state tid g us D ds st" "tid \<noteq> NOT_DELETED_ID" "tid \<noteq> 0" "pending_ok g st"
    and "length (del_rows st) + length rs \<le> STANDARD_VECTOR_SIZE" "\<forall>r \<in> set rs. deletable g r" "Delete_rows tid rs st = (st', ex)"
  shows "(ex = None \<longrightarrow> (\<exists>ds'. delete_state tid g us (D \<union> pending st \<union> set rs) ds' st'))
    \<and> (\<forall>e. ex = Some e \<longrightarrow> e = TransactionException \<and> (\<exists>r \<in> pending st \<union> set rs. snd (rg_ids g r) \<notin> {tid, NOT_DELETED_ID})
         \<and> (\<exists>P \<subseteq> D \<union> pending st \<union> set rs. delete_marks tid g P st'))"
  using assms
proof (induction rs arbitrary: D ds st)
  case Nil
  from Flush_throws [OF Nil(1-4)] Flush_ok [OF Nil(1-4)] Nil(7) show ?case by auto
next
  case (Cons r rs)
  let ?N = STANDARD_VECTOR_SIZE
  let ?push = "\<lambda>st. st\<lparr>del_rows := del_rows st @ [r mod ?N]\<rparr>"
  have len: "length (del_rows st) < ?N" and r: "deletable g r" using Cons.prems(5,6) by auto
  have sub: "r - r div ?N * ?N = r mod ?N" by (simp add: minus_div_mult_eq_mod)
  have push: "pending (?push s) = insert r (pending s)" "pending_ok g (?push s)" if "current_chunk s = r div ?N" "pending_ok g s" for s
  proof -
    show p: "pending (?push s) = insert r (pending s)" using that(1) by (auto simp: pending_def)
    show "pending_ok g (?push s)" unfolding pending_ok_def p using that(2) r by (auto simp: pending_ok_def)
  qed
  show ?case
  proof (cases "current_chunk st = r div ?N")
    case True
    have run: "Delete_rows tid rs (?push st) = (st', ex)" using Cons.prems(7) True len by (simp add: Delete_row_def Let_def sub)
    have "delete_state tid g us D ds (?push st)" using Cons.prems(1) by simp
    moreover have "length (del_rows (?push st)) + length rs \<le> ?N" using Cons.prems(5) by simp
    ultimately show ?thesis
      using Cons.IH [OF _ Cons.prems(2,3) push(2) [OF True Cons.prems(4)] _ _ run] push(1) [OF True Cons.prems(4)] Cons.prems(6) by simp
  next
    case False
    obtain st1 ex1 where fl: "Flush tid st = (st1, ex1)" by fastforce
    note F = Flush_ok [OF Cons.prems(1-4) fl]
    show ?thesis
    proof (cases ex1)
      case (Some e)
      then have "ex = Some e" "st' = st1" using Cons.prems(7) False fl by (simp_all add: Delete_row_def Let_def)
      then show ?thesis using Flush_throws [OF Cons.prems(1-4) fl [unfolded Some]] by auto
    next
      case None
      then obtain ds1 where st1: "del_rows st1 = []" "delete_state tid g us (D \<union> pending st) ds1 st1" using F by blast
      let ?st = "st1\<lparr>current_chunk := r div ?N, chunk_row := r div ?N * ?N\<rparr>"
      have p: "pending ?st = {}" "pending_ok g ?st" "current_chunk ?st = r div ?N" using st1(1) by (simp_all add: pending_ok_def pending_def)
      have run: "Delete_rows tid rs (?push ?st) = (st', ex)"
        using Cons.prems(7) False fl None st1(1) by (simp add: Delete_row_def Let_def sub)
      have pre: "delete_state tid g us (D \<union> pending st) ds1 (?push ?st)" "length (del_rows (?push ?st)) + length rs \<le> ?N" "\<forall>r \<in> set rs. deletable g r"
        using st1 Cons.prems(5,6) by simp_all
      have sets: "D \<union> pending st \<union> pending (?push ?st) \<union> set rs = D \<union> pending st \<union> set (r # rs)" "pending (?push ?st) \<union> set rs = set (r # rs)"
        unfolding push(1) [OF p(3,2)] p(1) by auto
      from Cons.IH [OF pre(1) Cons.prems(2,3) push(2) [OF p(3,2)] pre(2,3) run, unfolded sets] show ?thesis by blast
    qed
  qed
qed

lemma sub_row_eq: "b \<le> a \<Longrightarrow> a < 2 ^ 64 \<Longrightarrow> sub_row a b = a - b"
  by (simp add: sub_row_def nat_mod_distrib of_nat_diff [symmetric] del: of_nat_diff)

text \<open>The row ids of a delete, relative to the row group.\<close>

definition delete_ids :: "RowGroup \<Rightarrow> idx_t list \<Rightarrow> bool" where
  "delete_ids g ids \<longleftrightarrow> length ids \<le> STANDARD_VECTOR_SIZE
     \<and> (\<forall>id \<in> set ids. rg_start g \<le> id \<and> id < 2 ^ 64 \<and> deletable g (id - rg_start g))"

lemma rg_Delete_ok:
  assumes inv: "rg_inv g" and tid: "tid \<noteq> NOT_DELETED_ID" "tid \<noteq> 0" and ids: "delete_ids g ids"
    and run: "rg_Delete tid ids us g = (st, ex)"
  shows "(ex = None \<longrightarrow> (\<exists>ds. delete_state tid g us ((\<lambda>id. id - rg_start g) ` set ids) ds st))
    \<and> (\<forall>e. ex = Some e \<longrightarrow> e = TransactionException \<and> (\<exists>id \<in> set ids. snd (rg_ids g (id - rg_start g)) \<notin> {tid, NOT_DELETED_ID})
         \<and> (\<exists>P \<subseteq> (\<lambda>id. id - rg_start g) ` set ids. delete_marks tid g P st))"
proof -
  let ?rs = "map (\<lambda>id. id - rg_start g) ids"
  let ?st = "\<lparr>current_chunk = INVALID_INDEX, del_rows = [], chunk_row = 0, delete_count = 0, del_group = g, undo_buffer = us\<rparr>"
  have rs: "map (\<lambda>id. sub_row id (rg_start g)) ids = ?rs" using ids by (auto simp: delete_ids_def sub_row_eq)
  have run': "Delete_rows tid ?rs ?st = (st, ex)" using run unfolding rg_Delete_def rs .
  have "map_option (\<lambda>us. us @ []) us = us" by (cases us) auto
  then have "delete_state tid g us {} [] ?st" using inv by (simp add: delete_state_def undo_rows_def)
  from Delete_rows_ok [OF this tid _ _ _ run'] show ?thesis using ids by (auto simp: delete_ids_def pending_ok_def pending_def)
qed

lemma Delete_rows_one_vector:
  assumes "\<forall>r \<in> set rs. r div STANDARD_VECTOR_SIZE = current_chunk st" "length (del_rows st) + length rs \<le> STANDARD_VECTOR_SIZE"
  shows "Delete_rows tid rs st = Flush tid (st\<lparr>del_rows := del_rows st @ map (\<lambda>r. r mod STANDARD_VECTOR_SIZE) rs\<rparr>)"
  using assms
proof (induction rs arbitrary: st)
  case (Cons r rs)
  let ?st = "st\<lparr>del_rows := del_rows st @ [r mod STANDARD_VECTOR_SIZE]\<rparr>"
  have "r - r div STANDARD_VECTOR_SIZE * STANDARD_VECTOR_SIZE = r mod STANDARD_VECTOR_SIZE" by (rule minus_div_mult_eq_mod)
  then have "Delete_row tid r st = (?st, None)" using Cons.prems by (simp add: Delete_row_def Let_def)
  then show ?case using Cons.IH [of ?st] Cons.prems by simp
qed simp

text \<open>A delete whose rows are all in one vector, with a conflict.\<close>

lemma rg_Delete_conflict_state:
  assumes inv: "rg_inv g" and tid: "tid \<noteq> NOT_DELETED_ID" "tid \<noteq> 0" and ids: "delete_ids g ids" "ids = pre @ c # post"
    and one: "\<forall>id \<in> set ids. (id - rg_start g) div STANDARD_VECTOR_SIZE = v"
    and pre: "\<forall>id \<in> set pre. snd (rg_ids g (id - rg_start g)) \<in> {tid, NOT_DELETED_ID}"
    and c: "snd (rg_ids g (c - rg_start g)) \<notin> {tid, NOT_DELETED_ID}"
  shows "\<exists>st. rg_Delete tid ids us g = (st, Some TransactionException) \<and> undo_buffer st = us
    \<and> delete_marks tid g ((\<lambda>id. id - rg_start g) ` set pre) st"
proof -
  let ?N = STANDARD_VECTOR_SIZE and ?f = "\<lambda>id. id - rg_start g"
  let ?rs = "map ?f ids" and ?rows = "map (\<lambda>id. ?f id mod STANDARD_VECTOR_SIZE) ids"
  let ?st = "\<lparr>current_chunk = INVALID_INDEX, del_rows = [], chunk_row = 0, delete_count = 0, del_group = g, undo_buffer = us\<rparr>"
  let ?st2 = "?st\<lparr>current_chunk := v, chunk_row := v * ?N, del_rows := ?rows\<rparr>"
  have whole: "v * ?N + ?f id mod ?N = ?f id" if "id \<in> set ids" for id using one that by (metis div_mult_mod_eq)
  have rs: "map (\<lambda>id. sub_row id (rg_start g)) ids = ?rs" using ids(1) by (auto simp: delete_ids_def sub_row_eq)
  have n: "rg_count g \<le> ROW_GROUP_SIZE" using inv by (simp add: rg_inv_def rvm_inv_def)
  have "?f c < ROW_GROUP_SIZE" "?f c div ?N = v" using ids one n by (auto simp: delete_ids_def deletable_def)
  then have "v \<noteq> INVALID_INDEX" using row_vector(1) [of "?f c"] by (auto simp: INVALID_INDEX_def ROW_GROUP_VECTOR_COUNT_def ROW_GROUP_SIZE_def STANDARD_VECTOR_SIZE_def)
  moreover obtain i0 ids1 where i0: "ids = i0 # ids1" using ids(2) by (cases pre) auto
  moreover have "?f i0 div ?N = v" using one i0 by simp
  moreover have "?f i0 - ?f i0 div ?N * ?N = ?f i0 mod ?N" by (rule minus_div_mult_eq_mod)
  ultimately have "Delete_row tid (?f i0) ?st = (?st\<lparr>current_chunk := v, chunk_row := v * ?N, del_rows := [?f i0 mod ?N]\<rparr>, None)"
    by (simp add: Delete_row_def Flush_def Let_def)
  then have "Delete_rows tid ?rs ?st = Delete_rows tid (map ?f ids1) (?st\<lparr>current_chunk := v, chunk_row := v * ?N, del_rows := [?f i0 mod ?N]\<rparr>)"
    by (simp add: i0)
  also have "\<dots> = Flush tid ?st2"
    using one ids(1) by (subst Delete_rows_one_vector) (auto simp: i0 delete_ids_def comp_def)
  finally have run: "rg_Delete tid ids us g = Flush tid ?st2" unfolding rg_Delete_def rs .
  obtain st ex where fl: "Flush tid ?st2 = (st, ex)" by fastforce
  have "map_option (\<lambda>us. us @ []) us = us" by (cases us) auto
  then have "delete_state tid g us {} [] ?st2" using inv by (simp add: delete_state_def undo_rows_def)
  moreover have pend: "pending ?st2 = ?f ` set ids" using whole by (auto simp: pending_def image_iff)
  moreover have "pending_ok g ?st2" unfolding pending_ok_def pend using ids(1) by (auto simp: delete_ids_def STANDARD_VECTOR_SIZE_def)
  ultimately have F: "(ex = None \<longrightarrow> (\<exists>ds'. delete_state tid g us (?f ` set ids) ds' st))
    \<and> (\<forall>e. ex = Some e \<longrightarrow> e = TransactionException \<and> undo_buffer st = us
         \<and> (\<exists>j<length ids. stops_at tid g v ?rows j \<and> delete_marks tid g (vector_rows v (take j ?rows)) st))"
    using Flush_ok [OF _ tid _ fl, of g us "{}" "[]"] by simp
  have "ex \<noteq> None" using F c ids(2) by (auto simp: delete_state_def)
  then obtain j where j: "ex = Some TransactionException" "undo_buffer st = us" "j < length ids" "stops_at tid g v ?rows j"
    "delete_marks tid g (vector_rows v (take j ?rows)) st" using F by auto
  have at_j: "snd (rg_ids g (?f (ids ! j))) \<notin> {tid, NOT_DELETED_ID}"
    using j(3,4) whole [of "ids ! j"] by (simp add: stops_at_def)
  have before: "snd (rg_ids g (?f id)) \<in> {tid, NOT_DELETED_ID}" if "id \<in> set (take j ids)" for id
  proof -
    have "\<forall>q \<in> set (take j ids). snd (rg_ids g (v * ?N + ?f q mod ?N)) \<in> {tid, NOT_DELETED_ID}"
      using j(4) by (simp add: stops_at_def take_map)
    with that whole [OF in_set_takeD [OF that]] show ?thesis by metis
  qed
  have "j = length pre"
  proof (rule antisym)
    show "j \<le> length pre"
    proof (rule ccontr)
      assume "\<not> j \<le> length pre"
      then have "c \<in> set (take j ids)" by (simp add: ids(2) take_Cons')
      with before c show False by blast
    qed
    show "length pre \<le> j"
    proof (rule ccontr)
      assume "\<not> length pre \<le> j"
      then have "ids ! j \<in> set pre" by (simp add: ids(2) nth_append)
      with at_j pre show False by blast
    qed
  qed
  then have "vector_rows v (take j ?rows) = (\<lambda>id. v * ?N + ?f id mod ?N) ` set pre"
    by (simp add: vector_rows_def take_map ids(2) image_image)
  also have "\<dots> = ?f ` set pre" using whole ids(2) by (intro image_cong) auto
  finally have "vector_rows v (take j ?rows) = ?f ` set pre" .
  then show ?thesis using run fl j by auto
qed

section \<open>Properties\<close>

lemma load_inv:
  "n \<le> ROW_GROUP_SIZE \<Longrightarrow> rg_inv (RowGroup_load s n None)" "r < ROW_GROUP_SIZE \<Longrightarrow> rg_ids (RowGroup_load s n None) r = (0, NOT_DELETED_ID)"
  "rg_count (RowGroup_load s n p) = n" "rg_start (RowGroup_load s n p) = s"
  by (simp_all add: RowGroup_load_def rg_inv_def HasUnloadedDeletes_def versions_of_def new_inv rg_ids_def new_row_ids)

lemma small_group: "r < 122880 \<Longrightarrow> r < ROW_GROUP_SIZE"
  by (simp add: ROW_GROUP_SIZE_def)

text \<open>
  Appending rows to a row group. Whatever mixture of full and partial vectors the new rows touch,
  exactly the appended rows get the id of the transaction, no other row changes, the row group is
  filled up to its size at most, and the shortcuts of the version information stay consistent.
\<close>

lemma rg_Append_refines:
  assumes "rg_inv g" "0 < cnt" "rg_count g < ROW_GROUP_SIZE"
  shows "\<exists>g'. rg_AppendVersionInfo tid cnt g = Inr g' \<and> rg_inv g' \<and> rg_count g' = min ROW_GROUP_SIZE (rg_count g + cnt)
    \<and> (\<forall>r<ROW_GROUP_SIZE. rg_ids g' r = (if rg_count g \<le> r \<and> r < rg_count g' then (tid, NOT_DELETED_ID) else rg_ids g r))"
  using rg_Append_ok [OF assms, of tid] by blast

text \<open>
  Reverting an append. When the transaction that appended the rows is rolled back, the row group
  has its old number of rows and every one of them has its old ids.
\<close>

lemma rg_Append_Revert:
  assumes "rg_inv g" "0 < cnt" "rg_count g < ROW_GROUP_SIZE" "rg_AppendVersionInfo tid cnt g = Inr g1"
  shows "\<exists>g2. rg_RevertAppend (rg_start g + rg_count g) g1 = Inr g2 \<and> rg_inv g2 \<and> rg_count g2 = rg_count g
    \<and> (\<forall>r<rg_count g. rg_ids g2 r = rg_ids g r)"
proof -
  have n: "rg_inv g1" "rg_start g1 = rg_start g" "rg_count g \<le> rg_count g1" "rg_count g1 \<le> ROW_GROUP_SIZE"
    "\<And>r. r < ROW_GROUP_SIZE \<Longrightarrow> rg_ids g1 r = (if rg_count g \<le> r \<and> r < rg_count g1 then (tid, NOT_DELETED_ID) else rg_ids g r)"
    "\<And>i c. i < ROW_GROUP_VECTOR_COUNT \<Longrightarrow> vector_info (versions_of g1) ! i = Some (ConstantInfo c) \<Longrightarrow> rows_in (rg_count g) i \<in> {0, STANDARD_VECTOR_SIZE}"
    using rg_Append_ok [OF assms(1-3), of tid] assms(3,4) by auto
  have "snd (rg_ids g1 r) = NOT_DELETED_ID" if "rg_count g \<le> r" "r < rg_count g1" for r using n(4) n(5) [of r] that by simp
  from rg_Revert_ok [OF n(1,3) this n(6)] show ?thesis using n(2,5) assms(3) by fastforce
qed

text \<open>
  Committing an append. After the commit, the appended rows are visible to every transaction that
  starts later than the commit, and to no transaction that started before.
\<close>

lemma rg_Append_Commit:
  assumes "rg_inv g" "0 < cnt" "rg_count g < ROW_GROUP_SIZE" "tid \<noteq> 0" "\<forall>r<rg_count g. fst (rg_ids g r) \<noteq> tid"
    and "rg_AppendVersionInfo tid cnt g = Inr g1"
  shows "\<exists>g2. rg_CommitAppend cid (rg_count g) (rg_count g1 - rg_count g) g1 = Inr g2 \<and> rg_inv g2 \<and> rg_count g2 = rg_count g1
    \<and> (\<forall>t r. valid_txn t \<and> 0 < start_time t \<and> rg_count g \<le> r \<and> r < rg_count g2 \<longrightarrow>
         rg_Fetch t r g2 = Inr (cid < start_time t \<or> cid = transaction_id t, g2))"
proof -
  have n: "rg_inv g1" "rg_count g < rg_count g1" "rg_count g1 \<le> ROW_GROUP_SIZE"
    "\<And>r. r < ROW_GROUP_SIZE \<Longrightarrow> rg_ids g1 r = (if rg_count g \<le> r \<and> r < rg_count g1 then (tid, NOT_DELETED_ID) else rg_ids g r)"
    using rg_Append_ok [OF assms(1-3), of tid] assms(2,3,6) by auto
  have "inserted_by tid (rg_count g) (rg_count g1) (rg_count g1) (versions_of g1)"
    using n(2-4) assms(4,5) by (auto simp: inserted_by_def rg_ids_def split: if_splits)
  from rg_Commit_ok [OF n(1) this, of cid] obtain g2 where g2: "rg_CommitAppend cid (rg_count g) (rg_count g1 - rg_count g) g1 = Inr g2"
    "rg_inv g2" "rg_count g2 = rg_count g1" "\<And>r. rg_count g \<le> r \<Longrightarrow> r < rg_count g1 \<Longrightarrow> rg_ids g2 r = (cid, NOT_DELETED_ID)"
    using n(3,4) by auto
  have "rg_Fetch t r g2 = Inr (cid < start_time t \<or> cid = transaction_id t, g2)"
    if "valid_txn t" "0 < start_time t" "rg_count g \<le> r" "r < rg_count g2" for t r
    using rg_Fetch_ok [OF g2(2) that(4,1,2)] g2(3) g2(4) [of r] that UseVersion_NOT_DELETED [OF that(1)]
    by (simp add: sees_def UseVersion_def TransactionVersionOperator_def)
  then show ?thesis using g2 by blast
qed

text \<open>The rows that a delete of persistent rows may name.\<close>

lemma load_delete_ids:
  "length ids \<le> 2048 \<Longrightarrow> \<forall>id \<in> set ids. id < 5000 \<Longrightarrow> delete_ids (RowGroup_load 0 5000 None) ids"
  by (auto simp: delete_ids_def deletable_def load_inv small_group STANDARD_VECTOR_SIZE_def NOT_DELETED_ID_def)

lemma load_delete:
  assumes "length ids \<le> 2048" "\<forall>id \<in> set ids. id < 5000" "tid \<noteq> NOT_DELETED_ID" "tid \<noteq> 0"
  shows "\<exists>st ds. rg_Delete tid ids us (RowGroup_load 0 5000 None) = (st, None)
    \<and> delete_state tid (RowGroup_load 0 5000 None) us (set ids) ds st"
proof -
  let ?g = "RowGroup_load 0 5000 None"
  obtain st ex where run: "rg_Delete tid ids us ?g = (st, ex)" by fastforce
  have "rg_inv ?g" by (rule load_inv(1)) (simp add: ROW_GROUP_SIZE_def)
  note ok = rg_Delete_ok [OF this assms(3,4) load_delete_ids [OF assms(1,2)] run]
  have "ex = None" using ok assms(2) by (cases ex) (auto simp: load_inv small_group)
  then show ?thesis using ok run by (auto simp: load_inv)
qed

lemma rg_Delete_apply:
  assumes "rg_inv g" "tid \<noteq> NOT_DELETED_ID" "tid \<noteq> 0" "delete_ids g ids" "rg_Delete tid ids (Some []) g = (st, None)"
  shows "\<exists>ds. undo_buffer st = Some ds \<and> (\<forall>cid es. set es = set ds \<longrightarrow>
    (\<exists>m. fold_res (\<lambda>d. rvm_CommitDelete (di_vector_idx d) cid d) es (versions_of (del_group st)) = Inr m \<and> rvm_inv (rg_count g) m
      \<and> (\<forall>r<ROW_GROUP_SIZE. row_ids m r = (if rg_start g + r \<in> set ids \<and> snd (rg_ids g r) = NOT_DELETED_ID then (fst (rg_ids g r), cid) else rg_ids g r))))"
proof -
  let ?D = "(\<lambda>id. id - rg_start g) ` set ids" and ?m = "versions_of (del_group st)"
  have D_iff: "r \<in> ?D \<longleftrightarrow> rg_start g + r \<in> set ids" for r using assms(4) by (force simp: delete_ids_def)
  obtain ds where ds: "delete_state tid g (Some []) ?D ds st" using rg_Delete_ok [OF assms] by blast
  then have D: "rvm_inv (rg_count g) ?m" "undo_buffer st = Some ds" "\<And>d. d \<in> set ds \<Longrightarrow> entry_ok (rg_count g) ?m d"
    "undo_rows ds = {r \<in> ?D. snd (rg_ids g r) = NOT_DELETED_ID}"
    "\<And>r. r < ROW_GROUP_SIZE \<Longrightarrow> row_ids ?m r = (if r \<in> ?D then (fst (rg_ids g r), tid) else rg_ids g r)"
    and own: "\<And>r. r \<in> ?D \<Longrightarrow> snd (rg_ids g r) \<in> {tid, NOT_DELETED_ID}"
    by (auto simp: delete_state_def rg_inv_def rg_ids_def)
  have "\<exists>m. fold_res (\<lambda>d. rvm_CommitDelete (di_vector_idx d) cid d) es ?m = Inr m \<and> rvm_inv (rg_count g) m
      \<and> (\<forall>r<ROW_GROUP_SIZE. row_ids m r = (if rg_start g + r \<in> set ids \<and> snd (rg_ids g r) = NOT_DELETED_ID then (fst (rg_ids g r), cid) else rg_ids g r))"
    if "set es = set ds" for cid es
  proof -
    have es: "undo_rows es = undo_rows ds" "\<And>d. d \<in> set es \<Longrightarrow> entry_ok (rg_count g) ?m d" using that D(3) by (simp_all add: undo_rows_def)
    obtain m where m: "fold_res (\<lambda>d. rvm_CommitDelete (di_vector_idx d) cid d) es ?m = Inr m" "rvm_inv (rg_count g) m"
      "\<And>r. r < ROW_GROUP_SIZE \<Longrightarrow> row_ids m r = (if r \<in> undo_rows ds then (fst (row_ids ?m r), cid) else row_ids ?m r)"
      using apply_entries [OF D(1) es(2), where cid = cid and ds = es] unfolding es(1) by blast
    have "row_ids m r = (if rg_start g + r \<in> set ids \<and> snd (rg_ids g r) = NOT_DELETED_ID then (fst (rg_ids g r), cid) else rg_ids g r)" if "r < ROW_GROUP_SIZE" for r
      using m(3) [OF that] D(4) D(5) [OF that] own [of r] D_iff [of r] by (cases "r \<in> ?D") (auto simp: prod_eq_iff)
    then show ?thesis using m(1,2) by blast
  qed
  then show ?thesis using D(2) by blast
qed

text \<open>
  C39: a delete that ends in a conflict leaves its earlier marks behind. When the rows of a delete are in one vector
  of a row group and one of them was deleted by another transaction, the delete throws at the first such row. The
  rows before it stay marked with the transaction, all other rows keep their ids, and nothing has been added to the
  undo buffer, so that a rollback does not take the marks back. From then on every delete of such
  a row by another transaction fails with a conflict, too.
\<close>

theorem rg_Delete_conflict_leaves_marks:
  assumes "rg_inv g" "tid \<noteq> NOT_DELETED_ID" "tid \<noteq> 0" "delete_ids g (pre @ c # post)"
    and "\<forall>id \<in> set (pre @ c # post). (id - rg_start g) div STANDARD_VECTOR_SIZE = v"
    and "\<forall>id \<in> set pre. snd (rg_ids g (id - rg_start g)) \<in> {tid, NOT_DELETED_ID}"
    and "snd (rg_ids g (c - rg_start g)) \<notin> {tid, NOT_DELETED_ID}"
  shows "\<exists>st. rg_Delete tid (pre @ c # post) us g = (st, Some TransactionException)
    \<and> undo_buffer st = us
    \<and> (\<forall>r<ROW_GROUP_SIZE. rg_ids (del_group st) r = (if rg_start g + r \<in> set pre then (fst (rg_ids g r), tid) else rg_ids g r))
    \<and> (\<forall>id \<in> set pre. \<forall>tid2 us2. tid2 \<notin> {tid, 0, NOT_DELETED_ID} \<longrightarrow>
         snd (rg_Delete tid2 [id] us2 (del_group st)) = Some TransactionException)"
proof -
  let ?f = "\<lambda>id. id - rg_start g"
  obtain st where st: "rg_Delete tid (pre @ c # post) us g = (st, Some TransactionException)" "undo_buffer st = us"
    and marks: "delete_marks tid g (?f ` set pre) st"
    using rg_Delete_conflict_state [OF assms(1-4) refl assms(5-7)] by blast
  have ids: "rg_start g \<le> id" "id < 2 ^ 64" "?f id < rg_count g" if "id \<in> set pre" for id
    using assms(4) that by (auto simp: delete_ids_def deletable_def)
  have n: "rg_count g \<le> ROW_GROUP_SIZE" using assms(1) by (simp add: rg_inv_def rvm_inv_def)
  have mem: "r \<in> ?f ` set pre \<longleftrightarrow> rg_start g + r \<in> set pre" for r using ids(1) by force
  have "snd (rg_Delete tid2 [id] us2 (del_group st)) = Some TransactionException"
    if id: "id \<in> set pre" and tid2: "tid2 \<notin> {tid, 0, NOT_DELETED_ID}" for id tid2 us2
  proof -
    have own: "snd (rg_ids (del_group st) (?f id)) = tid" "rg_start (del_group st) = rg_start g"
      using marks id ids(3) [OF id] n by (auto simp: delete_marks_def)
    then have "delete_ids (del_group st) [id]"
      using marks ids [OF id] assms(3) by (simp add: delete_marks_def delete_ids_def deletable_def STANDARD_VECTOR_SIZE_def)
    moreover obtain st2 ex where run: "rg_Delete tid2 [id] us2 (del_group st) = (st2, ex)" by fastforce
    ultimately have "ex \<noteq> None" "\<forall>e. ex = Some e \<longrightarrow> e = TransactionException"
      using rg_Delete_ok [of "del_group st" tid2 "[id]" us2 st2 ex] own marks tid2 assms(2) by (auto simp: delete_marks_def delete_state_def)
    then show ?thesis using run by auto
  qed
  then show ?thesis using st marks mem by (auto simp: delete_marks_def)
qed

theorem rg_Delete_conflict_leaves_marks_witness:
  "\<exists>st st2. rg_Delete 8 [3000] (Some []) (RowGroup_load 0 5000 None) = (st, None)
     \<and> rg_Delete 7 [2500, 3000, 2600] (Some []) (del_group st) = (st2, Some TransactionException)
     \<and> undo_buffer st2 = Some [] \<and> rg_ids (del_group st2) 2500 = (0, 7) \<and> rg_ids (del_group st2) 2600 = (0, NOT_DELETED_ID)
     \<and> snd (rg_Delete 9 [2500] None (del_group st2)) = Some TransactionException"
proof -
  let ?g = "RowGroup_load 0 5000 None"
  have nd: "7 \<noteq> NOT_DELETED_ID" "8 \<noteq> NOT_DELETED_ID" "9 \<noteq> NOT_DELETED_ID" by (simp_all add: NOT_DELETED_ID_def)
  obtain st where st: "rg_Delete 8 [3000] (Some []) ?g = (st, None)" and marks: "delete_marks 8 ?g {3000} st"
    using load_delete [of "[3000]" 8 "Some []"] nd(2) by (auto dest: delete_state_marks)
  let ?h = "del_group st"
  have h: "rg_inv ?h" "rg_start ?h = 0" "rg_count ?h = 5000" "\<And>r. r < 122880 \<Longrightarrow> rg_ids ?h r = (if r = 3000 then (0, 8) else (0, NOT_DELETED_ID))"
    using marks by (simp_all add: delete_marks_def load_inv small_group)
  have "delete_ids ?h ([2500] @ 3000 # [2600])" using h nd by (simp add: delete_ids_def deletable_def STANDARD_VECTOR_SIZE_def NOT_DELETED_ID_def)
  moreover have "\<forall>id \<in> set ([2500] @ 3000 # [2600]). (id - rg_start ?h) div STANDARD_VECTOR_SIZE = 1" using h(2) by (simp add: STANDARD_VECTOR_SIZE_def)
  moreover have "\<forall>id \<in> set [2500]. snd (rg_ids ?h (id - rg_start ?h)) \<in> {7, NOT_DELETED_ID}" "snd (rg_ids ?h (3000 - rg_start ?h)) \<notin> {7, NOT_DELETED_ID}"
    using h nd by simp_all
  ultimately obtain st2 where "rg_Delete 7 ([2500] @ 3000 # [2600]) (Some []) ?h = (st2, Some TransactionException)" "undo_buffer st2 = Some []"
      "\<forall>r<ROW_GROUP_SIZE. rg_ids (del_group st2) r = (if rg_start ?h + r \<in> set [2500] then (fst (rg_ids ?h r), 7) else rg_ids ?h r)"
      "\<forall>id \<in> set [2500]. \<forall>tid2 us2. tid2 \<notin> {7, 0, NOT_DELETED_ID} \<longrightarrow> snd (rg_Delete tid2 [id] us2 (del_group st2)) = Some TransactionException"
    using rg_Delete_conflict_leaves_marks [OF h(1) nd(1), of "[2500]" 3000 "[2600]" 1 "Some []"] by auto
  then show ?thesis using st h nd small_group [of 2500] small_group [of 2600] by auto
qed

text \<open>
  C21: rolling back a delete. The entries that a successful delete pushed to the undo buffer, applied in reverse order,
  give every row of the row group the ids it had before the statement.
\<close>

theorem rg_Delete_rollback:
  assumes "rg_inv g" "tid \<noteq> NOT_DELETED_ID" "tid \<noteq> 0" "delete_ids g ids" "rg_Delete tid ids (Some []) g = (st, None)"
  shows "\<exists>ds m. undo_buffer st = Some ds \<and> undo_Rollback ds (versions_of (del_group st)) = Inr m
    \<and> rvm_inv (rg_count g) m \<and> (\<forall>r<ROW_GROUP_SIZE. row_ids m r = rg_ids g r)"
proof -
  obtain ds m where "undo_buffer st = Some ds" "fold_res (\<lambda>d. rvm_CommitDelete (di_vector_idx d) NOT_DELETED_ID d) (rev ds) (versions_of (del_group st)) = Inr m"
    "rvm_inv (rg_count g) m" and m: "\<And>r. r < ROW_GROUP_SIZE \<Longrightarrow> row_ids m r =
      (if rg_start g + r \<in> set ids \<and> snd (rg_ids g r) = NOT_DELETED_ID then (fst (rg_ids g r), NOT_DELETED_ID) else rg_ids g r)"
    using rg_Delete_apply [OF assms] set_rev by meson
  moreover have "row_ids m r = rg_ids g r" if "r < ROW_GROUP_SIZE" for r using m [OF that] by (auto simp: prod_eq_iff)
  ultimately show ?thesis by (auto simp: undo_Rollback_def RollbackEntry_def [abs_def])
qed

theorem rg_Delete_rollback_witness:
  "\<exists>st ds m. rg_Delete 7 [4000, 3, 4000] (Some []) (RowGroup_load 0 5000 None) = (st, None) \<and> undo_buffer st = Some ds
     \<and> undo_Rollback ds (versions_of (del_group st)) = Inr m \<and> row_ids m 4000 = (0, NOT_DELETED_ID)"
proof -
  let ?g = "RowGroup_load 0 5000 None"
  obtain st where st: "rg_Delete 7 [4000, 3, 4000] (Some []) ?g = (st, None)" using load_delete [of "[4000, 3, 4000]" 7] by (auto simp: NOT_DELETED_ID_def)
  have "rg_inv ?g" "7 \<noteq> NOT_DELETED_ID" using load_inv(1) [of 5000] by (simp_all add: ROW_GROUP_SIZE_def NOT_DELETED_ID_def)
  from rg_Delete_rollback [OF this _ load_delete_ids st] st show ?thesis by (auto simp: load_inv small_group)
qed

text \<open>
  C22: committing a delete. The entries of the undo buffer, applied with the commit id, mark exactly the rows
  that the statement deleted, so a transaction that starts later does not see
  them, and one that started before the commit still does.
\<close>

theorem rg_Delete_commit:
  assumes "rg_inv g" "tid \<noteq> NOT_DELETED_ID" "tid \<noteq> 0" "delete_ids g ids" "rg_Delete tid ids (Some []) g = (st, None)"
  shows "\<exists>ds m. undo_buffer st = Some ds \<and> undo_Commit cid ds (versions_of (del_group st)) = Inr m \<and> rvm_inv (rg_count g) m
    \<and> (\<forall>t r. valid_txn t \<and> 0 < start_time t \<and> r < rg_count g \<longrightarrow> rvm_Fetch t r m =
         Inr (sees t (rg_ids g r) \<and> \<not> (rg_start g + r \<in> set ids \<and> snd (rg_ids g r) = NOT_DELETED_ID \<and> (cid < start_time t \<or> cid = transaction_id t))))"
proof -
  obtain ds where b: "undo_buffer st = Some ds" "\<forall>cid es. set es = set ds \<longrightarrow>
    (\<exists>m. fold_res (\<lambda>d. rvm_CommitDelete (di_vector_idx d) cid d) es (versions_of (del_group st)) = Inr m \<and> rvm_inv (rg_count g) m
      \<and> (\<forall>r<ROW_GROUP_SIZE. row_ids m r = (if rg_start g + r \<in> set ids \<and> snd (rg_ids g r) = NOT_DELETED_ID then (fst (rg_ids g r), cid) else rg_ids g r)))"
    using rg_Delete_apply [OF assms] by blast
  from b(2) [rule_format, OF refl, of cid] obtain m where ds: "undo_buffer st = Some ds" "fold_res (\<lambda>d. rvm_CommitDelete (di_vector_idx d) cid d) ds (versions_of (del_group st)) = Inr m"
    and inv: "rvm_inv (rg_count g) m" and m: "\<And>r. r < ROW_GROUP_SIZE \<Longrightarrow> row_ids m r =
      (if rg_start g + r \<in> set ids \<and> snd (rg_ids g r) = NOT_DELETED_ID then (fst (rg_ids g r), cid) else rg_ids g r)"
    using b(1) by blast
  have "rvm_Fetch t r m = Inr (sees t (rg_ids g r) \<and> \<not> (rg_start g + r \<in> set ids \<and> snd (rg_ids g r) = NOT_DELETED_ID \<and> (cid < start_time t \<or> cid = transaction_id t)))"
    if t: "valid_txn t" "0 < start_time t" "r < rg_count g" for t r
  proof -
    have "r < ROW_GROUP_SIZE" using t(3) inv by (simp add: rvm_inv_def)
    then show ?thesis using rvm_Fetch_ok [OF inv t(3,1,2)] m [of r] UseVersion_NOT_DELETED [OF t(1)]
      by (auto simp: sees_def UseVersion_def TransactionVersionOperator_def)
  qed
  then show ?thesis using ds inv by (auto simp: undo_Commit_def CommitEntry_def [abs_def])
qed

theorem rg_Delete_commit_witness:
  "\<exists>st ds m. rg_Delete 7 [4000, 3, 4000] (Some []) (RowGroup_load 0 5000 None) = (st, None) \<and> undo_buffer st = Some ds
     \<and> undo_Commit 20 ds (versions_of (del_group st)) = Inr m
     \<and> rvm_Fetch \<lparr>transaction_id = TRANSACTION_ID_START, start_time = 21\<rparr> 4000 m = Inr False
     \<and> rvm_Fetch \<lparr>transaction_id = TRANSACTION_ID_START, start_time = 19\<rparr> 4000 m = Inr True"
proof -
  let ?g = "RowGroup_load 0 5000 None"
  obtain st where st: "rg_Delete 7 [4000, 3, 4000] (Some []) ?g = (st, None)" using load_delete [of "[4000, 3, 4000]" 7] by (auto simp: NOT_DELETED_ID_def)
  have "rg_inv ?g" "7 \<noteq> NOT_DELETED_ID" using load_inv(1) [of 5000] by (simp_all add: ROW_GROUP_SIZE_def NOT_DELETED_ID_def)
  from rg_Delete_commit [OF this _ load_delete_ids st, of 20] obtain ds m where m: "undo_buffer st = Some ds"
    "undo_Commit 20 ds (versions_of (del_group st)) = Inr m" "\<forall>t r. valid_txn t \<and> 0 < start_time t \<and> r < rg_count ?g \<longrightarrow> rvm_Fetch t r m =
      Inr (sees t (rg_ids ?g r) \<and> \<not> (rg_start ?g + r \<in> set [4000, 3, 4000] \<and> snd (rg_ids ?g r) = NOT_DELETED_ID \<and> (20 < start_time t \<or> 20 = transaction_id t)))"
    by auto
  let ?t1 = "\<lparr>transaction_id = TRANSACTION_ID_START, start_time = 21\<rparr>" and ?t2 = "\<lparr>transaction_id = TRANSACTION_ID_START, start_time = 19\<rparr>"
  have "valid_txn ?t1" "valid_txn ?t2" by (simp_all add: valid_txn_def TRANSACTION_ID_START_def NOT_DELETED_ID_def)
  then have "rvm_Fetch ?t1 4000 m = Inr False" "rvm_Fetch ?t2 4000 m = Inr True"
    using m(3) [rule_format, of ?t1 4000] m(3) [rule_format, of ?t2 4000]
    by (auto simp: load_inv small_group sees_def UseVersion_def TransactionVersionOperator_def TRANSACTION_ID_START_def NOT_DELETED_ID_def)
  then show ?thesis using st m(1,2) by blast
qed

text \<open>
  C23: the deletes of a row group survive a checkpoint. When all inserts are committed, a row group that is loaded
  from the written metadata shows every transaction exactly the rows that were not deleted by a
  committed transaction.
\<close>

theorem CheckpointDeletes_roundtrip:
  assumes "rg_inv g" "storable (versions_of g)" "\<forall>r<rg_count g. fst (rg_ids g r) < TRANSACTION_ID_START - 1"
    and "\<forall>m. rg_version_info g = Some m \<longrightarrow> has_changes m \<or> storage_pointers m = None"
  shows "\<exists>p g'. CheckpointDeletes g = Inr (p, g') \<and> rg_ids g' = rg_ids g
    \<and> (\<forall>t r. valid_txn t \<and> 0 < start_time t \<and> r < rg_count g \<longrightarrow>
         (\<exists>h. rg_Fetch t r (RowGroup_load (rg_start g) (rg_count g) p) = Inr (case_prod committed_row (rg_ids g r), h)))"
proof (cases "rg_version_info g")
  case None
  have "case_prod committed_row (rg_ids g r)" if "r < rg_count g" for r
    using that assms(1) None by (simp add: rg_inv_def rvm_inv_def rg_ids_def versions_of_def new_row_ids committed_row_def
        TRANSACTION_ID_START_def NOT_DELETED_ID_def)
  then show ?thesis using None assms(1)
    by (auto simp: CheckpointDeletes_def rg_inv_def rg_Fetch_def GetVersionInfo_def RowGroup_load_def HasUnloadedDeletes_def)
next
  case (Some m)
  then have m: "rvm_inv (rg_count g) m" "storable m" "\<And>r. r < rg_count g \<Longrightarrow> fst (row_ids m r) < TRANSACTION_ID_START - 1"
    "has_changes m \<or> storage_pointers m = None" "\<not> HasUnloadedDeletes g" "rg_ids g = row_ids m"
    using assms by (auto simp: rg_inv_def versions_of_def rg_ids_def)
  from Checkpoint_ok [OF m(1-4), of "rg_start g"] obtain p m' mo where c: "Checkpoint m = Inr (p, m')" "row_ids m' = row_ids m"
    "rvm_Deserialize p (rg_start g) = Inr mo"
    "\<And>t r. valid_txn t \<and> 0 < start_time t \<and> r < rg_count g \<Longrightarrow> rvm_Fetch_opt t r mo = Inr (case_prod committed_row (row_ids m r))" by blast
  have run: "CheckpointDeletes g = Inr (p, g\<lparr>rg_version_info := Some m'\<rparr>)" using Some m(5) c(1) by (simp add: CheckpointDeletes_def)
  have "\<exists>h. rg_Fetch t r (RowGroup_load (rg_start g) (rg_count g) p) = Inr (case_prod committed_row (row_ids m r), h)"
    if "valid_txn t" "0 < start_time t" "r < rg_count g" for t r
  proof -
    let ?h = "RowGroup_load (rg_start g) (rg_count g) p"
    have "\<exists>h. GetVersionInfo ?h = Inr (mo, h)"
      using c(3) by (cases p) (auto simp: GetVersionInfo_def HasUnloadedDeletes_def RowGroup_load_def rvm_Deserialize_def)
    then show ?thesis using c(4) [of t r] that by (cases mo) (auto simp: rg_Fetch_def rvm_Fetch_opt_def)
  qed
  then show ?thesis using run c(2) m(6) by (simp add: rg_ids_def)
qed

theorem CheckpointDeletes_roundtrip_witness:
  "let v = (ChunkVectorInfo_new 2048)\<lparr>any_deleted := True, deleted := (replicate STANDARD_VECTOR_SIZE NOT_DELETED_ID)[5 := 7]\<rparr>;
       g = (RowGroup_load 0 5000 None)\<lparr>rg_version_info := Some ((set_slot 1 v (RowVersionManager_new 0))\<lparr>has_changes := True\<rparr>)\<rparr>;
       t = \<lparr>transaction_id = TRANSACTION_ID_START, start_time = 9\<rparr>
   in \<exists>p g' h h'. CheckpointDeletes g = Inr (p, g') \<and> rg_Fetch t 2053 (RowGroup_load 0 5000 p) = Inr (False, h)
     \<and> rg_Fetch t 2054 (RowGroup_load 0 5000 p) = Inr (True, h')"
proof -
  define v where "v = (ChunkVectorInfo_new 2048)\<lparr>any_deleted := True, deleted := (replicate STANDARD_VECTOR_SIZE NOT_DELETED_ID)[5 := 7]\<rparr>"
  define m where "m = set_slot 1 v (RowVersionManager_new 0)"
  define g where "g = (RowGroup_load 0 5000 None)\<lparr>rg_version_info := Some (m\<lparr>has_changes := True\<rparr>)\<rparr>"
  let ?t = "\<lparr>transaction_id = TRANSACTION_ID_START, start_time = 9\<rparr>"
  have sz: "1 < length (vector_info (RowVersionManager_new 0))" "rows_in 5000 1 = STANDARD_VECTOR_SIZE" "(5000::nat) \<le> ROW_GROUP_SIZE"
    by (simp_all add: RowVersionManager_new_def rows_in_def ROW_GROUP_VECTOR_COUNT_def ROW_GROUP_SIZE_def STANDARD_VECTOR_SIZE_def)
  have vj: "inserted v ! j = 0" "deleted v ! j = (if j = 5 then 7 else NOT_DELETED_ID)" if "j < STANDARD_VECTOR_SIZE" for j
    using that small_row [of 5] by (simp_all add: v_def ChunkVectorInfo_new_def nth_list_update)
  have "slot_inv STANDARD_VECTOR_SIZE (Some (VectorInfo v))" by (auto simp: slot_inv_def cv_inv_def v_def ChunkVectorInfo_new_def)
  then have "rvm_inv 5000 m" unfolding m_def using set_slot_inv [OF new_inv, of 5000 1 v 0] sz by simp
  then have inv: "rg_inv g" by (simp add: g_def rg_inv_def load_inv HasUnloadedDeletes_def) (simp add: RowGroup_load_def)
  have ids: "rg_ids g r = (if r div STANDARD_VECTOR_SIZE = 1 \<and> r mod STANDARD_VECTOR_SIZE = 5 then (0, 7) else (0, NOT_DELETED_ID))" if "r < 5000" for r
    using that sz(3) set_slot_ids [OF sz(1), of v r] vj [of "r mod STANDARD_VECTOR_SIZE"] vj [of 5] small_row [of 5]
    by (auto simp: g_def rg_ids_def m_def new_row_ids simp del: One_nat_def)
  have "set (vector_info m) \<subseteq> {None, Some (VectorInfo v)}"
    unfolding m_def set_slot_def using set_update_subset_insert by (fastforce simp: RowVersionManager_new_def)
  then have st: "storable (versions_of g)" by (auto simp: storable_def g_def v_def ChunkVectorInfo_new_def)
  have c: "(0::u64) < TRANSACTION_ID_START - 1" "valid_txn ?t" "committed_row 0 NOT_DELETED_ID" "\<not> committed_row 0 7"
    by (simp_all add: NOT_DELETED_ID_def TRANSACTION_ID_START_def valid_txn_def committed_row_def)
  have "\<forall>r<rg_count g. fst (rg_ids g r) < TRANSACTION_ID_START - 1" using ids c(1) by (simp add: g_def load_inv)
  from CheckpointDeletes_roundtrip [OF inv st this] obtain p g' where p: "CheckpointDeletes g = Inr (p, g')"
    "\<forall>t r. valid_txn t \<and> 0 < start_time t \<and> r < rg_count g \<longrightarrow>
         (\<exists>h. rg_Fetch t r (RowGroup_load (rg_start g) (rg_count g) p) = Inr (case_prod committed_row (rg_ids g r), h))" by (auto simp: g_def)
  have "rg_ids g 2053 = (0, 7)" "rg_ids g 2054 = (0, NOT_DELETED_ID)" using ids [of 2053] ids [of 2054] by (simp_all add: STANDARD_VECTOR_SIZE_def)
  then have "\<exists>h. rg_Fetch ?t 2053 (RowGroup_load 0 5000 p) = Inr (False, h)" "\<exists>h. rg_Fetch ?t 2054 (RowGroup_load 0 5000 p) = Inr (True, h)"
    using p(2) [rule_format, of ?t 2053] p(2) [rule_format, of ?t 2054] c by (simp_all add: g_def load_inv)
  then show ?thesis using p(1) unfolding Let_def v_def [symmetric] m_def [symmetric] g_def [symmetric] by blast
qed

end
