(* ===== verification/Segment_Tree.thy ===== *)
theory Segment_Tree
  imports Prelude
begin

text \<open>
  Segment trees: \<^verbatim>\<open>src/src/include/duckdb/storage/table/segment_tree.hpp\<close>,
  \<^verbatim>\<open>segment_base.hpp\<close>, and the lazy loading of \<open>RowGroupSegmentTree\<close> in
  \<^verbatim>\<open>src/src/storage/table/row_group_collection.cpp\<close>.

  A tree is the vector of its nodes, which is searched by row number. A pointer to a segment is
  the index of its node; \<open>seg_next\<close> is the pointer to the next segment. \<open>unloaded\<close> are the
  segments that \<open>LoadSegment\<close> has not delivered yet. The search computes with unsigned numbers of
  64 bits: \<open>index - 1\<close> at index 0 is the largest of them. The locale \<open>segment_index\<close> is what the
  clients of a tree rely on.
\<close>

section \<open>Segments and trees\<close>

record 'a Segment =
  seg_start :: idx_t
  seg_count :: idx_t
  seg_next :: "idx_t option"
  seg_data :: 'a

record 'a SegmentNode =
  row_start :: idx_t
  node :: "'a Segment"

record 'a SegmentTree =
  nodes :: "'a SegmentNode list"
  unloaded :: "'a Segment list"
  finished_loading :: bool

definition SegmentTree_new :: "'a SegmentTree" where
  "SegmentTree_new = \<lparr>nodes = [], unloaded = [], finished_loading = True\<rparr>"

text \<open>\<open>RowGroupSegmentTree::Initialize\<close>: the row groups of a checkpoint, to be loaded on demand.\<close>

definition tree_Initialize :: "'a Segment list \<Rightarrow> 'a SegmentTree \<Rightarrow> 'a SegmentTree" where
  "tree_Initialize segs t = t\<lparr>unloaded := segs, finished_loading := False\<rparr>"

definition set_next :: "idx_t option \<Rightarrow> 'a SegmentNode \<Rightarrow> 'a SegmentNode" where
  "set_next p n = n\<lparr>node := (node n)\<lparr>seg_next := p\<rparr>\<rparr>"

definition AppendSegmentInternal :: "'a Segment \<Rightarrow> 'a SegmentTree \<Rightarrow> 'a SegmentTree" where
  "AppendSegmentInternal segment t =
     (let ns = nodes t;
          ns' = (if ns = [] then ns else ns[length ns - 1 := set_next (Some (length ns)) (last ns)])
      in t\<lparr>nodes := ns' @ [\<lparr>row_start = seg_start segment, node = segment\<rparr>]\<rparr>)"

section \<open>Lazy loading\<close>

text \<open>\<open>LoadSegment\<close> returns the next segment, or marks the tree as loaded.\<close>

definition LoadSegment :: "'a SegmentTree \<Rightarrow> 'a Segment option \<times> 'a SegmentTree" where
  "LoadSegment t =
     (case unloaded t of
        [] \<Rightarrow> (None, t\<lparr>finished_loading := True\<rparr>)
      | s # ss \<Rightarrow> (Some s, t\<lparr>unloaded := ss\<rparr>))"

definition LoadNextSegment :: "'a SegmentTree \<Rightarrow> bool \<times> 'a SegmentTree" where
  "LoadNextSegment t =
     (if finished_loading t then (False, t)
      else case LoadSegment t of
             (None, t') \<Rightarrow> (False, t')
           | (Some s, t') \<Rightarrow> (True, AppendSegmentInternal s t'))"

text \<open>The loading loops: as long as the condition holds and there is a next segment.\<close>

function load_while :: "('a SegmentTree \<Rightarrow> bool) \<Rightarrow> 'a SegmentTree \<Rightarrow> 'a SegmentTree" where
  "load_while P t =
     (if P t
      then case LoadNextSegment t of (True, t') \<Rightarrow> load_while P t' | (False, t') \<Rightarrow> t'
      else t)"
  by pat_completeness auto
termination
  by (relation "measure (\<lambda>(P, t). length (unloaded t))")
    (auto simp: LoadNextSegment_def LoadSegment_def AppendSegmentInternal_def Let_def split: if_splits list.splits)

declare load_while.simps [simp del]

definition LoadAllSegments :: "'a SegmentTree \<Rightarrow> 'a SegmentTree" where
  "LoadAllSegments = load_while (\<lambda>t. True)"

section \<open>Operations\<close>

definition GetRootSegment :: "'a SegmentTree \<Rightarrow> idx_t option \<times> 'a SegmentTree" where
  "GetRootSegment t =
     (let t' = (if nodes t = [] then snd (LoadNextSegment t) else t)
      in (if nodes t' = [] then None else Some 0, t'))"

definition IsEmpty :: "'a SegmentTree \<Rightarrow> bool \<times> 'a SegmentTree" where
  "IsEmpty t = (let (root, t') = GetRootSegment t in (root = None, t'))"

definition MoveSegments :: "'a SegmentTree \<Rightarrow> 'a SegmentNode list \<times> 'a SegmentTree" where
  "MoveSegments t = (let t' = LoadAllSegments t in (nodes t', t'\<lparr>nodes := []\<rparr>))"

definition GetSegmentCount :: "'a SegmentTree \<Rightarrow> idx_t" where
  "GetSegmentCount t = length (nodes t)"

definition GetSegmentByIndex :: "int \<Rightarrow> 'a SegmentTree \<Rightarrow> idx_t option \<times> 'a SegmentTree" where
  "GetSegmentByIndex index t =
     (if index < 0
      then let t' = LoadAllSegments t; index' = index + int (length (nodes t'))
           in (if index' < 0 then None else Some (nat index'), t')
      else let t' = load_while (\<lambda>t. nat index \<ge> length (nodes t)) t
           in (if nat index \<ge> length (nodes t') then None else Some (nat index), t'))"

text \<open>
  \<open>nodes[i]\<close> is the checked access of \<open>duckdb::vector\<close>, which throws outside the vector.
  \<open>segment_at\<close> follows a pointer to a segment; a pointer to an erased segment dangles.
\<close>

definition node_at :: "'a SegmentTree \<Rightarrow> idx_t \<Rightarrow> exc + 'a SegmentNode" where
  "node_at t i = (if i < length (nodes t) then Inr (nodes t ! i) else Inl InternalException)"

definition segment_at :: "'a SegmentTree \<Rightarrow> idx_t \<Rightarrow> exc + 'a SegmentNode" where
  "segment_at t segment = (if segment < length (nodes t) then Inr (nodes t ! segment) else Inl OutOfBounds)"

text \<open>\<open>lazy\<close> is the template parameter \<open>SUPPORTS_LAZY_LOADING\<close>; a null segment has no next one.\<close>

definition GetNextSegment :: "bool \<Rightarrow> idx_t \<Rightarrow> 'a SegmentTree \<Rightarrow> exc + idx_t option \<times> 'a SegmentTree" where
  "GetNextSegment lazy segment t =
     bind_res (segment_at t segment) (\<lambda>n.
       if \<not> lazy \<or> finished_loading t then Inr (seg_next (node n), t)
       else Inr (GetSegmentByIndex (int (segment + 1)) t))"

definition GetLastSegment :: "'a SegmentTree \<Rightarrow> idx_t option \<times> 'a SegmentTree" where
  "GetLastSegment t =
     (let t' = LoadAllSegments t in (if nodes t' = [] then None else Some (length (nodes t') - 1), t'))"

definition AppendSegment :: "'a Segment \<Rightarrow> 'a SegmentTree \<Rightarrow> 'a SegmentTree" where
  "AppendSegment segment t = AppendSegmentInternal segment (LoadAllSegments t)"

definition Replace_tree :: "'a SegmentTree \<Rightarrow> 'a SegmentTree \<Rightarrow> 'a SegmentTree" where
  "Replace_tree other t = t\<lparr>nodes := nodes (LoadAllSegments other)\<rparr>"

text \<open>
  \<open>EraseSegments\<close>; \<open>nodes.size() - 1\<close> of an empty vector wraps round, and the erased range then
  starts behind the end.
\<close>

definition EraseSegments :: "idx_t \<Rightarrow> 'a SegmentTree \<Rightarrow> exc + 'a SegmentTree" where
  "EraseSegments segment_start t =
     (let t' = LoadAllSegments t; n = length (nodes t')
      in if segment_start \<ge> (if n = 0 then 2 ^ 64 - 1 else n - 1) then Inr t'
         else if segment_start + 1 \<le> n then Inr (t'\<lparr>nodes := take (segment_start + 1) (nodes t')\<rparr>)
         else Inl OutOfBounds)"

fun Reinitialize_loop :: "idx_t \<Rightarrow> 'a SegmentNode list \<Rightarrow> exc + 'a SegmentNode list" where
  "Reinitialize_loop offset [] = Inr []"
| "Reinitialize_loop offset (n # ns) =
     (if seg_start (node n) \<noteq> offset then Inl InternalException
      else bind_res (Reinitialize_loop (offset + seg_count (node n)) ns) (\<lambda>ns'. Inr (n\<lparr>row_start := offset\<rparr> # ns')))"

definition Reinitialize :: "'a SegmentTree \<Rightarrow> exc + 'a SegmentTree" where
  "Reinitialize t =
     (case nodes t of
        [] \<Rightarrow> Inr t
      | n # _ \<Rightarrow> bind_res (Reinitialize_loop (seg_start (node n)) (nodes t)) (\<lambda>ns. Inr (t\<lparr>nodes := ns\<rparr>)))"

section \<open>The search\<close>

definition node_end :: "'a SegmentNode \<Rightarrow> idx_t" where
  "node_end n = row_start n + seg_count (node n)"

text \<open>\<open>None\<close>: the loop does not return.\<close>

partial_function (option) binary_search ::
  "'a SegmentNode list \<Rightarrow> idx_t \<Rightarrow> idx_t \<Rightarrow> idx_t \<Rightarrow> (exc + idx_t option) option" where
  "binary_search ns row_number lower upper =
     (if lower \<le> upper
      then let index = (lower + upper) mod 2 ^ 64 div 2
           in if index \<ge> length ns then Some (Inl InternalException)
              else if row_number < row_start (ns ! index)
                   then binary_search ns row_number lower (if index = 0 then 2 ^ 64 - 1 else index - 1)
              else if row_number \<ge> node_end (ns ! index)
                   then binary_search ns row_number (index + 1) upper
              else Some (Inr (Some index))
      else Some (Inr None))"

definition TryGetSegmentIndex ::
  "idx_t \<Rightarrow> 'a SegmentTree \<Rightarrow> (exc + idx_t option) option \<times> 'a SegmentTree" where
  "TryGetSegmentIndex row_number t =
     (let t' = load_while (\<lambda>t. nodes t = [] \<or> row_number \<ge> node_end (last (nodes t))) t
      in (if nodes t' = [] then Some (Inr None)
          else binary_search (nodes t') row_number 0 (length (nodes t') - 1), t'))"

definition GetSegmentIndex :: "idx_t \<Rightarrow> 'a SegmentTree \<Rightarrow> (exc + idx_t) option \<times> 'a SegmentTree" where
  "GetSegmentIndex row_number t =
     (let (r, t') = TryGetSegmentIndex row_number t
      in (case r of
            None \<Rightarrow> None
          | Some (Inl e) \<Rightarrow> Some (Inl e)
          | Some (Inr None) \<Rightarrow> Some (Inl InternalException)
          | Some (Inr (Some i)) \<Rightarrow> Some (Inr i), t'))"

text \<open>\<open>GetSegment\<close> hands out the pointer of the node it found.\<close>

definition GetSegment :: "idx_t \<Rightarrow> 'a SegmentTree \<Rightarrow> (exc + idx_t) option \<times> 'a SegmentTree" where
  "GetSegment row_number t =
     (let (r, t') = GetSegmentIndex row_number t
      in (case r of
            Some (Inr i) \<Rightarrow> Some (bind_res (node_at t' i) (\<lambda>n. Inr i))
          | r \<Rightarrow> r, t'))"

section \<open>The invariant\<close>

text \<open>Segments that follow each other without a gap from a row on.\<close>

fun contiguous :: "idx_t \<Rightarrow> 'a Segment list \<Rightarrow> bool" where
  "contiguous r [] \<longleftrightarrow> True"
| "contiguous r (s # ss) \<longleftrightarrow> seg_start s = r \<and> contiguous (r + seg_count s) ss"

definition chained :: "'a SegmentNode list \<Rightarrow> bool" where
  "chained ns \<longleftrightarrow>
     (\<forall>i < length ns. row_start (ns ! i) = seg_start (node (ns ! i))
        \<and> seg_next (node (ns ! i)) = (if Suc i < length ns then Some (Suc i) else None))"

definition clear_next :: "'a Segment \<Rightarrow> 'a Segment" where
  "clear_next s = s\<lparr>seg_next := None\<rparr>"

text \<open>All segments of a tree, the loaded and the unloaded ones; their links are not part of the content.\<close>

definition segments :: "'a SegmentTree \<Rightarrow> 'a Segment list" where
  "segments t = map (\<lambda>n. clear_next (node n)) (nodes t) @ map clear_next (unloaded t)"

definition tree_inv :: "'a SegmentTree \<Rightarrow> bool" where
  "tree_inv t \<longleftrightarrow>
     chained (nodes t) \<and> (\<forall>s \<in> set (unloaded t). seg_next s = None) \<and> (finished_loading t \<longrightarrow> unloaded t = [])
     \<and> contiguous (case segments t of [] \<Rightarrow> 0 | s # _ \<Rightarrow> seg_start s) (segments t)"

definition tree_start :: "'a SegmentTree \<Rightarrow> idx_t" where
  "tree_start t = (case segments t of [] \<Rightarrow> 0 | s # _ \<Rightarrow> seg_start s)"

definition covers :: "'a Segment \<Rightarrow> idx_t \<Rightarrow> bool" where
  "covers s r \<longleftrightarrow> seg_start s \<le> r \<and> r < seg_start s + seg_count s"

lemma clear_next_sel [simp]:
  "seg_start (clear_next s) = seg_start s" "seg_count (clear_next s) = seg_count s" "seg_data (clear_next s) = seg_data s"
  "seg_next (clear_next s) = None"
  by (simp_all add: clear_next_def)

lemma set_next_sel [simp]:
  "row_start (set_next p n) = row_start n" "seg_next (node (set_next p n)) = p"
  "seg_start (node (set_next p n)) = seg_start (node n)" "seg_count (node (set_next p n)) = seg_count (node n)"
  "clear_next (node (set_next p n)) = clear_next (node n)"
  by (simp_all add: set_next_def clear_next_def)

lemma covers_clear_next [simp]: "covers (clear_next s) r = covers s r"
  by (simp add: covers_def)

lemma contiguous_start: "contiguous r ss \<Longrightarrow> i < length ss \<Longrightarrow> seg_start (ss ! i) = r + sum_list (map seg_count (take i ss))"
proof (induction ss arbitrary: r i)
  case (Cons s ss)
  then show ?case by (cases i) auto
qed simp

lemma contiguous_mono:
  assumes "contiguous r ss" "i < j" "j < length ss"
  shows "seg_start (ss ! i) + seg_count (ss ! i) \<le> seg_start (ss ! j)"
proof -
  have "take j ss = take i ss @ ss ! i # drop (Suc i) (take j ss)"
    using assms(2,3) id_take_nth_drop [of i "take j ss"] by (simp add: min_def)
  then have "sum_list (map seg_count (take j ss)) = sum_list (map seg_count (take i ss)) + seg_count (ss ! i)
      + sum_list (map seg_count (drop (Suc i) (take j ss)))"
    by (metis (no_types, lifting) add.assoc list.simps(9) map_append sum_list.Cons sum_list.append)
  with contiguous_start [OF assms(1), of i] contiguous_start [OF assms(1), of j] assms(2,3) show ?thesis by simp
qed

lemma contiguous_append:
  "contiguous r (xs @ ys) \<longleftrightarrow> contiguous r xs \<and> contiguous (r + sum_list (map seg_count xs)) ys"
  by (induction xs arbitrary: r) (auto simp: add.assoc)

lemma contiguous_clear_next [simp]: "contiguous r (map clear_next ss) = contiguous r ss"
  by (induction ss arbitrary: r) auto

text \<open>Appending and loading keep the chain and the content.\<close>

lemma nodes_AppendSegmentInternal:
  "map (\<lambda>n. clear_next (node n)) (nodes (AppendSegmentInternal s t)) =
     map (\<lambda>n. clear_next (node n)) (nodes t) @ [clear_next s]"
  "unloaded (AppendSegmentInternal s t) = unloaded t" "finished_loading (AppendSegmentInternal s t) = finished_loading t"
  "length (nodes (AppendSegmentInternal s t)) = Suc (length (nodes t))"
proof -
  have "map (\<lambda>n. clear_next (node n)) (ns[length ns - 1 := set_next p (last ns)]) = map (\<lambda>n. clear_next (node n)) ns"
    if "ns \<noteq> []" for ns :: "'a SegmentNode list" and p
    using that by (simp add: map_update last_conv_nth list_update_same_conv)
  then show "map (\<lambda>n. clear_next (node n)) (nodes (AppendSegmentInternal s t)) =
      map (\<lambda>n. clear_next (node n)) (nodes t) @ [clear_next s]"
    by (simp add: AppendSegmentInternal_def Let_def)
qed (simp_all add: AppendSegmentInternal_def Let_def)

lemma segments_AppendSegmentInternal:
  "unloaded t = [] \<Longrightarrow> segments (AppendSegmentInternal s t) = segments t @ [clear_next s]"
  by (simp add: segments_def nodes_AppendSegmentInternal)

lemma segments_loaded:
  "unloaded t = [] \<Longrightarrow> segments t = map (\<lambda>n. clear_next (node n)) (nodes t)"
  "unloaded t = [] \<Longrightarrow> length (nodes t) = length (segments t)"
  by (simp_all add: segments_def)

lemma length_nodes_le: "length (nodes t) \<le> length (segments t)"
  by (simp add: segments_def)

lemma chained_AppendSegmentInternal:
  "chained (nodes t) \<Longrightarrow> seg_next s = None \<Longrightarrow> chained (nodes (AppendSegmentInternal s t))"
  by (auto simp: chained_def AppendSegmentInternal_def Let_def nth_append nth_list_update last_conv_nth less_Suc_eq)

lemma LoadNextSegment_keeps:
  assumes "tree_inv t" "LoadNextSegment t = (b, t')"
  shows "tree_inv t'" "segments t' = segments t" "\<not> b \<Longrightarrow> unloaded t' = []"
proof -
  have "tree_inv t' \<and> segments t' = segments t \<and> (\<not> b \<longrightarrow> unloaded t' = [])"
  proof (cases "finished_loading t")
    case True
    then show ?thesis using assms by (auto simp: LoadNextSegment_def tree_inv_def)
  next
    case load: False
    show ?thesis
    proof (cases "unloaded t")
      case Nil
      then show ?thesis using assms load
        by (auto simp: LoadNextSegment_def LoadSegment_def tree_inv_def segments_def)
    next
      case (Cons s ss)
      let ?t = "t\<lparr>unloaded := ss\<rparr>"
      have t': "b" "t' = AppendSegmentInternal s ?t"
        using assms(2) load Cons by (auto simp: LoadNextSegment_def LoadSegment_def)
      have "segments t' = segments t" by (simp add: segments_def t' nodes_AppendSegmentInternal Cons)
      moreover have "chained (nodes t')"
        using assms(1) Cons chained_AppendSegmentInternal [of ?t s] by (simp add: t' tree_inv_def)
      ultimately show ?thesis
        using assms(1) load Cons t'(1) by (auto simp: tree_inv_def t' nodes_AppendSegmentInternal)
    qed
  qed
  then show "tree_inv t'" "segments t' = segments t" "\<not> b \<Longrightarrow> unloaded t' = []" by auto
qed

lemma load_while_keeps:
  assumes "tree_inv t"
  shows "tree_inv (load_while P t)" "segments (load_while P t) = segments t"
    "\<not> P (load_while P t) \<or> unloaded (load_while P t) = []"
proof -
  have "tree_inv (load_while P t) \<and> segments (load_while P t) = segments t
      \<and> (\<not> P (load_while P t) \<or> unloaded (load_while P t) = [])"
    using assms
  proof (induction P t rule: load_while.induct)
    case (1 P t)
    obtain b t' where l: "LoadNextSegment t = (b, t')" by (cases "LoadNextSegment t")
    note k = LoadNextSegment_keeps [OF "1.prems" l]
    show ?case
    proof (cases "P t \<and> b")
      case True
      with l have "load_while P t = load_while P t'" by (simp add: load_while.simps [of P t])
      with True l k "1.IH" show ?thesis by auto
    next
      case False
      with l k "1.prems" show ?thesis by (auto simp: load_while.simps [of P t])
    qed
  qed
  then show "tree_inv (load_while P t)" "segments (load_while P t) = segments t"
    "\<not> P (load_while P t) \<or> unloaded (load_while P t) = []" by auto
qed

lemma LoadAllSegments_keeps:
  assumes "tree_inv t"
  shows "tree_inv (LoadAllSegments t)" "segments (LoadAllSegments t) = segments t" "unloaded (LoadAllSegments t) = []"
  using load_while_keeps [OF assms, of "\<lambda>t. True"] by (auto simp: LoadAllSegments_def)

section \<open>The search finds the segment of a row\<close>

definition sorted_nodes :: "'a SegmentNode list \<Rightarrow> bool" where
  "sorted_nodes ns \<longleftrightarrow> (\<forall>i j. i < j \<longrightarrow> j < length ns \<longrightarrow> node_end (ns ! i) \<le> row_start (ns ! j))"

lemma sorted_nodes_start: "sorted_nodes ns \<Longrightarrow> j < length ns \<Longrightarrow> row_start (ns ! 0) \<le> row_start (ns ! j)"
proof (cases "j = 0")
  case False
  assume "sorted_nodes ns" "j < length ns"
  with False have "node_end (ns ! 0) \<le> row_start (ns ! j)" by (auto simp: sorted_nodes_def)
  then show ?thesis by (simp add: node_end_def)
qed simp

lemma binary_search_step:
  assumes "lower \<le> upper" "upper < length ns" "length ns < 2 ^ 63"
  shows "binary_search ns row lower upper =
    (let index = (lower + upper) div 2
     in if row < row_start (ns ! index) then binary_search ns row lower (if index = 0 then 2 ^ 64 - 1 else index - 1)
        else if row \<ge> node_end (ns ! index) then binary_search ns row (index + 1) upper else Some (Inr (Some index)))"
proof -
  have "(lower + upper) mod 2 ^ 64 = lower + upper" "\<not> length ns \<le> (lower + upper) div 2" using assms by simp_all
  with assms(1) show ?thesis by (subst binary_search.simps) (simp only: if_True if_False Let_def)
qed

lemma binary_search_finds:
  assumes "sorted_nodes ns" "length ns < 2 ^ 63" "ns \<noteq> []" "row_start (hd ns) \<le> row"
    and "upper < length ns" "lower \<le> Suc upper"
    and "\<forall>j < lower. node_end (ns ! j) \<le> row" "\<forall>j. upper < j \<longrightarrow> j < length ns \<longrightarrow> row < row_start (ns ! j)"
  shows "\<exists>r. binary_search ns row lower upper = Some (Inr r)
    \<and> (case r of Some i \<Rightarrow> i < length ns \<and> row_start (ns ! i) \<le> row \<and> row < node_end (ns ! i)
        | None \<Rightarrow> \<forall>i < length ns. \<not> (row_start (ns ! i) \<le> row \<and> row < node_end (ns ! i)))"
  using assms(5-)
proof (induction "Suc upper - lower" arbitrary: lower upper rule: less_induct)
  case less
  show ?case
  proof (cases "lower \<le> upper")
    case False
    have "\<not> (row_start (ns ! i) \<le> row \<and> row < node_end (ns ! i))" if "i < length ns" for i
    proof (cases "i < lower")
      case True
      then show ?thesis using less.prems(3) by (auto simp: not_less)
    next
      case right: False
      with False have "upper < i" by linarith
      then show ?thesis using less.prems(4) that by (auto simp: not_le)
    qed
    with False show ?thesis by (simp add: binary_search.simps [of ns row lower upper])
  next
    case True
    define index where "index = (lower + upper) div 2"
    have idx: "lower \<le> index" "index \<le> upper" "index < length ns"
      using True less.prems(1) by (simp_all add: index_def)
    note step = binary_search_step [OF True less.prems(1) assms(2), of row, folded index_def]
    consider "row < row_start (ns ! index)" | "\<not> row < row_start (ns ! index)" "row \<ge> node_end (ns ! index)"
      | "row_start (ns ! index) \<le> row" "row < node_end (ns ! index)" by linarith
    then show ?thesis
    proof cases
      case 1
      then have "index \<noteq> 0" using assms(3,4) by (metis hd_conv_nth linorder_not_less)
      moreover have "\<forall>j. index - 1 < j \<longrightarrow> j < length ns \<longrightarrow> row < row_start (ns ! j)"
      proof (intro allI impI)
        fix j assume j: "index - 1 < j" "j < length ns"
        show "row < row_start (ns ! j)"
        proof (cases "j = index")
          case False
          then have "node_end (ns ! index) \<le> row_start (ns ! j)" using assms(1) j \<open>index \<noteq> 0\<close> by (auto simp: sorted_nodes_def)
          with 1 show ?thesis by (simp add: node_end_def)
        qed (use 1 in simp)
      qed
      ultimately show ?thesis
        using less.hyps [of "index - 1" lower] less.prems idx 1 unfolding step Let_def by fastforce
    next
      case 2
      have "\<forall>j < index + 1. node_end (ns ! j) \<le> row"
      proof (intro allI impI)
        fix j assume "j < index + 1"
        then consider "j = index" | "node_end (ns ! j) \<le> row_start (ns ! index)"
          using assms(1) idx(3) by (fastforce simp: sorted_nodes_def less_Suc_eq)
        then show "node_end (ns ! j) \<le> row" using 2 by cases simp_all
      qed
      then show ?thesis
        using less.hyps [of upper "index + 1"] less.prems idx 2 unfolding step Let_def by fastforce
    next
      case 3
      then show ?thesis using idx(3) unfolding step Let_def by auto
    qed
  qed
qed

text \<open>Left of the first segment the search runs out of the vector of nodes, and its access throws.\<close>

lemma binary_search_underflow:
  assumes "sorted_nodes ns" "length ns < 2 ^ 63" "ns \<noteq> []" "row < row_start (hd ns)" "upper < length ns"
  shows "binary_search ns row 0 upper = Some (Inl InternalException)"
  using assms(5)
proof (induction upper rule: less_induct)
  case (less upper)
  let ?i = "upper div 2"
  have "row_start (ns ! 0) \<le> row_start (ns ! ?i)" using sorted_nodes_start [OF assms(1), of ?i] less.prems by simp
  then have left: "row < row_start (ns ! ?i)" using assms(3,4) by (simp add: hd_conv_nth)
  have step: "binary_search ns row 0 upper = binary_search ns row 0 (if ?i = 0 then 2 ^ 64 - 1 else ?i - 1)"
    using left binary_search_step [OF zero_le less.prems assms(2), of row] by (simp del: One_nat_def)
  show ?case
  proof (cases "?i = 0")
    case True
    have "binary_search ns row 0 (2 ^ 64 - 1) = Some (Inl InternalException)"
      using assms(2) by (subst binary_search.simps) simp
    with True show ?thesis unfolding step Let_def by simp
  next
    case False
    then have "?i - 1 < upper" "?i - 1 < length ns" using less.prems by linarith+
    with less.IH False show ?thesis unfolding step Let_def by simp
  qed
qed

lemma tree_inv_sorted:
  assumes "tree_inv t"
  shows "sorted_nodes (nodes t)"
proof -
  let ?ss = "map (\<lambda>n. clear_next (node n)) (nodes t)"
  have c: "contiguous (tree_start t) ?ss"
    using assms by (simp add: tree_inv_def segments_def contiguous_append tree_start_def)
  show ?thesis unfolding sorted_nodes_def
  proof (intro allI impI)
    fix i j assume ij: "i < j" "j < length (nodes t)"
    with contiguous_mono [OF c, of i j] assms show "node_end (nodes t ! i) \<le> row_start (nodes t ! j)"
      by (simp add: tree_inv_def chained_def node_end_def)
  qed
qed

lemma node_covers:
  assumes "tree_inv t" "i < length (nodes t)"
  shows "row_start (nodes t ! i) \<le> r \<and> r < node_end (nodes t ! i) \<longleftrightarrow> covers (segments t ! i) r"
  using assms by (simp add: tree_inv_def chained_def node_end_def covers_def segments_def nth_append)

lemma tree_start_hd: "tree_inv t \<Longrightarrow> nodes t \<noteq> [] \<Longrightarrow> tree_start t = row_start (hd (nodes t))"
  by (cases "nodes t") (auto simp: tree_inv_def chained_def tree_start_def segments_def dest: spec [of _ 0])

text \<open>A row below the end of the loaded nodes is in no unloaded segment.\<close>

lemma pending_right:
  assumes "tree_inv t" "nodes t \<noteq> []" "r < node_end (last (nodes t))" "length (nodes t) \<le> i" "i < length (segments t)"
  shows "\<not> covers (segments t ! i) r"
proof -
  let ?k = "length (nodes t) - 1"
  have c: "contiguous (tree_start t) (segments t)" using assms(1) by (simp add: tree_inv_def tree_start_def)
  have k: "?k < length (nodes t)" using assms(2) by (cases "nodes t") auto
  have "seg_start (segments t ! ?k) + seg_count (segments t ! ?k) \<le> seg_start (segments t ! i)"
    using contiguous_mono [OF c _ assms(5), of ?k] k assms(4) by simp
  moreover have "node_end (last (nodes t)) = seg_start (segments t ! ?k) + seg_count (segments t ! ?k)"
    using assms(1,2) k by (simp add: last_conv_nth tree_inv_def chained_def node_end_def segments_def nth_append)
  ultimately show ?thesis using assms(3) by (simp add: covers_def)
qed

lemma TryGetSegmentIndex_ok:
  assumes inv: "tree_inv t" and size: "length (segments t) < 2 ^ 63" and row: "segments t = [] \<or> tree_start t \<le> row"
  shows "\<exists>r t'. TryGetSegmentIndex row t = (Some (Inr r), t') \<and> tree_inv t' \<and> segments t' = segments t
    \<and> (case r of Some i \<Rightarrow> i < length (nodes t') \<and> covers (segments t ! i) row
        | None \<Rightarrow> \<forall>s \<in> set (segments t). \<not> covers s row)"
proof -
  let ?P = "\<lambda>t. nodes t = [] \<or> row \<ge> node_end (last (nodes t))"
  define t' where "t' = load_while ?P t"
  have t': "tree_inv t'" "segments t' = segments t" "\<not> ?P t' \<or> unloaded t' = []"
    using load_while_keeps [OF inv, of ?P] by (simp_all only: t'_def)
  show ?thesis
  proof (cases "nodes t' = []")
    case True
    with t' have "segments t = []" by (auto simp: segments_def)
    with True t' show ?thesis by (auto simp: TryGetSegmentIndex_def Let_def t'_def [symmetric])
  next
    case False
    have len: "length (nodes t') \<le> length (segments t)" using length_nodes_le [of t'] by (simp add: t'(2))
    have right: "\<forall>j. length (nodes t') - 1 < j \<longrightarrow> j < length (nodes t') \<longrightarrow> row < row_start (nodes t' ! j)" by auto
    have "row_start (hd (nodes t')) \<le> row"
      using row tree_start_hd [OF t'(1) False] t'(2) False by (auto simp: tree_start_def segments_def)
    then obtain r where r: "binary_search (nodes t') row 0 (length (nodes t') - 1) = Some (Inr r)"
      "case r of Some i \<Rightarrow> i < length (nodes t') \<and> row_start (nodes t' ! i) \<le> row \<and> row < node_end (nodes t' ! i)
        | None \<Rightarrow> \<forall>i < length (nodes t'). \<not> (row_start (nodes t' ! i) \<le> row \<and> row < node_end (nodes t' ! i))"
      using binary_search_finds [of "nodes t'" row "length (nodes t') - 1" 0] tree_inv_sorted [OF t'(1)] False len size right
      by (auto simp del: One_nat_def)
    have res: "TryGetSegmentIndex row t = (Some (Inr r), t')"
      using False r(1) by (simp add: TryGetSegmentIndex_def Let_def t'_def [symmetric])
    show ?thesis
    proof (cases r)
      case (Some i)
      then show ?thesis using res r(2) t' node_covers [OF t'(1)] by auto
    next
      case None
      have "\<not> covers (segments t' ! i) row" if "i < length (segments t')" for i
      proof (cases "i < length (nodes t')")
        case True
        then show ?thesis using r(2) None node_covers [OF t'(1) True, of row] by auto
      next
        case out: False
        with that have "unloaded t' \<noteq> []" by (auto simp: segments_def)
        with t'(3) False have "row < node_end (last (nodes t'))" by (simp add: not_le)
        then show ?thesis using pending_right [OF t'(1) False] out that by simp
      qed
      then show ?thesis using res None t' by (auto simp: in_set_conv_nth)
    qed
  qed
qed

text \<open>Only one segment covers a row.\<close>

lemma covers_unique:
  assumes "tree_inv t" "i < length (segments t)" "j < length (segments t)"
    and "covers (segments t ! i) r" "covers (segments t ! j) r"
  shows "i = j"
proof -
  have c: "contiguous (tree_start t) (segments t)" using assms(1) by (simp add: tree_inv_def tree_start_def)
  show ?thesis
    using contiguous_mono [OF c, of i j] contiguous_mono [OF c, of j i] assms(2-)
    by (cases i j rule: linorder_cases) (auto simp: covers_def)
qed

lemma AppendSegment_ok:
  assumes "tree_inv t" "seg_next s = None"
    and "segments t \<noteq> [] \<longrightarrow> seg_start s = tree_start t + sum_list (map seg_count (segments t))"
  shows "tree_inv (AppendSegment s t)" "segments (AppendSegment s t) = segments t @ [clear_next s]"
proof -
  let ?t = "LoadAllSegments t"
  note l = LoadAllSegments_keeps [OF assms(1)]
  have sg: "segments (AppendSegment s t) = segments t @ [clear_next s]"
    using segments_AppendSegmentInternal [OF l(3), of s] by (simp add: AppendSegment_def l(2))
  then show "segments (AppendSegment s t) = segments t @ [clear_next s]" .
  have "contiguous (case segments t @ [clear_next s] of [] \<Rightarrow> 0 | s # _ \<Rightarrow> seg_start s) (segments t @ [clear_next s])"
    using assms(1,3) by (cases "segments t") (auto simp: tree_inv_def contiguous_append tree_start_def)
  moreover have "chained (nodes (AppendSegment s t))"
    using l(1) assms(2) by (simp add: AppendSegment_def chained_AppendSegmentInternal tree_inv_def)
  ultimately show "tree_inv (AppendSegment s t)"
    using l(1,3) by (simp add: tree_inv_def sg) (simp add: AppendSegment_def nodes_AppendSegmentInternal)
qed

section \<open>The interface of a segment index\<close>

text \<open>
  What the clients of a tree use: the sequence of the segments, a search by row that keeps it, and
  appending at the end.
\<close>

locale segment_index =
  fixes invar :: "'t \<Rightarrow> bool"
    and content :: "'t \<Rightarrow> 's list"
    and within :: "'s \<Rightarrow> nat \<Rightarrow> bool"
    and first_row :: "'t \<Rightarrow> nat"
    and find :: "nat \<Rightarrow> 't \<Rightarrow> nat option \<times> 't"
    and fits :: "'s \<Rightarrow> 't \<Rightarrow> bool"
    and append :: "'s \<Rightarrow> 't \<Rightarrow> 't"
  assumes find_keeps: "invar t \<Longrightarrow> first_row t \<le> r \<Longrightarrow> find r t = (res, t') \<Longrightarrow> invar t' \<and> content t' = content t"
    and find_some: "invar t \<Longrightarrow> first_row t \<le> r \<Longrightarrow> find r t = (Some i, t') \<Longrightarrow>
      i < length (content t) \<and> within (content t ! i) r"
    and find_none: "invar t \<Longrightarrow> first_row t \<le> r \<Longrightarrow> find r t = (None, t') \<Longrightarrow> s \<in> set (content t) \<Longrightarrow> \<not> within s r"
    and unique: "invar t \<Longrightarrow> i < length (content t) \<Longrightarrow> j < length (content t) \<Longrightarrow>
      within (content t ! i) r \<Longrightarrow> within (content t ! j) r \<Longrightarrow> i = j"
    and append_keeps: "invar t \<Longrightarrow> fits s t \<Longrightarrow> invar (append s t) \<and> content (append s t) = content t @ [s]"
    and append_first: "invar t \<Longrightarrow> fits s t \<Longrightarrow> within s r \<Longrightarrow> first_row (append s t) \<le> r"
begin

text \<open>The search is exact.\<close>

lemma find_iff:
  assumes "invar t" "first_row t \<le> r" "i < length (content t)"
  shows "fst (find r t) = Some i \<longleftrightarrow> within (content t ! i) r"
proof -
  obtain res t' where f: "find r t = (res, t')" by (cases "find r t")
  show ?thesis
  proof (cases res)
    case None
    then show ?thesis using find_none [OF assms(1,2), of t'] f assms(3) by auto
  next
    case (Some j)
    then have "j < length (content t) \<and> within (content t ! j) r" using find_some [OF assms(1,2)] f by simp
    then show ?thesis using unique [OF assms(1), of i j r] f Some assms(3) by auto
  qed
qed

text \<open>A row of the segment that was appended last is found there.\<close>

lemma find_append: "invar t \<Longrightarrow> fits s t \<Longrightarrow> within s r \<Longrightarrow> fst (find r (append s t)) = Some (length (content t))"
  using find_iff [of "append s t" r "length (content t)"] append_keeps append_first by simp

end

text \<open>The instance: the loop of the search returns, and its result is a value.\<close>

definition tree_find :: "nat \<Rightarrow> 'a SegmentTree \<Rightarrow> nat option \<times> 'a SegmentTree" where
  "tree_find r t = (let (res, t') = TryGetSegmentIndex r t in (case res of Some (Inr i) \<Rightarrow> i | _ \<Rightarrow> None, t'))"

definition tree_ok :: "'a SegmentTree \<Rightarrow> bool" where
  "tree_ok t \<longleftrightarrow> tree_inv t \<and> length (segments t) < 2 ^ 63"

definition tree_fits :: "'a Segment \<Rightarrow> 'a SegmentTree \<Rightarrow> bool" where
  "tree_fits s t \<longleftrightarrow>
     seg_next s = None \<and> Suc (length (segments t)) < 2 ^ 63
     \<and> (segments t \<noteq> [] \<longrightarrow> seg_start s = tree_start t + sum_list (map seg_count (segments t)))"

lemma tree_find_ok:
  assumes "tree_ok t" "tree_start t \<le> r" "tree_find r t = (res, t')"
  shows "tree_ok t' \<and> segments t' = segments t"
    and "res = Some i \<Longrightarrow> i < length (segments t) \<and> covers (segments t ! i) r"
    and "res = None \<Longrightarrow> s \<in> set (segments t) \<Longrightarrow> \<not> covers s r"
proof -
  have ok: "tree_inv t" "length (segments t) < 2 ^ 63" using assms(1) by (simp_all add: tree_ok_def)
  from TryGetSegmentIndex_ok [OF ok, of r] assms(2)
  obtain q u where q: "TryGetSegmentIndex r t = (Some (Inr q), u)" "tree_inv u" "segments u = segments t"
    "case q of Some i \<Rightarrow> i < length (nodes u) \<and> covers (segments t ! i) r | None \<Rightarrow> \<forall>s \<in> set (segments t). \<not> covers s r"
    by auto
  have eq: "res = q" "t' = u" using assms(3) q(1) by (simp_all add: tree_find_def)
  show "tree_ok t' \<and> segments t' = segments t" using q ok by (simp add: eq tree_ok_def)
  have "length (nodes u) \<le> length (segments t)" using length_nodes_le [of u] by (simp add: q(3))
  then show "res = Some i \<Longrightarrow> i < length (segments t) \<and> covers (segments t ! i) r" using q(4) by (simp add: eq)
  show "res = None \<Longrightarrow> s \<in> set (segments t) \<Longrightarrow> \<not> covers s r" using q(4) by (simp add: eq)
qed

interpretation tree: segment_index tree_ok segments covers tree_start tree_find tree_fits AppendSegment
proof
  fix t t' :: "'a SegmentTree" and r i j :: nat and res :: "nat option" and s :: "'a Segment"
  assume ok: "tree_ok t"
  show "tree_start t \<le> r \<Longrightarrow> tree_find r t = (res, t') \<Longrightarrow> tree_ok t' \<and> segments t' = segments t"
    by (rule tree_find_ok(1) [OF ok])
  show "tree_start t \<le> r \<Longrightarrow> tree_find r t = (Some i, t') \<Longrightarrow> i < length (segments t) \<and> covers (segments t ! i) r"
    using tree_find_ok(2) [OF ok] by blast
  show "tree_start t \<le> r \<Longrightarrow> tree_find r t = (None, t') \<Longrightarrow> s \<in> set (segments t) \<Longrightarrow> \<not> covers s r"
    using tree_find_ok(3) [OF ok] by blast
  show "i < length (segments t) \<Longrightarrow> j < length (segments t) \<Longrightarrow> covers (segments t ! i) r \<Longrightarrow>
      covers (segments t ! j) r \<Longrightarrow> i = j"
    using covers_unique ok by (auto simp: tree_ok_def)
  assume fits: "tree_fits s t"
  have a: "tree_inv (AppendSegment s t)" "segments (AppendSegment s t) = segments t @ [clear_next s]"
    using AppendSegment_ok [of t s] ok fits by (simp_all add: tree_ok_def tree_fits_def)
  have "clear_next s = s" using fits by (simp add: clear_next_def tree_fits_def)
  with a fits show "tree_ok (AppendSegment s t) \<and> segments (AppendSegment s t) = segments t @ [s]"
    by (simp add: tree_ok_def tree_fits_def)
  show "covers s r \<Longrightarrow> tree_start (AppendSegment s t) \<le> r"
    using a fits by (cases "segments t") (auto simp: tree_start_def covers_def tree_fits_def)
qed

section \<open>Walking and cutting the tree\<close>

lemma GetSegmentByIndex_ok:
  assumes "tree_inv t"
  shows "\<exists>t'. GetSegmentByIndex (int i) t = (if i < length (segments t) then Some i else None, t')
    \<and> tree_inv t' \<and> segments t' = segments t \<and> (i < length (segments t) \<longrightarrow> i < length (nodes t'))"
proof -
  define t' where "t' = load_while (\<lambda>t. i \<ge> length (nodes t)) t"
  have t': "tree_inv t'" "segments t' = segments t" "i < length (nodes t') \<or> unloaded t' = []"
    using load_while_keeps [OF assms, of "\<lambda>t. i \<ge> length (nodes t)"] by (simp_all add: t'_def not_le)
  then have "i < length (nodes t') \<longleftrightarrow> i < length (segments t)"
    using length_nodes_le [of t'] segments_loaded(2) [of t'] by auto
  with t' show ?thesis by (auto simp: GetSegmentByIndex_def Let_def t'_def [symmetric] not_le)
qed

text \<open>The next segment of a loaded one, for a tree that supports lazy loading or is loaded.\<close>

lemma GetNextSegment_ok:
  assumes "tree_inv t" "i < length (nodes t)" "lazy \<or> unloaded t = []"
  shows "\<exists>t'. GetNextSegment lazy i t = Inr (if Suc i < length (segments t) then Some (Suc i) else None, t')
    \<and> tree_inv t' \<and> segments t' = segments t \<and> (Suc i < length (segments t) \<longrightarrow> Suc i < length (nodes t'))"
proof (cases "\<not> lazy \<or> finished_loading t")
  case True
  then have "unloaded t = []" using assms by (auto simp: tree_inv_def)
  then have "length (segments t) = length (nodes t)" by (simp add: segments_def)
  then show ?thesis using True assms(1,2) by (auto simp: GetNextSegment_def segment_at_def tree_inv_def chained_def)
next
  case False
  then show ?thesis
    using GetSegmentByIndex_ok [OF assms(1), of "Suc i"] assms(2) by (auto simp: GetNextSegment_def segment_at_def add.commute)
qed

text \<open>\<open>EraseSegments\<close> followed by the store \<open>segment.next = nullptr\<close> of its callers.\<close>

definition clear_last :: "'a SegmentTree \<Rightarrow> 'a SegmentTree" where
  "clear_last t = t\<lparr>nodes := (nodes t)[length (nodes t) - 1 := set_next None (last (nodes t))]\<rparr>"

lemma EraseSegments_ok:
  assumes "tree_inv t" "k < length (segments t)" "length (segments t) < 2 ^ 64"
  shows "\<exists>t'. EraseSegments k t = Inr t' \<and> tree_inv (clear_last t')
    \<and> segments (clear_last t') = take (Suc k) (segments t) \<and> length (nodes t') = Suc k \<and> unloaded t' = []"
proof -
  let ?t = "LoadAllSegments t"
  note l = LoadAllSegments_keeps [OF assms(1)]
  have len: "length (nodes ?t) = length (segments t)" using segments_loaded(2) [OF l(3)] l(2) by simp
  define t' where "t' = ?t\<lparr>nodes := take (Suc k) (nodes ?t)\<rparr>"
  have n: "nodes t' = take (Suc k) (nodes ?t)" "unloaded t' = []" "length (nodes t') = Suc k" "nodes t' \<noteq> []"
    using len assms(2) l(3) by (auto simp: t'_def)
  have "EraseSegments k t = Inr t'"
    using assms(2) len by (cases "k = length (segments t) - 1") (auto simp: EraseSegments_def Let_def t'_def)
  moreover have sg: "segments (clear_last t') = take (Suc k) (segments t)"
  proof -
    have "map (\<lambda>n. clear_next (node n)) (nodes (clear_last t')) = map (\<lambda>n. clear_next (node n)) (nodes t')"
      using n(4) by (simp add: clear_last_def map_update last_conv_nth list_update_same_conv)
    then have "segments (clear_last t') = take (Suc k) (map (\<lambda>n. clear_next (node n)) (nodes ?t))"
      using n(1,2) by (simp add: segments_def clear_last_def take_map)
    then show ?thesis using segments_loaded(1) [OF l(3)] l(2) by simp
  qed
  moreover have "chained (nodes (clear_last t'))"
    using l(1) n(3,4) by (auto simp: clear_last_def chained_def tree_inv_def n(1) nth_list_update last_conv_nth)
  moreover have "contiguous (case take (Suc k) (segments t) of [] \<Rightarrow> 0 | s # _ \<Rightarrow> seg_start s) (take (Suc k) (segments t))"
  proof -
    have c: "contiguous (tree_start t) (segments t)" using assms(1) by (simp add: tree_inv_def tree_start_def)
    then have "contiguous (tree_start t) (take (Suc k) (segments t))"
      by (metis append_take_drop_id contiguous_append)
    then show ?thesis by (cases "segments t") (auto simp: tree_start_def)
  qed
  ultimately show ?thesis using n by (auto simp: tree_inv_def clear_last_def)
qed

lemma EraseSegments_empty: "segments t = [] \<Longrightarrow> tree_inv t \<Longrightarrow> k < 2 ^ 64 - 1 \<Longrightarrow> EraseSegments k t = Inl OutOfBounds"
  using LoadAllSegments_keeps [of t] by (auto simp: EraseSegments_def Let_def segments_def)

section \<open>Properties\<close>

text \<open>
  C15: the binary search of a segment tree returns, with the segment that covers the row if there is
  one and without a result if not, loading the unloaded segments it needs and changing nothing else.
  The row must not lie before the first segment.
\<close>

theorem TryGetSegmentIndex_correct:
  assumes "tree_inv t" "length (segments t) < 2 ^ 63" "segments t = [] \<or> tree_start t \<le> row"
  shows "\<exists>r t'. TryGetSegmentIndex row t = (Some (Inr r), t') \<and> tree_inv t' \<and> segments t' = segments t
    \<and> (\<forall>i. r = Some i \<longleftrightarrow> i < length (segments t) \<and> covers (segments t ! i) row)"
proof -
  obtain r t' where r: "TryGetSegmentIndex row t = (Some (Inr r), t')" "tree_inv t'" "segments t' = segments t"
      "case r of Some i \<Rightarrow> i < length (nodes t') \<and> covers (segments t ! i) row
        | None \<Rightarrow> \<forall>s \<in> set (segments t). \<not> covers s row"
    using TryGetSegmentIndex_ok [OF assms] by blast
  have "r = Some i \<longleftrightarrow> i < length (segments t) \<and> covers (segments t ! i) row" for i
  proof (cases r)
    case (Some j)
    then have "j < length (segments t)" "covers (segments t ! j) row" using r(3,4) length_nodes_le [of t'] by auto
    with Some covers_unique [OF assms(1), of i j row] show ?thesis by auto
  qed (use r(4) in auto)
  with r show ?thesis by blast
qed

definition sample_tree :: "nat SegmentTree" where
  "sample_tree = tree_Initialize
     [\<lparr>seg_start = 10, seg_count = 5, seg_next = None, seg_data = 1\<rparr>, \<lparr>seg_start = 15, seg_count = 7, seg_next = None, seg_data = 2\<rparr>]
     SegmentTree_new"

theorem TryGetSegmentIndex_correct_witness:
  "fst (TryGetSegmentIndex 16 sample_tree) = Some (Inr (Some 1)) \<and> fst (TryGetSegmentIndex 22 sample_tree) = Some (Inr None)"
proof -
  have s: "segments sample_tree = [\<lparr>seg_start = 10, seg_count = 5, seg_next = None, seg_data = 1\<rparr>,
      \<lparr>seg_start = 15, seg_count = 7, seg_next = None, seg_data = 2\<rparr>]"
    by (simp add: sample_tree_def tree_Initialize_def SegmentTree_new_def segments_def clear_next_def)
  have i: "tree_inv sample_tree" "tree_start sample_tree = 10"
    by (simp_all add: tree_inv_def tree_start_def s)
      (simp add: sample_tree_def tree_Initialize_def SegmentTree_new_def chained_def)
  from TryGetSegmentIndex_correct [OF i(1), of 16] obtain r t' where
    "fst (TryGetSegmentIndex 16 sample_tree) = Some (Inr r)" "r = Some 1 \<longleftrightarrow> covers (segments sample_tree ! 1) 16"
    by (auto simp: i s)
  moreover from TryGetSegmentIndex_correct [OF i(1), of 22] obtain q t' where
    "fst (TryGetSegmentIndex 22 sample_tree) = Some (Inr q)"
    "\<forall>i. q = Some i \<longleftrightarrow> i < Suc (Suc 0) \<and> covers (segments sample_tree ! i) 22"
    by (auto simp: i s)
  moreover have "q = None"
  proof (cases q)
    case (Some j)
    then have "j < Suc (Suc 0)" "covers (segments sample_tree ! j) 22" using calculation(4) by blast+
    then show ?thesis by (cases "j = 0") (simp_all add: s covers_def less_Suc_eq)
  qed
  ultimately show ?thesis by (simp add: s covers_def)
qed

text \<open>
  C37: for a row before the first segment the search does not answer "not found": the unsigned
  \<open>index - 1\<close> wraps round at the first node, the next probe is outside the vector of nodes and its
  checked access throws an \<open>InternalException\<close>.
\<close>

theorem TryGetSegmentIndex_underflow:
  assumes "tree_inv t" "nodes t \<noteq> []" "length (segments t) < 2 ^ 63" "row < tree_start t"
  shows "fst (TryGetSegmentIndex row t) = Some (Inl InternalException)"
proof -
  have hd: "tree_start t = row_start (hd (nodes t))" using assms(1,2) by (rule tree_start_hd)
  have "row_start (nodes t ! 0) \<le> row_start (nodes t ! (length (nodes t) - 1))"
    using sorted_nodes_start [OF tree_inv_sorted [OF assms(1)], of "length (nodes t) - 1"] assms(2) by simp
  then have "row < node_end (last (nodes t))"
    using assms(2,4) hd by (simp add: last_conv_nth hd_conv_nth node_end_def)
  then have "load_while (\<lambda>t. nodes t = [] \<or> row \<ge> node_end (last (nodes t))) t = t"
    using assms(2) by (subst load_while.simps) simp
  moreover have "length (nodes t) < 2 ^ 63" using length_nodes_le [of t] assms(3) by simp
  ultimately show ?thesis
    using binary_search_underflow [OF tree_inv_sorted [OF assms(1)]] assms(2,4) hd by (simp add: TryGetSegmentIndex_def)
qed

theorem TryGetSegmentIndex_underflow_witness:
  "fst (TryGetSegmentIndex 3 (AppendSegment \<lparr>seg_start = 10, seg_count = 5, seg_next = None, seg_data = True\<rparr> SegmentTree_new))
    = Some (Inl InternalException)"
proof -
  let ?s = "\<lparr>seg_start = 10, seg_count = 5, seg_next = None, seg_data = True\<rparr>"
  have "LoadAllSegments SegmentTree_new = (SegmentTree_new :: bool SegmentTree)"
    by (simp add: LoadAllSegments_def load_while.simps [of "\<lambda>t. True"] LoadNextSegment_def SegmentTree_new_def)
  then have t: "nodes (AppendSegment ?s SegmentTree_new) = [\<lparr>row_start = 10, node = ?s\<rparr>]"
      "unloaded (AppendSegment ?s SegmentTree_new) = []"
    unfolding AppendSegment_def by (simp_all add: AppendSegmentInternal_def) (simp_all add: SegmentTree_new_def)
  then have "segments (AppendSegment ?s SegmentTree_new) = [?s]" by (simp add: segments_def clear_next_def)
  then show ?thesis
    using TryGetSegmentIndex_underflow [of "AppendSegment ?s SegmentTree_new" 3] t
    by (simp add: tree_inv_def tree_start_def chained_def)
qed

end
