(* ===== verification/Row_Group_Collection.thy ===== *)
theory Row_Group_Collection
  imports Row_Group_Versions Segment_Tree
begin

text \<open>
  The row groups of a table, \<^verbatim>\<open>src/src/storage/table/row_group_collection.cpp\<close>: appending, committing
  and reverting rows, deleting and fetching rows by row id, and merging the row groups of another
  collection. The row groups are the segments of a lazily loaded segment tree (\<open>Segment_Tree\<close>), their
  row versions those of \<open>Row_Group_Versions\<close>.

  A row group is a segment: its \<open>start\<close> and \<open>count\<close> are the fields of \<open>SegmentBase\<close>. The model
  has them in both records and \<open>put_group\<close>, the store into a row group, keeps them equal. A chunk to be
  appended is represented by its size and the values that a fetch reads by its row id: the columns, their
  statistics and the allocation size are not part of the state. Loops that walk the row
  groups are partial functions; \<open>None\<close> is a loop that does not end.

  The abstract state of a collection is \<open>table_ids\<close>, the list of the insert and delete ids of all its
  rows in the order of the row ids.
\<close>

section \<open>Collections\<close>

type_synonym RowGroupSegmentTree = "RowGroup SegmentTree"

record RowGroupCollection =
  coll_row_start :: idx_t
  total_rows :: idx_t
  row_groups :: RowGroupSegmentTree

definition RowGroup_new :: "idx_t \<Rightarrow> idx_t \<Rightarrow> RowGroup" where
  "RowGroup_new start cnt =
     \<lparr>rg_start = start, rg_count = cnt, rg_version_info = None, deletes_pointers = None, deletes_is_loaded = False\<rparr>"

definition segment_of :: "RowGroup \<Rightarrow> RowGroup Segment" where
  "segment_of g = \<lparr>seg_start = rg_start g, seg_count = rg_count g, seg_next = None, seg_data = g\<rparr>"

definition get_group :: "idx_t \<Rightarrow> RowGroupSegmentTree \<Rightarrow> exc + RowGroup" where
  "get_group i t = bind_res (segment_at t i) (\<lambda>n. Inr (seg_data (node n)))"

definition put_group :: "idx_t \<Rightarrow> RowGroup \<Rightarrow> RowGroupSegmentTree \<Rightarrow> RowGroupSegmentTree" where
  "put_group i g t =
     t\<lparr>nodes := (nodes t)[i := (nodes t ! i)\<lparr>node := (segment_of g)\<lparr>seg_next := seg_next (node (nodes t ! i))\<rparr>\<rparr>]\<rparr>"

definition coll_new :: "idx_t \<Rightarrow> idx_t \<Rightarrow> RowGroupCollection" where
  "coll_new row_start_p total_rows_p =
     \<lparr>coll_row_start = row_start_p, total_rows = total_rows_p, row_groups = SegmentTree_new\<rparr>"

definition coll_Initialize :: "idx_t \<Rightarrow> RowGroup list \<Rightarrow> RowGroupCollection \<Rightarrow> RowGroupCollection" where
  "coll_Initialize rows groups c =
     c\<lparr>total_rows := rows, row_groups := tree_Initialize (map segment_of groups) (row_groups c)\<rparr>"

definition AppendRowGroup :: "idx_t \<Rightarrow> RowGroupCollection \<Rightarrow> RowGroupCollection" where
  "AppendRowGroup start_row c = c\<lparr>row_groups := AppendSegment (segment_of (RowGroup_new start_row 0)) (row_groups c)\<rparr>"

section \<open>Appending\<close>

text \<open>
  \<open>TableAppendState\<close> with the \<open>RowGroupAppendState\<close> inside it: the row group that receives rows
  and how many it has, counting the ones that are not finalized.
\<close>

record TableAppendState =
  append_row_start :: idx_t
  current_row :: idx_t
  total_append_count :: idx_t
  start_row_group :: "idx_t option"
  append_row_group :: "idx_t option"
  offset_in_row_group :: idx_t

definition TableAppendState_new :: TableAppendState where
  "TableAppendState_new = \<lparr>append_row_start = 0, current_row = 0, total_append_count = 0, start_row_group = None,
     append_row_group = None, offset_in_row_group = 0\<rparr>"

text \<open>\<open>GetLastSegment\<close> followed by \<open>RowGroup::InitializeAppend\<close>.\<close>

definition rg_InitializeAppend ::
  "RowGroupCollection \<Rightarrow> TableAppendState \<Rightarrow> exc + RowGroupCollection \<times> TableAppendState" where
  "rg_InitializeAppend c st =
     (let (last_group, t) = GetLastSegment (row_groups c)
      in case last_group of None \<Rightarrow> Inl NullPointer
         | Some i \<Rightarrow> bind_res (get_group i t) (\<lambda>g.
             Inr (c\<lparr>row_groups := t\<rparr>, st\<lparr>append_row_group := Some i, offset_in_row_group := rg_count g\<rparr>)))"

definition coll_InitializeAppend ::
  "RowGroupCollection \<Rightarrow> TableAppendState \<Rightarrow> exc + RowGroupCollection \<times> TableAppendState" where
  "coll_InitializeAppend c st =
     (let st = st\<lparr>append_row_start := total_rows c, current_row := total_rows c, total_append_count := 0\<rparr>;
          (empty, t) = IsEmpty (row_groups c);
          c = c\<lparr>row_groups := t\<rparr>;
          c = (if empty then AppendRowGroup (coll_row_start c) c else c)
      in bind_res (rg_InitializeAppend c st) (\<lambda>(c, st). Inr (c, st\<lparr>start_row_group := append_row_group st\<rparr>)))"

text \<open>The loop of \<open>Append\<close>: the rows that fit go to the current row group, a new one takes the rest.\<close>

partial_function (option) coll_Append_loop ::
  "idx_t \<Rightarrow> bool \<Rightarrow> RowGroupCollection \<Rightarrow> TableAppendState
    \<Rightarrow> (exc + bool \<times> RowGroupCollection \<times> TableAppendState) option" where
  "coll_Append_loop remaining new_row_group c st =
     (case append_row_group st of None \<Rightarrow> Some (Inl NullPointer)
      | Some i \<Rightarrow>
          (case get_group i (row_groups c) of Inl e \<Rightarrow> Some (Inl e)
           | Inr g \<Rightarrow>
               let append_count = min remaining (sub_row ROW_GROUP_SIZE (offset_in_row_group st));
                   st = st\<lparr>offset_in_row_group := offset_in_row_group st + append_count\<rparr>;
                   remaining = remaining - append_count
               in if remaining > 0
                  then (case rg_InitializeAppend (AppendRowGroup (rg_start g + offset_in_row_group st) c) st of
                          Inl e \<Rightarrow> Some (Inl e)
                        | Inr p \<Rightarrow> coll_Append_loop remaining True (fst p) (snd p))
                  else Some (Inr (new_row_group, c, st))))"

definition coll_Append ::
  "idx_t \<Rightarrow> RowGroupCollection \<Rightarrow> TableAppendState \<Rightarrow> (exc + bool \<times> RowGroupCollection \<times> TableAppendState) option" where
  "coll_Append chunk_size c st =
     map_option (\<lambda>r. bind_res r (\<lambda>(b, c, st). Inr (b, c, st\<lparr>current_row := current_row st + chunk_size\<rparr>)))
       (coll_Append_loop chunk_size False c (st\<lparr>total_append_count := total_append_count st + chunk_size\<rparr>))"

partial_function (option) FinalizeAppend_loop ::
  "transaction_t \<Rightarrow> idx_t \<Rightarrow> idx_t option \<Rightarrow> RowGroupSegmentTree \<Rightarrow> (exc + RowGroupSegmentTree) option" where
  "FinalizeAppend_loop tid remaining row_group t =
     (if remaining > 0
      then (case row_group of None \<Rightarrow> Some (Inl NullPointer)
            | Some i \<Rightarrow>
                (case get_group i t of Inl e \<Rightarrow> Some (Inl e)
                 | Inr g \<Rightarrow>
                     let append_count = min remaining (sub_row ROW_GROUP_SIZE (rg_count g))
                     in (case bind_res (rg_AppendVersionInfo tid append_count g) (\<lambda>g'. GetNextSegment True i (put_group i g' t)) of
                           Inl e \<Rightarrow> Some (Inl e)
                         | Inr p \<Rightarrow> FinalizeAppend_loop tid (remaining - append_count) (fst p) (snd p))))
      else Some (Inr t))"

definition FinalizeAppend ::
  "TransactionData \<Rightarrow> RowGroupCollection \<Rightarrow> TableAppendState \<Rightarrow> (exc + RowGroupCollection \<times> TableAppendState) option" where
  "FinalizeAppend transaction c st =
     map_option (\<lambda>r. bind_res r (\<lambda>t.
         Inr (c\<lparr>row_groups := t, total_rows := total_rows c + total_append_count st\<rparr>,
              st\<lparr>total_append_count := 0, start_row_group := None\<rparr>)))
       (FinalizeAppend_loop (transaction_id transaction) (total_append_count st) (start_row_group st) (row_groups c))"

partial_function (option) CommitAppend_loop ::
  "transaction_t \<Rightarrow> idx_t \<Rightarrow> idx_t \<Rightarrow> idx_t \<Rightarrow> RowGroupSegmentTree \<Rightarrow> (exc + RowGroupSegmentTree) option" where
  "CommitAppend_loop commit_id row remaining i t =
     (case get_group i t of Inl e \<Rightarrow> Some (Inl e)
      | Inr g \<Rightarrow>
          let start_in_row_group = sub_row row (rg_start g);
              append_count = min (sub_row (rg_count g) start_in_row_group) remaining
          in (case rg_CommitAppend commit_id start_in_row_group append_count g of Inl e \<Rightarrow> Some (Inl e)
              | Inr g' \<Rightarrow>
                  let t = put_group i g' t; remaining = remaining - append_count
                  in if remaining = 0 then Some (Inr t)
                     else (case GetNextSegment True i t of Inl e \<Rightarrow> Some (Inl e)
                           | Inr p \<Rightarrow>
                               (case fst p of None \<Rightarrow> Some (Inl NullPointer)
                                | Some j \<Rightarrow> CommitAppend_loop commit_id (row + append_count) remaining j (snd p)))))"

definition coll_CommitAppend ::
  "transaction_t \<Rightarrow> idx_t \<Rightarrow> idx_t \<Rightarrow> RowGroupCollection \<Rightarrow> (exc + RowGroupCollection) option" where
  "coll_CommitAppend commit_id first_row cnt c =
     (let (r, t) = GetSegment first_row (row_groups c)
      in case r of None \<Rightarrow> None | Some (Inl e) \<Rightarrow> Some (Inl e)
         | Some (Inr i) \<Rightarrow>
             map_option (\<lambda>r. bind_res r (\<lambda>t. Inr (c\<lparr>row_groups := t\<rparr>))) (CommitAppend_loop commit_id first_row cnt i t))"

definition RevertAppendInternal :: "idx_t \<Rightarrow> RowGroupCollection \<Rightarrow> (exc + RowGroupCollection) option" where
  "RevertAppendInternal start_row c =
     (let c = c\<lparr>total_rows := start_row\<rparr>; segment_count = GetSegmentCount (row_groups c)
      in if segment_count = 0 then Some (Inr c)
         else let (r, t) = TryGetSegmentIndex start_row (row_groups c)
              in case r of None \<Rightarrow> None | Some (Inl e) \<Rightarrow> Some (Inl e)
                 | Some (Inr found) \<Rightarrow>
                     let segment_index = (case found of Some i \<Rightarrow> i | None \<Rightarrow> segment_count - 1);
                         (segment, t) = GetSegmentByIndex (int segment_index) t
                     in case segment of None \<Rightarrow> Some (Inl NullPointer)
                        | Some i \<Rightarrow> Some (bind_res (EraseSegments segment_index t) (\<lambda>t.
                            bind_res (segment_at t i) (\<lambda>n.
                              let t = t\<lparr>nodes := (nodes t)[i := set_next None n]\<rparr>
                              in bind_res (get_group i t) (\<lambda>g. bind_res (rg_RevertAppend start_row g) (\<lambda>g'.
                                   Inr (c\<lparr>row_groups := put_group i g' t\<rparr>)))))))"

section \<open>Merging, deleting and fetching\<close>

text \<open>A moved row group keeps its \<open>next\<close> pointer until the next row group is appended behind it.\<close>

definition move_group :: "RowGroup SegmentNode \<Rightarrow> idx_t \<times> RowGroupSegmentTree \<Rightarrow> exc + idx_t \<times> RowGroupSegmentTree" where
  "move_group entry = (\<lambda>(index, t).
     bind_res (MoveToCollection index (seg_data (node entry))) (\<lambda>g.
       Inr (index + rg_count g, AppendSegment ((segment_of g)\<lparr>seg_next := seg_next (node entry)\<rparr>) t)))"

definition MergeStorage ::
  "RowGroupCollection \<Rightarrow> RowGroupCollection \<Rightarrow> exc + RowGroupCollection \<times> RowGroupCollection" where
  "MergeStorage data c =
     (let (segs, t) = MoveSegments (row_groups data)
      in bind_res (fold_res move_group segs (coll_row_start c + total_rows c, row_groups c)) (\<lambda>(index, u).
           Inr (c\<lparr>row_groups := u, total_rows := total_rows c + total_rows data\<rparr>, data\<lparr>row_groups := t\<rparr>)))"

text \<open>
  \<open>Delete\<close>: runs of ids of the same row group are handed to it together. The result keeps the
  state when an exception is thrown; an entry of the undo buffer is tagged with its row group, the
  pointer \<open>DeleteInfo::version_info\<close>. A call without ids would read the first one all the same.
\<close>

definition in_group :: "RowGroup \<Rightarrow> idx_t \<Rightarrow> bool" where
  "in_group g row_id \<longleftrightarrow> \<not> row_id < rg_start g \<and> \<not> row_id \<ge> rg_start g + rg_count g"

function coll_Delete ::
  "transaction_t \<Rightarrow> idx_t list \<Rightarrow> (idx_t \<times> DeleteInfo) list option \<Rightarrow> RowGroupSegmentTree
    \<Rightarrow> ((RowGroupSegmentTree \<times> (idx_t \<times> DeleteInfo) list option \<times> idx_t) \<times> exc option) option" where
  "coll_Delete tid [] undo t = Some ((t, undo, 0), Some OutOfBounds)"
| "coll_Delete tid (row_id # ids) undo t =
     (let (r, t) = GetSegment row_id t
      in case r of None \<Rightarrow> None | Some (Inl e) \<Rightarrow> Some ((t, undo, 0), Some e)
         | Some (Inr i) \<Rightarrow>
             (case get_group i t of Inl e \<Rightarrow> Some ((t, undo, 0), Some e)
              | Inr g \<Rightarrow>
                  let run = row_id # takeWhile (in_group g) ids; rest = dropWhile (in_group g) ids;
                      (st, ex) = rg_Delete tid run (map_option (\<lambda>_. []) undo) g;
                      t = put_group i (del_group st) t;
                      undo = (case undo_buffer st of None \<Rightarrow> undo | Some ds \<Rightarrow> map_option (\<lambda>us. us @ map (Pair i) ds) undo)
                  in if ex \<noteq> None then Some ((t, undo, 0), ex)
                     else if rest = [] then Some ((t, undo, delete_count st), None)
                     else map_option (\<lambda>((t, undo, k), ex). ((t, undo, delete_count st + k), ex)) (coll_Delete tid rest undo t)))"
  by pat_completeness auto
termination
  by (relation "measure (\<lambda>(tid, ids, undo, t). length ids)") (auto simp: le_imp_less_Suc length_dropWhile_le)

text \<open>\<open>Fetch\<close>: the row ids whose rows are copied into the result.\<close>

fun coll_Fetch ::
  "TransactionData \<Rightarrow> idx_t list \<Rightarrow> RowGroupSegmentTree \<Rightarrow> (exc + idx_t list \<times> RowGroupSegmentTree) option" where
  "coll_Fetch transaction [] t = Some (Inr ([], t))"
| "coll_Fetch transaction (row_id # ids) t =
     (let (r, t) = TryGetSegmentIndex row_id t
      in case r of None \<Rightarrow> None | Some (Inl e) \<Rightarrow> Some (Inl e)
         | Some (Inr None) \<Rightarrow> coll_Fetch transaction ids t
         | Some (Inr (Some segment_idx)) \<Rightarrow>
             let (segment, t) = GetSegmentByIndex (int segment_idx) t
             in case segment of None \<Rightarrow> Some (Inl NullPointer)
                | Some i \<Rightarrow>
                    (case bind_res (get_group i t) (\<lambda>g. rg_Fetch transaction (sub_row row_id (rg_start g)) g) of
                       Inl e \<Rightarrow> Some (Inl e)
                     | Inr (visible, g) \<Rightarrow>
                         map_option (\<lambda>r. bind_res r (\<lambda>(res, t). Inr (if visible then row_id # res else res, t)))
                           (coll_Fetch transaction ids (put_group i g t))))"

section \<open>The table a collection represents\<close>

definition row_versions :: "RowGroup \<Rightarrow> (transaction_t \<times> transaction_t) list" where
  "row_versions g = map (rg_ids g) [0..<rg_count g]"

definition versions :: "RowGroup list \<Rightarrow> (transaction_t \<times> transaction_t) list" where
  "versions gs = concat (map row_versions gs)"

definition groups :: "RowGroupSegmentTree \<Rightarrow> RowGroup list" where
  "groups t = map seg_data (segments t)"

definition table_ids :: "RowGroupCollection \<Rightarrow> (transaction_t \<times> transaction_t) list" where
  "table_ids c = versions (groups (row_groups c))"

text \<open>Row groups that follow each other without a gap, and the trees that hold them.\<close>

fun stacked :: "idx_t \<Rightarrow> RowGroup list \<Rightarrow> bool" where
  "stacked r [] \<longleftrightarrow> True"
| "stacked r (g # gs) \<longleftrightarrow> rg_start g = r \<and> stacked (r + rg_count g) gs"

definition holds :: "RowGroupSegmentTree \<Rightarrow> RowGroup list \<Rightarrow> bool" where
  "holds t gs \<longleftrightarrow> tree_inv t \<and> segments t = map segment_of gs"

definition coll_inv :: "RowGroupCollection \<Rightarrow> bool" where
  "coll_inv c \<longleftrightarrow>
     holds (row_groups c) (groups (row_groups c)) \<and> stacked (coll_row_start c) (groups (row_groups c))
     \<and> (\<forall>g \<in> set (groups (row_groups c)). rg_inv g) \<and> total_rows c = length (table_ids c)"

text \<open>The tree that has loaded all of its row groups.\<close>

definition nodes_of :: "RowGroup list \<Rightarrow> RowGroup SegmentNode list" where
  "nodes_of gs = map (\<lambda>i. \<lparr>row_start = rg_start (gs ! i),
     node = (segment_of (gs ! i))\<lparr>seg_next := (if Suc i < length gs then Some (Suc i) else None)\<rparr>\<rparr>) [0..<length gs]"

definition loaded :: "RowGroup list \<Rightarrow> RowGroupSegmentTree" where
  "loaded gs = \<lparr>nodes = nodes_of gs, unloaded = [], finished_loading = True\<rparr>"

lemma segment_of_sel [simp]:
  "seg_start (segment_of g) = rg_start g" "seg_count (segment_of g) = rg_count g" "seg_data (segment_of g) = g"
  "seg_next (segment_of g) = None" "clear_next (segment_of g) = segment_of g"
  by (simp_all add: segment_of_def clear_next_def)

lemma length_row_versions [simp]: "length (row_versions g) = rg_count g"
  by (simp add: row_versions_def)

lemma versions_simps [simp]: "versions [] = []" "versions (g # gs) = row_versions g @ versions gs" "versions (gs @ hs) = versions gs @ versions hs"
  by (simp_all add: versions_def)

lemma length_versions: "length (versions gs) = sum_list (map rg_count gs)"
  by (induction gs) auto

lemma contiguous_groups: "contiguous r (map segment_of gs) = stacked r gs"
  by (induction gs arbitrary: r) auto

lemma stacked_append: "stacked r (xs @ ys) \<longleftrightarrow> stacked r xs \<and> stacked (r + length (versions xs)) ys"
  by (induction xs arbitrary: r) (auto simp: add.assoc)

lemma holds_groups: "holds t gs \<Longrightarrow> groups t = gs"
  by (simp add: holds_def groups_def comp_def)

lemma holds_start: "holds t gs \<Longrightarrow> stacked r gs \<Longrightarrow> gs \<noteq> [] \<Longrightarrow> tree_start t = r"
  by (cases gs) (auto simp: holds_def tree_start_def)

lemma nodes_of_nth [simp]:
  "length (nodes_of gs) = length gs"
  "i < length gs \<Longrightarrow> nodes_of gs ! i = \<lparr>row_start = rg_start (gs ! i),
     node = (segment_of (gs ! i))\<lparr>seg_next := (if Suc i < length gs then Some (Suc i) else None)\<rparr>\<rparr>"
  by (simp_all add: nodes_of_def)

lemma nodes_of_Nil [simp]: "nodes_of gs = [] \<longleftrightarrow> gs = []"
  by (simp add: nodes_of_def)

lemma loaded_sel [simp]: "nodes (loaded gs) = nodes_of gs" "unloaded (loaded gs) = []" "finished_loading (loaded gs)"
  by (simp_all add: loaded_def)

lemma segments_of_loaded [simp]: "segments (loaded gs) = map segment_of gs"
  by (rule nth_equalityI) (auto simp: segments_def clear_next_def segment_of_def)

lemma groups_loaded: "groups (loaded gs) = gs"
  by (simp add: groups_def comp_def)

lemma holds_loaded: "stacked r gs \<Longrightarrow> holds (loaded gs) gs"
proof -
  assume s: "stacked r gs"
  have "contiguous (case map segment_of gs of [] \<Rightarrow> 0 | s # _ \<Rightarrow> seg_start s) (map segment_of gs)"
    using s by (cases gs) (auto simp: contiguous_groups)
  then show ?thesis by (simp add: holds_def tree_inv_def chained_def)
qed

lemma finished_load_while: "P = (\<lambda>t. True) \<Longrightarrow> finished_loading (load_while P t)"
proof (induction P t rule: load_while.induct)
  case (1 P t)
  show ?case
  proof (cases "LoadNextSegment t")
    case (Pair b t')
    show ?thesis
    proof (cases b)
      case True
      with 1 Pair show ?thesis by (subst load_while.simps) simp
    next
      case False
      with Pair have "finished_loading t'"
        by (auto simp: LoadNextSegment_def LoadSegment_def split: if_splits list.splits)
      with False Pair 1(2) show ?thesis by (subst load_while.simps) simp
    qed
  qed
qed

lemma load_while_finished: "finished_loading t \<Longrightarrow> load_while P t = t"
  by (subst load_while.simps) (simp add: LoadNextSegment_def)

lemma LoadAllSegments_finished: "finished_loading t \<Longrightarrow> LoadAllSegments t = t"
  by (simp add: LoadAllSegments_def load_while_finished)

lemma LoadAllSegments_loaded [simp]: "LoadAllSegments (loaded gs) = loaded gs"
  by (rule LoadAllSegments_finished) simp

lemma holds_LoadAll:
  assumes "holds t gs"
  shows "LoadAllSegments t = loaded gs"
proof -
  let ?t = "LoadAllSegments t"
  have l: "tree_inv ?t" "segments ?t = map segment_of gs" "unloaded ?t = []" "finished_loading ?t"
    using LoadAllSegments_keeps [of t] assms finished_load_while [OF refl, of t] by (simp_all add: holds_def LoadAllSegments_def)
  have len: "length (nodes ?t) = length gs" using segments_loaded(2) [OF l(3)] l(2) by simp
  have "nodes ?t ! i = nodes_of gs ! i" if "i < length gs" for i
  proof -
    have "clear_next (node (nodes ?t ! i)) = segment_of (gs ! i)"
      using segments_loaded(1) [OF l(3)] l(2) that len by (metis nth_map)
    moreover have "row_start (nodes ?t ! i) = seg_start (node (nodes ?t ! i))"
        "seg_next (node (nodes ?t ! i)) = (if Suc i < length gs then Some (Suc i) else None)"
      using l(1) that len by (auto simp: tree_inv_def chained_def)
    ultimately show ?thesis using that
      by (cases "nodes ?t ! i", cases "node (nodes ?t ! i)") (auto simp: clear_next_def segment_of_def)
  qed
  then have "nodes ?t = nodes_of gs" using len by (simp add: nth_equalityI)
  then show ?thesis using l(3,4) by (cases ?t) (simp add: loaded_def)
qed

section \<open>Operations on a loaded tree\<close>

lemma get_group_loaded: "i < length gs \<Longrightarrow> get_group i (loaded gs) = Inr (gs ! i)"
  by (simp add: get_group_def segment_at_def)

lemma put_group_loaded:
  "i < length gs \<Longrightarrow> rg_start g = rg_start (gs ! i) \<Longrightarrow> put_group i g (loaded gs) = loaded (gs[i := g])"
  by (auto simp: put_group_def loaded_def nth_list_update intro!: nth_equalityI)

lemma AppendSegment_loaded: "AppendSegment (segment_of g) (loaded gs) = loaded (gs @ [g])"
proof -
  have "nodes (AppendSegmentInternal (segment_of g) (loaded gs)) = nodes_of (gs @ [g])"
    by (rule nth_equalityI)
      (auto simp: AppendSegmentInternal_def Let_def nth_append nth_list_update set_next_def last_conv_nth segment_of_def less_Suc_eq)
  moreover have "unloaded (AppendSegmentInternal s t) = unloaded t" "finished_loading (AppendSegmentInternal s t) = finished_loading t" for s and t :: RowGroupSegmentTree
    by (simp_all add: AppendSegmentInternal_def Let_def)
  ultimately show ?thesis by (intro SegmentTree.equality) (simp_all add: AppendSegment_def)
qed

lemma GetLastSegment_loaded: "gs \<noteq> [] \<Longrightarrow> GetLastSegment (loaded gs) = (Some (length gs - 1), loaded gs)"
  by (auto simp: GetLastSegment_def Let_def nodes_of_def)

lemma GetNextSegment_loaded:
  "i < length gs \<Longrightarrow> GetNextSegment True i (loaded gs) = Inr (if Suc i < length gs then Some (Suc i) else None, loaded gs)"
  by (simp add: GetNextSegment_def segment_at_def)

lemma GetSegmentByIndex_loaded: "i < length gs \<Longrightarrow> GetSegmentByIndex (int i) (loaded gs) = (Some i, loaded gs)"
  by (simp add: GetSegmentByIndex_def load_while_finished Let_def)

lemma GetLastSegment_holds: "holds t gs \<Longrightarrow> GetLastSegment t = GetLastSegment (loaded gs)"
  by (simp add: GetLastSegment_def holds_LoadAll)

lemma AppendSegment_holds: "holds t gs \<Longrightarrow> AppendSegment s t = AppendSegment s (loaded gs)"
  by (simp add: AppendSegment_def holds_LoadAll)

lemma IsEmpty_holds:
  assumes "holds t gs"
  shows "\<exists>t'. IsEmpty t = (gs = [], t') \<and> holds t' gs"
proof (cases "nodes t = []")
  case True
  obtain b t' where l: "LoadNextSegment t = (b, t')" by fastforce
  have t': "tree_inv t'" "segments t' = map segment_of gs" "\<not> b \<Longrightarrow> unloaded t' = []"
    using LoadNextSegment_keeps [of t b t'] l assms by (auto simp: holds_def)
  moreover have "nodes t' = [] \<longleftrightarrow> gs = []"
  proof (cases b)
    case b: True
    then have "nodes t' \<noteq> []" using l
      by (auto simp: LoadNextSegment_def LoadSegment_def AppendSegmentInternal_def Let_def split: if_splits list.splits)
    then show ?thesis using t'(2) by (auto simp: segments_def)
  qed (use t' in \<open>auto simp: segments_def\<close>)
  ultimately show ?thesis using True l by (simp add: IsEmpty_def GetRootSegment_def Let_def holds_def)
next
  case False
  then have "gs \<noteq> []" using assms by (auto simp: holds_def segments_def)
  with False assms show ?thesis by (simp add: IsEmpty_def GetRootSegment_def)
qed

lemma RowGroup_new_sel [simp]: "rg_start (RowGroup_new s n) = s" "rg_count (RowGroup_new s n) = n" "n = 0 \<Longrightarrow> rg_inv (RowGroup_new s n)"
    "row_versions (RowGroup_new s 0) = []"
  by (simp_all add: RowGroup_new_def rg_inv_def HasUnloadedDeletes_def versions_of_def new_inv row_versions_def)

section \<open>Appending chunks\<close>

text \<open>The row groups that an append adds behind a row group that starts at \<open>s\<close>.\<close>

definition news :: "idx_t \<Rightarrow> nat \<Rightarrow> RowGroup list" where
  "news s k = map (\<lambda>j. RowGroup_new (s + Suc j * ROW_GROUP_SIZE) 0) [0..<k]"

text \<open>The state between \<open>InitializeAppend\<close> and \<open>FinalizeAppend\<close>, when \<open>n\<close> rows were appended behind \<open>g\<close>.\<close>

definition appending :: "RowGroup list \<Rightarrow> RowGroup \<Rightarrow> nat \<Rightarrow> nat \<Rightarrow> RowGroupCollection \<Rightarrow> TableAppendState \<Rightarrow> bool" where
  "appending pre g n k c st \<longleftrightarrow> row_groups c = loaded (pre @ g # news (rg_start g) k)
     \<and> append_row_group st = Some (length pre + k) \<and> rg_count g + n = k * ROW_GROUP_SIZE + offset_in_row_group st
     \<and> offset_in_row_group st \<le> ROW_GROUP_SIZE"

lemma news_simps [simp]: "length (news s k) = k" "news s 0 = []"
  "news s (Suc k) = news s k @ [RowGroup_new (s + Suc k * ROW_GROUP_SIZE) 0]"
  by (simp_all add: news_def)

lemma news_Cons: "news s (Suc k) = RowGroup_new (s + ROW_GROUP_SIZE) 0 # news (s + ROW_GROUP_SIZE) k"
proof (induction k)
  case (Suc k)
  show ?case unfolding news_simps(3) [of s "Suc k"] Suc by (simp add: add_ac)
qed simp

lemma news_start: "rg_start ((pre @ g # news (rg_start g) k) ! (length pre + k)) = rg_start g + k * ROW_GROUP_SIZE"
  by (cases k) (simp_all add: nth_append)

lemma size_64: "n \<le> ROW_GROUP_SIZE \<Longrightarrow> sub_row ROW_GROUP_SIZE n = ROW_GROUP_SIZE - n"
  by (rule sub_row_eq) (simp_all add: ROW_GROUP_SIZE_def)

lemma rg_inv_count: "rg_inv g \<Longrightarrow> rg_count g \<le> ROW_GROUP_SIZE"
  by (simp add: rg_inv_def rvm_inv_def)

lemma rg_InitializeAppend_loaded:
  "rg_InitializeAppend (c\<lparr>row_groups := loaded (pre @ [g])\<rparr>) st
    = Inr (c\<lparr>row_groups := loaded (pre @ [g])\<rparr>, st\<lparr>append_row_group := Some (length pre), offset_in_row_group := rg_count g\<rparr>)"
  using get_group_loaded [of "length pre" "pre @ [g]"] by (simp add: rg_InitializeAppend_def GetLastSegment_loaded nth_append)

lemma coll_InitializeAppend_ok:
  assumes h: "holds (row_groups c) gs" "stacked (coll_row_start c) gs" "\<forall>g \<in> set gs. rg_inv g"
  shows "\<exists>pre g st'. coll_InitializeAppend c st = Inr (c\<lparr>row_groups := loaded (pre @ [g])\<rparr>, st')
    \<and> appending pre g 0 0 (c\<lparr>row_groups := loaded (pre @ [g])\<rparr>) st' \<and> versions (pre @ [g]) = versions gs
    \<and> stacked (coll_row_start c) (pre @ [g]) \<and> (\<forall>g \<in> set (pre @ [g]). rg_inv g)
    \<and> total_append_count st' = 0 \<and> start_row_group st' = Some (length pre) \<and> length pre \<le> length gs
    \<and> (gs \<noteq> [] \<longrightarrow> pre @ [g] = gs)"
proof -
  define pre g where "pre = butlast gs" and "g = (if gs = [] then RowGroup_new (coll_row_start c) 0 else last gs)"
  obtain t where t: "IsEmpty (row_groups c) = (gs = [], t)" "holds t gs" using IsEmpty_holds [OF h(1)] by blast
  let ?c = "c\<lparr>row_groups := loaded (pre @ [g])\<rparr>"
  let ?st = "st\<lparr>append_row_start := total_rows c, current_row := total_rows c, total_append_count := 0\<rparr>"
  let ?st' = "?st\<lparr>append_row_group := Some (length pre), offset_in_row_group := rg_count g, start_row_group := Some (length pre)\<rparr>"
  have "rg_InitializeAppend (if gs = [] then AppendRowGroup (coll_row_start c) (c\<lparr>row_groups := t\<rparr>) else c\<lparr>row_groups := t\<rparr>) ?st
      = rg_InitializeAppend ?c ?st"
  proof (cases "gs = []")
    case True
    then show ?thesis using AppendSegment_holds [OF t(2)] AppendSegment_loaded [of "RowGroup_new (coll_row_start c) 0" "[]"]
      by (simp add: AppendRowGroup_def pre_def g_def)
  next
    case False
    then have "pre @ [g] = gs" by (simp add: pre_def g_def)
    then show ?thesis using False GetLastSegment_holds [OF t(2)] by (simp add: rg_InitializeAppend_def GetLastSegment_loaded)
  qed
  then have run: "coll_InitializeAppend c st = Inr (?c, ?st')"
    using t(1) by (cases "gs = []") (simp_all add: coll_InitializeAppend_def rg_InitializeAppend_loaded Let_def)
  have full: "pre @ [g] = gs" if "gs \<noteq> []" using that by (simp add: pre_def g_def)
  have new: "pre = []" "g = RowGroup_new (coll_row_start c) 0" if "gs = []" using that by (simp_all add: pre_def g_def)
  have gs: "versions (pre @ [g]) = versions gs" "stacked (coll_row_start c) (pre @ [g])" "\<forall>g \<in> set (pre @ [g]). rg_inv g"
    using h(2,3) full new by (cases "gs = []"; metis append_Nil RowGroup_new_sel stacked.simps versions_simps set_ConsD empty_iff set_empty append_Nil2)+
  then have "appending pre g 0 0 ?c ?st'" using rg_inv_count [of g] by (simp add: appending_def)
  moreover have "length pre \<le> length gs" by (simp add: pre_def)
  ultimately show ?thesis using run gs full by (intro exI conjI) auto
qed

lemma coll_Append_loop_ok:
  assumes "appending pre g n k c st" "0 < k \<and> offset_in_row_group st = 0 \<longrightarrow> 0 < r"
  shows "\<exists>b k' c' st'. coll_Append_loop r b0 c st = Some (Inr (b, c', st')) \<and> appending pre g (n + r) k' c' st'
    \<and> (0 < k' \<longrightarrow> 0 < offset_in_row_group st')
    \<and> coll_row_start c' = coll_row_start c \<and> total_rows c' = total_rows c
    \<and> total_append_count st' = total_append_count st \<and> start_row_group st' = start_row_group st"
  using assms
proof (induction "2 * r + (if offset_in_row_group st = ROW_GROUP_SIZE then 1 else 0)" arbitrary: r n k c st b0 rule: less_induct)
  case less
  let ?N = ROW_GROUP_SIZE and ?i = "length pre + k" and ?off = "offset_in_row_group st"
  define a where "a = min r (?N - ?off)"
  have A: "row_groups c = loaded (pre @ g # news (rg_start g) k)" "append_row_group st = Some ?i"
      "rg_count g + n = k * ?N + ?off" "?off \<le> ?N"
    using less.prems(1) by (simp_all add: appending_def)
  have cur: "get_group ?i (row_groups c) = Inr ((pre @ g # news (rg_start g) k) ! ?i)"
    unfolding A(1) by (rule get_group_loaded) simp
  have a: "min r (sub_row ?N ?off) = a" using size_64 [OF A(4)] by (simp add: a_def)
  let ?st = "st\<lparr>offset_in_row_group := ?off + a\<rparr>"
  show ?case
  proof (cases "r - a > 0")
    case False
    then have "a = r" by (simp add: a_def)
    moreover have "coll_Append_loop r b0 c st = Some (Inr (b0, c, ?st))"
      using False by (subst coll_Append_loop.simps) (simp add: A(2) cur a)
    moreover have "appending pre g (n + r) k c ?st" using A \<open>a = r\<close> by (auto simp: appending_def a_def)
    ultimately show ?thesis using less.prems(2) by auto
  next
    case True
    then have full: "?off + a = ?N" "a = ?N - ?off" using A(4) by (auto simp: a_def)
    let ?gs = "pre @ g # news (rg_start g) (Suc k)"
    let ?c = "c\<lparr>row_groups := loaded ?gs\<rparr>" and ?st2 = "?st\<lparr>append_row_group := Some (length pre + Suc k), offset_in_row_group := 0\<rparr>"
    have "AppendRowGroup (rg_start ((pre @ g # news (rg_start g) k) ! ?i) + ?N) c = ?c"
      unfolding news_start by (simp add: AppendRowGroup_def A(1) AppendSegment_loaded add_ac)
    moreover have "rg_InitializeAppend ?c ?st = Inr (?c, ?st2)"
      using rg_InitializeAppend_loaded [where c = c and pre = "pre @ g # news (rg_start g) k"] by simp
    ultimately have step: "coll_Append_loop r b0 c st = coll_Append_loop (r - a) True ?c ?st2"
      using True by (subst coll_Append_loop.simps) (simp add: A(2) cur a full(1))
    have "appending pre g (n + a) (Suc k) ?c ?st2" using A full by (simp add: appending_def)
    moreover have "2 * (r - a) + (if offset_in_row_group ?st2 = ?N then 1 else 0) < 2 * r + (if ?off = ?N then 1 else 0)"
      using True full by (auto simp: ROW_GROUP_SIZE_def)
    ultimately have "\<exists>b k' c' st'. coll_Append_loop (r - a) True ?c ?st2 = Some (Inr (b, c', st')) \<and> appending pre g (n + a + (r - a)) k' c' st'
        \<and> (0 < k' \<longrightarrow> 0 < offset_in_row_group st')
        \<and> coll_row_start c' = coll_row_start ?c \<and> total_rows c' = total_rows ?c
        \<and> total_append_count st' = total_append_count ?st2 \<and> start_row_group st' = start_row_group ?st2"
      using True by (intro less.hyps) auto
    then show ?thesis using True unfolding step by (simp add: a_def)
  qed
qed

text \<open>
  One row group of \<open>FinalizeAppend\<close>. The last conclusion says that no shortcut for a full vector
  describes rows on both sides of the old end, so that the append can be reverted.
\<close>

definition cut_at :: "nat \<Rightarrow> RowGroup \<Rightarrow> bool" where
  "cut_at n g \<longleftrightarrow> (\<forall>i<ROW_GROUP_VECTOR_COUNT. \<forall>c. vector_info (versions_of g) ! i = Some (ConstantInfo c) \<longrightarrow> rows_in n i \<in> {0, STANDARD_VECTOR_SIZE})"

lemma cut_at_count: "rg_inv g \<Longrightarrow> cut_at (rg_count g) g"
  by (auto simp: cut_at_def rg_inv_def rvm_inv_def slot_inv_def)

lemma row_versions_extend:
  assumes "rg_count g' = rg_count g + a" "rg_count g' \<le> ROW_GROUP_SIZE"
    and "\<And>r. r < ROW_GROUP_SIZE \<Longrightarrow> rg_ids g' r = (if rg_count g \<le> r \<and> r < rg_count g' then x else rg_ids g r)"
  shows "row_versions g' = row_versions g @ replicate a x"
  by (rule nth_equalityI) (use assms in \<open>auto simp: row_versions_def nth_append\<close>)

lemma rg_Append_fill:
  assumes g: "rg_inv g" and a: "a \<le> ROW_GROUP_SIZE - rg_count g" "0 < a \<or> rg_count g = ROW_GROUP_SIZE"
  shows "\<exists>g'. rg_AppendVersionInfo tid a g = Inr g' \<and> rg_inv g' \<and> rg_start g' = rg_start g
    \<and> row_versions g' = row_versions g @ replicate a (tid, NOT_DELETED_ID) \<and> cut_at (rg_count g) g'"
proof (cases "rg_count g = ROW_GROUP_SIZE")
  case True
  have inv: "\<not> HasUnloadedDeletes g" "rvm_inv ROW_GROUP_SIZE (versions_of g)" using g True by (simp_all add: rg_inv_def)
  let ?g = "g\<lparr>rg_version_info := Some (versions_of g\<lparr>has_changes := True\<rparr>), rg_count := ROW_GROUP_SIZE\<rparr>"
  have "[ROW_GROUP_SIZE div STANDARD_VECTOR_SIZE..<Suc ((ROW_GROUP_SIZE - 1) div STANDARD_VECTOR_SIZE)] = []" "ROW_GROUP_SIZE \<noteq> 0"
    by (simp_all add: ROW_GROUP_SIZE_def STANDARD_VECTOR_SIZE_def)
  then have "AppendVersionInfo tid ROW_GROUP_SIZE ROW_GROUP_SIZE (versions_of g) = Inr (versions_of g\<lparr>has_changes := True\<rparr>)"
    by (simp only: AppendVersionInfo_def if_False fold_res.simps)
  then have "rg_AppendVersionInfo tid a g = Inr ?g"
    using True a by (simp add: rg_AppendVersionInfo_def GetOrCreate_loaded [OF inv(1)])
  moreover have "rg_inv ?g" using inv by (simp add: rg_inv_def)
  moreover have "row_versions ?g = row_versions g" using True by (simp add: row_versions_def rg_ids_def)
  moreover have "cut_at (rg_count g) ?g" using cut_at_count [OF \<open>rg_inv ?g\<close>] True by simp
  ultimately show ?thesis using True a by (intro exI [of _ ?g]) simp
next
  case False
  have n: "rg_count g \<le> ROW_GROUP_SIZE" using rg_inv_count [OF g] .
  have m: "min ROW_GROUP_SIZE (rg_count g + a) = rg_count g + a" using n a by simp
  from False n a rg_Append_ok [OF g, of a tid, unfolded m] obtain g' where g': "rg_AppendVersionInfo tid a g = Inr g'" "rg_inv g'" "rg_start g' = rg_start g"
    "rg_count g' = rg_count g + a" "cut_at (rg_count g) g'"
    "\<forall>r<ROW_GROUP_SIZE. rg_ids g' r = (if rg_count g \<le> r \<and> r < rg_count g' then (tid, NOT_DELETED_ID) else rg_ids g r)"
    by (auto simp: cut_at_def)
  then have "row_versions g' = row_versions g @ replicate a (tid, NOT_DELETED_ID)"
    by (intro row_versions_extend) (use a n in auto)
  then show ?thesis using g' by blast
qed

lemma FinalizeAppend_loop_ok:
  assumes "rg_inv g" "rg_count g + n = k * ROW_GROUP_SIZE + off" "off \<le> ROW_GROUP_SIZE" "0 < k \<longrightarrow> 0 < off"
  shows "\<exists>g' gs. FinalizeAppend_loop tid n (Some (length pre)) (loaded (pre @ g # news (rg_start g) k)) = Some (Inr (loaded (pre @ g' # gs)))
    \<and> stacked (rg_start g) (g' # gs) \<and> (\<forall>h \<in> set (g' # gs). rg_inv h) \<and> length gs = k
    \<and> versions (g' # gs) = row_versions g @ replicate n (tid, NOT_DELETED_ID)
    \<and> rg_count g \<le> rg_count g' \<and> cut_at (rg_count g) g' \<and> (gs \<noteq> [] \<longrightarrow> rg_count g' = ROW_GROUP_SIZE \<and> 0 < rg_count (hd gs))"
  using assms
proof (induction k arbitrary: g n pre)
  case 0
  show ?case
  proof (cases "n = 0")
    case True
    then show ?thesis using 0 cut_at_count [OF 0(1)] by (subst FinalizeAppend_loop.simps) auto
  next
    case False
    have n: "rg_count g \<le> ROW_GROUP_SIZE" "n \<le> ROW_GROUP_SIZE - rg_count g" using rg_inv_count [OF 0(1)] 0 by auto
    then have m: "min n (sub_row ROW_GROUP_SIZE (rg_count g)) = n" by (simp add: size_64)
    from False rg_Append_fill [OF 0(1) n(2)] obtain g' where g': "rg_AppendVersionInfo tid n g = Inr g'" "rg_inv g'" "rg_start g' = rg_start g"
      "row_versions g' = row_versions g @ replicate n (tid, NOT_DELETED_ID)" "cut_at (rg_count g) g'" by blast
    have "rg_count g' = rg_count g + n" using g'(4) by (metis length_append length_replicate length_row_versions)
    moreover have "FinalizeAppend_loop tid n (Some (length pre)) (loaded (pre @ [g])) = Some (Inr (loaded (pre @ [g'])))"
      using False g' m
      by (subst FinalizeAppend_loop.simps) (simp add: get_group_loaded put_group_loaded GetNextSegment_loaded FinalizeAppend_loop.simps [of _ 0])
    ultimately show ?thesis using g' by (intro exI [of _ g'] exI [of _ "[]"]) simp
  qed
next
  case (Suc k)
  let ?N = ROW_GROUP_SIZE and ?a = "ROW_GROUP_SIZE - rg_count g" and ?h = "RowGroup_new (rg_start g + ROW_GROUP_SIZE) 0"
  let ?rest = "k * ROW_GROUP_SIZE + off"
  have n: "rg_count g \<le> ?N" "n = ?a + ?rest" "0 < off" using rg_inv_count [OF Suc.prems(1)] Suc.prems by auto
  have m: "min n (sub_row ?N (rg_count g)) = ?a" "n - ?a = ?rest" "0 < n" using n by (simp_all add: size_64)
  have "0 < ?a \<or> rg_count g = ?N" using n(1) by auto
  from rg_Append_fill [OF Suc.prems(1) le_refl this] obtain g' where
    g': "rg_AppendVersionInfo tid ?a g = Inr g'" "rg_inv g'" "rg_start g' = rg_start g"
    "row_versions g' = row_versions g @ replicate ?a (tid, NOT_DELETED_ID)" "cut_at (rg_count g) g'" by blast
  have c': "rg_count g' = ?N" using g'(4) n(1) by (metis le_add_diff_inverse length_append length_replicate length_row_versions)
  have "FinalizeAppend_loop tid n (Some (length pre)) (loaded (pre @ g # news (rg_start g) (Suc k)))
      = FinalizeAppend_loop tid ?rest (Some (length (pre @ [g']))) (loaded ((pre @ [g']) @ ?h # news (rg_start ?h) k))"
    unfolding news_Cons using g' m
    by (subst FinalizeAppend_loop.simps) (simp add: get_group_loaded put_group_loaded GetNextSegment_loaded)
  moreover have "\<exists>h gs. FinalizeAppend_loop tid ?rest (Some (length (pre @ [g']))) (loaded ((pre @ [g']) @ ?h # news (rg_start ?h) k))
        = Some (Inr (loaded ((pre @ [g']) @ h # gs)))
      \<and> stacked (rg_start ?h) (h # gs) \<and> (\<forall>h \<in> set (h # gs). rg_inv h) \<and> length gs = k
      \<and> versions (h # gs) = row_versions ?h @ replicate ?rest (tid, NOT_DELETED_ID)
      \<and> rg_count ?h \<le> rg_count h \<and> cut_at (rg_count ?h) h \<and> (gs \<noteq> [] \<longrightarrow> rg_count h = ?N \<and> 0 < rg_count (hd gs))"
    by (rule Suc.IH) (use Suc.prems n in auto)
  then obtain h gs where h: "FinalizeAppend_loop tid ?rest (Some (length (pre @ [g']))) (loaded ((pre @ [g']) @ ?h # news (rg_start ?h) k))
        = Some (Inr (loaded ((pre @ [g']) @ h # gs)))" "stacked (rg_start g + ?N) (h # gs)" "\<forall>h \<in> set (h # gs). rg_inv h" "length gs = k"
      "versions (h # gs) = replicate ?rest (tid, NOT_DELETED_ID)" "gs \<noteq> [] \<longrightarrow> rg_count h = ?N" by auto
  moreover have "0 < rg_count h"
  proof (cases gs)
    case Nil
    then have "rg_count h = length (versions (h # gs))" by simp
    then show ?thesis using n(3) unfolding h(5) by simp
  qed (use h(6) in \<open>simp add: ROW_GROUP_SIZE_def\<close>)
  moreover have "versions (g' # h # gs) = row_versions g @ replicate n (tid, NOT_DELETED_ID)"
    unfolding versions_simps(2) [of g'] h(5) g'(4) n(2) by (simp add: replicate_add)
  ultimately show ?case using g' c' n(1) by (intro exI [of _ g'] exI [of _ "h # gs"]) (simp del: versions_simps)
qed

text \<open>
  The calls of an append: initialize, the chunks in order, finalize
  (\<^verbatim>\<open>LocalTableStorage::AppendToIndexes\<close> makes them through \<^verbatim>\<open>DataTable\<close> when it appends to the table).
\<close>

fun append_sizes ::
  "idx_t list \<Rightarrow> RowGroupCollection \<Rightarrow> TableAppendState \<Rightarrow> (exc + RowGroupCollection \<times> TableAppendState) option" where
  "append_sizes [] c st = Some (Inr (c, st))"
| "append_sizes (n # ns) c st =
     (case coll_Append n c st of None \<Rightarrow> None | Some (Inl e) \<Rightarrow> Some (Inl e) | Some (Inr (_, c, st)) \<Rightarrow> append_sizes ns c st)"

definition append_chunks :: "TransactionData \<Rightarrow> idx_t list \<Rightarrow> RowGroupCollection \<Rightarrow> (exc + RowGroupCollection) option" where
  "append_chunks t ns c =
     (case coll_InitializeAppend c TableAppendState_new of Inl e \<Rightarrow> Some (Inl e)
      | Inr (c, st) \<Rightarrow>
          (case append_sizes ns c st of None \<Rightarrow> None | Some (Inl e) \<Rightarrow> Some (Inl e)
           | Some (Inr (c, st)) \<Rightarrow> map_option (\<lambda>r. bind_res r (\<lambda>(c, st). Inr c)) (FinalizeAppend t c st)))"

lemma append_sizes_ok:
  assumes "appending pre g n k c st" "0 < k \<longrightarrow> 0 < offset_in_row_group st" "total_append_count st = n" "start_row_group st = p"
  shows "\<exists>k c' st'. append_sizes ns c st = Some (Inr (c', st')) \<and> appending pre g (n + sum_list ns) k c' st'
    \<and> (0 < k \<longrightarrow> 0 < offset_in_row_group st') \<and> total_append_count st' = n + sum_list ns \<and> start_row_group st' = p
    \<and> coll_row_start c' = coll_row_start c \<and> total_rows c' = total_rows c"
  using assms
proof (induction ns arbitrary: n k c st)
  case Nil
  then show ?case by auto
next
  case (Cons m ns)
  let ?st = "st\<lparr>total_append_count := total_append_count st + m\<rparr>"
  have "appending pre g n k c ?st" using Cons.prems(1) by (simp add: appending_def)
  from coll_Append_loop_ok [OF this, of m False] Cons.prems(2-4) obtain b k' c' st' where
    l: "coll_Append_loop m False c ?st = Some (Inr (b, c', st'))" "appending pre g (n + m) k' c' st'"
    "0 < k' \<longrightarrow> 0 < offset_in_row_group st'" "coll_row_start c' = coll_row_start c" "total_rows c' = total_rows c"
    "total_append_count st' = n + m" "start_row_group st' = p"
    by auto
  let ?st' = "st'\<lparr>current_row := current_row st' + m\<rparr>"
  have "coll_Append m c st = Some (Inr (b, c', ?st'))" using l(1) by (simp add: coll_Append_def)
  moreover have "appending pre g (n + m) k' c' ?st'" using l(2) by (simp add: appending_def)
  ultimately show ?case using Cons.IH [of "n + m" k' c' ?st'] l(3-7) by (simp add: add.assoc)
qed

lemma coll_inv_holds:
  assumes "holds (row_groups c) gs" "stacked (coll_row_start c) gs" "\<forall>g \<in> set gs. rg_inv g" "total_rows c = length (versions gs)"
  shows "coll_inv c" "table_ids c = versions gs"
  using assms by (simp_all add: coll_inv_def table_ids_def holds_groups)

lemma append_chunks_ok:
  assumes "coll_inv c"
  shows "\<exists>c' pre g g' gs. append_chunks t ns c = Some (Inr c') \<and> coll_inv c' \<and> coll_row_start c' = coll_row_start c
    \<and> row_groups c' = loaded (pre @ g' # gs) \<and> table_ids c = versions pre @ row_versions g
    \<and> table_ids c' = table_ids c @ replicate (sum_list ns) (transaction_id t, NOT_DELETED_ID)
    \<and> rg_count g \<le> rg_count g' \<and> cut_at (rg_count g) g' \<and> (gs \<noteq> [] \<longrightarrow> rg_count g' = ROW_GROUP_SIZE \<and> 0 < rg_count (hd gs))
    \<and> row_versions g = take (rg_count g) (row_versions g') \<and> length (pre @ g' # gs) \<le> Suc (length (groups (row_groups c)) + sum_list ns)"
proof -
  let ?n = "sum_list ns" and ?gs = "groups (row_groups c)"
  have inv: "holds (row_groups c) ?gs" "stacked (coll_row_start c) ?gs" "\<forall>g \<in> set ?gs. rg_inv g" "total_rows c = length (versions ?gs)"
    using assms by (simp_all add: coll_inv_def table_ids_def)
  from coll_InitializeAppend_ok [OF inv(1-3), of TableAppendState_new] obtain pre g st where
    i: "coll_InitializeAppend c TableAppendState_new = Inr (c\<lparr>row_groups := loaded (pre @ [g])\<rparr>, st)"
    "appending pre g 0 0 (c\<lparr>row_groups := loaded (pre @ [g])\<rparr>) st" "versions (pre @ [g]) = versions ?gs"
    "stacked (coll_row_start c) (pre @ [g])" "\<forall>g \<in> set (pre @ [g]). rg_inv g"
    "total_append_count st = 0" "start_row_group st = Some (length pre)" "length pre \<le> length ?gs" by blast
  from append_sizes_ok [OF i(2) _ i(6,7), of ns] obtain k c1 st1 where
    a: "append_sizes ns (c\<lparr>row_groups := loaded (pre @ [g])\<rparr>) st = Some (Inr (c1, st1))" "appending pre g ?n k c1 st1"
    "0 < k \<longrightarrow> 0 < offset_in_row_group st1" "total_append_count st1 = ?n" "start_row_group st1 = Some (length pre)"
    "coll_row_start c1 = coll_row_start c" "total_rows c1 = total_rows c" by auto
  have k: "rg_inv g" "rg_count g + ?n = k * ROW_GROUP_SIZE + offset_in_row_group st1" "offset_in_row_group st1 \<le> ROW_GROUP_SIZE"
    "row_groups c1 = loaded (pre @ g # news (rg_start g) k)" using a(2) i(5) by (simp_all add: appending_def)
  from FinalizeAppend_loop_ok [OF k(1-3) a(3), of "transaction_id t" pre] obtain g' gs where
    f: "FinalizeAppend_loop (transaction_id t) ?n (Some (length pre)) (row_groups c1) = Some (Inr (loaded (pre @ g' # gs)))"
    "stacked (rg_start g) (g' # gs)" "\<forall>h \<in> set (g' # gs). rg_inv h" "length gs = k"
    "versions (g' # gs) = row_versions g @ replicate ?n (transaction_id t, NOT_DELETED_ID)"
    "rg_count g \<le> rg_count g'" "cut_at (rg_count g) g'" "gs \<noteq> [] \<longrightarrow> rg_count g' = ROW_GROUP_SIZE \<and> 0 < rg_count (hd gs)"
    unfolding k(4) by blast
  let ?c = "c1\<lparr>row_groups := loaded (pre @ g' # gs), total_rows := total_rows c1 + ?n\<rparr>"
  have run: "append_chunks t ns c = Some (Inr ?c)" using i(1) a(1,4,5) f(1) by (simp add: append_chunks_def FinalizeAppend_def)
  have v: "versions (pre @ g' # gs) = versions ?gs @ replicate ?n (transaction_id t, NOT_DELETED_ID)"
    using f(5) by (simp flip: i(3))
  have st: "stacked (coll_row_start c) (pre @ g' # gs)" using i(4) f(2) by (simp add: stacked_append)
  have c: "coll_inv ?c" "table_ids ?c = versions (pre @ g' # gs)"
    by (rule coll_inv_holds [of _ "pre @ g' # gs"];
        use st holds_loaded [OF st] f(3) i(5) v a inv(4) in \<open>auto simp del: versions_simps\<close>)+
  have "take (rg_count g) (row_versions g') = take (rg_count g) (versions (g' # gs))" using f(6) by simp
  also have "\<dots> = row_versions g" unfolding f(5) by simp
  finally have "row_versions g = take (rg_count g) (row_versions g')" ..
  moreover have "table_ids c = versions pre @ row_versions g" using i(3) by (simp add: table_ids_def)
  moreover have "k \<le> ?n"
  proof (cases k)
    case (Suc k')
    then have "k' * ROW_GROUP_SIZE < ?n" using k(2) a(3) rg_inv_count [OF k(1)] by simp
    moreover have "k' \<le> k' * ROW_GROUP_SIZE" by (simp add: ROW_GROUP_SIZE_def)
    ultimately have "k' < ?n" by linarith
    then show ?thesis using Suc by simp
  qed simp
  ultimately show ?thesis using run c v a(6) f(4) f(6-8) i(8) by (intro exI [of _ ?c] exI [of _ pre] exI [of _ g] exI [of _ g'] exI [of _ gs]) (simp add: table_ids_def)
qed

section \<open>Row groups by row id\<close>

text \<open>The position of the first row of a row group in the table.\<close>

definition group_pos :: "RowGroup list \<Rightarrow> nat \<Rightarrow> nat" where
  "group_pos gs i = length (versions (take i gs))"

lemma versions_split: "i < length gs \<Longrightarrow> versions gs = versions (take i gs) @ row_versions (gs ! i) @ versions (drop (Suc i) gs)"
  by (metis id_take_nth_drop versions_simps(2,3))

lemma group_pos_less: "i < length gs \<Longrightarrow> group_pos gs i + rg_count (gs ! i) \<le> length (versions gs)"
  using versions_split [of i gs] by (simp add: group_pos_def)

lemma group_pos_Suc: "i < length gs \<Longrightarrow> group_pos gs (Suc i) = group_pos gs i + rg_count (gs ! i)"
  by (simp add: group_pos_def take_Suc_conv_app_nth)

lemma versions_nth: "i < length gs \<Longrightarrow> j < rg_count (gs ! i) \<Longrightarrow> versions gs ! (group_pos gs i + j) = rg_ids (gs ! i) j"
  unfolding versions_split [of i gs] group_pos_def by (simp add: nth_append row_versions_def)

lemma stacked_start: "stacked r gs \<Longrightarrow> i < length gs \<Longrightarrow> rg_start (gs ! i) = r + group_pos gs i"
  using stacked_append [of r "take i gs" "gs ! i # drop (Suc i) gs"] by (simp add: group_pos_def flip: id_take_nth_drop)

lemma group_exists: "p < length (versions gs) \<Longrightarrow> \<exists>i<length gs. group_pos gs i \<le> p \<and> p < group_pos gs i + rg_count (gs ! i)"
proof (induction gs arbitrary: p)
  case (Cons g gs)
  show ?case
  proof (cases "p < rg_count g")
    case False
    then have "p - rg_count g < length (versions gs)" using Cons.prems by auto
    then obtain i where "i < length gs" "group_pos gs i \<le> p - rg_count g" "p - rg_count g < group_pos gs i + rg_count (gs ! i)"
      using Cons.IH by blast
    with False show ?thesis by (intro exI [of _ "Suc i"]) (auto simp: group_pos_def)
  qed (auto simp: group_pos_def intro!: exI [of _ 0])
qed simp

text \<open>Replacing a row group by one with as many rows.\<close>

lemma update_group:
  assumes i: "i < length gs" and g: "rg_count g = rg_count (gs ! i)"
  shows "length (versions (gs[i := g])) = length (versions gs)"
    and "stacked r gs \<Longrightarrow> rg_start g = rg_start (gs ! i) \<Longrightarrow> stacked r (gs[i := g])"
    and "p < length (versions gs) \<Longrightarrow> versions (gs[i := g]) ! p
      = (if group_pos gs i \<le> p \<and> p < group_pos gs i + rg_count g then rg_ids g (p - group_pos gs i) else versions gs ! p)"
    and "j \<le> length gs \<Longrightarrow> group_pos (gs[i := g]) j = group_pos gs j"
proof -
  have u: "versions (gs[i := g]) = versions (take i gs) @ row_versions g @ versions (drop (Suc i) gs)"
    using i by (simp add: upd_conv_take_nth_drop)
  show len: "length (versions (gs[i := g])) = length (versions gs)" using g unfolding u versions_split [OF i] by simp
  show "stacked r gs \<Longrightarrow> rg_start g = rg_start (gs ! i) \<Longrightarrow> stacked r (gs[i := g])"
    using g i by (induction gs arbitrary: r i) (auto split: nat.split)
  show "p < length (versions gs) \<Longrightarrow> versions (gs[i := g]) ! p
      = (if group_pos gs i \<le> p \<and> p < group_pos gs i + rg_count g then rg_ids g (p - group_pos gs i) else versions gs ! p)"
    using g unfolding u versions_split [OF i] group_pos_def by (auto simp: nth_append row_versions_def)
  have "map rg_count (gs[i := g]) = map rg_count gs" using g i by (metis list_update_id map_update)
  then show "j \<le> length gs \<Longrightarrow> group_pos (gs[i := g]) j = group_pos gs j"
    by (simp add: group_pos_def length_versions take_map flip: take_map)
qed

lemma get_group_holds: "holds t gs \<Longrightarrow> i < length (nodes t) \<Longrightarrow> i < length gs \<and> get_group i t = Inr (gs ! i)"
proof -
  assume h: "holds t gs" and i: "i < length (nodes t)"
  have len: "i < length gs" using h i length_nodes_le [of t] by (simp add: holds_def)
  have "clear_next (node (nodes t ! i)) = segments t ! i" using i by (simp add: segments_def nth_append)
  also have "\<dots> = segment_of (gs ! i)" using h len by (simp add: holds_def)
  finally have "seg_data (node (nodes t ! i)) = gs ! i" by (metis clear_next_sel(3) segment_of_sel(3))
  with i len show ?thesis by (simp add: get_group_def segment_at_def)
qed

lemma put_group_holds:
  assumes h: "holds t gs" and i: "i < length (nodes t)" and g: "rg_start g = rg_start (gs ! i)" "rg_count g = rg_count (gs ! i)"
  shows "holds (put_group i g t) (gs[i := g])" "length (nodes (put_group i g t)) = length (nodes t)"
proof -
  have len: "i < length gs" "length (nodes t) \<le> length gs" using h i length_nodes_le [of t] by (simp_all add: holds_def)
  have at: "clear_next (node (nodes t ! j)) = segment_of (gs ! j)" if "j < length (nodes t)" for j
    using h that len by (metis (no_types, lifting) holds_def le_trans less_le_trans nth_append length_map nth_map segments_def)
  have old: "seg_start (node (nodes t ! i)) = rg_start g" "seg_count (node (nodes t ! i)) = rg_count g"
    using at [OF i] g by (metis clear_next_sel(1) segment_of_sel(1), metis clear_next_sel(2) segment_of_sel(2))
  have "segments (put_group i g t) = (segments t)[i := segment_of g]"
    using i by (simp add: segments_def put_group_def map_update list_update_append clear_next_def segment_of_def)
  then have sg: "segments (put_group i g t) = map segment_of (gs[i := g])" using h by (simp add: holds_def map_update)
  have "chained (nodes (put_group i g t))"
    using h i old by (auto simp: holds_def tree_inv_def chained_def put_group_def nth_list_update)
  moreover have "contiguous (case map segment_of (gs[i := g]) of [] \<Rightarrow> 0 | s # _ \<Rightarrow> seg_start s) (map segment_of (gs[i := g]))"
  proof -
    obtain r where r: "stacked r gs" "gs \<noteq> [] \<Longrightarrow> r = rg_start (hd gs)"
      using h by (cases gs) (auto simp: holds_def tree_inv_def contiguous_groups)
    have "stacked r (gs[i := g])" using update_group(2) [OF len(1) g(2) r(1) g(1)] .
    then show ?thesis by (cases "gs[i := g]") (auto simp: contiguous_groups)
  qed
  ultimately show "holds (put_group i g t) (gs[i := g])"
    using h unfolding holds_def tree_inv_def sg by (simp add: put_group_def)
  show "length (nodes (put_group i g t)) = length (nodes t)" by (simp add: put_group_def)
qed

lemma GetNextSegment_holds:
  assumes "holds t gs" "i < length (nodes t)"
  shows "\<exists>t'. GetNextSegment True i t = Inr (if Suc i < length gs then Some (Suc i) else None, t')
    \<and> holds t' gs \<and> (Suc i < length gs \<longrightarrow> Suc i < length (nodes t'))"
  using GetNextSegment_ok [of t i True] assms by (auto simp: holds_def)

lemma TryGetSegmentIndex_holds:
  assumes "holds t gs" "stacked r gs" "length gs < 2 ^ 63" "r \<le> row"
  shows "\<exists>found t'. TryGetSegmentIndex row t = (Some (Inr found), t') \<and> holds t' gs
    \<and> (case found of None \<Rightarrow> r + length (versions gs) \<le> row
       | Some i \<Rightarrow> i < length (nodes t') \<and> i < length gs \<and> r + group_pos gs i \<le> row \<and> row < r + group_pos gs i + rg_count (gs ! i))"
proof -
  have t: "tree_inv t" "segments t = map segment_of gs" using assms(1) by (simp_all add: holds_def)
  have "segments t = [] \<or> tree_start t \<le> row" using holds_start [OF assms(1,2)] assms(4) t(2) by auto
  then obtain found t' where f: "TryGetSegmentIndex row t = (Some (Inr found), t')" "tree_inv t'" "segments t' = segments t"
      "case found of Some i \<Rightarrow> i < length (nodes t') \<and> covers (segments t ! i) row
        | None \<Rightarrow> \<forall>s \<in> set (segments t). \<not> covers s row"
    using TryGetSegmentIndex_ok [OF t(1), of row] t(2) assms(3) by auto
  have cov: "covers (segments t ! i) row \<longleftrightarrow> r + group_pos gs i \<le> row \<and> row < r + group_pos gs i + rg_count (gs ! i)" if "i < length gs" for i
    using that stacked_start [OF assms(2) that] by (simp add: t(2) covers_def)
  have "r + length (versions gs) \<le> row" if none: "found = None"
  proof (rule ccontr)
    assume "\<not> ?thesis"
    then have "row - r < length (versions gs)" using assms(4) by auto
    then obtain i where "i < length gs" "group_pos gs i \<le> row - r" "row - r < group_pos gs i + rg_count (gs ! i)"
      using group_exists by blast
    then have "i < length gs" "covers (segments t ! i) row" using cov [of i] assms(4) by auto
    then show False using f(4) none t(2) by auto
  qed
  moreover have "i < length gs" if "found = Some i" for i using that f(3,4) length_nodes_le [of t'] t(2) by simp
  ultimately show ?thesis using f cov t(2) by (cases found) (auto simp: holds_def)
qed

lemma GetSegment_holds:
  assumes "holds t gs" "stacked r gs" "length gs < 2 ^ 63" "r \<le> row" "row < r + length (versions gs)"
  shows "\<exists>i t'. GetSegment row t = (Some (Inr i), t') \<and> holds t' gs \<and> i < length (nodes t') \<and> i < length gs
    \<and> r + group_pos gs i \<le> row \<and> row < r + group_pos gs i + rg_count (gs ! i)"
  using TryGetSegmentIndex_holds [OF assms(1-4)] assms(5)
  by (auto simp: GetSegment_def GetSegmentIndex_def node_at_def split: option.splits)

lemma GetSegmentByIndex_holds:
  assumes "holds t gs" "i < length gs"
  shows "\<exists>t'. GetSegmentByIndex (int i) t = (Some i, t') \<and> holds t' gs \<and> i < length (nodes t')"
  using GetSegmentByIndex_ok [of t i] assms by (auto simp: holds_def)

section \<open>Committing\<close>

definition commit_range :: "transaction_t \<Rightarrow> nat \<Rightarrow> nat \<Rightarrow> (transaction_t \<times> transaction_t) list \<Rightarrow> (transaction_t \<times> transaction_t) list" where
  "commit_range cid s n vs = map (\<lambda>p. if s \<le> p \<and> p < s + n then (cid, snd (vs ! p)) else vs ! p) [0..<length vs]"

lemma rg_Commit_part:
  assumes g: "rg_inv g" "s \<le> e" "e \<le> rg_count g" "tid \<noteq> 0" "\<And>r. r < rg_count g \<Longrightarrow> fst (rg_ids g r) = tid \<longleftrightarrow> s \<le> r \<and> r < e"
  shows "\<exists>g'. rg_CommitAppend cid s (e - s) g = Inr g' \<and> rg_inv g' \<and> rg_start g' = rg_start g \<and> rg_count g' = rg_count g
    \<and> (\<forall>r<rg_count g. rg_ids g' r = (if s \<le> r \<and> r < e then (cid, snd (rg_ids g r)) else rg_ids g r))"
proof -
  have inv: "\<not> HasUnloadedDeletes g" "rvm_inv (rg_count g) (versions_of g)" using g(1) by (simp_all add: rg_inv_def)
  have start: "rg_start g' = rg_start g" if "rg_CommitAppend cid s (e - s) g = Inr g'" for g'
    using that by (auto simp: rg_CommitAppend_def GetOrCreate_loaded [OF inv(1)] bind_res_eq_Inr)
  show ?thesis
  proof (cases "s < e")
    case True
    then have "inserted_by tid s e (rg_count g) (versions_of g)" using g(3-5) by (simp add: inserted_by_def rg_ids_def)
    from rg_Commit_ok [OF g(1) this, of cid] start show ?thesis using rg_inv_count [OF g(1)] by (metis less_le_trans)
  next
    case False
    then have "s = e" using g(2) by simp
    then show ?thesis using inv
      by (auto simp: rg_CommitAppend_def GetOrCreate_loaded rvm_CommitAppend_def rg_inv_def rg_ids_def)
  qed
qed

lemma CommitAppend_loop_ok:
  assumes "holds t gs" "stacked r gs" "\<forall>g \<in> set gs. rg_inv g" "i < length (nodes t)" "r + length (versions gs) < 2 ^ 64"
    and "0 < rem" "group_pos gs i \<le> q" "q \<le> group_pos gs i + rg_count (gs ! i)" "q + rem \<le> length (versions gs)" "tid \<noteq> 0"
    and "\<And>p. group_pos gs i \<le> p \<Longrightarrow> p < length (versions gs) \<Longrightarrow> fst (versions gs ! p) = tid \<longleftrightarrow> q \<le> p \<and> p < q + rem"
  shows "\<exists>t' gs'. CommitAppend_loop cid (r + q) rem i t = Some (Inr t') \<and> holds t' gs' \<and> stacked r gs' \<and> (\<forall>g \<in> set gs'. rg_inv g)
    \<and> versions gs' = commit_range cid q rem (versions gs)"
  using assms
proof (induction "length gs - i" arbitrary: i t gs q rem)
  case 0
  then show ?case using get_group_holds [OF 0(2,5)] by simp
next
  case (Suc k)
  let ?g = "gs ! i" and ?o = "group_pos gs i"
  have i: "i < length gs" "get_group i t = Inr ?g" using get_group_holds [OF Suc.prems(1,4)] by simp_all
  define s where "s = q - ?o"
  define a where "a = min (rg_count ?g - s) rem"
  have pos: "?o + rg_count ?g \<le> length (versions gs)" by (rule group_pos_less [OF i(1)])
  have st: "rg_start ?g = r + ?o" by (rule stacked_start [OF Suc.prems(2) i(1)])
  have s: "s \<le> rg_count ?g" "?o + s = q" using Suc.prems(7,8) by (auto simp: s_def)
  have sub: "sub_row (r + q) (rg_start ?g) = s" "sub_row (rg_count ?g) s = rg_count ?g - s"
    using s pos st Suc.prems(5,9) by (auto simp: sub_row_eq)
  have ids: "fst (rg_ids ?g j) = tid \<longleftrightarrow> s \<le> j \<and> j < s + a" if "j < rg_count ?g" for j
    using Suc.prems(11) [of "?o + j"] versions_nth [OF i(1) that] that pos s by (auto simp: a_def)
  have a: "s \<le> s + a" "s + a \<le> rg_count ?g" "a \<le> rem" using s(1) by (auto simp: a_def)
  have "rg_inv ?g" using Suc.prems(3) i(1) by simp
  from rg_Commit_part [OF this a(1,2) Suc.prems(10) ids, of cid] obtain g' where
    g': "rg_CommitAppend cid s a ?g = Inr g'" "rg_inv g'" "rg_start g' = rg_start ?g" "rg_count g' = rg_count ?g"
    "\<And>j. j < rg_count ?g \<Longrightarrow> rg_ids g' j = (if s \<le> j \<and> j < s + a then (cid, snd (rg_ids ?g j)) else rg_ids ?g j)"
    by auto
  let ?gs = "gs[i := g']" and ?t = "put_group i g' t"
  note u = update_group [OF i(1) g'(4)]
  have h: "holds ?t ?gs" "i < length (nodes ?t)" using put_group_holds [OF Suc.prems(1,4) g'(3,4)] Suc.prems(4) by simp_all
  have inv: "\<forall>g \<in> set ?gs. rg_inv g" using Suc.prems(3) g'(2) set_update_subset_insert [of gs i g'] by auto
  have vs: "versions ?gs ! p = (if q \<le> p \<and> p < q + a then (cid, snd (versions gs ! p)) else versions gs ! p)" if "p < length (versions gs)" for p
  proof (cases "?o \<le> p \<and> p < ?o + rg_count ?g")
    case True
    then have "rg_ids ?g (p - ?o) = versions gs ! p" using versions_nth [OF i(1), of "p - ?o"] by auto
    then show ?thesis using True u(3) [OF that] g'(4) g'(5) [of "p - ?o"] s by auto
  next
    case False
    then show ?thesis using u(3) [OF that] g'(4) a(2) s by auto
  qed
  show ?case
  proof (cases "rem - a = 0")
    case True
    then have "a = rem" using a(3) by simp
    then have "versions ?gs = commit_range cid q rem (versions gs)"
      using vs u(1) by (intro nth_equalityI) (simp_all add: commit_range_def)
    moreover have "CommitAppend_loop cid (r + q) rem i t = Some (Inr ?t)"
      using i(2) g'(1) True by (subst CommitAppend_loop.simps) (simp add: sub a_def [symmetric] Let_def)
    ultimately show ?thesis using h(1) inv u(2) [OF Suc.prems(2) g'(3)] by blast
  next
    case False
    then have a': "a = rg_count ?g - s" "q + a = ?o + rg_count ?g" using s by (auto simp: a_def)
    have "Suc i < length gs"
    proof (rule ccontr)
      assume "\<not> ?thesis"
      then have "length (versions gs) = ?o + rg_count ?g" using versions_split [OF i(1)] by (simp add: group_pos_def)
      then show False using False Suc.prems(9) a' by simp
    qed
    moreover from GetNextSegment_holds [OF h] obtain t' where
      n: "GetNextSegment True i ?t = Inr (if Suc i < length gs then Some (Suc i) else None, t')" "holds t' ?gs"
      "Suc i < length gs \<longrightarrow> Suc i < length (nodes t')" by auto
    ultimately have step: "CommitAppend_loop cid (r + q) rem i t = CommitAppend_loop cid (r + (q + a)) (rem - a) (Suc i) t'"
      using i(2) g'(1) False by (subst CommitAppend_loop.simps) (simp add: sub a_def [symmetric] Let_def add.assoc)
    have o: "group_pos ?gs (Suc i) = q + a" using u(4) [of "Suc i"] i(1) group_pos_Suc [OF i(1)] a'(2) by simp
    have "\<exists>t'' gs'. CommitAppend_loop cid (r + (q + a)) (rem - a) (Suc i) t' = Some (Inr t'') \<and> holds t'' gs' \<and> stacked r gs'
        \<and> (\<forall>g \<in> set gs'. rg_inv g) \<and> versions gs' = commit_range cid (q + a) (rem - a) (versions ?gs)"
    proof (rule Suc.hyps(1) [OF _ n(2) u(2) [OF Suc.prems(2) g'(3)] inv])
      show "k = length ?gs - Suc i" using Suc.hyps(2) by simp
      show "Suc i < length (nodes t')" using n(3) \<open>Suc i < length gs\<close> by simp
      show "r + length (versions ?gs) < 2 ^ 64" "q + a + (rem - a) \<le> length (versions ?gs)" using Suc.prems(5,9) a(3) by (simp_all add: u(1))
      show "0 < rem - a" "group_pos ?gs (Suc i) \<le> q + a" "q + a \<le> group_pos ?gs (Suc i) + rg_count (?gs ! Suc i)" using False o by simp_all
      show "tid \<noteq> 0" by (rule Suc.prems(10))
      show "fst (versions ?gs ! p) = tid \<longleftrightarrow> q + a \<le> p \<and> p < q + a + (rem - a)" if "group_pos ?gs (Suc i) \<le> p" "p < length (versions ?gs)" for p
        using that vs [of p] Suc.prems(11) [of p] o s a(3) by (simp add: u(1))
    qed
    moreover have "commit_range cid (q + a) (rem - a) (versions ?gs) = commit_range cid q rem (versions gs)"
      using vs u(1) a(3) by (auto simp: commit_range_def intro!: nth_equalityI)
    ultimately show ?thesis unfolding step by simp
  qed
qed

section \<open>Reverting\<close>

lemma rg_Revert_part:
  assumes "rg_inv g" "s \<le> rg_count g" "\<And>r. s \<le> r \<Longrightarrow> r < rg_count g \<Longrightarrow> snd (rg_ids g r) = NOT_DELETED_ID" "cut_at s g"
  shows "\<exists>g'. rg_RevertAppend (rg_start g + s) g = Inr g' \<and> rg_inv g' \<and> rg_start g' = rg_start g \<and> row_versions g' = take s (row_versions g)"
proof -
  have "\<exists>g'. rg_RevertAppend (rg_start g + s) g = Inr g' \<and> rg_inv g' \<and> rg_count g' = s \<and> (\<forall>r. r < s \<longrightarrow> rg_ids g' r = rg_ids g r)"
    by (rule rg_Revert_ok [OF assms(1-3)]) (use assms(4) in \<open>auto simp: cut_at_def\<close>)
  then obtain g' where g': "rg_RevertAppend (rg_start g + s) g = Inr g'" "rg_inv g'" "rg_count g' = s" "\<And>r. r < s \<Longrightarrow> rg_ids g' r = rg_ids g r" by blast
  have "rg_start g' = rg_start g" using g'(1) assms(1)
    by (auto simp: rg_RevertAppend_def GetOrCreate_loaded rg_inv_def bind_res_eq_Inr split: if_splits)
  moreover have "row_versions g' = take s (row_versions g)" using g'(3,4) assms(2) by (auto simp: row_versions_def take_map intro!: nth_equalityI)
  ultimately show ?thesis using g' by blast
qed

lemma EraseSegments_holds:
  assumes "holds t gs" "i < length gs" "length gs < 2 ^ 63"
  shows "EraseSegments i t = Inr (loaded gs\<lparr>nodes := take (Suc i) (nodes_of gs)\<rparr>)"
    and "(loaded gs)\<lparr>nodes := (take (Suc i) (nodes_of gs))[i := set_next None (take (Suc i) (nodes_of gs) ! i)]\<rparr> = loaded (take (Suc i) gs)"
proof -
  show "EraseSegments i t = Inr (loaded gs\<lparr>nodes := take (Suc i) (nodes_of gs)\<rparr>)"
    using assms(2,3) by (cases "i = length gs - 1") (auto simp: EraseSegments_def Let_def holds_LoadAll [OF assms(1)] loaded_def)
  have "(take (Suc i) (nodes_of gs))[i := set_next None (take (Suc i) (nodes_of gs) ! i)] = nodes_of (take (Suc i) gs)"
    using assms(2) by (auto simp: set_next_def nth_list_update intro!: nth_equalityI)
  then show "(loaded gs)\<lparr>nodes := (take (Suc i) (nodes_of gs))[i := set_next None (take (Suc i) (nodes_of gs) ! i)]\<rparr> = loaded (take (Suc i) gs)"
    by (simp add: loaded_def)
qed

lemma RevertAppendInternal_ok:
  assumes c: "row_groups c = loaded gs" "coll_row_start c = 0" "stacked 0 gs" "\<forall>g \<in> set gs. rg_inv g" "length gs < 2 ^ 63"
    and i: "i < length gs" "s \<le> rg_count (gs ! i)" "s < rg_count (gs ! i) \<or> Suc i = length gs" "cut_at s (gs ! i)"
      "\<And>r. s \<le> r \<Longrightarrow> r < rg_count (gs ! i) \<Longrightarrow> snd (rg_ids (gs ! i) r) = NOT_DELETED_ID"
  shows "\<exists>c'. RevertAppendInternal (group_pos gs i + s) c = Some (Inr c') \<and> coll_inv c' \<and> coll_row_start c' = 0
    \<and> table_ids c' = take (group_pos gs i + s) (versions gs)"
proof -
  let ?S = "group_pos gs i + s" and ?g = "gs ! i"
  note h = holds_loaded [OF c(3)]
  from TryGetSegmentIndex_holds [OF h c(3,5), of ?S] obtain found t1 where
    f: "TryGetSegmentIndex ?S (loaded gs) = (Some (Inr found), t1)" "holds t1 gs"
      "case found of None \<Rightarrow> length (versions gs) \<le> ?S
       | Some j \<Rightarrow> j < length gs \<and> group_pos gs j \<le> ?S \<and> ?S < group_pos gs j + rg_count (gs ! j)"
    by (auto split: option.splits)
  have idx: "(case found of Some j \<Rightarrow> j | None \<Rightarrow> length gs - 1) = i"
  proof (cases found)
    case None
    then have "\<not> s < rg_count ?g" using f(3) group_pos_less [OF i(1)] by simp
    then show ?thesis using None i(3) by auto
  next
    case (Some j)
    then have j: "j < length gs" "group_pos gs j \<le> ?S" "?S < group_pos gs j + rg_count (gs ! j)" using f(3) by simp_all
    have mono: "group_pos gs (Suc a) \<le> group_pos gs b" if "a < b" for a b
    proof -
      have "take b gs = take (Suc a) gs @ drop (Suc a) (take b gs)" using that by (metis Suc_leI append_take_drop_id min_def take_take)
      then show ?thesis by (metis group_pos_def le_add1 length_append versions_simps(3))
    qed
    have "\<not> j < i" using j mono [of j i] group_pos_Suc [OF j(1)] by auto
    moreover have "\<not> i < j" using j mono [of i j] group_pos_Suc [OF i(1)] i(2,3) by auto
    ultimately show ?thesis using Some by simp
  qed
  from GetSegmentByIndex_holds [OF f(2) i(1)] obtain t2 where t2: "GetSegmentByIndex (int i) t1 = (Some i, t2)" "holds t2 gs" by blast
  note e = EraseSegments_holds [OF t2(2) i(1) c(5)]
  have "rg_start ?g = group_pos gs i" using stacked_start [OF c(3) i(1)] by simp
  moreover have "rg_inv ?g" using c(4) i(1) by simp
  ultimately obtain g' where g': "rg_RevertAppend ?S ?g = Inr g'" "rg_inv g'" "rg_start g' = rg_start ?g" "row_versions g' = take s (row_versions ?g)"
    using rg_Revert_part [OF _ i(2,5,4)] by metis
  let ?gs = "take i gs @ [g']" and ?take = "take (Suc i) gs"
  have tk: "?take = take i gs @ [?g]" "i < length ?take" "?take ! i = ?g" using i(1) by (simp_all add: take_Suc_conv_app_nth nth_append)
  have put: "put_group i g' (loaded ?take) = loaded ?gs"
    using put_group_loaded [of i ?take g'] tk g'(3) i(1) by (simp add: list_update_append)
  let ?c = "c\<lparr>total_rows := ?S, row_groups := loaded ?gs\<rparr>"
  let ?te = "loaded gs\<lparr>nodes := take (Suc i) (nodes_of gs)\<rparr>"
  have "gs \<noteq> []" using i(1) by auto
  then have "RevertAppendInternal ?S c = Some (bind_res (EraseSegments i t2) (\<lambda>t. bind_res (segment_at t i) (\<lambda>n.
      bind_res (get_group i (t\<lparr>nodes := (nodes t)[i := set_next None n]\<rparr>)) (\<lambda>g. bind_res (rg_RevertAppend ?S g) (\<lambda>g'.
        Inr (c\<lparr>total_rows := ?S, row_groups := put_group i g' (t\<lparr>nodes := (nodes t)[i := set_next None n]\<rparr>)\<rparr>))))))"
    using f(1) idx t2(1) by (cases found) (simp_all add: RevertAppendInternal_def GetSegmentCount_def c(1) Let_def)
  moreover have "segment_at ?te i = Inr (take (Suc i) (nodes_of gs) ! i)" "nodes ?te = take (Suc i) (nodes_of gs)"
      "?te\<lparr>nodes := N\<rparr> = loaded gs\<lparr>nodes := N\<rparr>" for N using i(1) by (simp_all add: segment_at_def)
  ultimately have "RevertAppendInternal ?S c = Some (Inr ?c)"
    unfolding e(1) using e(2) g'(1) get_group_loaded [OF tk(2)] tk(3) put by (simp only: bind_res_Inr)
  moreover have "versions ?gs = take ?S (versions gs)"
    unfolding versions_split [OF i(1)] using g'(4) i(2) by (simp add: group_pos_def)
  moreover have "stacked 0 ?gs"
    using c(3) g'(3) stacked_append [of 0 "take i gs" "drop i gs"] stacked_start [OF c(3) i(1)] by (simp add: stacked_append group_pos_def)
  moreover have "\<forall>g \<in> set ?gs. rg_inv g" using c(4) g'(2) by (auto dest: in_set_takeD)
  moreover have "length (versions ?gs) = ?S" using g'(4) i(2) by (simp add: group_pos_def)
  ultimately show ?thesis using coll_inv_holds [of ?c ?gs] holds_loaded [of 0 ?gs] c(2) by (intro exI [of _ ?c]) simp
qed

section \<open>Fetching and deleting\<close>

lemma coll_Fetch_ok:
  assumes "holds t gs" "stacked r gs" "\<forall>g \<in> set gs. rg_inv g" "length gs < 2 ^ 63" "valid_txn txn" "0 < start_time txn"
    and "\<forall>row_id \<in> set ids. r \<le> row_id \<and> row_id < 2 ^ 64"
  shows "\<exists>t'. coll_Fetch txn ids t
      = Some (Inr (filter (\<lambda>row_id. row_id - r < length (versions gs) \<and> sees txn (versions gs ! (row_id - r))) ids, t')) \<and> holds t' gs"
  using assms
proof (induction ids arbitrary: t)
  case Nil
  then show ?case by simp
next
  case (Cons row ids)
  have row: "r \<le> row" "row < 2 ^ 64" "\<forall>row_id \<in> set ids. r \<le> row_id \<and> row_id < 2 ^ 64" using Cons.prems(7) by simp_all
  from TryGetSegmentIndex_holds [OF Cons.prems(1,2,4) row(1)] obtain found t1 where
    f: "TryGetSegmentIndex row t = (Some (Inr found), t1)" "holds t1 gs"
      "case found of None \<Rightarrow> r + length (versions gs) \<le> row
       | Some i \<Rightarrow> i < length gs \<and> r + group_pos gs i \<le> row \<and> row < r + group_pos gs i + rg_count (gs ! i)"
    by (auto split: option.splits)
  show ?case
  proof (cases found)
    case None
    from Cons.IH [OF f(2) Cons.prems(2-6) row(3)] None f show ?thesis by auto
  next
    case (Some i)
    let ?g = "gs ! i"
    have i: "i < length gs" "r + group_pos gs i \<le> row" "row < r + group_pos gs i + rg_count ?g" using f(3) Some by simp_all
    from GetSegmentByIndex_holds [OF f(2) i(1)] obtain t2 where
      t2: "GetSegmentByIndex (int i) t1 = (Some i, t2)" "holds t2 gs" "i < length (nodes t2)" by blast
    have g: "get_group i t2 = Inr ?g" "rg_inv ?g" "rg_start ?g = r + group_pos gs i"
      using get_group_holds [OF t2(2,3)] Cons.prems(3) i(1) stacked_start [OF Cons.prems(2) i(1)] by simp_all
    let ?j = "row - rg_start ?g"
    have j: "?j < rg_count ?g" "sub_row row (rg_start ?g) = ?j" "group_pos gs i + ?j = row - r"
      using i g(3) row(2) by (auto simp: sub_row_eq)
    have v: "rg_Fetch txn ?j ?g = Inr (sees txn (versions gs ! (row - r)), ?g)"
      using rg_Fetch_ok [OF g(2) j(1) Cons.prems(5,6)] versions_nth [OF i(1) j(1)] j(3) by simp
    have len: "row - r < length (versions gs)" using group_pos_less [OF i(1)] i(2,3) by linarith
    have "holds (put_group i ?g t2) gs" using put_group_holds(1) [OF t2(2,3), of ?g] by simp
    from Cons.IH [OF this Cons.prems(2-6) row(3)] show ?thesis using f(1) Some t2(1) g(1) j(2) v len by auto
  qed
qed

text \<open>The table after a transaction has deleted a set of rows.\<close>

definition mark_deleted :: "transaction_t \<Rightarrow> nat set \<Rightarrow> (transaction_t \<times> transaction_t) list \<Rightarrow> (transaction_t \<times> transaction_t) list" where
  "mark_deleted tid D vs = map (\<lambda>p. if p \<in> D then (fst (vs ! p), tid) else vs ! p) [0..<length vs]"

lemma length_mark_deleted [simp]: "length (mark_deleted tid D vs) = length vs"
  by (simp add: mark_deleted_def)

lemma mark_deleted_twice: "mark_deleted tid E (mark_deleted tid D vs) = mark_deleted tid (D \<union> E) vs"
  by (auto simp: mark_deleted_def)

definition table_delete_ids :: "nat \<Rightarrow> (transaction_t \<times> transaction_t) list \<Rightarrow> idx_t list \<Rightarrow> bool" where
  "table_delete_ids r vs ids \<longleftrightarrow> (\<forall>row_id \<in> set ids. r \<le> row_id \<and> row_id < 2 ^ 64 \<and> row_id - r < length vs \<and> snd (vs ! (row_id - r)) \<noteq> 0)"

definition delete_conflict :: "transaction_t \<Rightarrow> nat \<Rightarrow> (transaction_t \<times> transaction_t) list \<Rightarrow> idx_t list \<Rightarrow> bool" where
  "delete_conflict tid r vs ids \<longleftrightarrow> (\<exists>row_id \<in> set ids. snd (vs ! (row_id - r)) \<notin> {tid, NOT_DELETED_ID})"

lemma rg_Delete_run:
  assumes h: "holds t gs" "stacked r gs" "\<forall>g \<in> set gs. rg_inv g" and i: "i < length (nodes t)"
    and tid: "tid \<noteq> NOT_DELETED_ID" "tid \<noteq> 0"
    and ids: "length run \<le> STANDARD_VECTOR_SIZE" "table_delete_ids r (versions gs) run" "\<forall>row_id \<in> set run. in_group (gs ! i) row_id"
    and del: "rg_Delete tid run us (gs ! i) = (st, ex)"
  shows "ex = (if delete_conflict tid r (versions gs) run then Some TransactionException else None)"
    and "\<exists>D \<subseteq> (\<lambda>row_id. row_id - r) ` set run. (ex = None \<longrightarrow> D = (\<lambda>row_id. row_id - r) ` set run)
      \<and> holds (put_group i (del_group st) t) (gs[i := del_group st]) \<and> stacked r (gs[i := del_group st])
      \<and> (\<forall>g \<in> set (gs[i := del_group st]). rg_inv g) \<and> versions (gs[i := del_group st]) = mark_deleted tid D (versions gs)"
proof -
  let ?g = "gs ! i" and ?o = "group_pos gs i"
  have g: "i < length gs" "rg_inv ?g" "rg_start ?g = r + ?o"
    using get_group_holds [OF h(1) i] h(3) stacked_start [OF h(2)] by simp_all
  have at: "rg_start ?g \<le> row_id" "row_id - rg_start ?g < rg_count ?g" "?o + (row_id - rg_start ?g) = row_id - r"
      "rg_ids ?g (row_id - rg_start ?g) = versions gs ! (row_id - r)" "row_id < 2 ^ 64" "snd (versions gs ! (row_id - r)) \<noteq> 0"
    if "row_id \<in> set run" for row_id
  proof -
    show a: "rg_start ?g \<le> row_id" "row_id - rg_start ?g < rg_count ?g" using ids(3) that by (auto simp: in_group_def)
    show o: "?o + (row_id - rg_start ?g) = row_id - r" using a(1) g(3) by simp
    show "rg_ids ?g (row_id - rg_start ?g) = versions gs ! (row_id - r)" using versions_nth [OF g(1) a(2)] o by simp
    show "row_id < 2 ^ 64" "snd (versions gs ! (row_id - r)) \<noteq> 0" using ids(2) that by (auto simp: table_delete_ids_def)
  qed
  then have "delete_ids ?g run" using ids(1) by (auto simp: delete_ids_def deletable_def)
  note ok = rg_Delete_ok [OF g(2) tid this del]
  show "ex = (if delete_conflict tid r (versions gs) run then Some TransactionException else None)"
    using ok at(4) by (cases ex) (auto simp: delete_conflict_def delete_state_def)
  from ok obtain P where P: "P \<subseteq> (\<lambda>row_id. row_id - rg_start ?g) ` set run" "ex = None \<longrightarrow> P = (\<lambda>row_id. row_id - rg_start ?g) ` set run"
      "delete_marks tid ?g P st" by (cases ex) (auto dest: delete_state_marks)
  then have d: "rg_inv (del_group st)" "rg_count (del_group st) = rg_count ?g" "rg_start (del_group st) = rg_start ?g"
      "\<And>j. j < ROW_GROUP_SIZE \<Longrightarrow> rg_ids (del_group st) j = (if j \<in> P then (fst (rg_ids ?g j), tid) else rg_ids ?g j)"
    by (auto simp: delete_marks_def)
  have bound: "\<And>q. q \<in> P \<Longrightarrow> q < rg_count ?g" using P(1) at(2) by blast
  have image: "(\<lambda>q. ?o + q) ` (\<lambda>row_id. row_id - rg_start ?g) ` set run = (\<lambda>row_id. row_id - r) ` set run"
    unfolding image_image using at(3) by (intro image_cong) auto
  have "versions (gs[i := del_group st]) ! p = (if p \<in> (\<lambda>q. ?o + q) ` P then (fst (versions gs ! p), tid) else versions gs ! p)"
    if p: "p < length (versions gs)" for p
  proof (cases "?o \<le> p \<and> p < ?o + rg_count ?g")
    case True
    then have "p - ?o < rg_count ?g" "p \<in> (\<lambda>q. ?o + q) ` P \<longleftrightarrow> p - ?o \<in> P" by (auto simp: image_iff) force
    then have "rg_ids ?g (p - ?o) = versions gs ! p" "p - ?o < ROW_GROUP_SIZE" "p \<in> (\<lambda>q. ?o + q) ` P \<longleftrightarrow> p - ?o \<in> P"
      using True versions_nth [OF g(1), of "p - ?o"] rg_inv_count [OF g(2)] by simp_all
    then show ?thesis using True d(4) [of "p - ?o"] update_group(3) [OF g(1) d(2) p] d(2) by simp
  next
    case False
    then have "p \<notin> (\<lambda>q. ?o + q) ` P" using bound by fastforce
    then show ?thesis using False update_group(3) [OF g(1) d(2) p] d(2) by auto
  qed
  then have "versions (gs[i := del_group st]) = mark_deleted tid ((\<lambda>q. ?o + q) ` P) (versions gs)"
    using update_group(1) [OF g(1) d(2)] by (intro nth_equalityI) (simp_all add: mark_deleted_def)
  moreover have "(\<lambda>q. ?o + q) ` P \<subseteq> (\<lambda>row_id. row_id - r) ` set run" using image_mono [OF P(1), of "\<lambda>q. ?o + q"] unfolding image .
  moreover have "ex = None \<longrightarrow> (\<lambda>q. ?o + q) ` P = (\<lambda>row_id. row_id - r) ` set run" using P(2) image by metis
  moreover have "\<forall>g \<in> set (gs[i := del_group st]). rg_inv g"
    using h(3) d(1) set_update_subset_insert [of gs i "del_group st"] by auto
  ultimately show "\<exists>D \<subseteq> (\<lambda>row_id. row_id - r) ` set run. (ex = None \<longrightarrow> D = (\<lambda>row_id. row_id - r) ` set run)
      \<and> holds (put_group i (del_group st) t) (gs[i := del_group st]) \<and> stacked r (gs[i := del_group st])
      \<and> (\<forall>g \<in> set (gs[i := del_group st]). rg_inv g) \<and> versions (gs[i := del_group st]) = mark_deleted tid D (versions gs)"
    using put_group_holds(1) [OF h(1) i d(3,2)] update_group(2) [OF g(1) d(2) h(2) d(3)] by blast
qed

lemma delete_conflict_split:
  assumes "\<not> delete_conflict tid r vs run" "set ids = set run \<union> set rest" "table_delete_ids r vs rest"
  shows "delete_conflict tid r (mark_deleted tid ((\<lambda>row_id. row_id - r) ` set run) vs) rest = delete_conflict tid r vs ids"
proof -
  have "snd (mark_deleted tid ((\<lambda>row_id. row_id - r) ` set run) vs ! (row_id - r)) \<in> {tid, NOT_DELETED_ID} \<longleftrightarrow> snd (vs ! (row_id - r)) \<in> {tid, NOT_DELETED_ID}"
    if "row_id \<in> set rest" for row_id
  proof (cases "row_id - r \<in> (\<lambda>row_id. row_id - r) ` set run")
    case True
    then obtain q where "q \<in> set run" "row_id - r = q - r" by blast
    then have "snd (vs ! (row_id - r)) \<in> {tid, NOT_DELETED_ID}" using assms(1) by (auto simp: delete_conflict_def)
    moreover have "mark_deleted tid ((\<lambda>row_id. row_id - r) ` set run) vs ! (row_id - r) = (fst (vs ! (row_id - r)), tid)"
      using True assms(3) that by (auto simp: mark_deleted_def table_delete_ids_def)
    ultimately show ?thesis by simp
  next
    case False
    then show ?thesis using assms(3) that by (simp add: mark_deleted_def table_delete_ids_def)
  qed
  then show ?thesis using assms(1,2) unfolding delete_conflict_def by blast
qed

lemma coll_Delete_ok:
  assumes "holds t gs" "stacked r gs" "\<forall>g \<in> set gs. rg_inv g" "length gs < 2 ^ 63" "tid \<noteq> NOT_DELETED_ID" "tid \<noteq> 0"
    and "ids \<noteq> []" "length ids \<le> STANDARD_VECTOR_SIZE" "table_delete_ids r (versions gs) ids"
  shows "\<exists>t' undo' k gs' D. coll_Delete tid ids undo t
        = Some ((t', undo', k), if delete_conflict tid r (versions gs) ids then Some TransactionException else None)
    \<and> D \<subseteq> (\<lambda>row_id. row_id - r) ` set ids \<and> (\<not> delete_conflict tid r (versions gs) ids \<longrightarrow> D = (\<lambda>row_id. row_id - r) ` set ids)
    \<and> holds t' gs' \<and> stacked r gs' \<and> (\<forall>g \<in> set gs'. rg_inv g) \<and> length gs' = length gs
    \<and> versions gs' = mark_deleted tid D (versions gs)"
  using assms
proof (induction "length ids" arbitrary: ids t gs undo rule: less_induct)
  case less
  let ?rel = "\<lambda>row_id. row_id - r"
  obtain row ids' where ids: "ids = row # ids'" using less.prems(7) by (cases ids) auto
  have row: "r \<le> row" "row < r + length (versions gs)" using less.prems(9) ids by (auto simp: table_delete_ids_def)
  from GetSegment_holds [OF less.prems(1,2,4) row] obtain i t1 where
    f: "GetSegment row t = (Some (Inr i), t1)" "holds t1 gs" "i < length (nodes t1)" "i < length gs"
      "r + group_pos gs i \<le> row" "row < r + group_pos gs i + rg_count (gs ! i)" by blast
  let ?g = "gs ! i"
  define rest where "rest = dropWhile (in_group ?g) ids'"
  define run where "run = row # takeWhile (in_group ?g) ids'"
  have g: "get_group i t1 = Inr ?g" using get_group_holds [OF f(2,3)] by simp
  have set_ids: "set ids = set run \<union> set rest"
    by (simp add: ids run_def rest_def flip: set_append)
  have "in_group ?g row" using f(5,6) stacked_start [OF less.prems(2) f(4)] by (simp add: in_group_def)
  then have in_g: "\<forall>row_id \<in> set run. in_group ?g row_id" by (auto simp: run_def dest: set_takeWhileD)
  have len: "length run \<le> STANDARD_VECTOR_SIZE" using less.prems(8) length_takeWhile_le [of "in_group ?g" ids'] by (simp add: ids run_def)
  have tdi: "table_delete_ids r (versions gs) run" "table_delete_ids r (versions gs) rest"
    using less.prems(9) set_ids by (auto simp: table_delete_ids_def)
  obtain st ex where del: "rg_Delete tid run (map_option (\<lambda>_. []) undo) ?g = (st, ex)" by fastforce
  note R = rg_Delete_run [OF f(2) less.prems(2,3) f(3) less.prems(5,6) len tdi(1) in_g del]
  define t2 where "t2 = put_group i (del_group st) t1"
  define undo2 where "undo2 = (case undo_buffer st of None \<Rightarrow> undo | Some ds \<Rightarrow> map_option (\<lambda>us. us @ map (Pair i) ds) undo)"
  have eq: "coll_Delete tid ids undo t =
      (if ex \<noteq> None then Some ((t2, undo2, 0), ex) else if rest = [] then Some ((t2, undo2, delete_count st), None)
       else map_option (\<lambda>((t, undo, k), ex). ((t, undo, delete_count st + k), ex)) (coll_Delete tid rest undo2 t2))"
    using f(1) g del by (simp add: ids run_def rest_def t2_def undo2_def Let_def)
  let ?gs = "gs[i := del_group st]"
  obtain D where D: "D \<subseteq> ?rel ` set run" "ex = None \<longrightarrow> D = ?rel ` set run" and S: "holds t2 ?gs" "stacked r ?gs"
      "\<forall>g \<in> set ?gs. rg_inv g" "versions ?gs = mark_deleted tid D (versions gs)"
    using R(2) unfolding t2_def by blast
  have sub: "?rel ` set run \<subseteq> ?rel ` set ids" using set_ids by blast
  show ?case
  proof (cases "delete_conflict tid r (versions gs) run")
    case True
    then have "delete_conflict tid r (versions gs) ids" using set_ids by (auto simp: delete_conflict_def)
    moreover have "ex = Some TransactionException" using R(1) True by simp
    ultimately show ?thesis using eq D(1) S sub by (intro exI [of _ t2] exI [of _ undo2] exI [of _ 0] exI [of _ ?gs] exI [of _ D]) auto
  next
    case free: False
    then have ex: "ex = None" and D_eq: "D = ?rel ` set run" using R(1) D(2) by simp_all
    note split = delete_conflict_split [OF free set_ids tdi(2), folded D_eq, folded S(4)]
    show ?thesis
    proof (cases "rest = []")
      case True
      then have "set ids = set run" "\<not> delete_conflict tid r (versions gs) ids" using set_ids free by (simp_all add: delete_conflict_def)
      with True ex eq S D_eq show ?thesis
        by (intro exI [of _ t2] exI [of _ undo2] exI [of _ "delete_count st"] exI [of _ ?gs] exI [of _ D]) auto
    next
      case False
      have "table_delete_ids r (versions ?gs) rest"
        using tdi(2) less.prems(6) by (auto simp: S(4) table_delete_ids_def mark_deleted_def)
      moreover have "length rest < length ids" "length rest \<le> STANDARD_VECTOR_SIZE" "length ?gs < 2 ^ 63"
        using less.prems(4,8) length_dropWhile_le [of "in_group ?g" ids'] by (auto simp: ids rest_def)
      ultimately obtain t' undo' k gs' D' where
        rec: "coll_Delete tid rest undo2 t2 = Some ((t', undo', k), if delete_conflict tid r (versions ?gs) rest then Some TransactionException else None)"
        and D': "D' \<subseteq> ?rel ` set rest" "\<not> delete_conflict tid r (versions ?gs) rest \<longrightarrow> D' = ?rel ` set rest"
        and S': "holds t' gs'" "stacked r gs'" "\<forall>g \<in> set gs'. rg_inv g" "versions gs' = mark_deleted tid D' (versions ?gs)" "length gs' = length gs"
        using less.hyps [OF _ S(1-3) _ less.prems(5,6) False, of undo2] unfolding length_list_update by blast
      have "versions gs' = mark_deleted tid (D \<union> D') (versions gs)" unfolding S'(4) S(4) by (rule mark_deleted_twice)
      moreover have "D \<union> D' \<subseteq> ?rel ` set ids" "\<not> delete_conflict tid r (versions gs) ids \<longrightarrow> D \<union> D' = ?rel ` set ids"
        using D'(1,2) unfolding D_eq set_ids image_Un split by blast+
      moreover have "coll_Delete tid ids undo t = Some ((t', undo', delete_count st + k),
          if delete_conflict tid r (versions gs) ids then Some TransactionException else None)"
        using eq ex False rec by (simp add: split)
      ultimately show ?thesis using S'(1-3,5) by blast
    qed
  qed
qed

section \<open>Merging\<close>

lemma set_chunk_start_keeps:
  "slot_inv k (map_option (set_chunk_start s) slot) = slot_inv k slot" "chunk_ids (map_option (set_chunk_start s) slot) j = chunk_ids slot j"
proof -
  show "slot_inv k (map_option (set_chunk_start s) slot) = slot_inv k slot"
    by (cases slot) (auto simp: slot_inv_def cv_inv_def split: ChunkInfo.split)
  show "chunk_ids (map_option (set_chunk_start s) slot) j = chunk_ids slot j"
    by (cases slot) (auto simp: chunk_ids_def split: ChunkInfo.split)
qed

lemma SetStart_ok:
  assumes "rvm_inv n m"
  shows "\<exists>m'. SetStart s m = Inr m' \<and> rvm_inv n m' \<and> (\<forall>r<ROW_GROUP_SIZE. row_ids m' r = row_ids m r)"
proof -
  let ?g = "\<lambda>i. map_option (set_chunk_start (s + i * STANDARD_VECTOR_SIZE)) (vector_info m ! i)"
  have len: "length (vector_info m) = ROW_GROUP_VECTOR_COUNT" using assms by (simp add: rvm_inv_def)
  let ?m = "m\<lparr>rvm_start := s, vector_info := map ?g [0..<ROW_GROUP_VECTOR_COUNT]\<rparr>"
  have "map (\<lambda>i. if 0 \<le> i \<and> i < ROW_GROUP_VECTOR_COUNT then ?g i else vector_info m ! i) [0..<ROW_GROUP_VECTOR_COUNT] = map ?g [0..<ROW_GROUP_VECTOR_COUNT]"
    by simp
  then have "SetStart s m = Inr ?m"
    using update_slots [of 0 ROW_GROUP_VECTOR_COUNT "m\<lparr>rvm_start := s\<rparr>"
        "\<lambda>i slot. Inr (map_option (set_chunk_start (s + i * STANDARD_VECTOR_SIZE)) slot)" ?g] len
    by (simp add: SetStart_def)
  moreover have "rvm_inv n ?m" using assms by (simp add: rvm_inv_def set_chunk_start_keeps)
  moreover have "row_ids ?m r = row_ids m r" if "r < ROW_GROUP_SIZE" for r
    using row_vector [OF that] by (simp add: row_ids_def set_chunk_start_keeps)
  ultimately show ?thesis by blast
qed

lemma MoveToCollection_ok:
  assumes g: "rg_inv g"
  shows "\<exists>g'. MoveToCollection s g = Inr g' \<and> rg_inv g' \<and> rg_start g' = s \<and> row_versions g' = row_versions g"
proof -
  have n: "rg_count g \<le> ROW_GROUP_SIZE" by (rule rg_inv_count [OF g])
  have inv: "\<not> HasUnloadedDeletes g" "rvm_inv (rg_count g) (versions_of g)" using g by (simp_all add: rg_inv_def)
  have u: "HasUnloadedDeletes (g\<lparr>rg_start := s\<rparr>) = HasUnloadedDeletes g" by (simp add: HasUnloadedDeletes_def)
  show ?thesis
  proof (cases "rg_version_info g")
    case None
    let ?g = "g\<lparr>rg_start := s\<rparr>"
    have "MoveToCollection s g = Inr ?g" using None inv(1) u by (simp add: MoveToCollection_def GetVersionInfo_def Let_def)
    moreover have "rg_inv ?g" using None inv n u by (simp add: rg_inv_def versions_of_def new_inv)
    moreover have "row_versions ?g = row_versions g"
      using None n by (auto simp: row_versions_def rg_ids_def versions_of_def new_row_ids)
    ultimately show ?thesis by auto
  next
    case (Some m)
    then have m: "versions_of g = m" by (simp add: versions_of_def)
    from SetStart_ok [OF inv(2), of s] obtain m' where m': "SetStart s m = Inr m'" "rvm_inv (rg_count g) m'" "\<forall>r<ROW_GROUP_SIZE. row_ids m' r = row_ids m r"
      unfolding m by blast
    let ?g = "g\<lparr>rg_start := s, rg_version_info := Some m'\<rparr>"
    have "MoveToCollection s g = Inr ?g" using Some inv(1) u m'(1) by (simp add: MoveToCollection_def GetVersionInfo_def Let_def)
    moreover have "rg_inv ?g" using m'(2) inv(1) u by (simp add: rg_inv_def)
    moreover have "row_versions ?g = row_versions g" using m'(3) n m by (auto simp: row_versions_def rg_ids_def)
    ultimately show ?thesis by auto
  qed
qed

text \<open>A loaded tree whose last row group still has the \<open>next\<close> pointer of its old tree.\<close>

definition loaded_next :: "RowGroup list \<Rightarrow> idx_t option \<Rightarrow> RowGroupSegmentTree" where
  "loaded_next gs p = (loaded gs)\<lparr>nodes := (if gs = [] then [] else (nodes_of gs)[length gs - 1 := set_next p (last (nodes_of gs))])\<rparr>"

lemma loaded_next_None: "loaded_next gs None = loaded gs"
proof (cases "gs = []")
  case False
  then have "set_next None (last (nodes_of gs)) = nodes_of gs ! (length gs - 1)" by (simp add: last_conv_nth set_next_def)
  then have "(nodes_of gs)[length gs - 1 := set_next None (last (nodes_of gs))] = nodes_of gs" by (simp only: list_update_id)
  with False show ?thesis by (simp add: loaded_next_def loaded_def)
qed (simp add: loaded_next_def loaded_def nodes_of_def)

lemma AppendSegment_loaded_next:
  "AppendSegment ((segment_of g)\<lparr>seg_next := p\<rparr>) (loaded_next gs q) = loaded_next (gs @ [g]) p"
proof -
  have "LoadAllSegments (loaded_next gs q) = loaded_next gs q"
    by (rule LoadAllSegments_finished) (simp add: loaded_next_def)
  moreover have "nodes (AppendSegmentInternal ((segment_of g)\<lparr>seg_next := p\<rparr>) (loaded_next gs q)) = nodes (loaded_next (gs @ [g]) p)"
  proof (rule nth_equalityI)
    show "length (nodes (AppendSegmentInternal ((segment_of g)\<lparr>seg_next := p\<rparr>) (loaded_next gs q))) = length (nodes (loaded_next (gs @ [g]) p))"
      by (auto simp: AppendSegmentInternal_def Let_def loaded_next_def)
    fix j assume "j < length (nodes (AppendSegmentInternal ((segment_of g)\<lparr>seg_next := p\<rparr>) (loaded_next gs q)))"
    then have "j < Suc (length gs)" by (auto simp: AppendSegmentInternal_def Let_def loaded_next_def split: if_splits)
    then show "nodes (AppendSegmentInternal ((segment_of g)\<lparr>seg_next := p\<rparr>) (loaded_next gs q)) ! j = nodes (loaded_next (gs @ [g]) p) ! j"
      by (cases "gs = []")
        (auto simp: AppendSegmentInternal_def Let_def loaded_next_def nth_append nth_list_update set_next_def last_conv_nth less_Suc_eq segment_of_def)
  qed
  moreover have "unloaded (AppendSegmentInternal s t) = unloaded t" "finished_loading (AppendSegmentInternal s t) = finished_loading t" for s and t :: RowGroupSegmentTree
    by (simp_all add: AppendSegmentInternal_def Let_def)
  ultimately show ?thesis by (intro SegmentTree.equality) (simp_all add: AppendSegment_def, simp_all add: loaded_next_def)
qed

lemma move_groups_ok:
  assumes "\<forall>n \<in> set ns. rg_inv (seg_data (node n))" "stacked r gs" "index = r + length (versions gs)" "\<forall>g \<in> set gs. rg_inv g"
  shows "\<exists>gs'. fold_res move_group ns (index, loaded_next gs p)
      = Inr (r + length (versions gs'), loaded_next gs' (if ns = [] then p else seg_next (node (last ns)))) \<and> stacked r gs'
    \<and> (\<forall>g \<in> set gs'. rg_inv g) \<and> versions gs' = versions gs @ versions (map (\<lambda>n. seg_data (node n)) ns)"
  using assms
proof (induction ns arbitrary: gs index p)
  case Nil
  then show ?case by auto
next
  case (Cons n ns)
  from MoveToCollection_ok [of "seg_data (node n)" index] Cons.prems(1) obtain g' where
    g': "MoveToCollection index (seg_data (node n)) = Inr g'" "rg_inv g'" "rg_start g' = index" "row_versions g' = row_versions (seg_data (node n))"
    by auto
  then have cnt: "rg_count g' = rg_count (seg_data (node n))" by (metis length_row_versions)
  let ?gs = "gs @ [g']"
  have step: "move_group n (index, loaded_next gs p) = Inr (index + rg_count g', loaded_next ?gs (seg_next (node n)))"
    using g'(1) by (simp add: move_group_def AppendSegment_loaded_next)
  have pre: "\<forall>n \<in> set ns. rg_inv (seg_data (node n))" "stacked r ?gs" "index + rg_count g' = r + length (versions ?gs)" "\<forall>g \<in> set ?gs. rg_inv g"
    using Cons.prems g' cnt by (auto simp: stacked_append)
  from Cons.IH [OF pre] show ?case using step g'(4) by (auto simp: add.assoc)
qed

lemma MergeStorage_ok:
  assumes c: "coll_inv c" and d: "coll_inv d"
  shows "\<exists>c' d'. MergeStorage d c = Inr (c', d') \<and> coll_inv c' \<and> table_ids c' = table_ids c @ table_ids d \<and> groups (row_groups d') = []"
proof -
  let ?gs = "groups (row_groups c)" and ?ds = "groups (row_groups d)"
  have inv: "holds (row_groups c) ?gs" "stacked (coll_row_start c) ?gs" "\<forall>g \<in> set ?gs. rg_inv g" "total_rows c = length (versions ?gs)"
    "holds (row_groups d) ?ds" "\<forall>g \<in> set ?ds. rg_inv g" "total_rows d = length (versions ?ds)"
    using c d by (simp_all add: coll_inv_def table_ids_def)
  let ?ns = "nodes_of ?ds" and ?index = "coll_row_start c + total_rows c"
  have mv: "MoveSegments (row_groups d) = (?ns, (loaded ?ds)\<lparr>nodes := []\<rparr>)" by (simp add: MoveSegments_def holds_LoadAll [OF inv(5)])
  have data: "map (\<lambda>n. seg_data (node n)) ?ns = ?ds" by (auto intro!: nth_equalityI)
  then have ns: "\<forall>n \<in> set ?ns. rg_inv (seg_data (node n))" using inv(6) by (metis (mono_tags, lifting) image_eqI list.set_map)
  show ?thesis
  proof (cases "?ds = []")
    case True
    let ?c = "c\<lparr>total_rows := total_rows c + total_rows d\<rparr>"
    have "MergeStorage d c = Inr (?c, d\<lparr>row_groups := (loaded ?ds)\<lparr>nodes := []\<rparr>\<rparr>)" using True mv by (simp add: MergeStorage_def nodes_of_def)
    moreover have "coll_inv ?c" "table_ids ?c = table_ids c @ table_ids d"
      using True c inv(7) by (simp_all add: coll_inv_def table_ids_def)
    ultimately show ?thesis by (simp add: groups_def segments_def)
  next
    case False
    have ld: "fold_res move_group ?ns (?index, row_groups c) = fold_res move_group ?ns (?index, loaded_next ?gs None)"
      using False AppendSegment_holds [OF inv(1)]
      by (cases ?ns) (simp_all add: move_group_def loaded_next_None)
    from move_groups_ok [OF ns inv(2) _ inv(3), of ?index None] inv(4) obtain gs' where
      m: "fold_res move_group ?ns (?index, row_groups c)
          = Inr (coll_row_start c + length (versions gs'), loaded_next gs' (seg_next (node (last ?ns))))" "stacked (coll_row_start c) gs'"
        "\<forall>g \<in> set gs'. rg_inv g" "versions gs' = versions ?gs @ versions ?ds"
      unfolding ld data using False by auto
    have "seg_next (node (last ?ns)) = None" using False by (simp add: last_conv_nth)
    let ?c = "c\<lparr>row_groups := loaded gs', total_rows := total_rows c + total_rows d\<rparr>"
    have "MergeStorage d c = Inr (?c, d\<lparr>row_groups := (loaded ?ds)\<lparr>nodes := []\<rparr>\<rparr>)"
      using mv m(1) \<open>seg_next (node (last ?ns)) = None\<close> by (simp add: MergeStorage_def loaded_next_None)
    moreover have "coll_inv ?c" "table_ids ?c = versions gs'"
      using coll_inv_holds [of ?c gs'] m inv(4,7) holds_loaded [OF m(2)] by simp_all
    ultimately show ?thesis using m(4) by (simp add: table_ids_def groups_def segments_def)
  qed
qed

section \<open>Properties\<close>

text \<open>
  C1: an append of any sequence of chunks refines appending to the list of row versions. Whatever the
  chunk sizes are and however the rows fall into row groups, the loops end, no invalid
  access happens, and afterwards the table has exactly the new rows behind its old rows, with the id of the
  inserting transaction.
\<close>

theorem append_chunks_refines:
  assumes "coll_inv c"
  shows "\<exists>c'. append_chunks t ns c = Some (Inr c') \<and> coll_inv c' \<and> total_rows c' = total_rows c + sum_list ns
    \<and> table_ids c' = table_ids c @ replicate (sum_list ns) (transaction_id t, NOT_DELETED_ID)"
  using append_chunks_ok [OF assms, of t ns] assms by (fastforce simp: coll_inv_def)

text \<open>A new collection, and one that was loaded from a checkpoint with two row groups without deletes.\<close>

lemma coll_inv_new: "coll_inv (coll_new r 0)" "table_ids (coll_new r 0) = []"
  by (simp_all add: coll_new_def coll_inv_def table_ids_def groups_def segments_def SegmentTree_new_def holds_def tree_inv_def chained_def)

definition sample_coll :: RowGroupCollection where
  "sample_coll = coll_Initialize 5000 [RowGroup_load 0 3000 None, RowGroup_load 3000 2000 None] (coll_new 0 0)"

lemma load_versions: "n \<le> ROW_GROUP_SIZE \<Longrightarrow> row_versions (RowGroup_load s n None) = replicate n (0, NOT_DELETED_ID)"
  by (rule nth_equalityI) (simp_all add: row_versions_def load_inv)

lemma sample_coll_groups: "groups (row_groups sample_coll) = [RowGroup_load 0 3000 None, RowGroup_load 3000 2000 None]"
    "coll_row_start sample_coll = 0" "total_rows sample_coll = 5000"
  by (simp_all add: sample_coll_def coll_Initialize_def coll_new_def groups_def segments_def tree_Initialize_def SegmentTree_new_def)

lemma sample_coll_inv: "coll_inv sample_coll" "table_ids sample_coll = replicate 5000 (0, NOT_DELETED_ID)"
proof -
  have n: "3000 \<le> ROW_GROUP_SIZE" "2000 \<le> ROW_GROUP_SIZE" by (simp_all add: ROW_GROUP_SIZE_def)
  show v: "table_ids sample_coll = replicate 5000 (0, NOT_DELETED_ID)"
    using load_versions [OF n(1)] load_versions [OF n(2)] by (simp add: table_ids_def sample_coll_groups flip: replicate_add)
  have "holds (row_groups sample_coll) (groups (row_groups sample_coll))"
    unfolding sample_coll_groups
    by (simp add: holds_def tree_inv_def segments_def chained_def sample_coll_def coll_Initialize_def coll_new_def tree_Initialize_def SegmentTree_new_def load_inv)
  then show "coll_inv sample_coll" using v load_inv(1) [OF n(1)] load_inv(1) [OF n(2)]
    by (simp add: coll_inv_def sample_coll_groups load_inv)
qed

theorem append_chunks_refines_witness:
  "\<exists>c'. append_chunks \<lparr>transaction_id = TRANSACTION_ID_START, start_time = 9\<rparr> [2048, 200000, 0, 5] sample_coll = Some (Inr c')
     \<and> total_rows c' = 207053"
  using append_chunks_refines [OF sample_coll_inv(1), of "\<lparr>transaction_id = TRANSACTION_ID_START, start_time = 9\<rparr>" "[2048, 200000, 0, 5]"]
  by (auto simp: sample_coll_groups)

text \<open>
  C2: reverting an append at the end of the table restores it: the row groups that were added are
  removed, the one that was extended is cut, and every old row has its old versions.
\<close>

theorem append_chunks_revert:
  assumes "coll_inv c" "coll_row_start c = 0" "append_chunks t ns c = Some (Inr c1)" "Suc (length (groups (row_groups c)) + sum_list ns) < 2 ^ 63"
  shows "\<exists>c2. RevertAppendInternal (total_rows c) c1 = Some (Inr c2) \<and> coll_inv c2 \<and> total_rows c2 = total_rows c
    \<and> table_ids c2 = table_ids c"
proof -
  let ?n = "sum_list ns" and ?x = "(transaction_id t, NOT_DELETED_ID)"
  from append_chunks_ok [OF assms(1), of t ns] assms(3) obtain pre g g' gs where
    a: "coll_inv c1" "coll_row_start c1 = coll_row_start c" "row_groups c1 = loaded (pre @ g' # gs)" "table_ids c = versions pre @ row_versions g"
    "table_ids c1 = table_ids c @ replicate ?n ?x" "rg_count g \<le> rg_count g'" "cut_at (rg_count g) g'"
    "gs \<noteq> [] \<longrightarrow> rg_count g' = ROW_GROUP_SIZE \<and> 0 < rg_count (hd gs)" "row_versions g = take (rg_count g) (row_versions g')"
    "length (pre @ g' # gs) \<le> Suc (length (groups (row_groups c)) + ?n)" by (metis Inr_inject option.inject)
  let ?gs = "pre @ g' # gs"
  have gs: "groups (row_groups c1) = ?gs" by (simp add: a(3) groups_def comp_def)
  have inv: "stacked 0 ?gs" "\<forall>g \<in> set ?gs. rg_inv g" "length ?gs < 2 ^ 63" "table_ids c1 = versions ?gs" "total_rows c = length (table_ids c)"
    using a(1,2,10) assms(1,2,4) gs by (auto simp: coll_inv_def table_ids_def)
  have old: "take (length (table_ids c)) (versions ?gs) = table_ids c" using a(5) inv(4) by simp
  have tail: "snd (versions ?gs ! p) = NOT_DELETED_ID" if "length (table_ids c) \<le> p" "p < length (versions ?gs)" for p
    using that a(5) inv(4) by (metis (no_types, lifting) add_diff_inverse_nat le_imp_less_Suc length_append length_replicate nat_add_left_cancel_less not_less_eq nth_append nth_replicate snd_conv)
  have nd: "snd (rg_ids (?gs ! i) r) = NOT_DELETED_ID" if "i < length ?gs" "length (table_ids c) \<le> group_pos ?gs i + r" "r < rg_count (?gs ! i)" for i r
    using tail [OF that(2)] versions_nth [OF that(1,3)] group_pos_less [OF that(1)] that(3) by simp
  have "\<exists>i s. i < length ?gs \<and> s \<le> rg_count (?gs ! i) \<and> (s < rg_count (?gs ! i) \<or> Suc i = length ?gs) \<and> cut_at s (?gs ! i)
      \<and> group_pos ?gs i + s = length (table_ids c)"
  proof (cases "rg_count g < rg_count g' \<or> gs = []")
    case True
    then show ?thesis using a(4,6,7) by (intro exI [of _ "length pre"] exI [of _ "rg_count g"]) (auto simp: group_pos_def)
  next
    case False
    then have "rg_count g = rg_count g'" using a(6) by simp
    then show ?thesis using False a(4,8)
      by (intro exI [of _ "Suc (length pre)"] exI [of _ 0])
        (auto simp: group_pos_def nth_append hd_conv_nth cut_at_def rows_in_def)
  qed
  then obtain i s where i: "i < length ?gs" "s \<le> rg_count (?gs ! i)" "s < rg_count (?gs ! i) \<or> Suc i = length ?gs" "cut_at s (?gs ! i)"
    "group_pos ?gs i + s = length (table_ids c)" by blast
  have "snd (rg_ids (?gs ! i) r) = NOT_DELETED_ID" if "s \<le> r" "r < rg_count (?gs ! i)" for r
    using nd [OF i(1) _ that(2)] i(5) that(1) by simp
  from RevertAppendInternal_ok [OF a(3) _ inv(1-3) i(1-4) this] show ?thesis
    unfolding i(5) old inv(5) using a(2) assms(2) by (fastforce simp: coll_inv_def)
qed

theorem append_chunks_revert_witness:
  "\<exists>c1 c2. append_chunks \<lparr>transaction_id = TRANSACTION_ID_START, start_time = 9\<rparr> [2048, 200000] sample_coll = Some (Inr c1)
     \<and> RevertAppendInternal 5000 c1 = Some (Inr c2) \<and> table_ids c2 = replicate 5000 (0, NOT_DELETED_ID)"
proof -
  let ?t = "\<lparr>transaction_id = TRANSACTION_ID_START, start_time = 9\<rparr>"
  from append_chunks_ok [OF sample_coll_inv(1), of ?t "[2048, 200000]"] obtain c1 where
    c1: "append_chunks ?t [2048, 200000] sample_coll = Some (Inr c1)" by blast
  from append_chunks_revert [OF sample_coll_inv(1) _ c1] show ?thesis using c1 by (auto simp: sample_coll_groups sample_coll_inv(2))
qed

text \<open>
  C3: committing an append, across as many row groups as it touched: the loop ends, and the
  committed range of rows, and no other row, has the commit id as its insert id. The transaction id
  must be one that no other row carries.
\<close>

theorem append_chunks_commit:
  assumes c: "coll_inv c" and run: "append_chunks t ns c = Some (Inr c1)"
    and t: "transaction_id t \<noteq> 0" "\<forall>ids \<in> set (table_ids c). fst ids \<noteq> transaction_id t" "0 < sum_list ns"
    and size: "Suc (length (groups (row_groups c)) + sum_list ns) < 2 ^ 63" "coll_row_start c + total_rows c + sum_list ns < 2 ^ 64"
  shows "\<exists>c2. coll_CommitAppend cid (coll_row_start c + total_rows c) (sum_list ns) c1 = Some (Inr c2) \<and> coll_inv c2
    \<and> table_ids c2 = table_ids c @ replicate (sum_list ns) (cid, NOT_DELETED_ID)"
proof -
  let ?n = "sum_list ns" and ?r = "coll_row_start c" and ?q = "total_rows c"
  from append_chunks_ok [OF c, of t ns] run obtain gs where
    a: "coll_inv c1" "coll_row_start c1 = ?r" "row_groups c1 = loaded gs" "length gs \<le> Suc (length (groups (row_groups c)) + ?n)"
    "table_ids c1 = table_ids c @ replicate ?n (transaction_id t, NOT_DELETED_ID)" by (metis Inr_inject option.inject)
  have "groups (row_groups c1) = gs" by (simp add: a(3) groups_def comp_def)
  then have inv: "holds (row_groups c1) gs" "stacked ?r gs" "\<forall>g \<in> set gs. rg_inv g" "table_ids c1 = versions gs" "total_rows c1 = length (versions gs)"
    using a(1,2) by (auto simp: coll_inv_def table_ids_def)
  have q: "?q = length (table_ids c)" using c by (simp add: coll_inv_def)
  have vs: "versions gs = table_ids c @ replicate ?n (transaction_id t, NOT_DELETED_ID)" using inv(4) a(5) by simp
  have "length gs < 2 ^ 63" using a(4) size(1) by simp
  from GetSegment_holds [OF inv(1,2) this, of "?r + ?q"] obtain i t1 where
    f: "GetSegment (?r + ?q) (row_groups c1) = (Some (Inr i), t1)" "holds t1 gs" "i < length (nodes t1)"
      "group_pos gs i \<le> ?q" "?q < group_pos gs i + rg_count (gs ! i)" using vs t(3) q by auto
  have ids: "fst (versions gs ! p) = transaction_id t \<longleftrightarrow> ?q \<le> p \<and> p < ?q + ?n" if "p < length (versions gs)" for p
    using that t(2) q unfolding vs by (auto simp: nth_append)
  have "\<exists>t' gs'. CommitAppend_loop cid (?r + ?q) ?n i t1 = Some (Inr t') \<and> holds t' gs' \<and> stacked ?r gs' \<and> (\<forall>g \<in> set gs'. rg_inv g)
      \<and> versions gs' = commit_range cid ?q ?n (versions gs)"
    by (rule CommitAppend_loop_ok [OF f(2) inv(2,3) f(3) _ t(3) f(4) _ _ t(1)]) (use f(5) ids size(2) vs q in auto)
  then obtain t' gs' where l: "CommitAppend_loop cid (?r + ?q) ?n i t1 = Some (Inr t')" "holds t' gs'" "stacked ?r gs'" "\<forall>g \<in> set gs'. rg_inv g"
      "versions gs' = commit_range cid ?q ?n (versions gs)" by blast
  have "commit_range cid ?q ?n (versions gs) = table_ids c @ replicate ?n (cid, NOT_DELETED_ID)"
    unfolding vs commit_range_def using q by (auto simp: nth_append intro!: nth_equalityI)
  moreover have "coll_CommitAppend cid (?r + ?q) ?n c1 = Some (Inr (c1\<lparr>row_groups := t'\<rparr>))" using f(1) l(1) by (simp add: coll_CommitAppend_def)
  moreover have "length (versions gs') = length (versions gs)" by (simp add: l(5) commit_range_def)
  ultimately show ?thesis
    using coll_inv_holds [of "c1\<lparr>row_groups := t'\<rparr>" gs'] l(2-5) a(2) inv(5) by auto
qed

theorem append_chunks_commit_witness:
  "\<exists>c1 c2. append_chunks \<lparr>transaction_id = TRANSACTION_ID_START, start_time = 9\<rparr> [2048, 200000] sample_coll = Some (Inr c1)
     \<and> coll_CommitAppend 77 5000 202048 c1 = Some (Inr c2)
     \<and> table_ids c2 = replicate 5000 (0, NOT_DELETED_ID) @ replicate 202048 (77, NOT_DELETED_ID)"
proof -
  let ?t = "\<lparr>transaction_id = TRANSACTION_ID_START, start_time = 9\<rparr>"
  from append_chunks_ok [OF sample_coll_inv(1), of ?t "[2048, 200000]"] obtain c1 where
    c1: "append_chunks ?t [2048, 200000] sample_coll = Some (Inr c1)" by blast
  have "TRANSACTION_ID_START \<noteq> 0" by (simp add: TRANSACTION_ID_START_def)
  with append_chunks_commit [OF sample_coll_inv(1) c1, of 77] show ?thesis using c1
    by (auto simp: sample_coll_groups sample_coll_inv(2))
qed

text \<open>
  C5: fetching rows by row id returns exactly the requested rows that exist and that the
  transaction can see, in the requested order, and leaves the table as it is.
\<close>

theorem coll_Fetch_exact:
  assumes "coll_inv c" "length (groups (row_groups c)) < 2 ^ 63" "valid_txn t" "0 < start_time t"
    and "\<forall>row_id \<in> set ids. coll_row_start c \<le> row_id \<and> row_id < 2 ^ 64"
  shows "\<exists>t'. coll_Fetch t ids (row_groups c) = Some (Inr (filter (\<lambda>row_id. row_id - coll_row_start c < total_rows c
        \<and> sees t (table_ids c ! (row_id - coll_row_start c))) ids, t')) \<and> groups t' = groups (row_groups c)"
proof -
  have "holds (row_groups c) (groups (row_groups c))" "stacked (coll_row_start c) (groups (row_groups c))"
      "\<forall>g \<in> set (groups (row_groups c)). rg_inv g" "total_rows c = length (versions (groups (row_groups c)))"
    using assms(1) by (simp_all add: coll_inv_def table_ids_def)
  from coll_Fetch_ok [OF this(1-3) assms(2-5)] this(4) show ?thesis by (auto simp: table_ids_def dest: holds_groups)
qed

theorem coll_Fetch_exact_witness:
  "\<exists>t'. coll_Fetch \<lparr>transaction_id = TRANSACTION_ID_START, start_time = 9\<rparr> [4999, 3, 70000, 3000] (row_groups sample_coll)
     = Some (Inr ([4999, 3, 3000], t'))"
proof -
  let ?t = "\<lparr>transaction_id = TRANSACTION_ID_START, start_time = 9\<rparr>"
  have t: "valid_txn ?t" "0 < start_time ?t" by (simp_all add: valid_txn_def TRANSACTION_ID_START_def NOT_DELETED_ID_def)
  have "sees ?t (0, NOT_DELETED_ID)" by (simp add: sees_def UseVersion_def TransactionVersionOperator_def TRANSACTION_ID_START_def NOT_DELETED_ID_def)
  then show ?thesis using coll_Fetch_exact [OF sample_coll_inv(1) _ t, of "[4999, 3, 70000, 3000]"]
    by (auto simp: sample_coll_groups sample_coll_inv(2))
qed

text \<open>
  C4: deleting rows by row id from a table. A delete of up to a vector of ids, in any order, with
  duplicates and from any number of row groups, always returns or throws. It throws a \<open>TransactionException\<close> exactly
  when one of the rows was deleted by another transaction, and otherwise marks exactly the given rows with the
  transaction. In both cases the table stays well formed, and no row but the given ones is marked.
\<close>

theorem coll_Delete_outcome:
  assumes "coll_inv c" "length (groups (row_groups c)) < 2 ^ 63" "tid \<noteq> NOT_DELETED_ID" "tid \<noteq> 0"
    and "ids \<noteq> []" "length ids \<le> STANDARD_VECTOR_SIZE" "table_delete_ids (coll_row_start c) (table_ids c) ids"
  shows "\<exists>t' undo' k D. coll_Delete tid ids undo (row_groups c)
        = Some ((t', undo', k), if delete_conflict tid (coll_row_start c) (table_ids c) ids then Some TransactionException else None)
    \<and> coll_inv (c\<lparr>row_groups := t'\<rparr>) \<and> length (groups t') = length (groups (row_groups c))
    \<and> table_ids (c\<lparr>row_groups := t'\<rparr>) = mark_deleted tid D (table_ids c)
    \<and> D \<subseteq> (\<lambda>row_id. row_id - coll_row_start c) ` set ids
    \<and> (\<not> delete_conflict tid (coll_row_start c) (table_ids c) ids \<longrightarrow> D = (\<lambda>row_id. row_id - coll_row_start c) ` set ids)"
proof -
  let ?gs = "groups (row_groups c)" and ?r = "coll_row_start c"
  have inv: "holds (row_groups c) ?gs" "stacked ?r ?gs" "\<forall>g \<in> set ?gs. rg_inv g" "total_rows c = length (versions ?gs)" "table_ids c = versions ?gs"
    using assms(1) by (simp_all add: coll_inv_def table_ids_def)
  from coll_Delete_ok [OF inv(1-3) assms(2-6), of undo] assms(7) obtain t' undo' k gs' D where
    d: "coll_Delete tid ids undo (row_groups c)
        = Some ((t', undo', k), if delete_conflict tid ?r (table_ids c) ids then Some TransactionException else None)"
    "D \<subseteq> (\<lambda>row_id. row_id - ?r) ` set ids" "\<not> delete_conflict tid ?r (table_ids c) ids \<longrightarrow> D = (\<lambda>row_id. row_id - ?r) ` set ids"
    and h: "holds t' gs'" "stacked ?r gs'" "\<forall>g \<in> set gs'. rg_inv g" "versions gs' = mark_deleted tid D (table_ids c)" "length gs' = length ?gs"
    unfolding inv(5) by blast
  have "coll_inv (c\<lparr>row_groups := t'\<rparr>)" "table_ids (c\<lparr>row_groups := t'\<rparr>) = mark_deleted tid D (table_ids c)"
      "length (groups t') = length ?gs"
    using coll_inv_holds [of "c\<lparr>row_groups := t'\<rparr>" gs'] h inv(4,5) holds_groups [OF h(1)] by simp_all
  with d show ?thesis by blast
qed

theorem coll_Delete_outcome_witness:
  "\<exists>t1 u1 k1 t2 u2 k2. coll_Delete 7 [4000, 3, 4000, 2999] (Some []) (row_groups sample_coll) = Some ((t1, u1, k1), None)
     \<and> table_ids (sample_coll\<lparr>row_groups := t1\<rparr>) = mark_deleted 7 {4000, 3, 2999} (replicate 5000 (0, NOT_DELETED_ID))
     \<and> coll_Delete 8 [100, 3] (Some []) t1 = Some ((t2, u2, k2), Some TransactionException)"
proof -
  let ?ids = "[4000, 3, 4000, 2999] :: nat list" and ?vs = "replicate 5000 (0, NOT_DELETED_ID)"
  have nd: "7 \<noteq> NOT_DELETED_ID" "8 \<noteq> NOT_DELETED_ID" by (simp_all add: NOT_DELETED_ID_def)
  have ids: "table_delete_ids (coll_row_start sample_coll) (table_ids sample_coll) ?ids" "length ?ids \<le> STANDARD_VECTOR_SIZE"
      "length [100, 3::nat] \<le> STANDARD_VECTOR_SIZE"
    by (simp_all add: table_delete_ids_def sample_coll_groups sample_coll_inv(2) NOT_DELETED_ID_def STANDARD_VECTOR_SIZE_def)
  have "\<not> delete_conflict 7 (coll_row_start sample_coll) (table_ids sample_coll) ?ids"
    by (simp add: delete_conflict_def sample_coll_groups sample_coll_inv(2))
  then obtain t1 u1 k1 where d1: "coll_Delete 7 ?ids (Some []) (row_groups sample_coll) = Some ((t1, u1, k1), None)"
      "coll_inv (sample_coll\<lparr>row_groups := t1\<rparr>)" "table_ids (sample_coll\<lparr>row_groups := t1\<rparr>) = mark_deleted 7 {4000, 3, 2999} ?vs"
      "length (groups t1) = 2"
    using coll_Delete_outcome [OF sample_coll_inv(1) _ nd(1) _ _ ids(2,1), of "Some []"]
    by (auto simp: sample_coll_groups sample_coll_inv(2) insert_commute)
  have at: "mark_deleted 7 {4000, 3, 2999} ?vs ! 3 = (0, 7)" "mark_deleted 7 {4000, 3, 2999} ?vs ! 100 = (0, NOT_DELETED_ID)"
    by (simp_all add: mark_deleted_def)
  have small: "length (groups (row_groups (sample_coll\<lparr>row_groups := t1\<rparr>))) < 2 ^ 63" using d1(4) by simp
  have "table_delete_ids (coll_row_start (sample_coll\<lparr>row_groups := t1\<rparr>)) (table_ids (sample_coll\<lparr>row_groups := t1\<rparr>)) [100, 3]"
      "delete_conflict 8 (coll_row_start (sample_coll\<lparr>row_groups := t1\<rparr>)) (table_ids (sample_coll\<lparr>row_groups := t1\<rparr>)) [100, 3]"
    unfolding d1(3) using at nd by (simp_all add: table_delete_ids_def delete_conflict_def sample_coll_groups NOT_DELETED_ID_def)
  with coll_Delete_outcome [OF d1(2) small nd(2) _ _ ids(3), of "Some []"] d1 show ?thesis by auto
qed

text \<open>
  C6: merging the row groups of another collection appends its rows, with their versions, behind the
  rows of this one, moves every row group to its new start, relinks them, and leaves the other collection empty.
\<close>

theorem MergeStorage_refines:
  assumes "coll_inv c" "coll_inv d"
  shows "\<exists>c' d'. MergeStorage d c = Inr (c', d') \<and> coll_inv c' \<and> table_ids c' = table_ids c @ table_ids d \<and> groups (row_groups d') = []"
  by (rule MergeStorage_ok [OF assms])

theorem MergeStorage_refines_witness:
  "\<exists>c' d'. MergeStorage sample_coll sample_coll = Inr (c', d') \<and> table_ids c' = replicate 10000 (0, NOT_DELETED_ID)"
  using MergeStorage_refines [OF sample_coll_inv(1) sample_coll_inv(1)] by (auto simp: sample_coll_inv(2) simp flip: replicate_add)

section \<open>Reverting before the append is finalized\<close>

text \<open>
  Between \<open>Append\<close> and \<open>FinalizeAppend\<close> the row groups have their old counts, and a row group that the
  append added starts behind a gap. The index error path reverts in this state.
\<close>

lemma unfinalized_start:
  assumes "stacked 0 (pre @ [g])" "i < length (pre @ g # news (rg_start g) k)"
  shows "rg_start ((pre @ g # news (rg_start g) k) ! i)
      = (if i \<le> length pre then group_pos (pre @ [g]) i else rg_start g + (i - length pre) * ROW_GROUP_SIZE)"
    and "rg_count ((pre @ g # news (rg_start g) k) ! i) = (if i \<le> length pre then rg_count ((pre @ [g]) ! i) else 0)"
proof -
  have low: "(pre @ g # news (rg_start g) k) ! i = (pre @ [g]) ! i" if "i \<le> length pre" using that by (auto simp: nth_append)
  have high: "(pre @ g # news (rg_start g) k) ! i = RowGroup_new (rg_start g + (i - length pre) * ROW_GROUP_SIZE) 0" if "\<not> i \<le> length pre"
  proof -
    define m where "m = i - length pre - 1"
    have "i = length pre + Suc m" "m < k" using that assms(2) by (auto simp: m_def)
    then show ?thesis by (simp add: nth_append news_def)
  qed
  show "rg_start ((pre @ g # news (rg_start g) k) ! i)
      = (if i \<le> length pre then group_pos (pre @ [g]) i else rg_start g + (i - length pre) * ROW_GROUP_SIZE)"
    using low high stacked_start [OF assms(1), of i] by auto
  show "rg_count ((pre @ g # news (rg_start g) k) ! i) = (if i \<le> length pre then rg_count ((pre @ [g]) ! i) else 0)"
    using low high by auto
qed

lemma group_pos_mono: "i < j \<Longrightarrow> j \<le> length gs \<Longrightarrow> group_pos gs i + rg_count (gs ! i) \<le> group_pos gs j"
proof -
  assume ij: "i < j" "j \<le> length gs"
  have "take j gs = take (Suc i) gs @ drop (Suc i) (take j gs)" using ij by (metis Suc_leI append_take_drop_id min_def take_take)
  then have "group_pos gs (Suc i) \<le> group_pos gs j" by (metis group_pos_def le_add1 length_append versions_simps(3))
  then show ?thesis using group_pos_Suc [of i gs] ij by simp
qed

lemma sub_row_wraps:
  assumes "c < d" "d - c < 2 ^ 63"
  shows "sub_row (s + c) (s + d) = 2 ^ 64 - (d - c)"
proof -
  have "(int (s + c) - int (s + d)) mod 2 ^ 64 = (int c - int d + 2 ^ 64) mod 2 ^ 64" by simp
  also have "\<dots> = int c - int d + 2 ^ 64" using assms by (intro mod_pos_pos_trivial) auto
  finally show ?thesis using assms by (simp add: sub_row_def)
qed

lemma unfinalized_search:
  assumes st: "stacked 0 (pre @ [g])" and g: "rg_count g \<le> ROW_GROUP_SIZE" and size: "length pre + Suc k < 2 ^ 63"
  defines "gs \<equiv> pre @ g # news (rg_start g) k"
  shows "TryGetSegmentIndex (length (versions (pre @ [g]))) (loaded gs) = (Some (Inr None), loaded gs)"
proof -
  let ?S = "length (versions (pre @ [g]))"
  have len: "length gs = length pre + Suc k" by (simp add: gs_def)
  have S: "?S = rg_start g + rg_count g" "group_pos (pre @ [g]) (length pre) = rg_start g" "group_pos (pre @ [g]) (Suc (length pre)) = ?S"
    using st by (simp_all add: stacked_append group_pos_def)
  have nd: "row_start (nodes_of gs ! i) = rg_start (gs ! i)" "node_end (nodes_of gs ! i) = rg_start (gs ! i) + rg_count (gs ! i)"
    if "i < length gs" for i using that by (simp_all add: node_end_def)
  note [simp del] = nodes_of_nth(2)
  note u = unfinalized_start [OF st, of _ k, folded gs_def]
  have before: "node_end (nodes_of gs ! i) \<le> ?S" if "i \<le> length pre" for i
  proof -
    have "i < length gs" using that len by simp
    then show ?thesis using u [of i] that nd(2) [of i] group_pos_mono [of i "Suc (length pre)" "pre @ [g]"] S(3) by simp
  qed
  have "sorted_nodes (nodes_of gs)"
    unfolding sorted_nodes_def
  proof (intro allI impI)
    fix i j assume "i < j" "j < length (nodes_of gs)"
    then have ij: "i < j" "j < length gs" "i < length gs" by simp_all
    show "node_end (nodes_of gs ! i) \<le> row_start (nodes_of gs ! j)"
    proof (cases "j \<le> length pre")
      case True
      then show ?thesis using u [OF ij(3)] u [OF ij(2)] nd ij group_pos_mono [of i j "pre @ [g]"] by simp
    next
      case False
      then have "Suc 0 \<le> j - length pre" by simp
      from mult_le_mono1 [OF this, of ROW_GROUP_SIZE] have "rg_count g \<le> (j - length pre) * ROW_GROUP_SIZE" using g by linarith
      then have hi: "?S \<le> row_start (nodes_of gs ! j)" using False u(1) [OF ij(2)] nd(1) [OF ij(2)] S(1) by simp
      show ?thesis
      proof (cases "i \<le> length pre")
        case True
        then show ?thesis using before hi order_trans by blast
      next
        case i: False
        have "(i - length pre) * ROW_GROUP_SIZE \<le> (j - length pre) * ROW_GROUP_SIZE" using ij(1) by (intro mult_le_mono1) simp
        then show ?thesis using i False u [OF ij(3)] u [OF ij(2)] nd(1) [OF ij(2)] nd(2) [OF ij(3)] by simp
      qed
    qed
  qed
  moreover have "row_start (hd (nodes_of gs)) \<le> ?S"
    using u(1) [of 0] nd(1) [of 0] len by (simp add: hd_conv_nth group_pos_def flip: length_greater_0_conv)
  ultimately obtain r where r: "binary_search (nodes_of gs) ?S 0 (length gs - 1) = Some (Inr r)"
      "case r of Some i \<Rightarrow> i < length gs \<and> row_start (nodes_of gs ! i) \<le> ?S \<and> ?S < node_end (nodes_of gs ! i) | None \<Rightarrow> True"
    using binary_search_finds [of "nodes_of gs" ?S "length gs - 1" 0] len size by (fastforce split: option.splits)
  have "r = None"
  proof (cases r)
    case (Some i)
    then have i: "i < length gs" "rg_start (gs ! i) \<le> ?S" "?S < rg_start (gs ! i) + rg_count (gs ! i)" using r(2) nd by auto
    then have "\<not> i \<le> length pre" using before [of i] nd(2) [of i] by auto
    then show ?thesis using i u(2) [OF i(1)] by simp
  qed
  then show ?thesis using r(1) len by (auto simp: TryGetSegmentIndex_def load_while_finished Let_def)
qed

text \<open>
  C33: an append that has gone beyond the row group it started in and is reverted before it was finalized
  (\<open>AppendToIndexes\<close> of the local storage does so when an index rejects a row) is reverted at the wrong place. The search of
  \<open>RevertAppendInternal\<close> does not find the first row of the append, because the row groups still have their old counts;
  the fallback, the last row group, was added by the append, is empty and starts behind that row, and
  the unsigned offset at which it is cut wraps round to a number beyond every row group.
\<close>

theorem revert_unfinalized_append:
  assumes c: "coll_inv c" "coll_row_start c = 0" "groups (row_groups c) \<noteq> []"
    and over: "rg_count (last (groups (row_groups c))) < ROW_GROUP_SIZE" "ROW_GROUP_SIZE < rg_count (last (groups (row_groups c))) + sum_list ns"
    and run: "coll_InitializeAppend c TableAppendState_new = Inr (c0, st0)" "append_sizes ns c0 st0 = Some (Inr (c1, st1))"
    and size: "Suc (length (groups (row_groups c)) + sum_list ns) < 2 ^ 63"
  shows "TryGetSegmentIndex (total_rows c) (row_groups c1) = (Some (Inr None), row_groups c1)
    \<and> total_rows c < rg_start (last (groups (row_groups c1))) \<and> rg_count (last (groups (row_groups c1))) = 0
    \<and> ROW_GROUP_SIZE < sub_row (total_rows c) (rg_start (last (groups (row_groups c1))))"
proof -
  let ?gs0 = "groups (row_groups c)" and ?n = "sum_list ns" and ?N = ROW_GROUP_SIZE
  have inv: "holds (row_groups c) ?gs0" "stacked (coll_row_start c) ?gs0" "\<forall>g \<in> set ?gs0. rg_inv g" "total_rows c = length (versions ?gs0)"
    using c(1) by (simp_all add: coll_inv_def table_ids_def)
  from coll_InitializeAppend_ok [OF inv(1-3), of TableAppendState_new] run(1) c(3) obtain pre g where
    i: "appending pre g 0 0 c0 st0" "pre @ [g] = ?gs0" "total_append_count st0 = 0" "start_row_group st0 = Some (length pre)" by auto
  have g: "rg_count g < ?N" "?N < rg_count g + ?n" using over by (simp_all flip: i(2))
  from append_sizes_ok [OF i(1) _ i(3,4), of ns] run(2) obtain k where
    k: "row_groups c1 = loaded (pre @ g # news (rg_start g) k)" "rg_count g + ?n = k * ?N + offset_in_row_group st1" "offset_in_row_group st1 \<le> ?N"
      "0 < k \<longrightarrow> 0 < offset_in_row_group st1" by (auto simp: appending_def)
  have k0: "0 < k" using k(2,3) g(2) by (cases k) auto
  have "k \<le> ?n"
  proof -
    obtain k' where k': "k = Suc k'" using k0 by (cases k) auto
    then have "k' * ?N < ?n" using k(2) g(1) k0 k(4) by simp
    moreover have "k' \<le> k' * ?N" by (simp add: ROW_GROUP_SIZE_def)
    ultimately show ?thesis using k' by linarith
  qed
  then have small: "length pre + Suc k < 2 ^ 63" using size by (simp flip: i(2))
  let ?gs = "pre @ g # news (rg_start g) k" and ?S = "length (versions (pre @ [g]))"
  have st: "stacked 0 (pre @ [g])" using inv(2) c(2) i(2) by simp
  have last: "last (groups (row_groups c1)) = RowGroup_new (rg_start g + k * ?N) 0"
    using k0 unfolding k(1) groups_loaded by (cases k) (simp_all add: news_def)
  have S: "?S = rg_start g + rg_count g" using st by (simp add: stacked_append)
  have total: "total_rows c = ?S" using inv(4) i(2) by simp
  have gap: "rg_count g < k * ?N" "k * ?N - rg_count g < 2 ^ 63" using g(1) k0 k(2) size by (cases k; simp)+
  then have "sub_row ?S (rg_start g + k * ?N) = 2 ^ 64 - (k * ?N - rg_count g)" unfolding S by (rule sub_row_wraps)
  then have "?N < sub_row ?S (rg_start g + k * ?N)" using gap(2) by (simp add: ROW_GROUP_SIZE_def)
  then show ?thesis
    using unfinalized_search [OF st less_imp_le [OF g(1)] small] gap(1) S last unfolding total by (simp add: k(1) RowGroup_new_def)
qed

theorem revert_unfinalized_append_witness:
  "\<exists>c0 st0 c1 st1. coll_InitializeAppend sample_coll TableAppendState_new = Inr (c0, st0)
     \<and> append_sizes [100000, 100000] c0 st0 = Some (Inr (c1, st1))
     \<and> TryGetSegmentIndex 5000 (row_groups c1) = (Some (Inr None), row_groups c1) \<and> 5000 < rg_start (last (groups (row_groups c1)))"
proof -
  let ?gs = "groups (row_groups sample_coll)"
  have inv: "holds (row_groups sample_coll) ?gs" "stacked (coll_row_start sample_coll) ?gs" "\<forall>g \<in> set ?gs. rg_inv g"
    using sample_coll_inv(1) by (simp_all add: coll_inv_def)
  from coll_InitializeAppend_ok [OF inv, of TableAppendState_new] obtain c0 st0 pre g where
    i: "coll_InitializeAppend sample_coll TableAppendState_new = Inr (c0, st0)" "appending pre g 0 0 c0 st0" "total_append_count st0 = 0" by blast
  from append_sizes_ok [OF i(2) _ i(3) refl, of "[100000, 100000]"] obtain c1 st1 where
    a: "append_sizes [100000, 100000] c0 st0 = Some (Inr (c1, st1))" by auto
  have "rg_count (last ?gs) = 2000" "total_rows sample_coll = 5000" by (simp_all add: sample_coll_groups load_inv)
  with revert_unfinalized_append [OF sample_coll_inv(1) _ _ _ _ i(1) a] show ?thesis using i(1) a
    by (auto simp: sample_coll_groups load_inv ROW_GROUP_SIZE_def)
qed

end
