(* ===== verification/String_Type.thy ===== *)
theory String_Type
  imports String_Stats Byte_Stream
begin

text \<open>
  The string values of vectors, \<^verbatim>\<open>string_t\<close> of
  \<^verbatim>\<open>src/src/include/duckdb/common/types/string_type.hpp\<close>, and their comparison.

  A \<open>string_t\<close> is a 16-byte object: a 32-bit length, then either the bytes of a string of at
  most 12 bytes, padded with zeros, or the first 4 bytes of the string and a pointer to all of
  them. The object is kept here as its length and the 12 bytes after it. The memory that pointers
  point to is a function from an address to the bytes that can be read from there on. The
  comparisons load 4 or 8 bytes of the object at a time, and \<open>GreaterThan\<close> turns the
  little-endian prefix round with shifts and masks.
\<close>

section \<open>The object\<close>

type_synonym memory = "nat \<Rightarrow> bytes"

record string_t =
  st_length :: "32 word"
  st_inlined :: bytes

definition PREFIX_LENGTH :: nat where
  "PREFIX_LENGTH = 4"

definition INLINE_LENGTH :: nat where
  "INLINE_LENGTH = 12"

definition st_GetSize :: "string_t \<Rightarrow> nat" where
  "st_GetSize s = unat (st_length s)"

definition IsInlined :: "string_t \<Rightarrow> bool" where
  "IsInlined s \<longleftrightarrow> st_GetSize s \<le> INLINE_LENGTH"

definition st_pointer :: "string_t \<Rightarrow> nat" where
  "st_pointer s = le_nat (drop PREFIX_LENGTH (st_inlined s))"

definition st_GetData :: "memory \<Rightarrow> string_t \<Rightarrow> bytes" where
  "st_GetData heap s = (if IsInlined s then st_inlined s else heap (st_pointer s))"

definition memcpy :: "bytes \<Rightarrow> nat \<Rightarrow> exc + bytes" where
  "memcpy src n = (if n \<le> length src then Inr (take n src) else Inl OutOfBounds)"

text \<open>The constructor from a pointer and a length, and the one from a \<open>std::string\<close>, which narrows the size.\<close>

definition string_t_new :: "memory \<Rightarrow> nat \<Rightarrow> 32 word \<Rightarrow> exc + string_t" where
  "string_t_new heap data len =
     (if unat len \<le> INLINE_LENGTH
      then if len = 0 then Inr \<lparr>st_length = len, st_inlined = replicate INLINE_LENGTH 0\<rparr>
           else bind_res (memcpy (heap data) (unat len)) (\<lambda>bs.
             Inr \<lparr>st_length = len, st_inlined = bs @ drop (unat len) (replicate INLINE_LENGTH 0)\<rparr>)
      else bind_res (memcpy (heap data) PREFIX_LENGTH) (\<lambda>prefix.
             Inr \<lparr>st_length = len, st_inlined = prefix @ le_bytes 8 data\<rparr>))"

definition string_t_of_string :: "memory \<Rightarrow> nat \<Rightarrow> nat \<Rightarrow> exc + string_t" where
  "string_t_of_string heap c_str n = string_t_new heap c_str (word_of_nat n)"

definition GetString :: "memory \<Rightarrow> string_t \<Rightarrow> exc + bytes" where
  "GetString heap s = memcpy (st_GetData heap s) (st_GetSize s)"

text \<open>\<open>Finalize\<close>, after the bytes were written in place: the padding or the prefix.\<close>

definition Finalize :: "memory \<Rightarrow> string_t \<Rightarrow> exc + string_t" where
  "Finalize heap s =
     (if st_GetSize s \<le> INLINE_LENGTH
      then Inr (s\<lparr>st_inlined := take (st_GetSize s) (st_inlined s) @ replicate (INLINE_LENGTH - st_GetSize s) 0\<rparr>)
      else bind_res (memcpy (st_GetData heap s) PREFIX_LENGTH) (\<lambda>prefix.
             Inr (s\<lparr>st_inlined := prefix @ drop PREFIX_LENGTH (st_inlined s)\<rparr>)))"

section \<open>Comparison\<close>

fun memcmp_loop :: "nat \<Rightarrow> bytes \<Rightarrow> bytes \<Rightarrow> int" where
  "memcmp_loop (Suc n) (x # xs) (y # ys) = (if x < y then - 1 else if y < x then 1 else memcmp_loop n xs ys)"
| "memcmp_loop n xs ys = 0"

definition memcmp :: "bytes \<Rightarrow> bytes \<Rightarrow> nat \<Rightarrow> exc + int" where
  "memcmp xs ys n = (if n \<le> length xs \<and> n \<le> length ys then Inr (memcmp_loop n xs ys) else Inl OutOfBounds)"

text \<open>\<open>Load<uint64_t>\<close> on the object at an offset, and \<open>Load<uint32_t>\<close> on the prefix.\<close>

definition object_bytes :: "string_t \<Rightarrow> bytes" where
  "object_bytes s = le_bytes 4 (unat (st_length s)) @ st_inlined s"

definition load_u64 :: "string_t \<Rightarrow> nat \<Rightarrow> u64" where
  "load_u64 s off = word_of_nat (le_nat (take 8 (drop off (object_bytes s))))"

definition load_prefix :: "string_t \<Rightarrow> 32 word" where
  "load_prefix s = word_of_nat (le_nat (take PREFIX_LENGTH (st_inlined s)))"

definition st_Equals :: "memory \<Rightarrow> string_t \<Rightarrow> string_t \<Rightarrow> exc + bool" where
  "st_Equals heap a b =
     (if load_u64 a 0 \<noteq> load_u64 b 0 then Inr False
      else if load_u64 a 8 = load_u64 b 8 then Inr True
      else if \<not> IsInlined a
           then bind_res (memcmp (heap (st_pointer a)) (heap (st_pointer b)) (st_GetSize a)) (\<lambda>r. Inr (r = 0))
      else Inr False)"

definition byte_swap :: "32 word \<Rightarrow> 32 word" where
  "byte_swap v =
     (let t1 = drop_bit 16 v OR push_bit 16 v; t2 = t1 AND 0x00ff00ff; t3 = t1 AND 0xff00ff00
      in push_bit 8 t2 OR drop_bit 8 t3)"

definition st_GreaterThan :: "memory \<Rightarrow> string_t \<Rightarrow> string_t \<Rightarrow> exc + bool" where
  "st_GreaterThan heap left right =
     (let left_length = st_GetSize left; right_length = st_GetSize right; min_length = min left_length right_length;
          a_prefix = load_prefix left; b_prefix = load_prefix right
      in if a_prefix \<noteq> b_prefix then Inr (byte_swap a_prefix > byte_swap b_prefix)
         else bind_res (memcmp (st_GetData heap left) (st_GetData heap right) min_length) (\<lambda>r.
                Inr (r > 0 \<or> r = 0 \<and> left_length > right_length)))"

text \<open>The comparison operators of \<^verbatim>\<open>comparison_operators.hpp\<close> on strings, all from \<open>==\<close> and \<open>>\<close>.\<close>

definition st_compare :: "memory \<Rightarrow> ExpressionType \<Rightarrow> string_t \<Rightarrow> string_t \<Rightarrow> exc + bool" where
  "st_compare heap op a b =
     (case op of
        COMPARE_EQUAL \<Rightarrow> st_Equals heap a b
      | COMPARE_NOTEQUAL \<Rightarrow> bind_res (st_Equals heap a b) (\<lambda>r. Inr (\<not> r))
      | COMPARE_LESSTHAN \<Rightarrow> st_GreaterThan heap b a
      | COMPARE_GREATERTHAN \<Rightarrow> st_GreaterThan heap a b
      | COMPARE_LESSTHANOREQUALTO \<Rightarrow> bind_res (st_GreaterThan heap a b) (\<lambda>r. Inr (\<not> r))
      | COMPARE_GREATERTHANOREQUALTO \<Rightarrow> bind_res (st_GreaterThan heap b a) (\<lambda>r. Inr (\<not> r))
      | _ \<Rightarrow> Inl NotImplementedException)"

section \<open>What an object stands for\<close>

definition bytes_of :: "memory \<Rightarrow> string_t \<Rightarrow> bytes" where
  "bytes_of heap s = take (st_GetSize s) (st_GetData heap s)"

definition st_wf :: "memory \<Rightarrow> string_t \<Rightarrow> bool" where
  "st_wf heap s \<longleftrightarrow>
     length (st_inlined s) = INLINE_LENGTH
     \<and> (if IsInlined s
        then drop (st_GetSize s) (st_inlined s) = replicate (INLINE_LENGTH - st_GetSize s) 0
        else st_GetSize s \<le> length (heap (st_pointer s))
          \<and> take PREFIX_LENGTH (st_inlined s) = take PREFIX_LENGTH (heap (st_pointer s)))"

lemmas st_defs = st_wf_def bytes_of_def st_GetData_def IsInlined_def PREFIX_LENGTH_def INLINE_LENGTH_def

section \<open>Loads as numbers\<close>

lemma le_nat_Cons [simp]: "le_nat [] = 0" "le_nat (b # bs) = unat b + 256 * le_nat bs"
  by (simp_all add: le_nat_def)

lemma le_nat_less: "le_nat bs < 256 ^ length bs"
proof (induction bs)
  case (Cons b bs)
  have "unat b < 256" using unsigned_less [of b, where ?'a = nat] by simp
  with Cons show ?case by simp
qed simp

lemma digit_eq_iff: "a < 256 \<Longrightarrow> c < 256 \<Longrightarrow> a + 256 * m = c + 256 * n \<longleftrightarrow> a = c \<and> m = n" for a c m n :: nat
  by (metis add_left_cancel mod_less mod_mult_self2 mult_cancel1 zero_neq_numeral)

lemma le_nat_inj: "length xs = length ys \<Longrightarrow> le_nat xs = le_nat ys \<longleftrightarrow> xs = ys"
proof (induction xs ys rule: list_induct2)
  case (Cons x xs y ys)
  have b: "unat x < 256" "unat y < 256" using unsigned_less [where ?'a = nat and ?'b = 8] by simp_all
  have "unat x + 256 * m = unat y + 256 * n \<longleftrightarrow> unat x = unat y \<and> m = n" for m n
    by (rule digit_eq_iff [OF b])
  with Cons show ?case by (simp add: unsigned_word_eqI word_unat_eq_iff)
qed simp

lemma le_nat_append: "le_nat (xs @ ys) = le_nat xs + 256 ^ length xs * le_nat ys"
  by (induction xs) (simp_all add: algebra_simps)

lemma word_of_nat_inj:
  "m < 2 ^ LENGTH('w::len) \<Longrightarrow> n < 2 ^ LENGTH('w) \<Longrightarrow> (word_of_nat m :: 'w word) = word_of_nat n \<longleftrightarrow> m = n"
  by (simp only: word_unat_eq_iff unsigned_of_nat of_nat_id take_bit_eq_mod mod_less)

lemma word_of_nat_less:
  "m < 2 ^ LENGTH('w::len) \<Longrightarrow> n < 2 ^ LENGTH('w) \<Longrightarrow> (word_of_nat m :: 'w word) < word_of_nat n \<longleftrightarrow> m < n"
  by (simp only: word_less_nat_alt unsigned_of_nat of_nat_id take_bit_eq_mod mod_less)

text \<open>Reading the bytes in reverse gives the number whose order is the order of the bytes.\<close>

lemma be_nat_less:
  "length xs = length ys \<Longrightarrow> le_nat (rev xs) < le_nat (rev ys) \<longleftrightarrow> bytes_less xs ys"
proof (induction xs ys rule: list_induct2)
  case (Cons x xs y ys)
  let ?k = "256 ^ length ys :: nat" and ?m = "le_nat (rev xs)" and ?n = "le_nat (rev ys)"
  have b: "?m < ?k" "?n < ?k" using le_nat_less [of "rev xs"] le_nat_less [of "rev ys"] Cons.hyps by simp_all
  have lt: "a < c \<Longrightarrow> m + ?k * a < n + ?k * c" if "m < ?k" for a c m n :: nat
  proof -
    assume "a < c"
    then have "?k * Suc a \<le> ?k * c" by (intro mult_le_mono2) simp
    with that show ?thesis by simp
  qed
  have "?m + ?k * unat x < ?n + ?k * unat y \<longleftrightarrow> unat x < unat y \<or> unat x = unat y \<and> ?m < ?n"
    using lt [OF b(1), of "unat x" "unat y" ?n] lt [OF b(2), of "unat y" "unat x" ?m]
    by (cases "unat x" "unat y" rule: linorder_cases) auto
  then show ?case using Cons by (simp add: le_nat_append word_less_nat_alt word_unat_eq_iff)
qed simp

lemma word_of_nat_bytes:
  "(word_of_nat (unat (b :: 8 word) + 256 * n) :: 32 word) = ucast b OR push_bit 8 (word_of_nat n)"
proof -
  have "(ucast b :: 32 word) AND push_bit 8 (word_of_nat n) = 0"
    by (intro bit_word_eqI) (auto simp: bit_and_iff bit_push_bit_iff bit_ucast_iff dest: bit_imp_le_length)
  then have "ucast b OR push_bit 8 (word_of_nat n) = (ucast b :: 32 word) + push_bit 8 (word_of_nat n)"
    by (simp add: disjunctive_add_eq_or)
  also have "\<dots> = word_of_nat (unat b + 256 * n)"
    by (simp add: push_bit_eq_mult)
  finally show ?thesis by simp
qed

lemma swap_masks:
  "(0x00ff00ff :: 32 word) = mask 8 OR push_bit 16 (mask 8)"
  "(0xff00ff00 :: 32 word) = push_bit 8 (mask 8) OR push_bit 24 (mask 8)"
  by (simp_all add: mask_eq_decr_exp)

lemma no_bit_8: "8 \<le> n \<Longrightarrow> \<not> bit (b :: 8 word) n"
  by (auto dest: bit_imp_le_length)

lemma byte_swap_rev:
  assumes "length bs = 4"
  shows "byte_swap (word_of_nat (le_nat bs)) = word_of_nat (le_nat (rev bs))"
proof -
  obtain a b c d where bs: "bs = [a, b, c, d]"
    using assms by (auto simp: numeral_eq_Suc length_Suc_conv)
  have "byte_swap (ucast a OR push_bit 8 (ucast b OR push_bit 8 (ucast c OR push_bit 8
        (ucast d OR push_bit 8 (word_of_nat 0))))) =
      ucast d OR push_bit 8 (ucast c OR push_bit 8 (ucast b OR push_bit 8 (ucast a OR push_bit 8 (word_of_nat 0))))"
    (is "?l = ?r")
  proof (intro bit_word_eqI)
    fix j assume "j < LENGTH(32)"
    then consider "j < 8" | "8 \<le> j" "j < 16" | "16 \<le> j" "j < 24" | "24 \<le> j" "j < 32" by fastforce
    then show "bit ?l j = bit ?r j"
      by cases (simp_all add: byte_swap_def Let_def swap_masks bit_simps bit_ucast_iff no_bit_8, linarith+)
  qed
  then show ?thesis
    by (simp only: bs le_nat_Cons rev.simps append.simps word_of_nat_bytes)
qed

section \<open>The comparisons are the order of the bytes\<close>

lemma pad_append: "length xs \<le> n \<Longrightarrow> pad n xs = xs @ replicate (n - length xs) 0"
  by (induction n xs rule: pad.induct) (auto simp: pad_Nil)

lemma pad_take: "n \<le> length xs \<Longrightarrow> pad n xs = take n xs"
  by (induction n xs rule: pad.induct) auto

lemma take_pad: "m \<le> n \<Longrightarrow> take m (pad n xs) = pad m xs"
proof (induction n xs arbitrary: m rule: pad.induct)
  case (2 n)
  then show ?case by (cases m) auto
next
  case (3 n x xs)
  then show ?case by (cases m) auto
qed simp

lemma pad_decides: "pad n x \<noteq> pad n y \<Longrightarrow> bytes_less (pad n y) (pad n x) \<longleftrightarrow> bytes_less y x"
proof (induction n arbitrary: x y)
  case (Suc n)
  have nz: "0 < b \<longleftrightarrow> b \<noteq> 0" for b :: "8 word" by (simp add: word_gt_0)
  show ?case
  proof (cases x)
    case x: Nil
    then show ?thesis using Suc by (cases y) (auto simp: nz)
  next
    case x: (Cons a xs)
    show ?thesis
    proof (cases y)
      case Nil
      have "xs \<noteq> []" if "a = 0" using Suc.prems x Nil that by auto
      then have "bytes_less [] xs" if "a = 0" using that by (cases xs) auto
      then show ?thesis using Suc.IH [of xs "[]"] Suc.prems x Nil by (auto simp: nz)
    next
      case (Cons b ys)
      then show ?thesis using Suc.IH [of xs ys] Suc.prems x by auto
    qed
  qed
qed simp

lemma length_bytes_of: "st_wf heap s \<Longrightarrow> length (bytes_of heap s) = st_GetSize s"
  by (auto simp: st_defs)

lemma inlined_pad: "st_wf heap s \<Longrightarrow> IsInlined s \<Longrightarrow> st_inlined s = pad INLINE_LENGTH (bytes_of heap s)"
proof -
  assume wf: "st_wf heap s" and i: "IsInlined s"
  let ?n = "st_GetSize s"
  have "st_inlined s = take ?n (st_inlined s) @ replicate (INLINE_LENGTH - ?n) 0"
    using wf i append_take_drop_id [of ?n "st_inlined s"] by (simp add: st_wf_def)
  moreover have "length (take ?n (st_inlined s)) = ?n" using wf i by (simp add: st_defs)
  ultimately show ?thesis using i by (simp add: pad_append bytes_of_def st_GetData_def IsInlined_def)
qed

lemma prefix_pad: "st_wf heap s \<Longrightarrow> take PREFIX_LENGTH (st_inlined s) = pad PREFIX_LENGTH (bytes_of heap s)"
proof (cases "IsInlined s")
  case True
  then show "st_wf heap s \<Longrightarrow> ?thesis" by (simp add: inlined_pad take_pad PREFIX_LENGTH_def INLINE_LENGTH_def)
next
  case False
  then show "st_wf heap s \<Longrightarrow> ?thesis" by (auto simp: pad_take st_defs)
qed

lemma load_prefix_pad: "st_wf heap s \<Longrightarrow> load_prefix s = word_of_nat (le_nat (pad 4 (bytes_of heap s)))"
  using prefix_pad [of heap s] by (simp add: load_prefix_def PREFIX_LENGTH_def)

lemma le_nat_32: "length bs = 4 \<Longrightarrow> le_nat bs < 2 ^ LENGTH(32)"
  using le_nat_less [of bs] by simp

lemma le_nat_64: "length bs = 8 \<Longrightarrow> le_nat bs < 2 ^ LENGTH(64)"
  using le_nat_less [of bs] by simp

lemma memcmp_loop_take: "n \<le> j \<Longrightarrow> n \<le> k \<Longrightarrow> memcmp_loop n (take j xs) (take k ys) = memcmp_loop n xs ys"
proof (induction n xs ys arbitrary: j k rule: memcmp_loop.induct)
  case (1 n x xs y ys)
  then show ?case by (cases j; cases k) auto
qed auto

lemma memcmp_loop_less:
  "(let r = memcmp_loop (min (length x) (length y)) x y in r > 0 \<or> r = 0 \<and> length x > length y) \<longleftrightarrow> bytes_less y x"
  by (induction y x rule: bytes_less.induct) (auto simp: Let_def)

lemma memcmp_loop_eq: "n \<le> length xs \<Longrightarrow> n \<le> length ys \<Longrightarrow> memcmp_loop n xs ys = 0 \<longleftrightarrow> take n xs = take n ys"
  by (induction n xs ys rule: memcmp_loop.induct) auto

lemma st_GetData_size: "st_wf heap s \<Longrightarrow> st_GetSize s \<le> length (st_GetData heap s)"
  by (auto simp: st_defs)

lemma st_GreaterThan_bytes:
  assumes "st_wf heap a" "st_wf heap b"
  shows "st_GreaterThan heap a b = Inr (bytes_less (bytes_of heap b) (bytes_of heap a))"
proof (cases "load_prefix a = load_prefix b")
  case True
  let ?n = "min (st_GetSize a) (st_GetSize b)"
  have m: "memcmp_loop ?n (st_GetData heap a) (st_GetData heap b) =
      memcmp_loop (min (length (bytes_of heap a)) (length (bytes_of heap b))) (bytes_of heap a) (bytes_of heap b)"
    unfolding length_bytes_of [OF assms(1)] length_bytes_of [OF assms(2)] unfolding bytes_of_def
    by (rule memcmp_loop_take [symmetric]) simp_all
  from True show ?thesis
    using assms st_GetData_size [of heap a] st_GetData_size [of heap b] memcmp_loop_less [of "bytes_of heap a" "bytes_of heap b"]
    by (simp add: st_GreaterThan_def Let_def memcmp_def m length_bytes_of min_le_iff_disj)
next
  case False
  let ?p = "pad 4 (bytes_of heap a)" and ?q = "pad 4 (bytes_of heap b)"
  from False have ne: "?p \<noteq> ?q" unfolding load_prefix_pad [OF assms(1)] load_prefix_pad [OF assms(2)] by metis
  have "byte_swap (load_prefix a) > byte_swap (load_prefix b) \<longleftrightarrow> le_nat (rev ?q) < le_nat (rev ?p)"
    unfolding load_prefix_pad [OF assms(1)] load_prefix_pad [OF assms(2)] byte_swap_rev [OF length_pad]
    by (intro word_of_nat_less le_nat_32) simp_all
  also have "\<dots> \<longleftrightarrow> bytes_less (bytes_of heap b) (bytes_of heap a)"
    using pad_decides [OF ne] by (simp add: be_nat_less)
  finally show ?thesis using False by (simp add: st_GreaterThan_def)
qed

lemma load_u64_eq:
  assumes "length (st_inlined a) = INLINE_LENGTH" "length (st_inlined b) = INLINE_LENGTH"
  shows "load_u64 a 0 = load_u64 b 0 \<longleftrightarrow>
      st_length a = st_length b \<and> take PREFIX_LENGTH (st_inlined a) = take PREFIX_LENGTH (st_inlined b)"
    and "load_u64 a 8 = load_u64 b 8 \<longleftrightarrow> drop PREFIX_LENGTH (st_inlined a) = drop PREFIX_LENGTH (st_inlined b)"
proof -
  have eq: "word_of_nat (le_nat xs) = (word_of_nat (le_nat ys) :: u64) \<longleftrightarrow> xs = ys" if "length xs = 8" "length ys = 8" for xs ys
    using that by (simp only: word_of_nat_inj le_nat_64 le_nat_inj)
  have len: "le_bytes 4 (unat x) = le_bytes 4 (unat y) \<longleftrightarrow> x = y" for x y :: "32 word"
  proof -
    have "unat x mod 256 ^ 4 = unat x" "unat y mod 256 ^ 4 = unat y"
      using unsigned_less [of x, where ?'a = nat] unsigned_less [of y, where ?'a = nat] by simp_all
    then show ?thesis by (metis le_nat_le_bytes word_unat_eq_iff)
  qed
  show "load_u64 a 0 = load_u64 b 0 \<longleftrightarrow>
      st_length a = st_length b \<and> take PREFIX_LENGTH (st_inlined a) = take PREFIX_LENGTH (st_inlined b)"
    using assms by (simp add: load_u64_def object_bytes_def eq len PREFIX_LENGTH_def INLINE_LENGTH_def)
  show "load_u64 a 8 = load_u64 b 8 \<longleftrightarrow> drop PREFIX_LENGTH (st_inlined a) = drop PREFIX_LENGTH (st_inlined b)"
    using assms by (simp add: load_u64_def object_bytes_def eq PREFIX_LENGTH_def INLINE_LENGTH_def)
qed

lemma st_Equals_bytes:
  assumes wf: "st_wf heap a" "st_wf heap b"
  shows "st_Equals heap a b = Inr (bytes_of heap a = bytes_of heap b)"
proof -
  have len: "length (st_inlined a) = INLINE_LENGTH" "length (st_inlined b) = INLINE_LENGTH"
    using wf by (simp_all add: st_wf_def)
  note load = load_u64_eq [OF len]
  show ?thesis
  proof (cases "load_u64 a 0 = load_u64 b 0")
    case False
    then have "st_length a \<noteq> st_length b \<or> pad 4 (bytes_of heap a) \<noteq> pad 4 (bytes_of heap b)"
      using load(1) prefix_pad wf by (auto simp: PREFIX_LENGTH_def)
    then have "bytes_of heap a \<noteq> bytes_of heap b"
      using wf by (metis length_bytes_of st_GetSize_def word_unat_eq_iff)
    with False show ?thesis by (simp add: st_Equals_def)
  next
    case head: True
    then have size: "st_GetSize a = st_GetSize b" "IsInlined a = IsInlined b"
      and pre: "take PREFIX_LENGTH (st_inlined a) = take PREFIX_LENGTH (st_inlined b)"
      using load(1) by (auto simp: st_GetSize_def IsInlined_def)
    show ?thesis
    proof (cases "load_u64 a 8 = load_u64 b 8")
      case True
      with pre load(2) have "st_inlined a = st_inlined b" by (metis append_take_drop_id)
      then have "bytes_of heap a = bytes_of heap b" using size by (simp add: bytes_of_def st_GetData_def st_pointer_def)
      with head True show ?thesis by (simp add: st_Equals_def)
    next
      case False
      then have ne: "st_inlined a \<noteq> st_inlined b" using load(2) by auto
      show ?thesis
      proof (cases "IsInlined a")
        case True
        with ne size have "bytes_of heap a \<noteq> bytes_of heap b" using wf by (metis inlined_pad)
        with head False True show ?thesis by (simp add: st_Equals_def)
      next
        case long: False
        with wf size have "st_GetSize a \<le> length (heap (st_pointer a))" "st_GetSize a \<le> length (heap (st_pointer b))"
          by (simp_all add: st_wf_def)
        with head False long size show ?thesis
          by (simp add: st_Equals_def memcmp_def memcmp_loop_eq bytes_of_def st_GetData_def)
      qed
    qed
  qed
qed

lemma string_t_new_ok:
  assumes "unat len \<le> length (heap data)" "data < 2 ^ 64"
  shows "\<exists>s. string_t_new heap data len = Inr s \<and> st_wf heap s \<and> bytes_of heap s = take (unat len) (heap data)"
proof (cases "unat len \<le> INLINE_LENGTH")
  case True
  then show ?thesis using assms
    by (cases "len = 0") (auto simp: string_t_new_def memcpy_def st_defs st_GetSize_def)
next
  case False
  then show ?thesis using assms
    by (auto simp: string_t_new_def memcpy_def st_defs st_GetSize_def st_pointer_def le_nat_le_bytes)
qed

section \<open>Properties\<close>

definition string_comparison :: "ExpressionType \<Rightarrow> bool" where
  "string_comparison op \<longleftrightarrow>
     op \<in> {COMPARE_EQUAL, COMPARE_NOTEQUAL, COMPARE_LESSTHAN, COMPARE_GREATERTHAN, COMPARE_LESSTHANOREQUALTO,
           COMPARE_GREATERTHANOREQUALTO}"

lemma st_compare_bytes:
  assumes "st_wf heap a" "st_wf heap b" "string_comparison op"
  shows "st_compare heap op a b = Inr (string_holds op (bytes_of heap a) (bytes_of heap b))"
  using assms by (cases op) (simp_all add: st_compare_def string_comparison_def string_holds_def
      st_Equals_bytes st_GreaterThan_bytes)

lemma bytes_less_prefix: "bytes_less (xs @ ys) (xs @ zs) \<longleftrightarrow> bytes_less ys zs"
  by (induction xs) auto

text \<open>
  C27: two strings in memory, each wrapped in a \<open>string_t\<close> by its constructor, whatever their lengths
  (inlined or not, either one): every comparison operator answers as the unsigned lexicographic order
  on the bytes does, and no byte outside the strings is read. The word-wise loads, the byte swap of the
  prefix and the comparison of the pointers are thereby only shortcuts.
\<close>

theorem string_t_order:
  assumes "unat m \<le> length (heap p)" "p < 2 ^ 64" "unat n \<le> length (heap q)" "q < 2 ^ 64" "string_comparison op"
  shows "\<exists>a b. string_t_new heap p m = Inr a \<and> string_t_new heap q n = Inr b
    \<and> st_compare heap op a b = Inr (string_holds op (take (unat m) (heap p)) (take (unat n) (heap q)))"
  using string_t_new_ok [of m heap p] string_t_new_ok [of n heap q] st_compare_bytes [of heap _ _ op] assms by metis

theorem string_t_order_witness:
  "let heap = (\<lambda>x. if x = 16 then replicate 13 97 @ [98] else if x = 64 then replicate 13 97 @ [99] else [97, 97])
   in \<exists>a b. string_t_new heap 16 14 = Inr a \<and> string_t_new heap 64 14 = Inr b
     \<and> st_compare heap COMPARE_LESSTHAN a b = Inr True"
  using string_t_order [of 14 "\<lambda>x. if x = 16 then replicate 13 97 @ [98] else if x = 64 then replicate 13 97 @ [99]
      else [97, 97]" 16 14 64 COMPARE_LESSTHAN]
  by (simp add: Let_def string_comparison_def string_holds_def bytes_less_prefix)

end
