(* ===== verification/Table_Filter.thy ===== *)
theory Table_Filter
  imports Base_Statistics
begin

text \<open>
  The filters that are pushed into a table scan:
  \<^verbatim>\<open>src/src/include/duckdb/planner/table_filter.hpp\<close>, \<^verbatim>\<open>src/src/planner/table_filter.cpp\<close>
  and the filters of \<^verbatim>\<open>src/src/planner/filter/\<close>.

  \<open>CheckStatistics\<close> asks the statistics of a segment whether a filter can be decided for the whole
  segment. Its correctness is stated against \<open>filter_holds\<close>, what a filter means on one value of
  the column. It is a client of the interface \<open>zonemap\<close> through its two interpretations.
\<close>

section \<open>Filters\<close>

datatype TableFilterType =
    CONSTANT_COMPARISON | IS_NULL | IS_NOT_NULL | CONJUNCTION_OR | CONJUNCTION_AND | STRUCT_EXTRACT

datatype TableFilter =
    ConstantFilter ExpressionType Value
  | IsNullFilter
  | IsNotNullFilter
  | ConjunctionOrFilter "TableFilter list"
  | ConjunctionAndFilter "TableFilter list"
  | StructFilter idx_t string TableFilter

fun filter_type :: "TableFilter \<Rightarrow> TableFilterType" where
  "filter_type (ConstantFilter op c) = CONSTANT_COMPARISON"
| "filter_type IsNullFilter = IS_NULL"
| "filter_type IsNotNullFilter = IS_NOT_NULL"
| "filter_type (ConjunctionOrFilter fs) = CONJUNCTION_OR"
| "filter_type (ConjunctionAndFilter fs) = CONJUNCTION_AND"
| "filter_type (StructFilter i n f) = STRUCT_EXTRACT"

section \<open>CheckStatistics\<close>

definition CanHaveNull :: "BaseStatistics \<Rightarrow> bool" where
  "CanHaveNull s = has_null s"

definition CanHaveNoNull :: "BaseStatistics \<Rightarrow> bool" where
  "CanHaveNoNull s = has_no_null s"

definition ConstantFilter_CheckStatistics ::
  "ExpressionType \<Rightarrow> Value \<Rightarrow> BaseStatistics \<Rightarrow> exc + FilterPropagateResult" where
  "ConstantFilter_CheckStatistics comparison_type c s =
     (if zonemap_type (InternalType (v_type c))
      then NumericStats_CheckZonemap (stats_ty s) (numeric_data s) comparison_type c
      else if InternalType (v_type c) = PhysicalType.VARCHAR
           then if IsNull c then Inl InternalException
                else if GetStatsType (stats_ty s) \<noteq> STRING_STATS then Inl BadCast
                else StringStats_CheckZonemap (string_data s) comparison_type (str_of c)
      else Inr NO_PRUNING_POSSIBLE)"

definition IsNullFilter_CheckStatistics :: "BaseStatistics \<Rightarrow> FilterPropagateResult" where
  "IsNullFilter_CheckStatistics s =
     (if \<not> CanHaveNull s then FILTER_ALWAYS_FALSE
      else if \<not> CanHaveNoNull s then FILTER_ALWAYS_TRUE
      else NO_PRUNING_POSSIBLE)"

definition IsNotNullFilter_CheckStatistics :: "BaseStatistics \<Rightarrow> FilterPropagateResult" where
  "IsNotNullFilter_CheckStatistics s =
     (if \<not> CanHaveNoNull s then FILTER_ALWAYS_FALSE
      else if \<not> CanHaveNull s then FILTER_ALWAYS_TRUE
      else NO_PRUNING_POSSIBLE)"

text \<open>\<open>StructStats::GetChildStats\<close>; on statistics of another type the children are not those of a struct.\<close>

definition GetChildStats :: "BaseStatistics \<Rightarrow> idx_t \<Rightarrow> exc + BaseStatistics" where
  "GetChildStats s i =
     (if GetStatsType (stats_ty s) \<noteq> STRUCT_STATS then Inl BadCast
      else if i \<ge> length (child_types (stats_ty s)) then Inl InternalException
      else if i < length (child_stats s) then Inr (child_stats s ! i) else Inl OutOfBounds)"

text \<open>The virtual method, and the loops of the two conjunctions over their children.\<close>

fun CheckStatistics :: "TableFilter \<Rightarrow> BaseStatistics \<Rightarrow> exc + FilterPropagateResult"
  and Or_CheckStatistics :: "TableFilter list \<Rightarrow> BaseStatistics \<Rightarrow> exc + FilterPropagateResult"
  and And_CheckStatistics ::
    "TableFilter list \<Rightarrow> BaseStatistics \<Rightarrow> FilterPropagateResult \<Rightarrow> exc + FilterPropagateResult" where
  "CheckStatistics (ConstantFilter op c) s = ConstantFilter_CheckStatistics op c s"
| "CheckStatistics IsNullFilter s = Inr (IsNullFilter_CheckStatistics s)"
| "CheckStatistics IsNotNullFilter s = Inr (IsNotNullFilter_CheckStatistics s)"
| "CheckStatistics (ConjunctionOrFilter fs) s = Or_CheckStatistics fs s"
| "CheckStatistics (ConjunctionAndFilter fs) s = And_CheckStatistics fs s FILTER_ALWAYS_TRUE"
| "CheckStatistics (StructFilter i n f) s = bind_res (GetChildStats s i) (CheckStatistics f)"
| "Or_CheckStatistics [] s = Inr FILTER_ALWAYS_FALSE"
| "Or_CheckStatistics (f # fs) s =
     bind_res (CheckStatistics f s) (\<lambda>prune_result.
       if prune_result = NO_PRUNING_POSSIBLE then Inr NO_PRUNING_POSSIBLE
       else if prune_result = FILTER_ALWAYS_TRUE then Inr FILTER_ALWAYS_TRUE
       else Or_CheckStatistics fs s)"
| "And_CheckStatistics [] s result = Inr result"
| "And_CheckStatistics (f # fs) s result =
     bind_res (CheckStatistics f s) (\<lambda>prune_result.
       if prune_result = FILTER_ALWAYS_FALSE then Inr FILTER_ALWAYS_FALSE
       else And_CheckStatistics fs s (if prune_result \<noteq> result then NO_PRUNING_POSSIBLE else result))"

section \<open>Equals\<close>

text \<open>\<open>TableFilter::Equals\<close>, the base of every override; the default of the two NULL filters.\<close>

definition TableFilter_Equals :: "TableFilter \<Rightarrow> TableFilter \<Rightarrow> bool" where
  "TableFilter_Equals f g \<longleftrightarrow> filter_type f \<noteq> filter_type g"

definition to_lower :: "char \<Rightarrow> nat" where
  "to_lower c = (let n = of_char c :: nat in if 65 \<le> n \<and> n \<le> 90 then n + 32 else n)"

definition CIEquals :: "string \<Rightarrow> string \<Rightarrow> bool" where
  "CIEquals l1 l2 \<longleftrightarrow> length l1 = length l2 \<and> list_all2 (\<lambda>a b. to_lower a = to_lower b) l1 l2"

text \<open>
  The overrides. \<open>Cast\<close> throws when the dynamic type is another one. \<open>value_eq\<close> is the comparison
  of two \<open>Value\<close>s.
\<close>

function (sequential) Equals_filter :: "(Value \<Rightarrow> Value \<Rightarrow> bool) \<Rightarrow> TableFilter \<Rightarrow> TableFilter \<Rightarrow> exc + bool"
  and Equals_children :: "(Value \<Rightarrow> Value \<Rightarrow> bool) \<Rightarrow> TableFilter list \<Rightarrow> TableFilter list \<Rightarrow> exc + bool" where
  "Equals_filter value_eq (ConstantFilter op c) g =
     (if \<not> TableFilter_Equals (ConstantFilter op c) g then Inr False
      else case g of ConstantFilter op' c' \<Rightarrow> Inr (op' = op \<and> value_eq c' c) | _ \<Rightarrow> Inl InternalException)"
| "Equals_filter value_eq IsNullFilter g = Inr (TableFilter_Equals IsNullFilter g)"
| "Equals_filter value_eq IsNotNullFilter g = Inr (TableFilter_Equals IsNotNullFilter g)"
| "Equals_filter value_eq (ConjunctionOrFilter fs) g =
     (if \<not> TableFilter_Equals (ConjunctionOrFilter fs) g then Inr False
      else case g of
             ConjunctionOrFilter gs \<Rightarrow> if length gs \<noteq> length fs then Inr False else Equals_children value_eq fs gs
           | _ \<Rightarrow> Inl InternalException)"
| "Equals_filter value_eq (ConjunctionAndFilter fs) g =
     (if \<not> TableFilter_Equals (ConjunctionAndFilter fs) g then Inr False
      else case g of
             ConjunctionAndFilter gs \<Rightarrow> if length gs \<noteq> length fs then Inr False else Equals_children value_eq fs gs
           | _ \<Rightarrow> Inl InternalException)"
| "Equals_filter value_eq (StructFilter i n f) g =
     (if \<not> TableFilter_Equals (StructFilter i n f) g then Inr False
      else case g of
             StructFilter j m h \<Rightarrow> if j = i \<and> CIEquals m n then Equals_filter value_eq h f else Inr False
           | _ \<Rightarrow> Inl InternalException)"
| "Equals_children value_eq (f # fs) (g # gs) =
     bind_res (Equals_filter value_eq f g) (\<lambda>r. if \<not> r then Inr False else Equals_children value_eq fs gs)"
| "Equals_children value_eq fs gs = Inr True"
  by pat_completeness auto
termination
  by (relation "measure (case_sum (\<lambda>(_, f, g). size f + size g) (\<lambda>(_, fs, gs). size_list size fs + size_list size gs))")
    auto

section \<open>TableFilterSet\<close>

text \<open>
  The \<open>unordered_map\<close> from columns to filters, as an association list in the order of its
  iteration; a new entry can stand anywhere in that order, here at the end.
\<close>

type_synonym TableFilterSet = "(idx_t \<times> TableFilter) list"

fun and_into :: "TableFilter \<Rightarrow> TableFilter \<Rightarrow> TableFilter" where
  "and_into (ConjunctionAndFilter fs) f = ConjunctionAndFilter (fs @ [f])"
| "and_into g f = ConjunctionAndFilter [g, f]"

fun PushFilter :: "idx_t \<Rightarrow> TableFilter \<Rightarrow> TableFilterSet \<Rightarrow> TableFilterSet" where
  "PushFilter column_index f [] = [(column_index, f)]"
| "PushFilter column_index f ((i, g) # filters) =
     (if i = column_index then (i, and_into g f) # filters
      else (i, g) # PushFilter column_index f filters)"

fun Equals_set_loop ::
  "(Value \<Rightarrow> Value \<Rightarrow> bool) \<Rightarrow> TableFilterSet \<Rightarrow> TableFilterSet \<Rightarrow> exc + bool" where
  "Equals_set_loop value_eq [] other = Inr True"
| "Equals_set_loop value_eq ((i, f) # filters) other =
     (case map_of other i of
        None \<Rightarrow> Inr False
      | Some g \<Rightarrow> bind_res (Equals_filter value_eq f g)
          (\<lambda>r. if \<not> r then Inr False else Equals_set_loop value_eq filters other))"

definition Equals_set :: "(Value \<Rightarrow> Value \<Rightarrow> bool) \<Rightarrow> TableFilterSet \<Rightarrow> TableFilterSet \<Rightarrow> exc + bool" where
  "Equals_set value_eq filters other =
     (if length filters \<noteq> length other then Inr False else Equals_set_loop value_eq filters other)"

text \<open>The static \<open>Equals\<close> on pointers; \<open>same\<close> is the comparison of the two addresses.\<close>

definition Equals_set_ptr ::
  "(Value \<Rightarrow> Value \<Rightarrow> bool) \<Rightarrow> bool \<Rightarrow> TableFilterSet option \<Rightarrow> TableFilterSet option \<Rightarrow> exc + bool" where
  "Equals_set_ptr value_eq same left right =
     (if same then Inr True
      else case (left, right) of (Some l, Some r) \<Rightarrow> Equals_set value_eq l r | _ \<Rightarrow> Inr False)"

section \<open>What a filter means\<close>

text \<open>
  \<open>filter_holds ty f v\<close>: the value \<open>v\<close> of a column of type \<open>ty\<close> passes. The value of a struct
  column holds the values of its fields, also where the struct itself is NULL.
\<close>

fun filter_holds :: "LogicalType \<Rightarrow> TableFilter \<Rightarrow> Value \<Rightarrow> bool" where
  "filter_holds ty (ConstantFilter op c) v \<longleftrightarrow>
     \<not> IsNull v \<and> \<not> IsNull c
     \<and> (if InternalType ty = PhysicalType.VARCHAR then string_holds op (str_of v) (str_of c)
        else comparison_holds (InternalType ty) op (num_of v) (num_of c))"
| "filter_holds ty IsNullFilter v \<longleftrightarrow> IsNull v"
| "filter_holds ty IsNotNullFilter v \<longleftrightarrow> \<not> IsNull v"
| "filter_holds ty (ConjunctionOrFilter fs) v \<longleftrightarrow> (\<exists>f \<in> set fs. filter_holds ty f v)"
| "filter_holds ty (ConjunctionAndFilter fs) v \<longleftrightarrow> (\<forall>f \<in> set fs. filter_holds ty f v)"
| "filter_holds ty (StructFilter i n f) v \<longleftrightarrow> filter_holds (child_types ty ! i) f (children_of v ! i)"

text \<open>
  \<open>filter_truth\<close> is the same with the three truth values of SQL: \<open>None\<close> is the unknown of a comparison with NULL. A row
  passes exactly if the truth value is true. The difference between false and unknown is what
  \<open>FILTER_ALWAYS_TRUE\<close> is about: a comparison that is always true by its bounds is unknown on NULL, but never false.
\<close>

definition or3 :: "bool option list \<Rightarrow> bool option" where
  "or3 ts = (if Some True \<in> set ts then Some True else if None \<in> set ts then None else Some False)"

definition and3 :: "bool option list \<Rightarrow> bool option" where
  "and3 ts = (if Some False \<in> set ts then Some False else if None \<in> set ts then None else Some True)"

fun filter_truth :: "LogicalType \<Rightarrow> TableFilter \<Rightarrow> Value \<Rightarrow> bool option" where
  "filter_truth ty (ConstantFilter op c) v =
     (if IsNull v \<or> IsNull c then None else Some (filter_holds ty (ConstantFilter op c) v))"
| "filter_truth ty IsNullFilter v = Some (IsNull v)"
| "filter_truth ty IsNotNullFilter v = Some (\<not> IsNull v)"
| "filter_truth ty (ConjunctionOrFilter fs) v = or3 (map (\<lambda>f. filter_truth ty f v) fs)"
| "filter_truth ty (ConjunctionAndFilter fs) v = and3 (map (\<lambda>f. filter_truth ty f v) fs)"
| "filter_truth ty (StructFilter i n f) v = filter_truth (child_types ty ! i) f (children_of v ! i)"

lemma or3_iff: "or3 ts = Some True \<longleftrightarrow> Some True \<in> set ts" "or3 ts = Some False \<longleftrightarrow> (\<forall>t \<in> set ts. t = Some False)"
  by (auto simp: or3_def) (metis (full_types) option.exhaust)

lemma and3_iff: "and3 ts = Some True \<longleftrightarrow> (\<forall>t \<in> set ts. t = Some True)" "and3 ts = Some False \<longleftrightarrow> Some False \<in> set ts"
  by (auto simp: and3_def) (metis (full_types) option.exhaust)

lemma filter_holds_truth: "filter_holds ty f v \<longleftrightarrow> filter_truth ty f v = Some True"
  by (induction ty f v rule: filter_truth.induct) (auto simp: or3_iff and3_iff image_iff, metis)

text \<open>
  The statistics cover what the filter looks at: the value itself, or for a filter on a field of a struct the value of the
  field. The fields of a NULL struct are values of their columns like any other.
\<close>

fun covered :: "TableFilter \<Rightarrow> BaseStatistics \<Rightarrow> Value \<Rightarrow> bool" where
  "covered (ConjunctionOrFilter fs) s v \<longleftrightarrow> (\<forall>f \<in> set fs. covered f s v)"
| "covered (ConjunctionAndFilter fs) s v \<longleftrightarrow> (\<forall>f \<in> set fs. covered f s v)"
| "covered (StructFilter i n f) s v \<longleftrightarrow> (GetStatsType (stats_ty s) = STRUCT_STATS \<and> i < length (child_stats s) \<longrightarrow>
     covered f (child_stats s ! i) (children_of v ! i))"
| "covered f s v \<longleftrightarrow> stats_contain s v"

section \<open>CheckStatistics is sound\<close>

lemma numeric_check:
  assumes "stats_contain s v" "\<not> IsNull v" "\<not> IsNull c"
    and "NumericStats_CheckZonemap (stats_ty s) (numeric_data s) op c = Inr r" "r \<noteq> NO_PRUNING_POSSIBLE"
  shows "num_stats_contain (stats_ty s, numeric_data s) (num_of v)"
    and "num_check (stats_ty s, numeric_data s) (InternalType (stats_ty s), op) c = Inr r"
    and "InternalType (stats_ty s) \<noteq> PhysicalType.VARCHAR"
proof -
  have "zonemap_type (InternalType (stats_ty s))" "type_id (stats_ty s) \<noteq> LogicalTypeId.SQLNULL"
    using assms(3,4,5) by (auto simp: NumericStats_CheckZonemap_def HasMinMax_def HasMin_def split: if_splits)
  then have "GetStatsType (stats_ty s) = NUMERIC_STATS \<and> InternalType (stats_ty s) \<noteq> PhysicalType.VARCHAR"
    by (cases "InternalType (stats_ty s)") (simp_all add: GetStatsType_def type_width_def)
  then show "num_stats_contain (stats_ty s, numeric_data s) (num_of v)" "InternalType (stats_ty s) \<noteq> PhysicalType.VARCHAR"
    using assms(1,2) by (simp_all add: stats_contain.simps [of s v] num_stats_contain_def)
  show "num_check (stats_ty s, numeric_data s) (InternalType (stats_ty s), op) c = Inr r"
    using assms(4) by (simp add: num_check_def)
qed

lemma string_check:
  assumes "stats_contain s v" "\<not> IsNull v" "well_shaped s" "GetStatsType (stats_ty s) = STRING_STATS"
  shows "str_stats_contain (string_data s) (str_of v)" and "InternalType (stats_ty s) = PhysicalType.VARCHAR"
proof -
  show "str_stats_contain (string_data s) (str_of v)"
    using assms by (simp add: stats_contain.simps [of s v] well_shaped.simps [of s] str_stats_contain_def)
  show "InternalType (stats_ty s) = PhysicalType.VARCHAR"
    using assms(4) by (auto simp: GetStatsType_def split: if_splits PhysicalType.splits)
qed

lemma ConstantFilter_sound:
  assumes "stats_contain s v" "well_shaped s"
  shows "ConstantFilter_CheckStatistics op c s = Inr FILTER_ALWAYS_FALSE \<Longrightarrow>
      \<not> filter_holds (stats_ty s) (ConstantFilter op c) v"
    and "ConstantFilter_CheckStatistics op c s = Inr FILTER_ALWAYS_TRUE \<Longrightarrow> \<not> IsNull v \<Longrightarrow>
      filter_holds (stats_ty s) (ConstantFilter op c) v"
proof -
  assume *: "ConstantFilter_CheckStatistics op c s = Inr FILTER_ALWAYS_FALSE"
  show "\<not> filter_holds (stats_ty s) (ConstantFilter op c) v"
  proof (cases "IsNull v \<or> IsNull c")
    case False
    then consider
        "NumericStats_CheckZonemap (stats_ty s) (numeric_data s) op c = Inr FILTER_ALWAYS_FALSE"
      | "GetStatsType (stats_ty s) = STRING_STATS"
        "StringStats_CheckZonemap (string_data s) op (str_of c) = Inr FILTER_ALWAYS_FALSE"
      using * by (auto simp: ConstantFilter_CheckStatistics_def split: if_splits)
    then show ?thesis
    proof cases
      case 1
      from numeric_check [OF assms(1) _ _ this] False numeric_zonemap.always_false show ?thesis
        by (fastforce simp: num_filter_holds_def)
    next
      case 2
      from string_check [OF assms(1) _ assms(2) 2(1)] 2(2) False string_zonemap.always_false show ?thesis by fastforce
    qed
  qed auto
next
  assume *: "ConstantFilter_CheckStatistics op c s = Inr FILTER_ALWAYS_TRUE" "\<not> IsNull v"
  have c: "\<not> IsNull c"
    using *(1) by (auto simp: ConstantFilter_CheckStatistics_def NumericStats_CheckZonemap_def split: if_splits)
  consider
      "NumericStats_CheckZonemap (stats_ty s) (numeric_data s) op c = Inr FILTER_ALWAYS_TRUE"
    | "GetStatsType (stats_ty s) = STRING_STATS"
      "StringStats_CheckZonemap (string_data s) op (str_of c) = Inr FILTER_ALWAYS_TRUE"
    using * by (auto simp: ConstantFilter_CheckStatistics_def split: if_splits)
  then show "filter_holds (stats_ty s) (ConstantFilter op c) v"
  proof cases
    case 1
    from numeric_check [OF assms(1) *(2) c this] numeric_zonemap.always_true c *(2) show ?thesis
      by (fastforce simp: num_filter_holds_def)
  next
    case 2
    from string_check [OF assms(1) *(2) assms(2) 2(1)] 2(2) c *(2) string_zonemap.always_true show ?thesis by fastforce
  qed
qed

text \<open>The step into a field of a struct.\<close>

lemma GetChildStats_shaped:
  assumes "GetChildStats s i = Inr cs" "well_shaped s"
  shows "GetStatsType (stats_ty s) = STRUCT_STATS" "i < length (child_stats s)" "cs = child_stats s ! i" "well_shaped cs"
    "stats_ty cs = child_types (stats_ty s) ! i"
proof -
  from assms(1) show t: "GetStatsType (stats_ty s) = STRUCT_STATS" and i: "i < length (child_stats s)" and cs: "cs = child_stats s ! i"
    by (auto simp: GetChildStats_def split: if_splits)
  from t assms(2) have "map stats_ty (child_stats s) = child_types (stats_ty s)" "\<forall>c \<in> set (child_stats s). well_shaped c"
    by (simp_all add: well_shaped.simps [of s])
  with i cs show "well_shaped cs" "stats_ty cs = child_types (stats_ty s) ! i" by (simp_all, metis nth_map)
qed

text \<open>A value that the statistics contain is covered, unless the filter looks into a NULL struct.\<close>

fun struct_path :: "TableFilter \<Rightarrow> Value \<Rightarrow> bool" where
  "struct_path (ConjunctionOrFilter fs) v \<longleftrightarrow> (\<forall>f \<in> set fs. struct_path f v)"
| "struct_path (ConjunctionAndFilter fs) v \<longleftrightarrow> (\<forall>f \<in> set fs. struct_path f v)"
| "struct_path (StructFilter i n f) v \<longleftrightarrow> \<not> IsNull v \<and> struct_path f (children_of v ! i)"
| "struct_path f v \<longleftrightarrow> True"

lemma contained_covered: "stats_contain s v \<Longrightarrow> struct_path f v \<Longrightarrow> covered f s v"
proof (induction f s v rule: covered.induct)
  case (3 i n f s v)
  have "stats_contain (child_stats s ! i) (children_of v ! i)"
    if t: "GetStatsType (stats_ty s) = STRUCT_STATS" and i: "i < length (child_stats s)"
  proof -
    have l: "length (children_of v) = length (child_stats s)"
      and all: "\<forall>(a, b) \<in> set (zip (child_stats s) (children_of v)). stats_contain a b"
      using t "3.prems" by (simp_all add: stats_contain.simps [of s v])
    have "(child_stats s ! i, children_of v ! i) \<in> set (zip (child_stats s) (children_of v))"
      using i l by (auto simp: set_zip)
    with all show ?thesis by blast
  qed
  with 3 show ?case by simp
qed simp_all

lemma CheckStatistics_cases:
  "CheckStatistics f s = Inr r \<Longrightarrow> r \<in> {NO_PRUNING_POSSIBLE, FILTER_ALWAYS_TRUE, FILTER_ALWAYS_FALSE}"
  "Or_CheckStatistics fs s = Inr r \<Longrightarrow> r \<in> {NO_PRUNING_POSSIBLE, FILTER_ALWAYS_TRUE, FILTER_ALWAYS_FALSE}"
  "And_CheckStatistics fs s q = Inr r \<Longrightarrow> q \<in> {NO_PRUNING_POSSIBLE, FILTER_ALWAYS_TRUE} \<Longrightarrow>
     r \<in> {NO_PRUNING_POSSIBLE, FILTER_ALWAYS_TRUE, FILTER_ALWAYS_FALSE}"
proof (induction f s and fs s and fs s q arbitrary: r and r and r
    rule: CheckStatistics_Or_CheckStatistics_And_CheckStatistics.induct)
  case (1 op c s)
  then show ?case
    using numeric_zonemap.two_valued [of "(stats_ty s, numeric_data s)" "(InternalType (stats_ty s), op)" c r]
      string_zonemap.two_valued [of "string_data s" op "str_of c" r]
    by (auto simp: ConstantFilter_CheckStatistics_def num_check_def split: if_splits)
next
  case (10 f fs s result)
  from "10.prems"(1) obtain p where p: "CheckStatistics f s = Inr p" by (auto simp: bind_res_eq_Inr)
  from "10.IH"(1) [of p] "10.IH"(2) [of p r] "10.prems" p show ?case by (auto split: if_splits)
qed (auto simp: IsNullFilter_CheckStatistics_def IsNotNullFilter_CheckStatistics_def bind_res_eq_Inr split: if_splits)

text \<open>What \<open>CheckStatistics\<close> promises, for a filter and for the loops of the conjunctions.\<close>

lemma CheckStatistics_false:
  "CheckStatistics f s = Inr FILTER_ALWAYS_FALSE \<Longrightarrow> well_shaped s \<Longrightarrow> covered f s v \<Longrightarrow> \<not> filter_holds (stats_ty s) f v"
  "Or_CheckStatistics fs s = Inr FILTER_ALWAYS_FALSE \<Longrightarrow> well_shaped s \<Longrightarrow> \<forall>f \<in> set fs. covered f s v \<Longrightarrow>
     \<forall>f \<in> set fs. \<not> filter_holds (stats_ty s) f v"
  "And_CheckStatistics fs s r = Inr FILTER_ALWAYS_FALSE \<Longrightarrow> r \<noteq> FILTER_ALWAYS_FALSE \<Longrightarrow> well_shaped s \<Longrightarrow>
     \<forall>f \<in> set fs. covered f s v \<Longrightarrow> \<exists>f \<in> set fs. \<not> filter_holds (stats_ty s) f v"
proof (induction f s and fs s and fs s r arbitrary: v and v and v
    rule: CheckStatistics_Or_CheckStatistics_And_CheckStatistics.induct)
  case (1 op c s)
  then show ?case using ConstantFilter_sound(1) by simp
next
  case (2 s)
  then show ?case by (auto simp: IsNullFilter_CheckStatistics_def CanHaveNull_def stats_contain.simps [of s v] split: if_splits)
next
  case (3 s)
  then show ?case
    by (auto simp: IsNotNullFilter_CheckStatistics_def CanHaveNoNull_def stats_contain.simps [of s v] split: if_splits)
next
  case (6 i n f s)
  then obtain cs where cs: "GetChildStats s i = Inr cs" "CheckStatistics f cs = Inr FILTER_ALWAYS_FALSE"
    by (auto simp: bind_res_eq_Inr)
  note g = GetChildStats_shaped [OF cs(1) "6.prems"(2)]
  from "6.IH" [OF cs(2) g(4)] "6.prems"(3) g show ?case by simp
next
  case (8 f fs s)
  from "8.prems"(1) obtain p where p: "CheckStatistics f s = Inr p" by (auto simp: bind_res_eq_Inr)
  from "8.IH"(1) [of v] "8.IH"(2) [of p v] CheckStatistics_cases(1) [OF p] "8.prems" p show ?case
    by (auto split: if_splits)
next
  case (10 f fs s result)
  from "10.prems"(1) obtain p where p: "CheckStatistics f s = Inr p" by (auto simp: bind_res_eq_Inr)
  from "10.IH"(1) [of v] "10.IH"(2) [of p v] "10.prems" p show ?case by (auto split: if_splits)
qed auto

lemma CheckStatistics_true:
  "CheckStatistics f s = Inr FILTER_ALWAYS_TRUE \<Longrightarrow> well_shaped s \<Longrightarrow> covered f s v \<Longrightarrow> filter_truth (stats_ty s) f v \<noteq> Some False"
  "Or_CheckStatistics fs s = Inr FILTER_ALWAYS_TRUE \<Longrightarrow> well_shaped s \<Longrightarrow> \<forall>f \<in> set fs. covered f s v \<Longrightarrow>
     \<exists>f \<in> set fs. filter_truth (stats_ty s) f v \<noteq> Some False"
  "And_CheckStatistics fs s r = Inr FILTER_ALWAYS_TRUE \<Longrightarrow> well_shaped s \<Longrightarrow> \<forall>f \<in> set fs. covered f s v \<Longrightarrow>
     r = FILTER_ALWAYS_TRUE \<and> (\<forall>f \<in> set fs. filter_truth (stats_ty s) f v \<noteq> Some False)"
proof (induction f s and fs s and fs s r arbitrary: v and v and v
    rule: CheckStatistics_Or_CheckStatistics_And_CheckStatistics.induct)
  case (1 op c s)
  then show ?case using ConstantFilter_sound(2) [of s v op c] by (simp del: filter_holds.simps)
next
  case (2 s)
  then show ?case
    by (auto simp: IsNullFilter_CheckStatistics_def CanHaveNoNull_def stats_contain.simps [of s v] split: if_splits)
next
  case (3 s)
  then show ?case
    by (auto simp: IsNotNullFilter_CheckStatistics_def CanHaveNull_def stats_contain.simps [of s v] split: if_splits)
next
  case (4 fs s)
  then show ?case by (auto simp: or3_iff)
next
  case (5 fs s)
  then show ?case by (simp add: and3_iff) (metis imageE)
next
  case (6 i n f s)
  then obtain cs where cs: "GetChildStats s i = Inr cs" "CheckStatistics f cs = Inr FILTER_ALWAYS_TRUE"
    by (auto simp: bind_res_eq_Inr)
  note g = GetChildStats_shaped [OF cs(1) "6.prems"(2)]
  from "6.IH" [OF cs(2) g(4)] "6.prems"(3) g show ?case by simp
next
  case (8 f fs s)
  from "8.prems"(1) obtain p where p: "CheckStatistics f s = Inr p" by (auto simp: bind_res_eq_Inr)
  from "8.IH"(1) [of v] "8.IH"(2) [of p v] CheckStatistics_cases(1) [OF p] "8.prems" p show ?case
    by (auto split: if_splits)
next
  case (10 f fs s result)
  from "10.prems"(1) obtain p where p: "CheckStatistics f s = Inr p" by (auto simp: bind_res_eq_Inr)
  from "10.IH"(1) [of v] "10.IH"(2) [of p v] "10.prems" p show ?case by (auto split: if_splits)
qed auto

section \<open>Properties\<close>

text \<open>
  C11: deciding a segment by its statistics is right for every filter tree and every row, NULLs included. If
  \<open>CheckStatistics\<close> answers \<open>FILTER_ALWAYS_FALSE\<close>, the filter is not true on any row whose values the statistics cover, so no
  row of a skipped segment passes; if it answers \<open>FILTER_ALWAYS_TRUE\<close>, the filter is not false on any such row: it is true,
  or unknown because it compares a NULL.
\<close>

theorem CheckStatistics_sound:
  assumes "covered f s v" "well_shaped s" "CheckStatistics f s = Inr r"
  shows "(r = FILTER_ALWAYS_FALSE \<longrightarrow> \<not> filter_holds (stats_ty s) f v)
    \<and> (r = FILTER_ALWAYS_TRUE \<longrightarrow> filter_holds (stats_ty s) f v \<or> filter_truth (stats_ty s) f v = None)"
proof (intro conjI impI)
  assume "r = FILTER_ALWAYS_FALSE"
  then show "\<not> filter_holds (stats_ty s) f v" using assms CheckStatistics_false(1) by blast
next
  assume "r = FILTER_ALWAYS_TRUE"
  then have "filter_truth (stats_ty s) f v \<noteq> Some False" using assms CheckStatistics_true(1) by blast
  then show "filter_holds (stats_ty s) f v \<or> filter_truth (stats_ty s) f v = None" unfolding filter_holds_truth
    by (cases "filter_truth (stats_ty s) f v") auto
qed

definition stats_1_9 :: "bool \<Rightarrow> BaseStatistics" where
  "stats_1_9 nulls = BaseStatistics (simple_type LogicalTypeId.INTEGER) nulls True 0
     \<lparr>has_min = True, has_max = True, nmin = 1, nmax = 9\<rparr> string_uninit []"

theorem CheckStatistics_sound_witness:
  "let ty = simple_type LogicalTypeId.INTEGER;
       f = ConjunctionAndFilter [IsNotNullFilter, ConjunctionOrFilter
             [ConstantFilter COMPARE_GREATERTHAN (num_val ty 20), IsNullFilter]];
       g = ConstantFilter COMPARE_LESSTHAN (num_val ty 20)
   in CheckStatistics f (stats_1_9 False) = Inr FILTER_ALWAYS_FALSE \<and> \<not> filter_holds ty f (num_val ty 5)
    \<and> CheckStatistics g (stats_1_9 True) = Inr FILTER_ALWAYS_TRUE \<and> filter_truth ty g (null_value ty) = None"
proof -
  let ?ty = "simple_type LogicalTypeId.INTEGER"
  let ?f = "ConjunctionAndFilter [IsNotNullFilter, ConjunctionOrFilter
             [ConstantFilter COMPARE_GREATERTHAN (num_val ?ty 20), IsNullFilter]]"
  let ?g = "ConstantFilter COMPARE_LESSTHAN (num_val ?ty 20)"
  have c: "covered ?f (stats_1_9 False) (num_val ?ty 5)" "well_shaped (stats_1_9 nulls)" "stats_ty (stats_1_9 nulls) = ?ty"
      "covered ?g (stats_1_9 True) (null_value ?ty)" for nulls
    by (simp_all add: stats_1_9_def stats_contain.simps well_shaped.simps GetStatsType_def num_contains_def num_val_def
        null_value_def zonemap_eval)
  have r: "CheckStatistics ?f (stats_1_9 False) = Inr FILTER_ALWAYS_FALSE" "CheckStatistics ?g (stats_1_9 True) = Inr FILTER_ALWAYS_TRUE"
    by (simp_all add: stats_1_9_def ConstantFilter_CheckStatistics_def IsNullFilter_CheckStatistics_def
        IsNotNullFilter_CheckStatistics_def CanHaveNull_def CanHaveNoNull_def num_val_def zonemap_eval)
  have "\<not> filter_holds ?ty ?g (null_value ?ty)" by (simp add: null_value_def)
  with CheckStatistics_sound [OF c(1,2) r(1)] CheckStatistics_sound [OF c(4,2) r(2)] r c(3) show ?thesis
    by (simp add: Let_def del: filter_holds.simps filter_truth.simps)
qed

text \<open>
  \<open>PushFilter\<close> adds a filter to the set of a scan. A row passes the new set exactly if it passes
  the old one and the pushed filter on its column.
\<close>

definition set_holds :: "(idx_t \<Rightarrow> LogicalType) \<Rightarrow> TableFilterSet \<Rightarrow> (idx_t \<Rightarrow> Value) \<Rightarrow> bool" where
  "set_holds types filters row \<longleftrightarrow> (\<forall>(i, f) \<in> set filters. filter_holds (types i) f (row i))"

lemma filter_holds_and_into: "filter_holds ty (and_into g f) v \<longleftrightarrow> filter_holds ty g v \<and> filter_holds ty f v"
  by (cases g) auto

lemma set_holds_PushFilter:
  "set_holds types (PushFilter i f filters) row \<longleftrightarrow> set_holds types filters row \<and> filter_holds (types i) f (row i)"
  by (induction i f filters rule: PushFilter.induct) (auto simp: set_holds_def filter_holds_and_into)

lemma PushFilter_dom: "fst ` set (PushFilter i f filters) = insert i (fst ` set filters)"
  by (induction i f filters rule: PushFilter.induct) auto

lemma PushFilter_keys: "distinct (map fst filters) \<Longrightarrow> distinct (map fst (PushFilter i f filters))"
  by (induction i f filters rule: PushFilter.induct) (simp_all add: PushFilter_dom, blast?)

text \<open>
  \<open>Equals\<close> of a filter with itself, or with any filter of its type, answers \<open>false\<close>: the base
  method compares the types with \<open>!=\<close>.
\<close>

lemma Equals_same_type: "filter_type f = filter_type g \<Longrightarrow> Equals_filter value_eq f g = Inr False"
  by (cases f) (simp_all add: TableFilter_Equals_def)

lemma Equals_set_same: "filters \<noteq> [] \<Longrightarrow> distinct (map fst filters) \<Longrightarrow> Equals_set value_eq filters filters = Inr False"
  by (cases filters) (auto simp: Equals_set_def Equals_same_type)

end
