(* ===== verification/Filter_Selection.thy ===== *)
theory Filter_Selection
  imports Table_Filter Validity_Mask Selection_Vector
begin

text \<open>
  Filters applied to the rows of a vector: \<open>ColumnSegment::FilterSelection\<close> and its helpers of
  \<^verbatim>\<open>src/src/storage/table/column_segment.cpp\<close>.

  A vector is its logical type, the unified format that \<open>ToUnifiedFormat\<close> gives (selection,
  validity mask, data) and the vectors of its fields. A cell of the data is the payload of a
  value: the number in the width of the type, or the bytes of a string. The selection and the count
  that \<open>FilterSelection\<close> takes by reference are the state of the model, the pair that the
  interface \<open>row_sink\<close> speaks about.
\<close>

section \<open>Vectors\<close>

record UnifiedFormat =
  usel_vec :: SelectionVector
  uvalidity :: ValidityMask
  ucells :: "Payload list"

datatype Vector = Vector (vec_type: LogicalType) (vec_format: UnifiedFormat) (vec_entries: "Vector list")

definition read_cell :: "UnifiedFormat \<Rightarrow> idx_t \<Rightarrow> exc + Payload" where
  "read_cell u i = (if i < length (ucells u) then Inr (ucells u ! i) else Inl OutOfBounds)"

section \<open>Constant comparisons\<close>

text \<open>The comparison operators on the cells of a type.\<close>

definition cell_num :: "Payload \<Rightarrow> numeric_union" where
  "cell_num p = (case p of NumPayload x \<Rightarrow> x | _ \<Rightarrow> 0)"

definition cell_str :: "Payload \<Rightarrow> 8 word list" where
  "cell_str p = (case p of StrPayload b \<Rightarrow> b | _ \<Rightarrow> [])"

definition cell_compare :: "PhysicalType \<Rightarrow> ExpressionType \<Rightarrow> Payload \<Rightarrow> Payload \<Rightarrow> bool" where
  "cell_compare T op x c =
     (if T = PhysicalType.VARCHAR then string_holds op (cell_str x) (cell_str c)
      else comparison_holds T op (cell_num x) (cell_num c))"

definition TemplatedFilterSelection ::
  "(Payload \<Rightarrow> Payload \<Rightarrow> bool) \<Rightarrow> bool \<Rightarrow> UnifiedFormat \<Rightarrow> Payload \<Rightarrow> SelectionVector \<Rightarrow> idx_t \<Rightarrow> SelectionVector
    \<Rightarrow> exc + idx_t \<times> SelectionVector" where
  "TemplatedFilterSelection OP HAS_NULL vdata predicate sel approved_tuple_count result_sel =
     fold_res (\<lambda>i st.
       bind_res (get_index sel i) (\<lambda>idx.
       bind_res (get_index (usel_vec vdata) idx) (\<lambda>vector_idx.
       bind_res (if HAS_NULL then RowIsValid (uvalidity vdata) vector_idx else Inr True) (\<lambda>valid.
       bind_res (if valid then bind_res (read_cell vdata vector_idx) (\<lambda>x. Inr (OP x predicate)) else Inr False) (\<lambda>passes.
         if passes then push_row idx st else Inr st)))))
       [0..<approved_tuple_count] (0, result_sel)"

definition FilterSelectionSwitch ::
  "PhysicalType \<Rightarrow> UnifiedFormat \<Rightarrow> Payload \<Rightarrow> SelectionVector \<Rightarrow> idx_t \<Rightarrow> ExpressionType
    \<Rightarrow> exc + idx_t \<times> SelectionVector" where
  "FilterSelectionSwitch T vdata predicate sel approved_tuple_count comparison_type =
     (let new_sel = Initialize_count approved_tuple_count; mask = uvalidity vdata;
          run = (\<lambda>op. if AllValid mask
                   then TemplatedFilterSelection (cell_compare T op) False vdata predicate sel approved_tuple_count new_sel
                   else TemplatedFilterSelection (cell_compare T op) True vdata predicate sel approved_tuple_count new_sel)
      in case comparison_type of
           COMPARE_EQUAL \<Rightarrow> run COMPARE_EQUAL
         | COMPARE_NOTEQUAL \<Rightarrow> run COMPARE_NOTEQUAL
         | COMPARE_LESSTHAN \<Rightarrow> run COMPARE_LESSTHAN
         | COMPARE_GREATERTHAN \<Rightarrow> run COMPARE_GREATERTHAN
         | COMPARE_LESSTHANOREQUALTO \<Rightarrow> run COMPARE_LESSTHANOREQUALTO
         | COMPARE_GREATERTHANOREQUALTO \<Rightarrow> run COMPARE_GREATERTHANOREQUALTO
         | _ \<Rightarrow> Inl NotImplementedException)"

section \<open>NULL filters\<close>

definition TemplatedNullSelection ::
  "bool \<Rightarrow> UnifiedFormat \<Rightarrow> idx_t \<times> SelectionVector \<Rightarrow> exc + idx_t \<times> SelectionVector" where
  "TemplatedNullSelection is_null vdata = (\<lambda>(approved_tuple_count, sel).
     let mask = uvalidity vdata
     in if AllValid mask then (if is_null then Inr (0, sel) else Inr (approved_tuple_count, sel))
        else fold_res (\<lambda>i st.
               bind_res (get_index sel i) (\<lambda>idx.
               bind_res (get_index (usel_vec vdata) idx) (\<lambda>vector_idx.
               bind_res (RowIsValid mask vector_idx) (\<lambda>valid.
                 if valid \<noteq> is_null then push_row idx st else Inr st))))
               [0..<approved_tuple_count] (0, Initialize_count approved_tuple_count))"

section \<open>The filter tree\<close>

text \<open>\<open>XValue::Get(constant)\<close> for the type of the vector; a string that is NULL throws.\<close>

definition Get_constant :: "PhysicalType \<Rightarrow> Value \<Rightarrow> exc + Payload" where
  "Get_constant T c =
     (if T = PhysicalType.VARCHAR then if IsNull c then Inl InternalException else Inr (StrPayload (str_of c))
      else if is_numeric T then Inr (NumPayload (num_of c))
      else Inl InvalidTypeException)"

text \<open>The loop of the OR: the rows that passed a child and are not in the result yet.\<close>

definition is_new_idx :: "idx_t \<times> SelectionVector \<Rightarrow> idx_t \<Rightarrow> exc + bool" where
  "is_new_idx = (\<lambda>(count_total, result_sel) new_idx.
     fold_res (\<lambda>res_idx is_new. if \<not> is_new then Inr False
         else bind_res (get_index result_sel res_idx) (\<lambda>r. Inr (r \<noteq> new_idx))) [0..<count_total] True)"

definition merge_rows ::
  "idx_t \<times> SelectionVector \<Rightarrow> idx_t \<times> SelectionVector \<Rightarrow> exc + idx_t \<times> SelectionVector" where
  "merge_rows = (\<lambda>(temp_count, temp_sel) st.
     fold_res (\<lambda>i st. bind_res (get_index temp_sel i) (\<lambda>new_idx. bind_res (is_new_idx st new_idx) (\<lambda>is_new.
         if is_new then push_row new_idx st else Inr st))) [0..<temp_count] st)"

fun FilterSelection ::
  "TableFilter \<Rightarrow> Vector \<Rightarrow> idx_t \<times> SelectionVector \<Rightarrow> exc + idx_t \<times> SelectionVector"
  and FilterSelection_or ::
    "TableFilter list \<Rightarrow> Vector \<Rightarrow> idx_t \<times> SelectionVector \<Rightarrow> idx_t \<times> SelectionVector \<Rightarrow> exc + idx_t \<times> SelectionVector"
  and FilterSelection_and ::
    "TableFilter list \<Rightarrow> Vector \<Rightarrow> idx_t \<times> SelectionVector \<Rightarrow> exc + idx_t \<times> SelectionVector" where
  "FilterSelection (ConjunctionOrFilter fs) vector st = FilterSelection_or fs vector st (0, Initialize_count (fst st))"
| "FilterSelection (ConjunctionAndFilter fs) vector st = FilterSelection_and fs vector st"
| "FilterSelection (ConstantFilter comparison_type c) vector st =
     (let T = InternalType (vec_type vector)
      in bind_res (Get_constant T c) (\<lambda>predicate.
           FilterSelectionSwitch T (vec_format vector) predicate (snd st) (fst st) comparison_type))"
| "FilterSelection IsNullFilter vector st = TemplatedNullSelection True (vec_format vector) st"
| "FilterSelection IsNotNullFilter vector st = TemplatedNullSelection False (vec_format vector) st"
| "FilterSelection (StructFilter child_idx child_name f) vector st =
     (if child_idx < length (vec_entries vector) then FilterSelection f (vec_entries vector ! child_idx) st
      else Inl InternalException)"
| "FilterSelection_or [] vector st res = Inr res"
| "FilterSelection_or (f # fs) vector st res =
     bind_res (FilterSelection f vector st) (\<lambda>temp.
     bind_res (merge_rows temp res) (\<lambda>res'. FilterSelection_or fs vector st res'))"
| "FilterSelection_and [] vector st = Inr st"
| "FilterSelection_and (f # fs) vector st = bind_res (FilterSelection f vector st) (FilterSelection_and fs vector)"

section \<open>The rows that pass\<close>

text \<open>
  The value of a row of a vector, and vectors whose buffers cover the first \<open>n\<close> rows. \<open>readable\<close>
  are the selections that a filter can start from: the identity or a filled buffer.
\<close>

definition cell_index :: "UnifiedFormat \<Rightarrow> idx_t \<Rightarrow> idx_t" where
  "cell_index u r = (case get_index (usel_vec u) r of Inl _ \<Rightarrow> 0 | Inr i \<Rightarrow> i)"

fun vec_value :: "Vector \<Rightarrow> idx_t \<Rightarrow> Value" where
  "vec_value (Vector ty u es) r =
     Value ty (\<not> valid_row (uvalidity u) (cell_index u r))
       (if InternalType ty = PhysicalType.STRUCT then ChildPayload (map (\<lambda>e. vec_value e r) es)
        else ucells u ! cell_index u r)"

fun vec_ok :: "nat \<Rightarrow> Vector \<Rightarrow> bool" where
  "vec_ok n (Vector ty u es) \<longleftrightarrow>
     (\<forall>r \<in> set [0..<n].
        get_index (usel_vec u) r = Inr (cell_index u r)
        \<and> (AllValid (uvalidity u) \<or> cell_index u r < mask_capacity (uvalidity u))
        \<and> (InternalType ty \<noteq> PhysicalType.STRUCT \<longrightarrow> cell_index u r < length (ucells u)))
     \<and> (InternalType ty = PhysicalType.STRUCT \<longrightarrow> map vec_type es = child_types ty)
     \<and> (\<forall>e \<in> set es. vec_ok n e)"

fun filter_ok :: "LogicalType \<Rightarrow> TableFilter \<Rightarrow> bool" where
  "filter_ok ty (ConstantFilter op c) \<longleftrightarrow>
     \<not> IsNull c \<and> (InternalType ty = PhysicalType.VARCHAR \<or> is_numeric (InternalType ty))
     \<and> op \<in> {COMPARE_EQUAL, COMPARE_NOTEQUAL, COMPARE_LESSTHAN, COMPARE_GREATERTHAN, COMPARE_LESSTHANOREQUALTO,
             COMPARE_GREATERTHANOREQUALTO}"
| "filter_ok ty (ConjunctionOrFilter fs) \<longleftrightarrow> (\<forall>f \<in> set fs. filter_ok ty f)"
| "filter_ok ty (ConjunctionAndFilter fs) \<longleftrightarrow> (\<forall>f \<in> set fs. filter_ok ty f)"
| "filter_ok ty (StructFilter i n f) \<longleftrightarrow>
     InternalType ty = PhysicalType.STRUCT \<and> i < length (child_types ty) \<and> filter_ok (child_types ty ! i) f"
| "filter_ok ty f \<longleftrightarrow> True"

fun or_free :: "TableFilter \<Rightarrow> bool" where
  "or_free (ConjunctionOrFilter fs) \<longleftrightarrow> False"
| "or_free (ConjunctionAndFilter fs) \<longleftrightarrow> (\<forall>f \<in> set fs. or_free f)"
| "or_free (StructFilter i n f) \<longleftrightarrow> or_free f"
| "or_free f \<longleftrightarrow> True"

definition readable :: "idx_t \<times> SelectionVector \<Rightarrow> bool" where
  "readable st \<longleftrightarrow> snd st = SelNull \<or> sel_inv st"

lemma readable_get: "readable (n, sel) \<Longrightarrow> i < n \<Longrightarrow> get_index sel i = Inr (sel_rows (n, sel) ! i)"
  by (auto simp: readable_def get_index_sel_rows)

lemma readable_length: "readable (n, sel) \<Longrightarrow> length (sel_rows (n, sel)) = n"
  by (auto simp: readable_def)

text \<open>The loop that both selections run, on the interface of the row sink.\<close>

lemma select_rows:
  assumes st: "readable (n, sel)" "\<forall>r \<in> set (sel_rows (n, sel)). r < 2 ^ 32"
    and body: "\<And>i st. i < n \<Longrightarrow> body i st = (let r = sel_rows (n, sel) ! i in if P r then push_row r st else Inr st)"
  shows "\<exists>st'. fold_res body [0..<n] (0, Initialize_count n) = Inr st' \<and> readable st'
           \<and> sel_rows st' = filter P (sel_rows (n, sel))"
proof -
  let ?rows = "sel_rows (n, sel)"
  have len: "length ?rows = n" using st(1) by (rule readable_length)
  have "fold_res body [0..<n] (0, Initialize_count n) =
      fold_res (\<lambda>i st. if P (?rows ! i) then push_row (?rows ! i) st else Inr st) [0..<n] (0, Initialize_count n)"
    by (rule fold_res_cong) (simp_all add: body Let_def)
  moreover have "map ((!) ?rows) (filter (\<lambda>i. P (?rows ! i)) [0..<n]) = filter P ?rows"
    using filter_map [of P "(!) ?rows" "[0..<n]"] len by (simp add: comp_def map_nth [of ?rows, unfolded len])
  moreover have "length (filter (\<lambda>i. P (?rows ! i)) [0..<n]) \<le> n" by (metis length_filter_upt_le diff_zero)
  ultimately show ?thesis
    using sel_sink.push_if [of "(0, Initialize_count n)" "\<lambda>i. P (?rows ! i)" "[0..<n]" "(!) ?rows"] st(2) len
    by (auto simp: readable_def)
qed

text \<open>What the vector says about a row that its buffers cover.\<close>

lemma vec_ok_row:
  assumes "vec_ok n (Vector ty u es)" "r < n"
  shows "get_index (usel_vec u) r = Inr (cell_index u r)"
    and "RowIsValid (uvalidity u) (cell_index u r) = Inr (valid_row (uvalidity u) (cell_index u r))"
    and "InternalType ty \<noteq> PhysicalType.STRUCT \<Longrightarrow> read_cell u (cell_index u r) = Inr (ucells u ! cell_index u r)"
proof -
  have row: "get_index (usel_vec u) r = Inr (cell_index u r)"
      "AllValid (uvalidity u) \<or> cell_index u r < mask_capacity (uvalidity u)"
      "InternalType ty \<noteq> PhysicalType.STRUCT \<longrightarrow> cell_index u r < length (ucells u)"
    using assms by auto
  show "get_index (usel_vec u) r = Inr (cell_index u r)" by (rule row(1))
  show "RowIsValid (uvalidity u) (cell_index u r) = Inr (valid_row (uvalidity u) (cell_index u r))"
    using row(2) by (intro RowIsValid_ok) blast
  show "InternalType ty \<noteq> PhysicalType.STRUCT \<Longrightarrow> read_cell u (cell_index u r) = Inr (ucells u ! cell_index u r)"
    using row(3) by (simp add: read_cell_def)
qed

lemma cell_compare_value:
  "InternalType ty \<noteq> PhysicalType.STRUCT \<Longrightarrow> \<not> IsNull c \<Longrightarrow> Get_constant (InternalType ty) c = Inr p \<Longrightarrow>
    filter_holds ty (ConstantFilter op c) (vec_value (Vector ty u es) r) \<longleftrightarrow>
      valid_row (uvalidity u) (cell_index u r) \<and> cell_compare (InternalType ty) op (ucells u ! cell_index u r) p"
  by (auto simp: Get_constant_def cell_compare_def num_of_def str_of_def cell_num_def cell_str_def split: if_splits)

lemma AllValid_valid_row: "AllValid m \<Longrightarrow> valid_row m r"
  by (simp add: AllValid_def valid_row_def)

lemma TemplatedFilterSelection_rows:
  assumes "vec_ok n (Vector ty u es)" "readable (cnt, sel)" "\<forall>r \<in> set (sel_rows (cnt, sel)). r < n" "n \<le> 2 ^ 32"
    and "InternalType ty \<noteq> PhysicalType.STRUCT" "has_nulls \<or> AllValid (uvalidity u)"
  shows "\<exists>st'. TemplatedFilterSelection OP has_nulls u p sel cnt (Initialize_count cnt) = Inr st' \<and> readable st'
    \<and> sel_rows st' = filter (\<lambda>r. valid_row (uvalidity u) (cell_index u r) \<and> OP (ucells u ! cell_index u r) p)
        (sel_rows (cnt, sel))"
  unfolding TemplatedFilterSelection_def
proof (rule select_rows [OF assms(2)])
  show "\<forall>r \<in> set (sel_rows (cnt, sel)). r < 2 ^ 32" using assms(3,4) by auto
next
  fix i st assume i: "i < cnt"
  let ?r = "sel_rows (cnt, sel) ! i"
  have "?r < n" using assms(3) i readable_length [OF assms(2)] by auto
  note row = vec_ok_row [OF assms(1) this]
  show "bind_res (get_index sel i) (\<lambda>idx. bind_res (get_index (usel_vec u) idx) (\<lambda>vector_idx.
      bind_res (if has_nulls then RowIsValid (uvalidity u) vector_idx else Inr True) (\<lambda>valid.
      bind_res (if valid then bind_res (read_cell u vector_idx) (\<lambda>x. Inr (OP x p)) else Inr False) (\<lambda>passes.
        if passes then push_row idx st else Inr st)))) =
    (let r = ?r in if valid_row (uvalidity u) (cell_index u r) \<and> OP (ucells u ! cell_index u r) p
      then push_row r st else Inr st)"
    using assms(5,6) AllValid_valid_row by (auto simp: readable_get [OF assms(2) i] row Let_def)
qed

lemma TemplatedNullSelection_rows:
  assumes "vec_ok n (Vector ty u es)" "readable (cnt, sel)" "\<forall>r \<in> set (sel_rows (cnt, sel)). r < n" "n \<le> 2 ^ 32"
  shows "\<exists>st'. TemplatedNullSelection is_null u (cnt, sel) = Inr st' \<and> readable st'
    \<and> sel_rows st' = filter (\<lambda>r. valid_row (uvalidity u) (cell_index u r) \<noteq> is_null) (sel_rows (cnt, sel))"
proof (cases "AllValid (uvalidity u)")
  case True
  then have v: "valid_row (uvalidity u) i" for i by (rule AllValid_valid_row)
  have "readable (0, sel)" "sel_rows (0, sel) = []" using assms(2) by (cases sel; auto simp: readable_def)+
  with True v assms(2) show ?thesis by (cases is_null) (auto simp: TemplatedNullSelection_def)
next
  case False
  have "\<exists>st'. fold_res (\<lambda>i st. bind_res (get_index sel i) (\<lambda>idx. bind_res (get_index (usel_vec u) idx) (\<lambda>vector_idx.
        bind_res (RowIsValid (uvalidity u) vector_idx) (\<lambda>valid. if valid \<noteq> is_null then push_row idx st else Inr st))))
      [0..<cnt] (0, Initialize_count cnt) = Inr st' \<and> readable st'
    \<and> sel_rows st' = filter (\<lambda>r. valid_row (uvalidity u) (cell_index u r) \<noteq> is_null) (sel_rows (cnt, sel))"
  proof (rule select_rows [OF assms(2)])
    show "\<forall>r \<in> set (sel_rows (cnt, sel)). r < 2 ^ 32" using assms(3,4) by auto
  next
    fix i st assume i: "i < cnt"
    let ?r = "sel_rows (cnt, sel) ! i"
    have "?r < n" using assms(3) i readable_length [OF assms(2)] by auto
    note row = vec_ok_row(1,2) [OF assms(1) this]
    show "bind_res (get_index sel i) (\<lambda>idx. bind_res (get_index (usel_vec u) idx) (\<lambda>vector_idx.
        bind_res (RowIsValid (uvalidity u) vector_idx) (\<lambda>valid. if valid \<noteq> is_null then push_row idx st else Inr st))) =
      (let r = ?r in if valid_row (uvalidity u) (cell_index u r) \<noteq> is_null then push_row r st else Inr st)"
      by (simp add: readable_get [OF assms(2) i] row Let_def)
  qed
  with False show ?thesis by (simp add: TemplatedNullSelection_def)
qed

text \<open>The merge step of the OR keeps the result duplicate-free and within its buffer.\<close>

lemma is_new_idx_rows:
  assumes "sel_inv st"
  shows "is_new_idx st r = Inr (r \<notin> set (sel_rows st))"
proof -
  obtain cnt sel where st: "st = (cnt, sel)" by (cases st)
  let ?rows = "sel_rows (cnt, sel)"
  have len: "length ?rows = cnt" using assms st by simp
  have "\<exists>b. fold_res (\<lambda>res_idx is_new. if \<not> is_new then Inr False
      else bind_res (get_index sel res_idx) (\<lambda>r'. Inr (r' \<noteq> r))) [0..<cnt] True = Inr b \<and> b = (r \<notin> set (take cnt ?rows))"
  proof (rule fold_res_upt_rule [where I = "\<lambda>i b. b = (r \<notin> set (take i ?rows))"])
    fix i b assume "i < cnt" and b: "b = (r \<notin> set (take i ?rows))"
    then have "get_index sel i = Inr (?rows ! i)" "set (take (Suc i) ?rows) = insert (?rows ! i) (set (take i ?rows))"
      using assms st len by (auto simp: get_index_sel_rows take_Suc_conv_app_nth)
    then show "\<exists>b'. (if \<not> b then Inr False else bind_res (get_index sel i) (\<lambda>r'. Inr (r' \<noteq> r))) = Inr b'
        \<and> b' = (r \<notin> set (take (Suc i) ?rows))" using b by auto
  qed simp_all
  then show ?thesis by (simp add: is_new_idx_def st len)
qed

lemma merge_rows_ok:
  assumes temp: "readable temp" "set (sel_rows temp) \<subseteq> S" and fin: "finite S" "\<forall>r \<in> S. r < 2 ^ 32"
    and res: "sel_inv res" "card S \<le> sel_cap res" "distinct (sel_rows res)" "set (sel_rows res) \<subseteq> S"
  shows "\<exists>res'. merge_rows temp res = Inr res' \<and> sel_inv res' \<and> sel_cap res' = sel_cap res
    \<and> distinct (sel_rows res') \<and> set (sel_rows res') = set (sel_rows res) \<union> set (sel_rows temp)"
proof -
  obtain cnt sel where t: "temp = (cnt, sel)" by (cases temp)
  let ?rows = "sel_rows (cnt, sel)"
  have len: "length ?rows = cnt" using temp(1) t readable_length by simp
  have "\<exists>res'. fold_res (\<lambda>i st. bind_res (get_index sel i) (\<lambda>new_idx. bind_res (is_new_idx st new_idx) (\<lambda>is_new.
          if is_new then push_row new_idx st else Inr st))) [0..<cnt] res = Inr res'
      \<and> (sel_inv res' \<and> sel_cap res' = sel_cap res \<and> distinct (sel_rows res')
        \<and> set (sel_rows res') = set (sel_rows res) \<union> set (take cnt ?rows))"
  proof (rule fold_res_upt_rule [where I = "\<lambda>i st. sel_inv st \<and> sel_cap st = sel_cap res \<and> distinct (sel_rows st)
        \<and> set (sel_rows st) = set (sel_rows res) \<union> set (take i ?rows)"])
    fix i st assume i: "i < cnt"
      and I: "sel_inv st \<and> sel_cap st = sel_cap res \<and> distinct (sel_rows st)
        \<and> set (sel_rows st) = set (sel_rows res) \<union> set (take i ?rows)"
    let ?r = "?rows ! i"
    have r: "get_index sel i = Inr ?r" "?r \<in> S" "is_new_idx st ?r = Inr (?r \<notin> set (sel_rows st))"
      and tk: "set (take (Suc i) ?rows) = insert ?r (set (take i ?rows))"
      using temp t i len I by (auto simp: readable_get take_Suc_conv_app_nth is_new_idx_rows)
    show "\<exists>st'. bind_res (get_index sel i) (\<lambda>new_idx. bind_res (is_new_idx st new_idx) (\<lambda>is_new.
          if is_new then push_row new_idx st else Inr st)) = Inr st'
        \<and> (sel_inv st' \<and> sel_cap st' = sel_cap res \<and> distinct (sel_rows st')
          \<and> set (sel_rows st') = set (sel_rows res) \<union> set (take (Suc i) ?rows))"
    proof (cases "?r \<in> set (sel_rows st)")
      case True
      with I r tk show ?thesis by (intro exI [of _ st]) auto
    next
      case False
      have "set (take i ?rows) \<subseteq> S" using temp(2) t set_take_subset [of i ?rows] by auto
      then have "insert ?r (set (sel_rows st)) \<subseteq> S" using I res(4) r(2) by auto
      then have "card (insert ?r (set (sel_rows st))) \<le> card S" by (rule card_mono [OF fin(1)])
      then have "Suc (length (sel_rows st)) \<le> card S" using False I distinct_card [of "sel_rows st"] by simp
      then have "length (sel_rows st) < sel_cap st" using I res(2) by simp
      with sel_sink.push_ok [of st ?r] I r(2) fin(2) obtain st' where "push_row ?r st = Inr st'" "sel_inv st'"
        "sel_rows st' = sel_rows st @ [?r]" "sel_cap st' = sel_cap st" by blast
      with False I r tk show ?thesis by (intro exI [of _ st']) auto
    qed
  qed (use res in simp_all)
  then show ?thesis by (simp add: merge_rows_def t len)
qed

section \<open>FilterSelection selects the rows that pass\<close>

definition scannable :: "nat \<Rightarrow> Vector \<Rightarrow> idx_t \<times> SelectionVector \<Rightarrow> bool" where
  "scannable n vector st \<longleftrightarrow>
     vec_ok n vector \<and> n \<le> 2 ^ 32 \<and> readable st \<and> distinct (sel_rows st) \<and> (\<forall>r \<in> set (sel_rows st). r < n)"

definition passing :: "TableFilter \<Rightarrow> Vector \<Rightarrow> idx_t \<Rightarrow> bool" where
  "passing f vector r \<longleftrightarrow> filter_holds (vec_type vector) f (vec_value vector r)"

text \<open>
  The contract of a filter: the selected rows are those of the old selection that pass, each once, in
  the old order unless an OR is involved.
\<close>

definition narrows :: "TableFilter \<Rightarrow> Vector \<Rightarrow> idx_t \<times> SelectionVector \<Rightarrow> idx_t \<times> SelectionVector \<Rightarrow> bool" where
  "narrows f vector st st' \<longleftrightarrow>
     readable st' \<and> distinct (sel_rows st') \<and> set (sel_rows st') = {r \<in> set (sel_rows st). passing f vector r}
     \<and> (or_free f \<longrightarrow> sel_rows st' = filter (passing f vector) (sel_rows st))"

lemma narrows_filter:
  "readable st' \<Longrightarrow> distinct (sel_rows st) \<Longrightarrow> sel_rows st' = filter (passing f vector) (sel_rows st) \<Longrightarrow>
    narrows f vector st st'"
  by (auto simp: narrows_def)

lemma narrows_scannable: "scannable n vector st \<Longrightarrow> narrows f vector st st' \<Longrightarrow> scannable n vector st'"
  by (auto simp: scannable_def narrows_def)

lemma ConstantFilter_narrows:
  assumes sc: "scannable n vector st" and ok: "filter_ok (vec_type vector) (ConstantFilter op c)"
  shows "\<exists>st'. FilterSelection (ConstantFilter op c) vector st = Inr st' \<and> narrows (ConstantFilter op c) vector st st'"
proof -
  obtain ty u es where v: "vector = Vector ty u es" by (cases vector)
  obtain cnt sel where st: "st = (cnt, sel)" by (cases st)
  have ns: "InternalType ty \<noteq> PhysicalType.STRUCT" using ok v by (auto simp: type_width_def)
  have "\<exists>p. Get_constant (InternalType ty) c = Inr p" using ok v by (auto simp: Get_constant_def)
  then obtain p where p: "Get_constant (InternalType ty) c = Inr p" ..
  have "vec_ok n (Vector ty u es)" "readable (cnt, sel)" "\<forall>r \<in> set (sel_rows (cnt, sel)). r < n" "n \<le> 2 ^ 32"
    using sc by (simp_all add: scannable_def v st del: vec_ok.simps)
  from TemplatedFilterSelection_rows [OF this ns, of "\<not> AllValid (uvalidity u)" "cell_compare (InternalType ty) op" p]
  obtain st' where st': "TemplatedFilterSelection (cell_compare (InternalType ty) op) (\<not> AllValid (uvalidity u)) u p sel cnt
        (Initialize_count cnt) = Inr st'" "readable st'"
      "sel_rows st' = filter (\<lambda>r. valid_row (uvalidity u) (cell_index u r)
         \<and> cell_compare (InternalType ty) op (ucells u ! cell_index u r) p) (sel_rows st)"
    unfolding st by blast
  have "FilterSelection (ConstantFilter op c) vector st = Inr st'"
    using st'(1) p ok v st by (cases op; cases "AllValid (uvalidity u)") (simp_all add: FilterSelectionSwitch_def)
  moreover have "narrows (ConstantFilter op c) vector st st'"
  proof (rule narrows_filter [OF st'(2)])
    show "distinct (sel_rows st)" using sc by (simp add: scannable_def)
    show "sel_rows st' = filter (passing (ConstantFilter op c) vector) (sel_rows st)"
      unfolding st'(3) passing_def v using ok v
      by (intro filter_cong refl) (simp add: cell_compare_value [OF ns _ p] del: filter_holds.simps vec_value.simps)
  qed
  ultimately show ?thesis by blast
qed

lemma NullFilter_narrows:
  assumes sc: "scannable n vector st" and f: "(f, is_null) \<in> {(IsNullFilter, True), (IsNotNullFilter, False)}"
  shows "\<exists>st'. FilterSelection f vector st = Inr st' \<and> narrows f vector st st'"
proof -
  obtain ty u es where v: "vector = Vector ty u es" by (cases vector)
  obtain cnt sel where st: "st = (cnt, sel)" by (cases st)
  have "vec_ok n (Vector ty u es)" "readable (cnt, sel)" "\<forall>r \<in> set (sel_rows (cnt, sel)). r < n" "n \<le> 2 ^ 32"
    using sc by (simp_all add: scannable_def v st del: vec_ok.simps)
  from TemplatedNullSelection_rows [OF this, of is_null]
  obtain st' where st': "TemplatedNullSelection is_null u st = Inr st'" "readable st'"
      "sel_rows st' = filter (\<lambda>r. valid_row (uvalidity u) (cell_index u r) \<noteq> is_null) (sel_rows st)"
    unfolding st by blast
  have "FilterSelection f vector st = Inr st'" using f st'(1) v by auto
  moreover have "narrows f vector st st'"
  proof (rule narrows_filter [OF st'(2)])
    show "distinct (sel_rows st)" using sc by (simp add: scannable_def)
    have "passing f vector = (\<lambda>r. valid_row (uvalidity u) (cell_index u r) \<noteq> is_null)"
      using f by (auto simp: passing_def v fun_eq_iff)
    then show "sel_rows st' = filter (passing f vector) (sel_rows st)" using st'(3) by simp
  qed
  ultimately show ?thesis by blast
qed

lemma StructFilter_passing:
  assumes "scannable n vector st" "filter_ok (vec_type vector) (StructFilter i m f)"
  shows "i < length (vec_entries vector)" and "scannable n (vec_entries vector ! i) st"
    and "filter_ok (vec_type (vec_entries vector ! i)) f"
    and "passing (StructFilter i m f) vector r \<longleftrightarrow> passing f (vec_entries vector ! i) r"
proof -
  obtain ty u es where v: "vector = Vector ty u es" by (cases vector)
  have t: "InternalType ty = PhysicalType.STRUCT" "i < length (child_types ty)" "filter_ok (child_types ty ! i) f"
    using assms(2) v by simp_all
  have es: "map vec_type es = child_types ty" "\<forall>e \<in> set es. vec_ok n e" using assms(1) v t by (simp_all add: scannable_def)
  have "length es = length (child_types ty)" using es(1) by (metis length_map)
  with t(2) show i: "i < length (vec_entries vector)" by (simp add: v)
  have ty: "vec_type (es ! i) = child_types ty ! i" using i v es(1) by (metis Vector.sel(3) nth_map)
  show "scannable n (vec_entries vector ! i) st" using assms(1) es(2) i v by (simp add: scannable_def)
  show "filter_ok (vec_type (vec_entries vector ! i)) f" using t(3) ty v by simp
  show "passing (StructFilter i m f) vector r \<longleftrightarrow> passing f (vec_entries vector ! i) r"
    using t(1) ty i v by (simp add: passing_def children_of_def)
qed

text \<open>The whole tree, and the two loops: the AND narrows the selection, the OR collects a union.\<close>

definition or_contract ::
  "TableFilter list \<Rightarrow> Vector \<Rightarrow> idx_t \<times> SelectionVector \<Rightarrow> idx_t \<times> SelectionVector \<Rightarrow> idx_t \<times> SelectionVector \<Rightarrow> bool" where
  "or_contract fs vector st res res' \<longleftrightarrow>
     sel_inv res' \<and> sel_cap res' = sel_cap res \<and> distinct (sel_rows res')
     \<and> set (sel_rows res') = set (sel_rows res) \<union> {r \<in> set (sel_rows st). \<exists>f \<in> set fs. passing f vector r}"

lemma FilterSelection_narrows:
  "\<forall>n. scannable n vector st \<longrightarrow> filter_ok (vec_type vector) f \<longrightarrow>
     (\<exists>st'. FilterSelection f vector st = Inr st' \<and> narrows f vector st st')"
  "\<forall>n. scannable n vector st \<longrightarrow> (\<forall>f \<in> set fs. filter_ok (vec_type vector) f) \<longrightarrow>
     sel_inv res \<longrightarrow> length (sel_rows st) \<le> sel_cap res \<longrightarrow> distinct (sel_rows res) \<longrightarrow>
     set (sel_rows res) \<subseteq> set (sel_rows st) \<longrightarrow>
     (\<exists>res'. FilterSelection_or fs vector st res = Inr res' \<and> or_contract fs vector st res res')"
  "\<forall>n. scannable n vector st \<longrightarrow> (\<forall>f \<in> set fs. filter_ok (vec_type vector) f) \<longrightarrow>
     (\<exists>st'. FilterSelection_and fs vector st = Inr st' \<and> narrows (ConjunctionAndFilter fs) vector st st')"
proof (induction f vector st and fs vector st res and fs vector st
    rule: FilterSelection_FilterSelection_or_FilterSelection_and.induct)
  case (1 fs vector st)
  show ?case
  proof (intro allI impI)
    fix n assume sc: "scannable n vector st" and ok: "filter_ok (vec_type vector) (ConjunctionOrFilter fs)"
    let ?res = "(0, Initialize_count (fst st))"
    have "length (sel_rows st) = fst st" using sc readable_length by (cases st) (simp add: scannable_def)
    with 1 sc ok obtain res' where "FilterSelection_or fs vector st ?res = Inr res'" "or_contract fs vector st ?res res'"
      by auto
    then show "\<exists>st'. FilterSelection (ConjunctionOrFilter fs) vector st = Inr st' \<and> narrows (ConjunctionOrFilter fs) vector st st'"
      by (auto simp: or_contract_def narrows_def readable_def passing_def)
  qed
next
  case (3 op c vector st)
  then show ?case using ConstantFilter_narrows by blast
next
  case (4 vector st)
  then show ?case using NullFilter_narrows [of _ vector st IsNullFilter True] by blast
next
  case (5 vector st)
  then show ?case using NullFilter_narrows [of _ vector st IsNotNullFilter False] by blast
next
  case (6 i m f vector st)
  show ?case
  proof (intro allI impI)
    fix n assume "scannable n vector st" "filter_ok (vec_type vector) (StructFilter i m f)"
    note child = StructFilter_passing [OF this]
    from 6 [OF child(1)] child(2,3)
    obtain st' where st': "FilterSelection f (vec_entries vector ! i) st = Inr st'" "narrows f (vec_entries vector ! i) st st'"
      by blast
    have "passing (StructFilter i m f) vector = passing f (vec_entries vector ! i)" using child(4) by (simp add: fun_eq_iff)
    with st' child(1) show "\<exists>st'. FilterSelection (StructFilter i m f) vector st = Inr st'
        \<and> narrows (StructFilter i m f) vector st st'"
      by (auto simp: narrows_def)
  qed
next
  case (8 f fs vector st res)
  show ?case
  proof (intro allI impI)
    fix n assume sc: "scannable n vector st" and ok: "\<forall>f \<in> set (f # fs). filter_ok (vec_type vector) f"
      and res: "sel_inv res" "length (sel_rows st) \<le> sel_cap res" "distinct (sel_rows res)"
        "set (sel_rows res) \<subseteq> set (sel_rows st)"
    from "8.IH"(1) sc ok obtain temp where temp: "FilterSelection f vector st = Inr temp" "narrows f vector st temp" by auto
    have "card (set (sel_rows st)) \<le> sel_cap res" using res(2) card_length order_trans by blast
    moreover have "\<forall>r \<in> set (sel_rows st). r < 2 ^ 32" using sc less_le_trans unfolding scannable_def by blast
    moreover have "readable temp" "set (sel_rows temp) \<subseteq> set (sel_rows st)" using temp(2) by (auto simp: narrows_def)
    ultimately obtain res1 where r1: "merge_rows temp res = Inr res1" "sel_inv res1" "sel_cap res1 = sel_cap res"
        "distinct (sel_rows res1)" "set (sel_rows res1) = set (sel_rows res) \<union> set (sel_rows temp)"
      using merge_rows_ok [of temp "set (sel_rows st)" res] res by blast
    then have "set (sel_rows res1) \<subseteq> set (sel_rows st)" using temp(2) res(4) by (auto simp: narrows_def)
    with "8.IH"(2) [of res1] sc ok r1 res(2)
    obtain res' where "FilterSelection_or fs vector st res1 = Inr res'" "or_contract fs vector st res1 res'" by auto
    then show "\<exists>res'. FilterSelection_or (f # fs) vector st res = Inr res' \<and> or_contract (f # fs) vector st res res'"
      using temp r1 by (auto simp: or_contract_def narrows_def)
  qed
next
  case (9 vector st)
  then show ?case by (auto simp: narrows_def scannable_def passing_def)
next
  case (10 f fs vector st)
  show ?case
  proof (intro allI impI)
    fix n assume sc: "scannable n vector st" and ok: "\<forall>f \<in> set (f # fs). filter_ok (vec_type vector) f"
    from "10.IH"(1) sc ok obtain st1 where st1: "FilterSelection f vector st = Inr st1" "narrows f vector st st1" by auto
    from "10.IH"(2) [of st1] narrows_scannable [OF sc st1(2)] ok
    obtain st2 where st2: "FilterSelection_and fs vector st1 = Inr st2" "narrows (ConjunctionAndFilter fs) vector st1 st2"
      by auto
    have p: "passing (ConjunctionAndFilter (f # fs)) vector =
        (\<lambda>r. passing f vector r \<and> passing (ConjunctionAndFilter fs) vector r)" by (simp add: passing_def fun_eq_iff)
    have "narrows (ConjunctionAndFilter (f # fs)) vector st st2"
      using st1(2) st2(2) unfolding narrows_def by (auto simp: p)
    with st1 st2 show "\<exists>st'. FilterSelection_and (f # fs) vector st = Inr st'
        \<and> narrows (ConjunctionAndFilter (f # fs)) vector st st'" by auto
  qed
qed (auto simp: or_contract_def)

section \<open>Properties\<close>

text \<open>
  C10: a filter that fits the type of the vector never fails and never reads outside the buffers of the
  vector or of a selection. The rows it leaves selected are exactly those of the incoming selection
  whose value passes the filter, each once; without an OR in the filter they keep their order.
\<close>

theorem FilterSelection_correct:
  assumes "scannable n vector st" "filter_ok (vec_type vector) f"
  shows "\<exists>st'. FilterSelection f vector st = Inr st' \<and> distinct (sel_rows st')
    \<and> set (sel_rows st') = {r \<in> set (sel_rows st). filter_holds (vec_type vector) f (vec_value vector r)}
    \<and> (or_free f \<longrightarrow> sel_rows st' = filter (\<lambda>r. filter_holds (vec_type vector) f (vec_value vector r)) (sel_rows st))"
  using FilterSelection_narrows(1) assms unfolding narrows_def passing_def by blast

definition sample_vector :: Vector where
  "sample_vector = Vector (simple_type LogicalTypeId.INTEGER)
     \<lparr>usel_vec = SelNull, uvalidity = \<lparr>validity_mask = Some [0b1101], target_count = 4\<rparr>,
      ucells = [NumPayload 5, NumPayload 9, NumPayload 7, NumPayload 2]\<rparr> []"

theorem FilterSelection_correct_witness:
  "let ty = simple_type LogicalTypeId.INTEGER;
       f = ConjunctionAndFilter [IsNotNullFilter, ConstantFilter COMPARE_GREATERTHAN (num_val ty 4)]
   in \<exists>st'. FilterSelection f sample_vector (4, SelNull) = Inr st' \<and> sel_rows st' = [0, 2]"
proof -
  let ?ty = "simple_type LogicalTypeId.INTEGER"
  let ?f = "ConjunctionAndFilter [IsNotNullFilter, ConstantFilter COMPARE_GREATERTHAN (num_val ?ty 4)]"
  have rows: "[0..<4] = [0, 1, 2, 3 :: nat]" by (simp add: upt_conv_Cons)
  have "scannable 4 sample_vector (4, SelNull)"
    by (simp add: scannable_def sample_vector_def readable_def cell_index_def mask_capacity_def del: set_upt)
      (simp add: rows)
  moreover have "filter_ok (vec_type sample_vector) ?f" by (simp add: sample_vector_def num_val_def type_width_def num_eval)
  ultimately have "\<exists>st'. FilterSelection ?f sample_vector (4, SelNull) = Inr st'
      \<and> sel_rows st' = filter (\<lambda>r. filter_holds (vec_type sample_vector) ?f (vec_value sample_vector r)) [0..<4]"
    using FilterSelection_correct [of 4 sample_vector "(4, SelNull)" ?f] by auto
  then show ?thesis
    by (simp add: rows sample_vector_def cell_index_def valid_row_def num_val_def num_of_def comparison_holds_def num_eval Let_def)
qed

end
