(* ===== verification/Sketch_Filter.thy ===== *)
theory Sketch_Filter
  imports Sketch_SIMD Table_Filter
begin

text \<open>
  Filters answered from the column sketches of a vector: the \<open>CheckSketchStatistics\<close> methods of
  \<^verbatim>\<open>src/src/planner/filter/\<close> and \<open>NumericStats::CheckSketch\<close> of
  \<^verbatim>\<open>src/src/storage/statistics/numeric_stats.cpp\<close>.

  A column has one sketch and one managed selection per vector; a filter leaves the rows it selects in the
  managed selection of the vector. The methods return the prune result together with the
  managed selections they have changed. \<open>sketch_holds\<close> is the comparison the sketches decide: it is
  unsigned, whatever the type of the column is.
\<close>

section \<open>Sketches of a column\<close>

text \<open>The two instances of \<open>ColumnSketchWrapper\<close>, and the casts of a pointer to their base class.\<close>

datatype BaseColumnSketch =
    Sketch32 "(32 word, 8 word) ColumnSketch"
  | Sketch64 "(64 word, 8 word) ColumnSketch"

fun as_Sketch32 :: "BaseColumnSketch \<Rightarrow> (32 word, 8 word) ColumnSketch option" where
  "as_Sketch32 (Sketch32 s) = Some s"
| "as_Sketch32 (Sketch64 s) = None"

fun as_Sketch64 :: "BaseColumnSketch \<Rightarrow> (64 word, 8 word) ColumnSketch option" where
  "as_Sketch64 (Sketch64 s) = Some s"
| "as_Sketch64 (Sketch32 s) = None"

section \<open>Constant filters\<close>

definition sketch_prune :: "idx_t \<Rightarrow> idx_t \<Rightarrow> FilterPropagateResult" where
  "sketch_prune result n =
     (if result \<noteq> 0 then if result = n then FILTER_ALWAYS_TRUE else NO_PRUNING_POSSIBLE else FILTER_ALWAYS_FALSE)"

definition CheckSketchTemplated ::
  "(BaseColumnSketch \<Rightarrow> ('b::len word, 8 word) ColumnSketch option) \<Rightarrow> ExpressionType \<Rightarrow> Value \<Rightarrow> idx_t
    \<Rightarrow> BaseColumnSketch list \<Rightarrow> ManagedSelection list \<Rightarrow> exc + FilterPropagateResult \<times> ManagedSelection list" where
  "CheckSketchTemplated cast comparison_type constant_value index segment_sketches vector_sels =
     (if index \<ge> length segment_sketches \<or> index \<ge> length vector_sels then Inl OutOfBounds
      else
        let constant = (ucast (num_of constant_value) :: 'b word);
            sel = vector_sels ! index
        in case cast (segment_sketches ! index) of
             None \<Rightarrow> Inr (NO_PRUNING_POSSIBLE, vector_sels)
           | Some sk \<Rightarrow>
               let run = (\<lambda>evaluation. bind_res evaluation (\<lambda>(result, sel).
                     Inr (sketch_prune result (length (base_data sk)), vector_sels[index := sel])))
               in case comparison_type of
                    COMPARE_EQUAL \<Rightarrow> Inr (NO_PRUNING_POSSIBLE, vector_sels)
                  | COMPARE_NOTEQUAL \<Rightarrow> Inr (NO_PRUNING_POSSIBLE, vector_sels)
                  | COMPARE_GREATERTHANOREQUALTO \<Rightarrow> run (evaluate_greater_than_AVX512 sk (constant - 1) sel)
                  | COMPARE_GREATERTHAN \<Rightarrow> run (evaluate_greater_than_AVX512 sk constant sel)
                  | COMPARE_LESSTHANOREQUALTO \<Rightarrow> run (evaluate_less_than_AVX512 sk (constant + 1) sel)
                  | COMPARE_LESSTHAN \<Rightarrow> run (evaluate_less_than_AVX512 sk constant sel)
                  | _ \<Rightarrow> Inl InternalException)"

definition NumericStats_CheckSketch ::
  "BaseStatistics \<Rightarrow> ExpressionType \<Rightarrow> Value \<Rightarrow> idx_t \<Rightarrow> BaseColumnSketch list \<Rightarrow> ManagedSelection list
    \<Rightarrow> exc + FilterPropagateResult \<times> ManagedSelection list" where
  "NumericStats_CheckSketch stats comparison_type constant index segment_sketches vector_sels =
     (if IsNull constant then Inr (FILTER_ALWAYS_FALSE, vector_sels)
      else if InternalType (stats_ty stats) \<in> {PhysicalType.INT32, PhysicalType.UINT32}
      then CheckSketchTemplated as_Sketch32 comparison_type constant index segment_sketches vector_sels
      else if InternalType (stats_ty stats) \<in> {PhysicalType.INT64, PhysicalType.UINT64}
      then CheckSketchTemplated as_Sketch64 comparison_type constant index segment_sketches vector_sels
      else Inl InternalException)"

definition ConstantFilter_CheckSketchStatistics ::
  "ExpressionType \<Rightarrow> Value \<Rightarrow> BaseStatistics \<Rightarrow> idx_t \<Rightarrow> BaseColumnSketch list \<Rightarrow> ManagedSelection list
    \<Rightarrow> exc + FilterPropagateResult \<times> ManagedSelection list" where
  "ConstantFilter_CheckSketchStatistics comparison_type constant stats index segment_sketches vector_sels =
     (if InternalType (v_type constant) \<in> {PhysicalType.UINT32, PhysicalType.UINT64, PhysicalType.INT32, PhysicalType.INT64}
      then NumericStats_CheckSketch stats comparison_type constant index segment_sketches vector_sels
      else Inr (NO_PRUNING_POSSIBLE, vector_sels))"

section \<open>The filter tree\<close>

text \<open>One step of the merging loop: \<open>merged_mask[j] &= cur_mask[j]\<close> for every \<open>j\<close>.\<close>

definition and_masks :: "u64 list \<Rightarrow> u64 list \<Rightarrow> exc + u64 list" where
  "and_masks merged_mask cur_mask =
     (if length cur_mask < length merged_mask then Inl OutOfBounds
      else Inr (map (\<lambda>j. merged_mask ! j AND cur_mask ! j) [0..<length merged_mask]))"

fun CheckSketchStatistics ::
  "TableFilter \<Rightarrow> BaseStatistics \<Rightarrow> idx_t \<Rightarrow> BaseColumnSketch list \<Rightarrow> ManagedSelection list
    \<Rightarrow> exc + FilterPropagateResult \<times> ManagedSelection list"
  and Or_CheckSketch ::
    "TableFilter list \<Rightarrow> BaseStatistics \<Rightarrow> idx_t \<Rightarrow> BaseColumnSketch list \<Rightarrow> ManagedSelection list
      \<Rightarrow> exc + FilterPropagateResult \<times> ManagedSelection list"
  and And_CheckSketch ::
    "TableFilter list \<Rightarrow> BaseStatistics \<Rightarrow> idx_t \<Rightarrow> BaseColumnSketch list \<Rightarrow> FilterPropagateResult \<Rightarrow> nat \<Rightarrow> u64 list \<Rightarrow> ManagedSelection list
      \<Rightarrow> exc + FilterPropagateResult \<times> ManagedSelection list" where
  "CheckSketchStatistics (ConstantFilter op c) s index sks sels = ConstantFilter_CheckSketchStatistics op c s index sks sels"
| "CheckSketchStatistics IsNullFilter s index sks sels =
     Inr (if \<not> CanHaveNull s then FILTER_ALWAYS_FALSE else if \<not> CanHaveNoNull s then FILTER_ALWAYS_TRUE else NO_PRUNING_POSSIBLE, sels)"
| "CheckSketchStatistics IsNotNullFilter s index sks sels =
     Inr (if \<not> CanHaveNoNull s then FILTER_ALWAYS_FALSE else if \<not> CanHaveNull s then FILTER_ALWAYS_TRUE else NO_PRUNING_POSSIBLE, sels)"
| "CheckSketchStatistics (ConjunctionOrFilter fs) s index sks sels = Or_CheckSketch fs s index sks sels"
| "CheckSketchStatistics (ConjunctionAndFilter fs) s index sks sels =
     (if index \<ge> length sels then Inl OutOfBounds else And_CheckSketch fs s index sks FILTER_ALWAYS_TRUE 0 [] sels)"
| "CheckSketchStatistics (StructFilter i n f) s index sks sels =
     bind_res (GetChildStats s i) (\<lambda>cs. CheckSketchStatistics f cs index sks sels)"
| "Or_CheckSketch [] s index sks sels = Inr (FILTER_ALWAYS_FALSE, sels)"
| "Or_CheckSketch (f # fs) s index sks sels =
     bind_res (CheckSketchStatistics f s index sks sels) (\<lambda>(prune_result, sels).
       if prune_result = NO_PRUNING_POSSIBLE then Inr (NO_PRUNING_POSSIBLE, sels)
       else if prune_result = FILTER_ALWAYS_TRUE then Inr (FILTER_ALWAYS_TRUE, sels)
       else Or_CheckSketch fs s index sks sels)"
| "And_CheckSketch [] s index sks result i merged_mask sels =
     (if int i - 1 \<noteq> 0
      then bind_res (BitmaskToSelection ((sels ! index)\<lparr>bitmask := merged_mask\<rparr>)) (\<lambda>msel. Inr (result, sels[index := msel]))
      else Inr (result, sels))"
| "And_CheckSketch (f # fs) s index sks result i merged_mask sels =
     bind_res (CheckSketchStatistics f s index sks sels) (\<lambda>(prune_result, sels).
     bind_res (if filter_type f = CONSTANT_COMPARISON
               then bind_res (if i = 0 then Inr (bitmask (sels ! index)) else and_masks merged_mask (bitmask (sels ! index)))
                      (\<lambda>merged. Inr (i + 1, merged))
               else Inr (i, merged_mask)) (\<lambda>(i, merged_mask).
       if prune_result = FILTER_ALWAYS_FALSE then Inr (FILTER_ALWAYS_FALSE, sels)
       else And_CheckSketch fs s index sks (if prune_result \<noteq> result then NO_PRUNING_POSSIBLE else result) i merged_mask sels))"

section \<open>What a sketch decides\<close>

text \<open>
  The values of a sketched vector and a constant as the sketch sees them, and the rows a conjunction of
  comparisons selects. \<open>range_filter\<close> admits the comparisons the sketch evaluates without a wrap-around of
  \<open>constant + 1\<close> or \<open>constant - 1\<close>. \<open>well_coded\<close> is a condition under which the
  base values are consulted whenever the codes do not decide a comparison: the vector has more distinct values
  than there are codes, or it is shorter than one block of 64 rows.
\<close>

fun sketch_bits :: "BaseColumnSketch \<Rightarrow> nat" where
  "sketch_bits (Sketch32 s) = 32"
| "sketch_bits (Sketch64 s) = 64"

fun sketch_values :: "BaseColumnSketch \<Rightarrow> nat list" where
  "sketch_values (Sketch32 s) = map unat (base_data s)"
| "sketch_values (Sketch64 s) = map unat (base_data s)"

fun sketch_built :: "BaseColumnSketch \<Rightarrow> bool" where
  "sketch_built (Sketch32 s) \<longleftrightarrow> ColumnSketch_new (base_data s) = Inr s"
| "sketch_built (Sketch64 s) \<longleftrightarrow> ColumnSketch_new (base_data s) = Inr s"

definition sketch_const :: "BaseColumnSketch \<Rightarrow> Value \<Rightarrow> nat" where
  "sketch_const sk c = unat (num_of c) mod 2 ^ sketch_bits sk"

definition well_coded :: "'a list \<Rightarrow> bool" where
  "well_coded vs \<longleftrightarrow> length vs < 32768 \<and> (length vs < 64 \<or> 256 < card (set vs))"

fun sketch_holds :: "ExpressionType \<Rightarrow> nat \<Rightarrow> nat \<Rightarrow> bool" where
  "sketch_holds COMPARE_GREATERTHANOREQUALTO k v \<longleftrightarrow> k \<le> v"
| "sketch_holds COMPARE_GREATERTHAN k v \<longleftrightarrow> k < v"
| "sketch_holds COMPARE_LESSTHANOREQUALTO k v \<longleftrightarrow> v \<le> k"
| "sketch_holds COMPARE_LESSTHAN k v \<longleftrightarrow> v < k"
| "sketch_holds _ k v \<longleftrightarrow> False"

fun range_filter :: "nat \<Rightarrow> ExpressionType \<Rightarrow> nat \<Rightarrow> bool" where
  "range_filter bits COMPARE_GREATERTHANOREQUALTO k \<longleftrightarrow> 0 < k"
| "range_filter bits COMPARE_GREATERTHAN k \<longleftrightarrow> True"
| "range_filter bits COMPARE_LESSTHANOREQUALTO k \<longleftrightarrow> k < 2 ^ bits - 1"
| "range_filter bits COMPARE_LESSTHAN k \<longleftrightarrow> True"
| "range_filter bits _ k \<longleftrightarrow> False"

definition sketch_rows :: "BaseColumnSketch \<Rightarrow> (ExpressionType \<times> Value) list \<Rightarrow> nat list" where
  "sketch_rows sk ps = filter (\<lambda>i. \<forall>p \<in> set ps. sketch_holds (fst p) (sketch_const sk (snd p)) (sketch_values sk ! i))
     [0..<length (sketch_values sk)]"

definition sketchable :: "BaseStatistics \<Rightarrow> BaseColumnSketch \<Rightarrow> ExpressionType \<times> Value \<Rightarrow> bool" where
  "sketchable s sk p \<longleftrightarrow>
     \<not> IsNull (snd p) \<and> range_filter (sketch_bits sk) (fst p) (sketch_const sk (snd p))
     \<and> InternalType (v_type (snd p)) \<in> {PhysicalType.UINT32, PhysicalType.UINT64, PhysicalType.INT32, PhysicalType.INT64}
     \<and> InternalType (stats_ty s) \<in> (if sketch_bits sk = 32 then {PhysicalType.INT32, PhysicalType.UINT32}
          else {PhysicalType.INT64, PhysicalType.UINT64})"

section \<open>One comparison\<close>

lemma evaluate_AVX512_size:
  "evaluate_less_than_AVX512 cs x m = Inr r \<Longrightarrow> ms_size (snd r) = ms_size m"
  "evaluate_greater_than_AVX512 cs x m = Inr r \<Longrightarrow> ms_size (snd r) = ms_size m"
  by (auto simp: evaluate_less_than_AVX512_def evaluate_greater_than_AVX512_def avx512_scan_def select_all_def
      reset_selection_def SetCount_def Let_def bind_res_eq_Inr split: if_splits prod.splits)

lemma well_coded_checked:
  fixes cs :: "('b::len word, 8 word) ColumnSketch"
  assumes "ColumnSketch_new data = Inr cs" "well_coded data"
  shows "base_checked cs i"
  using need_check_many [OF assms(1)] assms(2) ColumnSketch_new_Inr [OF assms(1)]
  by (auto simp: well_coded_def base_checked_def)

text \<open>The rows one evaluation leaves in the managed selection, and the number of words of its mask.\<close>

definition evaluated :: "nat \<Rightarrow> (nat \<Rightarrow> bool) \<Rightarrow> ManagedSelection \<Rightarrow> idx_t \<times> ManagedSelection \<Rightarrow> bool" where
  "evaluated n P m r \<longleftrightarrow> fst r = length (filter P [0..<n]) \<and> ms_size (snd r) = ms_size m
     \<and> (if filter P [0..<n] = [] then snd r = m
        else ms_rows (snd r) = filter P [0..<n] \<and> mask_rows (bitmask (snd r)) = filter P [0..<n]
          \<and> length (bitmask (snd r)) = (n + (if filter P [0..<n] = [0..<n] then 63 else 64)) div 64)"

lemma filter_all_upt: "filter P [0..<n] = [0..<n] \<longleftrightarrow> (\<forall>i < n. P i)" for n :: nat
  by (auto simp: filter_id_conv)

lemma filter_none_upt: "filter P [0..<n] = [] \<longleftrightarrow> (\<forall>i < n. \<not> P i)" for n :: nat
  by (auto simp: filter_empty_conv)

lemma selects_evaluated:
  assumes "selects n P r" "ms_size (snd r) = ms_size m" "i < n" "P i"
    "length (bitmask (snd r)) = (n + (if \<forall>i < n. P i then 63 else 64)) div 64"
  shows "evaluated n P m r"
proof -
  have "filter P [0..<n] \<noteq> []" using assms(3,4) by (auto simp: filter_none_upt)
  then show ?thesis using assms(1,2,5) by (simp add: evaluated_def selects_def filter_all_upt split: prod.splits)
qed

lemma sketch_inv_all_nth:
  assumes "sketch_inv cs"
  shows "max_data cs < x \<longleftrightarrow> (\<forall>i < length (base_data cs). base_data cs ! i < x)"
    and "x < min_data cs \<longleftrightarrow> (\<forall>i < length (base_data cs). x < base_data cs ! i)"
proof -
  let ?d = "base_data cs"
  have bounds: "min_data cs \<le> ?d ! i \<and> ?d ! i \<le> max_data cs" if "i < length ?d" for i
    using assms that by (simp add: sketch_inv_def)
  obtain i j where ends: "i < length ?d" "?d ! i = min_data cs" "j < length ?d" "?d ! j = max_data cs"
    using assms unfolding sketch_inv_def in_set_conv_nth by blast
  show "max_data cs < x \<longleftrightarrow> (\<forall>i < length ?d. ?d ! i < x)"
    using bounds ends(3,4) by (auto intro: order.strict_trans1)
  show "x < min_data cs \<longleftrightarrow> (\<forall>i < length ?d. x < ?d ! i)"
    using bounds ends(1,2) by (auto intro: order.strict_trans2)
qed

lemma if_swap: "(if \<not> A then x else y) = (if A then y else x)"
  by simp

lemma evaluate_less_than_AVX512_evaluated:
  fixes cs :: "('b::len word, 8 word) ColumnSketch"
  assumes new: "ColumnSketch_new data = Inr cs" and wc: "well_coded data"
  shows "\<exists>r. evaluate_less_than_AVX512 cs x m = Inr r \<and> evaluated (length data) (\<lambda>i. data ! i < x) m r"
proof (cases "min_data cs < x")
  case True
  have inv: "sketch_inv cs" and base: "base_data cs = data" using ColumnSketch_new_Inr [OF new] by simp_all
  have n: "length (base_data cs) < 32768" using wc by (simp add: base well_coded_def)
  have chk: "base_checked cs = (\<lambda>i. True)" using well_coded_checked [OF new wc] by blast
  obtain r where r: "evaluate_less_than_AVX512 cs x m = Inr r" "selects (length data) (\<lambda>i. data ! i < x) r"
      "length (bitmask (snd r)) = (length data + (if x \<le> max_data cs then 64 else 63)) div 64"
    using evaluate_less_than_AVX512_rows [OF inv n True, of m] by (auto simp: chk base)
  obtain i where i: "i < length data" "data ! i < x"
    using True ColumnSketch_new_fields(4) [OF new, of x] by (auto simp: in_set_conv_nth)
  have "x \<le> max_data cs \<longleftrightarrow> \<not> max_data cs < x" by (simp add: not_less)
  also have "\<dots> \<longleftrightarrow> \<not> (\<forall>i < length data. data ! i < x)" using sketch_inv_all_nth(1) [OF inv, of x] by (simp only: base)
  finally have "(if x \<le> max_data cs then 64 else 63) = (if \<forall>i < length data. data ! i < x then 63 else 64 :: nat)"
    by (simp only: if_swap)
  then have "evaluated (length data) (\<lambda>i. data ! i < x) m r"
    by (intro selects_evaluated [OF r(2) evaluate_AVX512_size(1) [OF r(1)] i]) (simp only: r(3))
  with r(1) show ?thesis by blast
next
  case False
  have inv: "sketch_inv cs" using ColumnSketch_new_Inr [OF new] by simp
  have "\<not> data ! i < x" if "i < length data" for i
    using False ColumnSketch_new_fields(4) [OF new, of x] nth_mem [OF that] by metis
  then have "filter (\<lambda>i. data ! i < x) [0..<length data] = []" by (simp add: filter_none_upt)
  then show ?thesis using AVX512_none(1) [OF inv False] by (simp add: evaluated_def)
qed

lemma evaluate_greater_than_AVX512_evaluated:
  fixes cs :: "('b::len word, 8 word) ColumnSketch"
  assumes new: "ColumnSketch_new data = Inr cs" and wc: "well_coded data"
  shows "\<exists>r. evaluate_greater_than_AVX512 cs x m = Inr r \<and> evaluated (length data) (\<lambda>i. x < data ! i) m r"
proof (cases "x < max_data cs")
  case True
  have inv: "sketch_inv cs" and base: "base_data cs = data" using ColumnSketch_new_Inr [OF new] by simp_all
  have n: "length (base_data cs) < 32768" using wc by (simp add: base well_coded_def)
  have chk: "base_checked cs = (\<lambda>i. True)" using well_coded_checked [OF new wc] by blast
  obtain r where r: "evaluate_greater_than_AVX512 cs x m = Inr r" "selects (length data) (\<lambda>i. x < data ! i) r"
      "length (bitmask (snd r)) = (length data + (if x < min_data cs then 63 else 64)) div 64"
    using evaluate_greater_than_AVX512_rows [OF inv n True, of m] by (auto simp: chk base)
  obtain i where i: "i < length data" "x < data ! i"
    using True ColumnSketch_new_fields(5) [OF new, of x] by (auto simp: in_set_conv_nth)
  have "x < min_data cs \<longleftrightarrow> (\<forall>i < length data. x < data ! i)" using sketch_inv_all_nth(2) [OF inv, of x] by (simp only: base)
  then have "evaluated (length data) (\<lambda>i. x < data ! i) m r"
    by (intro selects_evaluated [OF r(2) evaluate_AVX512_size(2) [OF r(1)] i]) (simp only: r(3))
  with r(1) show ?thesis by blast
next
  case False
  have inv: "sketch_inv cs" using ColumnSketch_new_Inr [OF new] by simp
  have "\<not> x < data ! i" if "i < length data" for i
    using False ColumnSketch_new_fields(5) [OF new, of x] nth_mem [OF that] by metis
  then have "filter (\<lambda>i. x < data ! i) [0..<length data] = []" by (simp add: filter_none_upt)
  then show ?thesis using AVX512_none(3) [OF inv False] by (simp add: evaluated_def)
qed

lemma evaluated_cong: "(\<And>i. i < n \<Longrightarrow> P i \<longleftrightarrow> Q i) \<Longrightarrow> evaluated n P m r = evaluated n Q m r"
proof -
  assume "\<And>i. i < n \<Longrightarrow> P i \<longleftrightarrow> Q i"
  then have "filter P [0..<n] = filter Q [0..<n]" by (intro filter_cong) auto
  then show ?thesis by (simp only: evaluated_def)
qed

lemma word_off_by_one:
  fixes x v :: "'b::len word"
  shows "0 < unat x \<Longrightarrow> x - 1 < v \<longleftrightarrow> unat x \<le> unat v"
    and "unat x < 2 ^ LENGTH('b) - 1 \<Longrightarrow> v < x + 1 \<longleftrightarrow> unat v \<le> unat x"
proof -
  assume "0 < unat x"
  then have "x \<noteq> 0" by auto
  then show "x - 1 < v \<longleftrightarrow> unat x \<le> unat v" using \<open>0 < unat x\<close> by (simp add: word_less_nat_alt unat_minus_one) linarith
next
  assume "unat x < 2 ^ LENGTH('b) - 1"
  then have "unat (x + 1) = unat x + 1" by (simp add: unat_word_ariths)
  then show "v < x + 1 \<longleftrightarrow> unat v \<le> unat x" by (simp add: word_less_nat_alt less_Suc_eq_le)
qed

lemma CheckSketchTemplated_range:
  fixes cs :: "('b::len word, 8 word) ColumnSketch" and c :: Value
  defines "k \<equiv> ucast (num_of c) :: 'b word"
  assumes idx: "index < length sks" "index < length sels" and cast: "cast (sks ! index) = Some cs"
    and new: "ColumnSketch_new (base_data cs) = Inr cs" and wc: "well_coded (base_data cs)"
    and rf: "range_filter LENGTH('b) op (unat k)"
  shows "\<exists>r. CheckSketchTemplated cast op c index sks sels = Inr (sketch_prune (fst r) (length (base_data cs)), sels[index := snd r])
    \<and> evaluated (length (base_data cs)) (\<lambda>i. sketch_holds op (unat k) (unat (base_data cs ! i))) (sels ! index) r"
proof -
  note lt = evaluate_less_than_AVX512_evaluated [OF new wc, of _ "sels ! index"]
  note gt = evaluate_greater_than_AVX512_evaluated [OF new wc, of _ "sels ! index"]
  have *: "\<exists>r. CheckSketchTemplated cast op c index sks sels = Inr (sketch_prune (fst r) (length (base_data cs)), sels[index := snd r])
      \<and> evaluated (length (base_data cs)) (\<lambda>i. sketch_holds op (unat k) (unat (base_data cs ! i))) (sels ! index) r"
    if "\<exists>r. e = Inr r \<and> evaluated (length (base_data cs)) P (sels ! index) r"
      "\<And>i. P i \<longleftrightarrow> sketch_holds op (unat k) (unat (base_data cs ! i))"
      "CheckSketchTemplated cast op c index sks sels = bind_res e (\<lambda>(result, sel).
         Inr (sketch_prune result (length (base_data cs)), sels[index := sel]))" for P e
  proof -
    from that(1) obtain r where r: "e = Inr r" "evaluated (length (base_data cs)) P (sels ! index) r" by blast
    moreover have "P = (\<lambda>i. sketch_holds op (unat k) (unat (base_data cs ! i)))" using that(2) by blast
    ultimately show ?thesis using that(3) by (intro exI [of _ r]) (simp add: case_prod_unfold)
  qed
  have run: "CheckSketchTemplated cast op c index sks sels = (case op of
      COMPARE_GREATERTHANOREQUALTO \<Rightarrow> bind_res (evaluate_greater_than_AVX512 cs (k - 1) (sels ! index)) (\<lambda>(result, sel).
         Inr (sketch_prune result (length (base_data cs)), sels[index := sel]))
    | COMPARE_GREATERTHAN \<Rightarrow> bind_res (evaluate_greater_than_AVX512 cs k (sels ! index)) (\<lambda>(result, sel).
         Inr (sketch_prune result (length (base_data cs)), sels[index := sel]))
    | COMPARE_LESSTHANOREQUALTO \<Rightarrow> bind_res (evaluate_less_than_AVX512 cs (k + 1) (sels ! index)) (\<lambda>(result, sel).
         Inr (sketch_prune result (length (base_data cs)), sels[index := sel]))
    | _ \<Rightarrow> bind_res (evaluate_less_than_AVX512 cs k (sels ! index)) (\<lambda>(result, sel).
         Inr (sketch_prune result (length (base_data cs)), sels[index := sel])))"
    using rf idx by (cases op) (simp_all add: CheckSketchTemplated_def cast k_def Let_def not_le)
  show ?thesis
  proof (cases op)
    case COMPARE_LESSTHAN
    with run show ?thesis by (intro * [OF lt [of k]]) (simp_all add: word_less_nat_alt)
  next
    case COMPARE_GREATERTHAN
    with run show ?thesis by (intro * [OF gt [of k]]) (simp_all add: word_less_nat_alt)
  next
    case COMPARE_LESSTHANOREQUALTO
    with run rf show ?thesis by (intro * [OF lt [of "k + 1"]]) (simp_all add: word_off_by_one)
  next
    case COMPARE_GREATERTHANOREQUALTO
    with run rf show ?thesis by (intro * [OF gt [of "k - 1"]]) (simp_all add: word_off_by_one)
  qed (use rf in simp_all)
qed

text \<open>The same for a constant filter on a column whose vector \<open>index\<close> has a sketch of the right width.\<close>

definition sketch_passes :: "BaseColumnSketch \<Rightarrow> ExpressionType \<times> Value \<Rightarrow> nat \<Rightarrow> bool" where
  "sketch_passes sk p i \<longleftrightarrow> sketch_holds (fst p) (sketch_const sk (snd p)) (sketch_values sk ! i)"

lemma unat_ucast_num_of: "unat (ucast (num_of c) :: 'b::len word) = unat (num_of c) mod 2 ^ LENGTH('b)"
  by (simp add: unsigned_ucast_eq unsigned_take_bit_eq take_bit_eq_mod)

lemma well_coded_unat: "well_coded (map unat (xs :: 'b::len word list)) \<longleftrightarrow> well_coded xs"
proof -
  have "card (unat ` set xs) = card (set xs)" by (intro card_image inj_onI) (simp add: word_unat_eq_iff)
  then show ?thesis by (simp add: well_coded_def)
qed

lemma ConstantFilter_sketch_rows:
  fixes p :: "ExpressionType \<times> Value"
  defines "op \<equiv> fst p" and "c \<equiv> snd p"
  assumes idx: "index < length sks" "index < length sels" and ok: "sketchable s (sks ! index) p"
    and built: "sketch_built (sks ! index)" and wc: "well_coded (sketch_values (sks ! index))"
  shows "\<exists>r. ConstantFilter_CheckSketchStatistics op c s index sks sels
      = Inr (sketch_prune (fst r) (length (sketch_values (sks ! index))), sels[index := snd r])
    \<and> evaluated (length (sketch_values (sks ! index))) (sketch_passes (sks ! index) p) (sels ! index) r"
proof (cases "sks ! index")
  case (Sketch32 cs)
  have "ConstantFilter_CheckSketchStatistics op c s index sks sels = CheckSketchTemplated as_Sketch32 op c index sks sels"
    using ok by (auto simp: Sketch32 sketchable_def ConstantFilter_CheckSketchStatistics_def NumericStats_CheckSketch_def c_def)
  moreover have "\<exists>r. CheckSketchTemplated as_Sketch32 op c index sks sels = Inr (sketch_prune (fst r) (length (base_data cs)), sels[index := snd r])
      \<and> evaluated (length (base_data cs)) (\<lambda>i. sketch_holds op (sketch_const (sks ! index) c) (unat (base_data cs ! i))) (sels ! index) r"
    using ok built wc CheckSketchTemplated_range [OF idx, of as_Sketch32 cs op c]
    by (simp add: Sketch32 sketchable_def sketch_const_def unat_ucast_num_of well_coded_unat op_def c_def)
  ultimately show ?thesis
    using evaluated_cong [of "length (base_data cs)" "sketch_passes (sks ! index) p"
        "\<lambda>i. sketch_holds op (sketch_const (sks ! index) c) (unat (base_data cs ! i))"]
    by (simp add: Sketch32 sketch_passes_def op_def c_def)
next
  case (Sketch64 cs)
  have "ConstantFilter_CheckSketchStatistics op c s index sks sels = CheckSketchTemplated as_Sketch64 op c index sks sels"
    using ok by (auto simp: Sketch64 sketchable_def ConstantFilter_CheckSketchStatistics_def NumericStats_CheckSketch_def c_def)
  moreover have "\<exists>r. CheckSketchTemplated as_Sketch64 op c index sks sels = Inr (sketch_prune (fst r) (length (base_data cs)), sels[index := snd r])
      \<and> evaluated (length (base_data cs)) (\<lambda>i. sketch_holds op (sketch_const (sks ! index) c) (unat (base_data cs ! i))) (sels ! index) r"
    using ok built wc CheckSketchTemplated_range [OF idx, of as_Sketch64 cs op c]
    by (simp add: Sketch64 sketchable_def sketch_const_def unat_ucast_num_of well_coded_unat op_def c_def)
  ultimately show ?thesis
    using evaluated_cong [of "length (base_data cs)" "sketch_passes (sks ! index) p"
        "\<lambda>i. sketch_holds op (sketch_const (sks ! index) c) (unat (base_data cs ! i))"]
    by (simp add: Sketch64 sketch_passes_def op_def c_def)
qed

section \<open>Conjunctions\<close>

lemma set_mask_rows: "set (mask_rows ms) = {r. mask_bit ms r}"
proof -
  have "r < 64 * length ms" if "mask_bit ms r" for r using that unfolding mask_bit_def by linarith
  then show ?thesis by (auto simp: mask_rows_def)
qed

lemma and_masks_rows:
  assumes "length a = length b" "mask_rows a = filter P [0..<n]" "mask_rows b = filter Q [0..<n]"
  shows "\<exists>c. and_masks a b = Inr c \<and> length c = length a \<and> mask_rows c = filter (\<lambda>i. P i \<and> Q i) [0..<n]"
proof -
  let ?c = "map (\<lambda>j. a ! j AND b ! j) [0..<length a]"
  have "mask_rows ?c = filter (mask_bit b) (mask_rows a)"
    using assms(1) unfolding mask_rows_def filter_filter by (intro filter_cong) (auto simp: mask_bit_def bit_simps)
  also have "\<dots> = filter (\<lambda>i. P i \<and> Q i) [0..<n]"
  proof -
    have "mask_bit b i \<longleftrightarrow> Q i" if "i < n" for i
      using set_mask_rows [of b] that unfolding assms(3) by auto
    then show ?thesis unfolding assms(2) filter_filter by (intro filter_cong) auto
  qed
  finally show ?thesis using assms(1) by (simp add: and_masks_def)
qed

abbreviation constants :: "(ExpressionType \<times> Value) list \<Rightarrow> TableFilter list" where
  "constants ps \<equiv> map (\<lambda>p. ConstantFilter (fst p) (snd p)) ps"

text \<open>
  The mask of a scan has one word more than the mask of a full selection when the number of rows is a multiple
  of 64, and the merging loop reads the words of the first mask in every other one. \<open>mergeable\<close> excludes the
  case in which it reads beyond the end of a mask.
\<close>

definition mergeable :: "BaseColumnSketch \<Rightarrow> (ExpressionType \<times> Value) list \<Rightarrow> bool" where
  "mergeable sk ps \<longleftrightarrow> \<not> 64 dvd length (sketch_values sk)
     \<or> (\<forall>p \<in> set ps. \<exists>i < length (sketch_values sk). \<not> sketch_passes sk p i)"

lemma mask_words: "(n + (if b then 63 else 64)) div 64 = n div 64 + 1" if "\<not> 64 dvd n \<or> \<not> b" for n :: nat
proof (cases b)
  case True
  with that have "0 < n mod 64" by (simp add: mod_greater_zero_iff_not_dvd)
  have "(64 * q + r + 63) div 64 = q + 1" if "0 < r" "r < 64" for q r :: nat
    using that by (intro div_nat_eqI) auto
  from this [of "n mod 64" "n div 64"] \<open>0 < n mod 64\<close> have "(n + 63) div 64 = n div 64 + 1" by simp
  with True show ?thesis by simp
qed simp

lemma evaluated_mask:
  assumes "evaluated n P m r" "filter P [0..<n] \<noteq> []" "\<not> 64 dvd n \<or> (\<exists>i < n. \<not> P i)"
  shows "ms_rows (snd r) = filter P [0..<n]" "mask_rows (bitmask (snd r)) = filter P [0..<n]"
    "length (bitmask (snd r)) = n div 64 + 1" "ms_size (snd r) = ms_size m"
proof -
  have "(n + (if \<forall>i < n. P i then 63 else 64)) div 64 = n div 64 + 1" by (rule mask_words) (use assms(3) in blast)
  with assms(1,2) show "ms_rows (snd r) = filter P [0..<n]" "mask_rows (bitmask (snd r)) = filter P [0..<n]"
    "length (bitmask (snd r)) = n div 64 + 1" "ms_size (snd r) = ms_size m"
    unfolding evaluated_def filter_all_upt by (simp_all only: if_False)
qed

lemma sketch_prune_rows:
  "0 < n \<Longrightarrow> sketch_prune (length (filter P [0..<n])) n =
     (if filter P [0..<n] = [] then FILTER_ALWAYS_FALSE else if \<forall>i < n. P i then FILTER_ALWAYS_TRUE else NO_PRUNING_POSSIBLE)"
proof -
  assume "0 < n"
  have "length (filter P [0..<n]) = n \<longleftrightarrow> (\<forall>i < n. P i)"
    using length_filter_less [of _ "[0..<n]" P] filter_all_upt [of P n] by (force simp del: filter_True)
  then show ?thesis by (simp add: sketch_prune_def)
qed

text \<open>What a conjunction leaves: the result, and in the managed selection the rows that pass.\<close>

definition merged_rows :: "nat \<Rightarrow> (nat \<Rightarrow> bool) \<Rightarrow> FilterPropagateResult \<Rightarrow> ManagedSelection \<Rightarrow> bool" where
  "merged_rows n P r m \<longleftrightarrow> (if r = FILTER_ALWAYS_FALSE then filter P [0..<n] = [] else ms_rows m = filter P [0..<n])
     \<and> (r = FILTER_ALWAYS_TRUE \<longleftrightarrow> (\<forall>i < n. P i)) \<and> r \<in> {NO_PRUNING_POSSIBLE, FILTER_ALWAYS_TRUE, FILTER_ALWAYS_FALSE}"

lemma And_CheckSketch_rows:
  defines "n \<equiv> \<lambda>sk. length (sketch_values sk)"
  assumes "index < length sks" "sketch_built sk" "well_coded (sketch_values sk)" and sk: "sk = sks ! index" and n: "0 < n sk"
  shows "\<forall>p \<in> set ps. sketchable s sk p \<Longrightarrow> mergeable sk ps \<Longrightarrow> index < length sels \<Longrightarrow> n sk \<le> ms_size (sels ! index)
    \<Longrightarrow> mask_rows merged_mask = filter P [0..<n sk] \<Longrightarrow> length merged_mask = n sk div 64 + 1
    \<Longrightarrow> length (bitmask (sels ! index)) = n sk div 64 + 1 \<Longrightarrow> 0 < i
    \<Longrightarrow> (i = 1 \<Longrightarrow> ms_rows (sels ! index) = filter P [0..<n sk])
    \<Longrightarrow> result = (if \<forall>j < n sk. P j then FILTER_ALWAYS_TRUE else NO_PRUNING_POSSIBLE)
    \<Longrightarrow> \<exists>r m. And_CheckSketch (constants ps) s index sks result i merged_mask sels = Inr (r, sels[index := m])
          \<and> merged_rows (n sk) (\<lambda>j. P j \<and> (\<forall>p \<in> set ps. sketch_passes sk p j)) r m"
proof (induction ps arbitrary: P merged_mask sels i result)
  case Nil
  show ?case
  proof (cases "i = 1")
    case True
    with Nil show ?thesis by (auto simp: merged_rows_def intro!: exI [of _ "sels ! index"])
  next
    case False
    have "n sk < 32768" using assms(4) by (simp add: well_coded_def n_def)
    then have "n sk div 64 \<le> 67108863" using div_le_dividend [of "n sk" 64] by linarith
    moreover have "length (filter P [0..<n sk]) \<le> n sk" using length_filter_le [of P "[0..<n sk]"] by simp
    ultimately obtain m where "BitmaskToSelection ((sels ! index)\<lparr>bitmask := merged_mask\<rparr>) = Inr m" "ms_rows m = filter P [0..<n sk]"
      using BitmaskToSelection_ok [of "(sels ! index)\<lparr>bitmask := merged_mask\<rparr>"] Nil by auto
    with False Nil show ?thesis by (auto simp: merged_rows_def)
  qed
next
  case (Cons p ps)
  obtain r where r: "ConstantFilter_CheckSketchStatistics (fst p) (snd p) s index sks sels
        = Inr (sketch_prune (fst r) (n sk), sels[index := snd r])"
      "evaluated (n sk) (sketch_passes sk p) (sels ! index) r"
    using ConstantFilter_sketch_rows [of index sks sels s p] assms(2-4) Cons.prems(1,3) unfolding sk n_def by auto
  let ?Q = "sketch_passes sk p" and ?sels = "sels[index := snd r]"
  have cnt: "fst r = length (filter ?Q [0..<n sk])" using r(2) by (simp add: evaluated_def)
  show ?case
  proof (cases "filter ?Q [0..<n sk] = []")
    case True
    then have same: "sels[index := snd r] = sels" and pr: "sketch_prune (fst r) (n sk) = FILTER_ALWAYS_FALSE"
      using r(2) Cons.prems(3) by (simp_all add: evaluated_def sketch_prune_def)
    obtain c where "and_masks merged_mask (bitmask (sels ! index)) = Inr c" using Cons.prems(6,7) by (auto simp: and_masks_def)
    then have "And_CheckSketch (constants (p # ps)) s index sks result i merged_mask sels = Inr (FILTER_ALWAYS_FALSE, sels[index := sels ! index])"
      using r(1) Cons.prems(8) by (simp add: pr same)
    moreover have "merged_rows (n sk) (\<lambda>j. P j \<and> (\<forall>p \<in> set (p # ps). sketch_passes sk p j)) FILTER_ALWAYS_FALSE (sels ! index)"
      using True n by (auto simp: merged_rows_def filter_none_upt)
    ultimately show ?thesis by blast
  next
    case False
    have "\<not> 64 dvd n sk \<or> (\<exists>i < n sk. \<not> ?Q i)" using Cons.prems(2) by (auto simp: mergeable_def n_def)
    note e = evaluated_mask [OF r(2) False this]
    obtain c where c: "and_masks merged_mask (bitmask (snd r)) = Inr c" "length c = length merged_mask"
        "mask_rows c = filter (\<lambda>j. P j \<and> ?Q j) [0..<n sk]"
      using and_masks_rows [of merged_mask "bitmask (snd r)" P "n sk" ?Q] e Cons.prems(5,6) by auto
    let ?result = "if \<forall>j < n sk. P j \<and> ?Q j then FILTER_ALWAYS_TRUE else NO_PRUNING_POSSIBLE"
    have "\<exists>r m. And_CheckSketch (constants ps) s index sks ?result (i + 1) c ?sels = Inr (r, ?sels[index := m])
        \<and> merged_rows (n sk) (\<lambda>j. (P j \<and> ?Q j) \<and> (\<forall>p \<in> set ps. sketch_passes sk p j)) r m"
      by (rule Cons.IH) (use Cons.prems e c in \<open>auto simp: mergeable_def\<close>)
    moreover have "(if (if \<forall>j < n sk. ?Q j then FILTER_ALWAYS_TRUE else NO_PRUNING_POSSIBLE) \<noteq> result
        then NO_PRUNING_POSSIBLE else result) = ?result" using Cons.prems(10) by auto
    ultimately show ?thesis using r(1) c(1) False Cons.prems(3,8) n
      by (simp add: cnt sketch_prune_rows conj_assoc del: One_nat_def)
  qed
qed

lemma sketch_built_nonempty: "sketch_built sk \<Longrightarrow> 0 < length (sketch_values sk)"
  by (cases sk) (auto dest!: ColumnSketch_new_Inr simp: sketch_inv_def)

lemma sketch_rows_passes: "sketch_rows sk ps = filter (\<lambda>i. \<forall>p \<in> set ps. sketch_passes sk p i) [0..<length (sketch_values sk)]"
  by (simp add: sketch_rows_def sketch_passes_def)

lemma And_CheckSketch_first:
  defines "n \<equiv> \<lambda>sk. length (sketch_values sk)"
  assumes idx: "index < length sks" "index < length sels" and sk: "sk = sks ! index"
    and built: "sketch_built sk" and wc: "well_coded (sketch_values sk)"
    and ps: "\<forall>q \<in> set (p # ps). sketchable s sk q" "mergeable sk (p # ps)" and size: "n sk \<le> ms_size (sels ! index)"
  shows "\<exists>r m. And_CheckSketch (constants (p # ps)) s index sks FILTER_ALWAYS_TRUE 0 [] sels = Inr (r, sels[index := m])
    \<and> merged_rows (n sk) (\<lambda>j. \<forall>q \<in> set (p # ps). sketch_passes sk q j) r m"
proof -
  have n: "0 < n sk" using sketch_built_nonempty [OF built] by (simp add: n_def)
  obtain r where r: "ConstantFilter_CheckSketchStatistics (fst p) (snd p) s index sks sels
        = Inr (sketch_prune (fst r) (n sk), sels[index := snd r])"
      "evaluated (n sk) (sketch_passes sk p) (sels ! index) r"
    using ConstantFilter_sketch_rows [of index sks sels s p] idx built wc ps(1) unfolding sk n_def by auto
  let ?Q = "sketch_passes sk p" and ?sels = "sels[index := snd r]"
  have cnt: "fst r = length (filter ?Q [0..<n sk])" using r(2) by (simp add: evaluated_def)
  show ?thesis
  proof (cases "filter ?Q [0..<n sk] = []")
    case True
    then have "sketch_prune (fst r) (n sk) = FILTER_ALWAYS_FALSE" by (simp add: cnt sketch_prune_def)
    then have "And_CheckSketch (constants (p # ps)) s index sks FILTER_ALWAYS_TRUE 0 [] sels = Inr (FILTER_ALWAYS_FALSE, ?sels)"
      using r(1) by simp
    moreover have "merged_rows (n sk) (\<lambda>j. \<forall>q \<in> set (p # ps). sketch_passes sk q j) FILTER_ALWAYS_FALSE (snd r)"
      using True n by (auto simp: merged_rows_def filter_none_upt)
    ultimately show ?thesis by blast
  next
    case False
    have "\<not> 64 dvd n sk \<or> (\<exists>i < n sk. \<not> ?Q i)" using ps(2) by (auto simp: mergeable_def n_def)
    note e = evaluated_mask [OF r(2) False this]
    let ?result = "if \<forall>j < n sk. ?Q j then FILTER_ALWAYS_TRUE else NO_PRUNING_POSSIBLE"
    have "\<exists>r' m. And_CheckSketch (constants ps) s index sks ?result 1 (bitmask (snd r)) ?sels = Inr (r', ?sels[index := m])
        \<and> merged_rows (n sk) (\<lambda>j. ?Q j \<and> (\<forall>p \<in> set ps. sketch_passes sk p j)) r' m"
      using ps size e idx n unfolding n_def
      by (intro And_CheckSketch_rows [OF idx(1) built wc sk]) (auto simp: mergeable_def)
    moreover have "sketch_prune (fst r) (n sk) = ?result" using False n by (simp only: cnt sketch_prune_rows if_False)
    ultimately show ?thesis using r(1) idx(2) by (cases "\<forall>j < n sk. ?Q j") simp_all
  qed
qed

section \<open>Properties\<close>

text \<open>
  C12: a conjunction of range comparisons on a sketched vector is exact, under four conditions: the vector has more
  distinct values than codes or fewer than 64 rows (\<open>well_coded\<close>); the constants are of the width of the
  sketch and no \<open>constant + 1\<close> or \<open>constant - 1\<close> wraps (\<open>sketchable\<close>); the masks of the children have the same length
  (\<open>mergeable\<close>); and the managed selection is large enough. Then \<open>CheckSketchStatistics\<close> returns without reading outside
  a buffer and changes no other vector's selection. It answers "always false" only when no row passes every comparison,
  read as unsigned numbers, and then nothing is said of the managed selection of the vector; it answers "always true"
  exactly when every row passes; and unless it answers "always false" the managed selection of the
  vector holds exactly the rows that pass, in order.
\<close>

theorem And_CheckSketchStatistics_exact:
  assumes "index < length sks" "index < length sels" "sketch_built (sks ! index)" "well_coded (sketch_values (sks ! index))"
    and "ps \<noteq> []" "\<forall>p \<in> set ps. sketchable s (sks ! index) p" "mergeable (sks ! index) ps"
    and "length (sketch_values (sks ! index)) \<le> ms_size (sels ! index)"
  shows "\<exists>r m. CheckSketchStatistics (ConjunctionAndFilter (constants ps)) s index sks sels = Inr (r, sels[index := m])
    \<and> (if r = FILTER_ALWAYS_FALSE then sketch_rows (sks ! index) ps = [] else ms_rows m = sketch_rows (sks ! index) ps)
    \<and> (r = FILTER_ALWAYS_TRUE \<longleftrightarrow> sketch_rows (sks ! index) ps = [0..<length (sketch_values (sks ! index))])
    \<and> r \<in> {NO_PRUNING_POSSIBLE, FILTER_ALWAYS_TRUE, FILTER_ALWAYS_FALSE}"
proof -
  obtain p qs where ps: "ps = p # qs" using assms(5) by (cases ps) auto
  obtain r m where "And_CheckSketch (constants ps) s index sks FILTER_ALWAYS_TRUE 0 [] sels = Inr (r, sels[index := m])"
      "merged_rows (length (sketch_values (sks ! index))) (\<lambda>j. \<forall>p \<in> set ps. sketch_passes (sks ! index) p j) r m"
    using And_CheckSketch_first [OF assms(1,2) refl assms(3,4), of p qs s] assms(6-8) unfolding ps by blast
  moreover from this(1) have "CheckSketchStatistics (ConjunctionAndFilter (constants ps)) s index sks sels = Inr (r, sels[index := m])"
    using assms(2) by simp
  ultimately show ?thesis unfolding merged_rows_def sketch_rows_passes [symmetric] filter_all_upt [symmetric] by blast
qed

definition integer_stats :: "LogicalTypeId \<Rightarrow> BaseStatistics" where
  "integer_stats t = BaseStatistics (simple_type t) False True 0
     \<lparr>has_min = False, has_max = False, nmin = 0, nmax = 0\<rparr> string_uninit []"

theorem And_CheckSketchStatistics_exact_witness:
  "\<exists>cs r m. ColumnSketch_new [5, 1, 9, 3] = Inr cs
     \<and> CheckSketchStatistics (ConjunctionAndFilter
         [ConstantFilter COMPARE_GREATERTHANOREQUALTO (num_val (simple_type LogicalTypeId.UINTEGER) 3),
          ConstantFilter COMPARE_LESSTHAN (num_val (simple_type LogicalTypeId.UINTEGER) 9)])
         (integer_stats LogicalTypeId.UINTEGER) 0 [Sketch32 cs] [ManagedSelection_new 4 True] = Inr (r, [m])
     \<and> r = NO_PRUNING_POSSIBLE \<and> ms_rows m = [0, 3]"
proof -
  obtain cs :: "(32 word, 8 word) ColumnSketch" where cs: "ColumnSketch_new [5, 1, 9, 3] = Inr cs"
    using ColumnSketch_new_inv [of "[5, 1, 9, 3] :: 32 word list", where 'c = 8] by auto
  let ?ty = "simple_type LogicalTypeId.UINTEGER" and ?sk = "Sketch32 cs"
  let ?ps = "[(COMPARE_GREATERTHANOREQUALTO, num_val ?ty 3), (COMPARE_LESSTHAN, num_val ?ty 9)]"
  have base: "base_data cs = [5, 1, 9, 3]" using ColumnSketch_new_Inr [OF cs] by simp
  have const: "sketch_const ?sk (num_val ?ty 3) = 3" "sketch_const ?sk (num_val ?ty 9) = 9"
    by (simp_all add: sketch_const_def num_val_def num_of_def)
  have vals: "sketch_values ?sk = [5, 1, 9, 3]" by (simp add: base)
  have rows: "sketch_rows ?sk ?ps = [0, 3]" by (simp add: sketch_rows_def const vals del: sketch_values.simps)
  have len: "length (sketch_values ?sk) = 4" by (simp add: vals del: sketch_values.simps)
  have ok: "sketchable (integer_stats LogicalTypeId.UINTEGER) ?sk (COMPARE_GREATERTHANOREQUALTO, num_val ?ty 3)"
    "sketchable (integer_stats LogicalTypeId.UINTEGER) ?sk (COMPARE_LESSTHAN, num_val ?ty 9)"
    by (simp_all add: sketchable_def const) (simp_all add: num_val_def integer_stats_def zonemap_eval)
  have "\<exists>r m. CheckSketchStatistics (ConjunctionAndFilter (constants ?ps)) (integer_stats LogicalTypeId.UINTEGER) 0 [?sk]
        [ManagedSelection_new 4 True] = Inr (r, [ManagedSelection_new 4 True][0 := m])
    \<and> (if r = FILTER_ALWAYS_FALSE then sketch_rows ([?sk] ! 0) ?ps = [] else ms_rows m = sketch_rows ([?sk] ! 0) ?ps)
    \<and> (r = FILTER_ALWAYS_TRUE \<longleftrightarrow> sketch_rows ([?sk] ! 0) ?ps = [0..<length (sketch_values ([?sk] ! 0))])
    \<and> r \<in> {NO_PRUNING_POSSIBLE, FILTER_ALWAYS_TRUE, FILTER_ALWAYS_FALSE}"
    by (rule And_CheckSketchStatistics_exact)
      (simp_all add: cs base ok len well_coded_def mergeable_def ManagedSelection_new_def del: sketch_values.simps)
  then obtain r m where "CheckSketchStatistics (ConjunctionAndFilter (constants ?ps)) (integer_stats LogicalTypeId.UINTEGER) 0 [?sk]
        [ManagedSelection_new 4 True] = Inr (r, [m])" "r \<noteq> FILTER_ALWAYS_FALSE" "ms_rows m = [0, 3]"
      "r = FILTER_ALWAYS_TRUE \<longleftrightarrow> [0, 3] = [0..<4]" "r \<in> {NO_PRUNING_POSSIBLE, FILTER_ALWAYS_TRUE, FILTER_ALWAYS_FALSE}"
    by (auto simp: rows len simp del: CheckSketchStatistics.simps sketch_values.simps split: if_splits)
  moreover from this(4) have "r \<noteq> FILTER_ALWAYS_TRUE" by (simp add: upt_rec)
  ultimately show ?thesis using cs by (cases r) (auto simp del: CheckSketchStatistics.simps)
qed

lemma CheckSketchTemplated_none:
  fixes cs :: "('b::len word, 8 word) ColumnSketch"
  assumes new: "ColumnSketch_new data = Inr cs" and idx: "index < length sks" "index < length sels" "cast (sks ! index) = Some cs"
  shows "\<forall>v \<in> set data. \<not> v < ucast (num_of c) \<Longrightarrow>
      CheckSketchTemplated cast COMPARE_LESSTHAN c index sks sels = Inr (FILTER_ALWAYS_FALSE, sels)"
    and "ucast (num_of c) = (0 :: 'b word) \<Longrightarrow>
      CheckSketchTemplated cast COMPARE_GREATERTHANOREQUALTO c index sks sels = Inr (FILTER_ALWAYS_FALSE, sels)"
proof -
  have inv: "sketch_inv cs" using ColumnSketch_new_Inr [OF new] by simp
  note check = CheckSketchTemplated_def Let_def sketch_prune_def
  show "CheckSketchTemplated cast COMPARE_LESSTHAN c index sks sels = Inr (FILTER_ALWAYS_FALSE, sels)"
    if "\<forall>v \<in> set data. \<not> v < ucast (num_of c)"
  proof -
    have "\<not> min_data cs < ucast (num_of c)" using that ColumnSketch_new_fields(4) [OF new] by blast
    then show ?thesis using idx AVX512_none(1) [OF inv] by (simp add: check)
  qed
  show "CheckSketchTemplated cast COMPARE_GREATERTHANOREQUALTO c index sks sels = Inr (FILTER_ALWAYS_FALSE, sels)"
    if "ucast (num_of c) = (0 :: 'b word)"
  proof -
    have "\<not> - 1 < max_data cs" by (simp add: not_less word_order.extremum_uniqueI)
    then show ?thesis using idx that AVX512_none(3) [OF inv] by (simp add: check)
  qed
qed

definition sketch_types :: "BaseColumnSketch \<Rightarrow> PhysicalType set" where
  "sketch_types sk = (if sketch_bits sk = 32 then {PhysicalType.INT32, PhysicalType.UINT32}
     else {PhysicalType.INT64, PhysicalType.UINT64})"

lemma CheckSketch_at_least_zero:
  assumes idx: "index < length sks" "index < length sels" and built: "sketch_built (sks ! index)"
    and ty: "InternalType (stats_ty s) \<in> sketch_types (sks ! index)"
      "InternalType (v_type c) \<in> sketch_types (sks ! index)" "\<not> IsNull c"
    and zero: "sketch_const (sks ! index) c = 0"
  shows "ConstantFilter_CheckSketchStatistics COMPARE_GREATERTHANOREQUALTO c s index sks sels = Inr (FILTER_ALWAYS_FALSE, sels)"
proof (cases "sks ! index")
  case (Sketch32 cs)
  have "unat (ucast (num_of c) :: 32 word) = 0" using zero Sketch32 by (simp add: sketch_const_def unsigned_ucast_eq take_bit_eq_mod)
  then have z: "ucast (num_of c) = (0 :: 32 word)" by (simp only: unat_eq_zero)
  have "CheckSketchTemplated as_Sketch32 COMPARE_GREATERTHANOREQUALTO c index sks sels = Inr (FILTER_ALWAYS_FALSE, sels)"
    by (rule CheckSketchTemplated_none(2) [OF _ idx _ z]) (use built Sketch32 in simp_all)
  then show ?thesis using ty Sketch32
    by (auto simp: ConstantFilter_CheckSketchStatistics_def NumericStats_CheckSketch_def sketch_types_def)
next
  case (Sketch64 cs)
  have "unat (ucast (num_of c) :: 64 word) = 0" using zero Sketch64 by (simp add: sketch_const_def unsigned_ucast_eq take_bit_eq_mod)
  then have z: "ucast (num_of c) = (0 :: 64 word)" by (simp only: unat_eq_zero)
  have "CheckSketchTemplated as_Sketch64 COMPARE_GREATERTHANOREQUALTO c index sks sels = Inr (FILTER_ALWAYS_FALSE, sels)"
    by (rule CheckSketchTemplated_none(2) [OF _ idx _ z]) (use built Sketch64 in simp_all)
  then show ?thesis using ty Sketch64
    by (auto simp: ConstantFilter_CheckSketchStatistics_def NumericStats_CheckSketch_def sketch_types_def)
qed

text \<open>
  C34: \<open>CheckSketchTemplated\<close> turns \<open>>= constant\<close> into \<open>> constant - 1\<close>, which wraps for the constant 0. For every
  sketched vector, of 32-bit or 64-bit integers, signed or unsigned, and whatever its values, the comparison \<open>>= 0\<close> is
  answered "always false", and the whole vector is skipped, although every value passes as the unsigned number
  the sketch compares.
\<close>

theorem CheckSketch_at_least_zero_prunes:
  assumes "index < length sks" "index < length sels" "sketch_built (sks ! index)"
    and "InternalType (stats_ty s) \<in> sketch_types (sks ! index)" "InternalType (v_type c) \<in> sketch_types (sks ! index)"
    and "\<not> IsNull c" "sketch_const (sks ! index) c = 0"
  shows "CheckSketchStatistics (ConstantFilter COMPARE_GREATERTHANOREQUALTO c) s index sks sels = Inr (FILTER_ALWAYS_FALSE, sels)
    \<and> (\<forall>v \<in> set (sketch_values (sks ! index)). sketch_holds COMPARE_GREATERTHANOREQUALTO (sketch_const (sks ! index) c) v)"
  using CheckSketch_at_least_zero [OF assms] assms(7) by simp

theorem CheckSketch_at_least_zero_prunes_witness:
  "\<exists>cs ds. ColumnSketch_new [7, 8] = Inr cs \<and> ColumnSketch_new [0, 5] = Inr ds
     \<and> CheckSketchStatistics (ConstantFilter COMPARE_GREATERTHANOREQUALTO (num_val (simple_type LogicalTypeId.INTEGER) 0))
         (integer_stats LogicalTypeId.INTEGER) 0 [Sketch32 cs] [ManagedSelection_new 2 True]
       = Inr (FILTER_ALWAYS_FALSE, [ManagedSelection_new 2 True])
     \<and> CheckSketchStatistics (ConstantFilter COMPARE_GREATERTHANOREQUALTO (num_val (simple_type LogicalTypeId.UBIGINT) 0))
         (integer_stats LogicalTypeId.UBIGINT) 0 [Sketch64 ds] [ManagedSelection_new 2 True]
       = Inr (FILTER_ALWAYS_FALSE, [ManagedSelection_new 2 True])"
proof -
  obtain cs :: "(32 word, 8 word) ColumnSketch" and ds :: "(64 word, 8 word) ColumnSketch"
    where cs: "ColumnSketch_new [7, 8] = Inr cs" "ColumnSketch_new [0, 5] = Inr ds"
    using ColumnSketch_new_inv [of "[7, 8] :: 32 word list", where 'c = 8]
      ColumnSketch_new_inv [of "[0, 5] :: 64 word list", where 'c = 8] by auto
  then have built: "sketch_built (Sketch32 cs)" "sketch_built (Sketch64 ds)"
    using ColumnSketch_new_Inr [OF cs(1)] ColumnSketch_new_Inr [OF cs(2)] by simp_all
  have "CheckSketchStatistics (ConstantFilter COMPARE_GREATERTHANOREQUALTO (num_val (simple_type LogicalTypeId.INTEGER) 0))
      (integer_stats LogicalTypeId.INTEGER) 0 [Sketch32 cs] [ManagedSelection_new 2 True] = Inr (FILTER_ALWAYS_FALSE, [ManagedSelection_new 2 True])"
    using built(1) by (intro CheckSketch_at_least_zero_prunes [THEN conjunct1])
      (simp_all add: integer_stats_def sketch_types_def sketch_const_def num_val_def num_of_def zonemap_eval)
  moreover have "CheckSketchStatistics (ConstantFilter COMPARE_GREATERTHANOREQUALTO (num_val (simple_type LogicalTypeId.UBIGINT) 0))
      (integer_stats LogicalTypeId.UBIGINT) 0 [Sketch64 ds] [ManagedSelection_new 2 True] = Inr (FILTER_ALWAYS_FALSE, [ManagedSelection_new 2 True])"
    using built(2) by (intro CheckSketch_at_least_zero_prunes [THEN conjunct1])
      (simp_all add: integer_stats_def sketch_types_def sketch_const_def num_val_def num_of_def zonemap_eval)
  ultimately show ?thesis using cs by blast
qed

text \<open>
  C35: the sketches compare the bytes of a signed column as unsigned numbers. In an \<open>INTEGER\<close> vector with the single
  value -1 the filter \<open>< 5\<close> holds, but the sketch answers "always false" and the row is lost.
\<close>

theorem CheckSketch_signed_loses_row:
  "\<exists>cs. ColumnSketch_new [-1] = Inr cs
     \<and> CheckSketchStatistics (ConstantFilter COMPARE_LESSTHAN (num_val (simple_type LogicalTypeId.INTEGER) 5))
         (integer_stats LogicalTypeId.INTEGER) 0 [Sketch32 cs] [ManagedSelection_new 1 True]
       = Inr (FILTER_ALWAYS_FALSE, [ManagedSelection_new 1 True])
     \<and> filter_holds (simple_type LogicalTypeId.INTEGER) (ConstantFilter COMPARE_LESSTHAN (num_val (simple_type LogicalTypeId.INTEGER) 5))
         (num_val (simple_type LogicalTypeId.INTEGER) (-1))"
proof -
  obtain cs :: "(32 word, 8 word) ColumnSketch" where cs: "ColumnSketch_new [-1] = Inr cs"
    using ColumnSketch_new_inv [of "[-1] :: 32 word list", where 'c = 8] by auto
  have "CheckSketchStatistics (ConstantFilter COMPARE_LESSTHAN (num_val (simple_type LogicalTypeId.INTEGER) 5))
         (integer_stats LogicalTypeId.INTEGER) 0 [Sketch32 cs] [ManagedSelection_new 1 True]
       = Inr (FILTER_ALWAYS_FALSE, [ManagedSelection_new 1 True])"
    using CheckSketchTemplated_none(1) [OF cs, of 0 "[Sketch32 cs]" "[ManagedSelection_new 1 True]" as_Sketch32
        "num_val (simple_type LogicalTypeId.INTEGER) 5"]
    by (simp add: ConstantFilter_CheckSketchStatistics_def NumericStats_CheckSketch_def integer_stats_def num_val_def num_of_def zonemap_eval)
  moreover have "filter_holds (simple_type LogicalTypeId.INTEGER) (ConstantFilter COMPARE_LESSTHAN (num_val (simple_type LogicalTypeId.INTEGER) 5))
         (num_val (simple_type LogicalTypeId.INTEGER) (-1))"
    by code_simp
  ultimately show ?thesis using cs by blast
qed

text \<open>One child of a disjunction: with no qualifying row the selections stay as they are.\<close>

lemma CheckSketch_one_child:
  assumes "index < length sks" "index < length sels" "sketchable s (sks ! index) p" "sketch_built (sks ! index)"
    "well_coded (sketch_values (sks ! index))"
  shows "\<exists>r m. CheckSketchStatistics (ConstantFilter (fst p) (snd p)) s index sks sels = Inr (r, sels[index := m])
    \<and> (if sketch_rows (sks ! index) [p] = [] then r = FILTER_ALWAYS_FALSE \<and> m = sels ! index
       else r = (if sketch_rows (sks ! index) [p] = [0..<length (sketch_values (sks ! index))] then FILTER_ALWAYS_TRUE else NO_PRUNING_POSSIBLE)
         \<and> ms_rows m = sketch_rows (sks ! index) [p])"
proof -
  let ?sk = "sks ! index"
  let ?n = "length (sketch_values ?sk)" and ?rows = "filter (sketch_passes ?sk p) [0..<length (sketch_values ?sk)]"
  have rows: "sketch_rows ?sk [p] = ?rows" by (simp add: sketch_rows_passes)
  obtain r where r: "ConstantFilter_CheckSketchStatistics (fst p) (snd p) s index sks sels
        = Inr (sketch_prune (fst r) ?n, sels[index := snd r])"
      "evaluated ?n (sketch_passes ?sk p) (sels ! index) r"
    using ConstantFilter_sketch_rows [OF assms] by auto
  have n: "0 < ?n" using sketch_built_nonempty [OF assms(4)] by simp
  have cnt: "fst r = length ?rows" using r(2) by (simp only: evaluated_def)
  have all: "?rows = [0..<?n] \<longleftrightarrow> (\<forall>j < ?n. sketch_passes ?sk p j)" by (rule filter_all_upt)
  have "if ?rows = [] then sketch_prune (fst r) ?n = FILTER_ALWAYS_FALSE \<and> snd r = sels ! index
     else sketch_prune (fst r) ?n = (if ?rows = [0..<?n] then FILTER_ALWAYS_TRUE else NO_PRUNING_POSSIBLE) \<and> ms_rows (snd r) = ?rows"
  proof (cases "?rows = []")
    case True
    then have "fst r = 0" unfolding cnt by simp
    then show ?thesis using True r(2) by (simp add: evaluated_def sketch_prune_def)
  next
    case False
    then show ?thesis using r(2) n by (simp only: evaluated_def cnt sketch_prune_rows all if_False)
  qed
  with r(1) show ?thesis unfolding rows CheckSketchStatistics.simps
    by (intro exI [of _ "sketch_prune (fst r) ?n"] exI [of _ "snd r"]) blast
qed

lemma Or_CheckSketch_skips:
  assumes "\<And>g. g \<in> set gs \<Longrightarrow> CheckSketchStatistics g s index sks sels = Inr (FILTER_ALWAYS_FALSE, sels)"
  shows "Or_CheckSketch (gs @ fs) s index sks sels = Or_CheckSketch fs s index sks sels"
  using assms by (induction gs) simp_all

text \<open>
  C36: a disjunction of range comparisons, under the conditions of a single comparison. Children that no row passes are
  passed over; when no child is left the answer is "always false" and the selections are unchanged. The first child
  that some row passes decides: the answer is the one of that child, and what is left in the managed
  selection are the rows of that child alone. The rows that only pass a later child are missing
  from the selection, whatever the later children are.
\<close>

theorem Or_CheckSketch_first_child_only:
  assumes "index < length sks" "index < length sels" "sketch_built (sks ! index)" "well_coded (sketch_values (sks ! index))"
    and "\<forall>g \<in> set gs. sketchable s (sks ! index) g \<and> sketch_rows (sks ! index) [g] = []"
    and "sketchable s (sks ! index) p" "sketch_rows (sks ! index) [p] \<noteq> []"
  shows "CheckSketchStatistics (ConjunctionOrFilter (constants gs)) s index sks sels = Inr (FILTER_ALWAYS_FALSE, sels)
    \<and> (\<exists>r m. CheckSketchStatistics (ConjunctionOrFilter (constants gs @ ConstantFilter (fst p) (snd p) # fs)) s index sks sels
          = Inr (r, sels[index := m])
        \<and> r = (if sketch_rows (sks ! index) [p] = [0..<length (sketch_values (sks ! index))] then FILTER_ALWAYS_TRUE else NO_PRUNING_POSSIBLE)
        \<and> ms_rows m = sketch_rows (sks ! index) [p])"
proof -
  have false: "CheckSketchStatistics g s index sks sels = Inr (FILTER_ALWAYS_FALSE, sels)" if "g \<in> set (constants gs)" for g
    using that assms(5) CheckSketch_one_child [OF assms(1,2) _ assms(3,4)] by (fastforce simp: list_update_id)
  obtain r m where run: "CheckSketchStatistics (ConstantFilter (fst p) (snd p)) s index sks sels = Inr (r, sels[index := m])"
      and rm: "r = (if sketch_rows (sks ! index) [p] = [0..<length (sketch_values (sks ! index))] then FILTER_ALWAYS_TRUE else NO_PRUNING_POSSIBLE)"
      "ms_rows m = sketch_rows (sks ! index) [p]"
    using CheckSketch_one_child [OF assms(1,2,6,3,4)] assms(7) by auto
  have "Or_CheckSketch (ConstantFilter (fst p) (snd p) # fs) s index sks sels = Inr (r, sels[index := m])" using run rm by (simp split: if_splits)
  moreover have "Or_CheckSketch (constants gs) s index sks sels = Inr (FILTER_ALWAYS_FALSE, sels)"
    using Or_CheckSketch_skips [of "constants gs" s index sks sels "[]", OF false] by simp
  ultimately show ?thesis using Or_CheckSketch_skips [of "constants gs", OF false] rm unfolding CheckSketchStatistics.simps by auto
qed

theorem Or_CheckSketch_first_child_only_witness:
  "\<exists>cs r m. ColumnSketch_new [5, 1] = Inr cs
     \<and> CheckSketchStatistics (ConjunctionOrFilter
         [ConstantFilter COMPARE_GREATERTHAN (num_val (simple_type LogicalTypeId.UINTEGER) 9),
          ConstantFilter COMPARE_GREATERTHAN (num_val (simple_type LogicalTypeId.UINTEGER) 3),
          ConstantFilter COMPARE_LESSTHAN (num_val (simple_type LogicalTypeId.UINTEGER) 2)])
         (integer_stats LogicalTypeId.UINTEGER) 0 [Sketch32 cs] [ManagedSelection_new 2 True] = Inr (r, [m])
     \<and> ms_rows m = [0]"
proof -
  obtain cs :: "(32 word, 8 word) ColumnSketch" where cs: "ColumnSketch_new [5, 1] = Inr cs"
    using ColumnSketch_new_inv [of "[5, 1] :: 32 word list", where 'c = 8] by auto
  let ?ty = "simple_type LogicalTypeId.UINTEGER" and ?sk = "Sketch32 cs"
  let ?g = "(COMPARE_GREATERTHAN, num_val ?ty 9)" and ?p = "(COMPARE_GREATERTHAN, num_val ?ty 3)"
  let ?q = "ConstantFilter COMPARE_LESSTHAN (num_val ?ty 2)"
  have base: "base_data cs = [5, 1]" using ColumnSketch_new_Inr [OF cs] by simp
  have const: "sketch_const ?sk (num_val ?ty 3) = 3" "sketch_const ?sk (num_val ?ty 9) = 9"
    by (simp_all add: sketch_const_def num_val_def num_of_def)
  have vals: "sketch_values ?sk = [5, 1]" by (simp add: base)
  have rows: "sketch_rows ?sk [?g] = []" "sketch_rows ?sk [?p] = [0]"
    by (simp_all add: sketch_rows_def const vals del: sketch_values.simps)
  have ok: "sketchable (integer_stats LogicalTypeId.UINTEGER) ?sk ?g" "sketchable (integer_stats LogicalTypeId.UINTEGER) ?sk ?p"
    by (simp_all add: sketchable_def const) (simp_all add: num_val_def integer_stats_def zonemap_eval)
  have "\<exists>r m. CheckSketchStatistics (ConjunctionOrFilter (constants [?g] @ ConstantFilter (fst ?p) (snd ?p) # [?q])) (integer_stats LogicalTypeId.UINTEGER) 0
        [?sk] [ManagedSelection_new 2 True] = Inr (r, [ManagedSelection_new 2 True][0 := m])
      \<and> r = (if sketch_rows ([?sk] ! 0) [?p] = [0..<length (sketch_values ([?sk] ! 0))] then FILTER_ALWAYS_TRUE else NO_PRUNING_POSSIBLE)
      \<and> ms_rows m = sketch_rows ([?sk] ! 0) [?p]"
    by (rule Or_CheckSketch_first_child_only [THEN conjunct2]) (simp_all add: cs base ok rows well_coded_def)
  with cs rows show ?thesis by (auto simp del: CheckSketchStatistics.simps)
qed

end
