(* ===== verification/Update_Segment.thy ===== *)
theory Update_Segment
  imports Row_Group_Versions Base_Statistics
begin

text \<open>
  Updates of a column, \<^verbatim>\<open>src/src/storage/table/update_segment.cpp\<close> and
  \<^verbatim>\<open>src/src/include/duckdb/transaction/update_info.hpp\<close>.

  Updates do not change the data of a column. For every vector of 2048 rows the update segment has a base
  info with the newest values, followed by a chain with one info per updating transaction, which holds the values
  before its updates: a reader copies the newest values over the data it has scanned and then undoes the updates
  it must not see. Committing gives the info of a transaction the commit id as its version number, rolling back moves its
  values back into the base info, and cleaning up unlinks it.

  The doubly linked chain is a list, a pointer into it a position. An array of an info is the list of its first
  \<open>N\<close> entries. The data array of a vector is a list of cells: \<open>None\<close> is the content of a cell whose row is NULL and which
  the code copies without looking at it. An update to NULL concerns the validity column only: the statistics functions
  select the other rows. The validity column has copies of these loops that move bits instead of values, which
  are not modelled separately.
\<close>

section \<open>Update infos and segments\<close>

record 'a UpdateInfo =
  version_number :: transaction_t
  info_vector_index :: idx_t
  info_column_index :: idx_t
  tuples :: "nat list"
  tuple_data :: "'a option list"

record 'a UpdateNodeData =
  base_info :: "'a UpdateInfo"
  chain :: "'a UpdateInfo list"

record 'a UpdateSegment =
  column_start :: idx_t
  root :: "'a UpdateNodeData option list option"
  update_stats :: BaseStatistics

abbreviation info_N :: "'a UpdateInfo \<Rightarrow> nat" where
  "info_N i \<equiv> length (tuples i)"

definition UpdateSegment_new :: "idx_t \<Rightarrow> BaseStatistics \<Rightarrow> 'a UpdateSegment" where
  "UpdateSegment_new start stats = \<lparr>column_start = start, root = None, update_stats = stats\<rparr>"

text \<open>\<open>root->info[vector_index]\<close>, for a root that exists.\<close>

definition vector_node :: "idx_t \<Rightarrow> 'a UpdateNodeData option list \<Rightarrow> exc + 'a UpdateNodeData option" where
  "vector_node vector_index infos = (if vector_index < length infos then Inr (infos ! vector_index) else Inl OutOfBounds)"

section \<open>Fetching\<close>

definition write_cell :: "nat \<Rightarrow> 'a option \<Rightarrow> 'a option list \<Rightarrow> exc + 'a option list" where
  "write_cell i x result = (if i < length result then Inr (result[i := x]) else Inl OutOfBounds)"

definition UpdatesForTransaction ::
  "transaction_t \<Rightarrow> transaction_t \<Rightarrow> ('a UpdateInfo \<Rightarrow> 's \<Rightarrow> exc + 's) \<Rightarrow> 'a UpdateInfo list \<Rightarrow> 's \<Rightarrow> exc + 's" where
  "UpdatesForTransaction start tid callback infos =
     fold_res (\<lambda>current s.
       if version_number current > start \<and> version_number current \<noteq> tid then callback current s else Inr s) infos"

definition MergeUpdateInfo :: "'a UpdateInfo \<Rightarrow> 'a option list \<Rightarrow> exc + 'a option list" where
  "MergeUpdateInfo current result =
     (if info_N current = STANDARD_VECTOR_SIZE
      then if length result < info_N current then Inl OutOfBounds
           else Inr (take (info_N current) (tuple_data current) @ drop (info_N current) result)
      else fold_res (\<lambda>i result. write_cell (tuples current ! i) (tuple_data current ! i) result) [0..<info_N current] result)"

definition UpdateMergeFetch ::
  "transaction_t \<Rightarrow> transaction_t \<Rightarrow> 'a UpdateInfo list \<Rightarrow> 'a option list \<Rightarrow> exc + 'a option list" where
  "UpdateMergeFetch start tid infos result = UpdatesForTransaction start tid MergeUpdateInfo infos result"

definition us_FetchUpdates ::
  "TransactionData \<Rightarrow> idx_t \<Rightarrow> 'a option list \<Rightarrow> 'a UpdateSegment \<Rightarrow> exc + 'a option list" where
  "us_FetchUpdates transaction vector_index result seg =
     (case root seg of None \<Rightarrow> Inr result
      | Some infos \<Rightarrow> bind_res (vector_node vector_index infos) (\<lambda>n.
          case n of None \<Rightarrow> Inr result
          | Some nd \<Rightarrow> UpdateMergeFetch (start_time transaction) (transaction_id transaction) (base_info nd # chain nd) result))"

definition us_FetchCommitted :: "idx_t \<Rightarrow> 'a option list \<Rightarrow> 'a UpdateSegment \<Rightarrow> exc + 'a option list" where
  "us_FetchCommitted vector_index result seg =
     (case root seg of None \<Rightarrow> Inr result
      | Some infos \<Rightarrow> bind_res (vector_node vector_index infos) (\<lambda>n.
          case n of None \<Rightarrow> Inr result | Some nd \<Rightarrow> MergeUpdateInfo (base_info nd) result))"

fun range_loop :: "nat \<Rightarrow> nat \<Rightarrow> nat \<Rightarrow> (nat \<times> 'a option) list \<Rightarrow> 'a option list \<Rightarrow> exc + 'a option list" where
  "range_loop start stop result_offset [] result = Inr result"
| "range_loop start stop result_offset ((tuple_idx, x) # es) result =
     (if tuple_idx < start then range_loop start stop result_offset es result
      else if tuple_idx \<ge> stop then Inr result
      else bind_res (write_cell (result_offset + tuple_idx - start) x result) (range_loop start stop result_offset es))"

definition MergeUpdateInfoRange ::
  "'a UpdateInfo \<Rightarrow> nat \<Rightarrow> nat \<Rightarrow> nat \<Rightarrow> 'a option list \<Rightarrow> exc + 'a option list" where
  "MergeUpdateInfoRange current start stop result_offset result =
     range_loop start stop result_offset (zip (tuples current) (tuple_data current)) result"

definition FetchCommittedRange :: "idx_t \<Rightarrow> idx_t \<Rightarrow> 'a option list \<Rightarrow> 'a UpdateSegment \<Rightarrow> exc + 'a option list" where
  "FetchCommittedRange start_row count result seg =
     (case root seg of None \<Rightarrow> Inr result
      | Some infos \<Rightarrow>
          let end_row = start_row + count;
              start_vector = start_row div STANDARD_VECTOR_SIZE;
              end_vector = (end_row - 1) div STANDARD_VECTOR_SIZE
          in fold_res (\<lambda>vector_idx result.
               bind_res (vector_node vector_idx infos) (\<lambda>n.
                 case n of None \<Rightarrow> Inr result
                 | Some nd \<Rightarrow>
                     let start_in_vector = (if vector_idx = start_vector then start_row - start_vector * STANDARD_VECTOR_SIZE else 0);
                         end_in_vector = (if vector_idx = end_vector then end_row - end_vector * STANDARD_VECTOR_SIZE else STANDARD_VECTOR_SIZE);
                         result_offset = vector_idx * STANDARD_VECTOR_SIZE + start_in_vector - start_row
                     in MergeUpdateInfoRange (base_info nd) start_in_vector end_in_vector result_offset result))
               [start_vector..<Suc end_vector] result)"

fun row_loop :: "nat \<Rightarrow> nat \<Rightarrow> (nat \<times> 'a option) list \<Rightarrow> 'a option list \<Rightarrow> exc + 'a option list" where
  "row_loop row_idx result_idx [] result = Inr result"
| "row_loop row_idx result_idx ((tuple_idx, x) # es) result =
     (if tuple_idx = row_idx then write_cell result_idx x result
      else if tuple_idx > row_idx then Inr result
      else row_loop row_idx result_idx es result)"

definition TemplatedFetchRow ::
  "transaction_t \<Rightarrow> transaction_t \<Rightarrow> 'a UpdateInfo list \<Rightarrow> nat \<Rightarrow> 'a option list \<Rightarrow> nat \<Rightarrow> exc + 'a option list" where
  "TemplatedFetchRow start tid infos row_idx result result_idx =
     UpdatesForTransaction start tid (\<lambda>current. row_loop row_idx result_idx (zip (tuples current) (tuple_data current))) infos result"

definition us_FetchRow ::
  "TransactionData \<Rightarrow> idx_t \<Rightarrow> 'a option list \<Rightarrow> nat \<Rightarrow> 'a UpdateSegment \<Rightarrow> exc + 'a option list" where
  "us_FetchRow transaction row_id result result_idx seg =
     (case root seg of None \<Rightarrow> Inr result
      | Some infos \<Rightarrow>
          let vector_index = sub_row row_id (column_start seg) div STANDARD_VECTOR_SIZE
          in bind_res (vector_node vector_index infos) (\<lambda>n.
               case n of None \<Rightarrow> Inr result
               | Some nd \<Rightarrow>
                   let row_in_vector = sub_row row_id (column_start seg) - vector_index * STANDARD_VECTOR_SIZE
                   in TemplatedFetchRow (start_time transaction) (transaction_id transaction) (base_info nd # chain nd)
                        row_in_vector result result_idx))"

section \<open>Rolling back and cleaning up\<close>

text \<open>The two cursors of the rollback: \<open>base_offset\<close> moves to the entry of the base info that has the id.\<close>

definition rollback_entry :: "nat list \<Rightarrow> nat \<times> 'a option \<Rightarrow> nat \<times> 'a option list \<Rightarrow> exc + nat \<times> 'a option list" where
  "rollback_entry base_tuples = (\<lambda>(tid, x) (base_offset, base_data).
     let base_offset = base_offset + length (takeWhile (\<lambda>t. t < tid) (drop base_offset base_tuples))
     in if base_offset < length base_tuples then Inr (base_offset, base_data[base_offset := x]) else Inl OutOfBounds)"

definition RollbackUpdate_infos :: "'a UpdateInfo \<Rightarrow> 'a UpdateInfo \<Rightarrow> exc + 'a UpdateInfo" where
  "RollbackUpdate_infos base rollback =
     bind_res (fold_res (rollback_entry (tuples base)) (zip (tuples rollback) (tuple_data rollback)) (0, tuple_data base))
       (\<lambda>(base_offset, base_data). Inr (base\<lparr>tuple_data := base_data\<rparr>))"

definition CleanupUpdateInternal :: "nat \<Rightarrow> 'a UpdateNodeData \<Rightarrow> 'a UpdateNodeData" where
  "CleanupUpdateInternal k nd = nd\<lparr>chain := take k (chain nd) @ drop (Suc k) (chain nd)\<rparr>"

definition put_node :: "idx_t \<Rightarrow> 'a UpdateNodeData \<Rightarrow> 'a UpdateSegment \<Rightarrow> 'a UpdateSegment" where
  "put_node vector_index nd seg = seg\<lparr>root := map_option (\<lambda>infos. infos[vector_index := Some nd]) (root seg)\<rparr>"

definition us_RollbackUpdate :: "idx_t \<Rightarrow> nat \<Rightarrow> 'a UpdateSegment \<Rightarrow> exc + 'a UpdateSegment" where
  "us_RollbackUpdate vector_index k seg =
     (case root seg of None \<Rightarrow> Inl NullPointer
      | Some infos \<Rightarrow> bind_res (vector_node vector_index infos) (\<lambda>n.
          case n of None \<Rightarrow> Inr seg
          | Some nd \<Rightarrow>
              if k \<ge> length (chain nd) then Inl NullPointer
              else bind_res (RollbackUpdate_infos (base_info nd) (chain nd ! k)) (\<lambda>base.
                Inr (put_node vector_index (CleanupUpdateInternal k (nd\<lparr>base_info := base\<rparr>)) seg))))"

definition us_CleanupUpdate :: "idx_t \<Rightarrow> nat \<Rightarrow> 'a UpdateSegment \<Rightarrow> exc + 'a UpdateSegment" where
  "us_CleanupUpdate vector_index k seg =
     (case root seg of None \<Rightarrow> Inl NullPointer
      | Some infos \<Rightarrow> bind_res (vector_node vector_index infos) (\<lambda>n.
          case n of None \<Rightarrow> Inl NullPointer
          | Some nd \<Rightarrow> if k \<ge> length (chain nd) then Inl NullPointer
                       else Inr (put_node vector_index (CleanupUpdateInternal k nd) seg)))"

text \<open>The entry of the commit: the info gets the commit id; reverting a commit gives it the transaction id back.\<close>

definition commit_update :: "transaction_t \<Rightarrow> idx_t \<Rightarrow> nat \<Rightarrow> 'a UpdateSegment \<Rightarrow> exc + 'a UpdateSegment" where
  "commit_update commit_id vector_index k seg =
     (case root seg of None \<Rightarrow> Inl NullPointer
      | Some infos \<Rightarrow> bind_res (vector_node vector_index infos) (\<lambda>n.
          case n of None \<Rightarrow> Inl NullPointer
          | Some nd \<Rightarrow> if k \<ge> length (chain nd) then Inl NullPointer
                       else Inr (put_node vector_index
                              (nd\<lparr>chain := (chain nd)[k := (chain nd ! k)\<lparr>version_number := commit_id\<rparr>]\<rparr>) seg)))"

section \<open>Updating\<close>

subsection \<open>Conflicts\<close>

text \<open>The merge join of the sorted ids of an update with the tuples of an info, both not empty.\<close>

fun conflict_join :: "int list \<Rightarrow> int list \<Rightarrow> exc + unit" where
  "conflict_join (a # as) (b # bs) =
     (if a = b then Inl TransactionException
      else if a < b then if as = [] then Inr () else conflict_join as (b # bs)
      else if bs = [] then Inr () else conflict_join (a # as) bs)"
| "conflict_join _ _ = Inl Uninitialised"

text \<open>
  The walk along the chain from position \<open>k\<close>. \<open>node\<close> becomes the info of the transaction; the only caller declares
  a variable of the same name and searches the chain again.
\<close>

fun CheckForConflicts ::
  "TransactionData \<Rightarrow> int list \<Rightarrow> nat \<Rightarrow> 'a UpdateInfo list \<Rightarrow> nat option \<Rightarrow> exc + nat option" where
  "CheckForConflicts transaction ids k [] node = Inr node"
| "CheckForConflicts transaction ids k (info # infos) node =
     (if version_number info = transaction_id transaction
      then CheckForConflicts transaction ids (Suc k) infos (Some k)
      else bind_res (if version_number info > start_time transaction then conflict_join ids (map int (tuples info)) else Inr ())
             (\<lambda>_. CheckForConflicts transaction ids (Suc k) infos node))"

subsection \<open>Merging\<close>

definition set_entries :: "(nat \<times> 'a option) list \<Rightarrow> 'a UpdateInfo \<Rightarrow> 'a UpdateInfo" where
  "set_entries es info = info\<lparr>tuples := map fst es, tuple_data := map snd es\<rparr>"

definition entries :: "'a UpdateInfo \<Rightarrow> (nat \<times> 'a option) list" where
  "entries info = zip (tuples info) (tuple_data info)"

definition read_base :: "'a option list \<Rightarrow> nat \<Rightarrow> exc + 'a option" where
  "read_base v i = (if i < length v then Inr (v ! i) else Inl OutOfBounds)"

text \<open>The first loop: the values before the update, from the info of the transaction, the base info or the data.\<close>

fun merge_old ::
  "'a option list \<Rightarrow> nat list \<Rightarrow> (nat \<times> 'a option) list \<Rightarrow> (nat \<times> 'a option) list \<Rightarrow> exc + (nat \<times> 'a option) list" where
  "merge_old base_table [] update_es base_es = Inr update_es"
| "merge_old base_table (update_id # ids) update_es base_es =
     (let older = takeWhile (\<lambda>e. fst e < update_id) update_es; rest = dropWhile (\<lambda>e. fst e < update_id) update_es
      in if rest \<noteq> [] \<and> fst (hd rest) = update_id
         then bind_res (merge_old base_table ids (tl rest) base_es) (\<lambda>es. Inr (older @ hd rest # es))
         else let base_rest = dropWhile (\<lambda>e. fst e < update_id) base_es
              in bind_res (if base_rest \<noteq> [] \<and> fst (hd base_rest) = update_id then Inr (snd (hd base_rest))
                           else read_base base_table update_id) (\<lambda>x.
                 bind_res (merge_old base_table ids rest base_rest) (\<lambda>es. Inr (older @ (update_id, x) # es))))"

text \<open>\<open>MergeLoop\<close> with the callbacks of the second loop: a new value wins over the old one.\<close>

fun MergeLoop :: "(nat \<times> 'a option) list \<Rightarrow> (nat \<times> 'a option) list \<Rightarrow> (nat \<times> 'a option) list" where
  "MergeLoop ((a, x) # as) ((b, y) # bs) =
     (if a = b then (a, x) # MergeLoop as bs
      else if a < b then (a, x) # MergeLoop as ((b, y) # bs)
      else (b, y) # MergeLoop ((a, x) # as) bs)"
| "MergeLoop as [] = as"
| "MergeLoop [] bs = bs"

text \<open>
  A cell of the base table or of the update is \<open>None\<close> where it is NULL, and is copied as it is. The code copies the bytes of
  a cell without a look at the validity mask, except that \<open>UpdateSelectElement\<close> of a string reads its length
  to copy it into the heap of the segment, also for a row that is NULL; the content of such a cell has no meaning.
\<close>

definition MergeUpdateLoopInternal ::
  "idx_t \<Rightarrow> 'a option list \<Rightarrow> 'a option list \<Rightarrow> idx_t list \<Rightarrow> nat list \<Rightarrow> 'a UpdateInfo \<Rightarrow> 'a UpdateInfo
    \<Rightarrow> exc + 'a UpdateInfo \<times> 'a UpdateInfo" where
  "MergeUpdateLoopInternal base_id base_table update ids sel base update_info =
     (let update_ids = map (\<lambda>idx. sub_row (ids ! idx) base_id) sel
      in bind_res (merge_old base_table update_ids (entries update_info) (entries base)) (\<lambda>old.
         bind_res (map_res (read_base update) sel) (\<lambda>new.
         let merged = MergeLoop (zip update_ids new) (entries base)
         in if length old > STANDARD_VECTOR_SIZE \<or> length merged > STANDARD_VECTOR_SIZE then Inl OutOfBounds
            else Inr (set_entries merged base, set_entries old update_info))))"

subsection \<open>Statistics\<close>

text \<open>
  A statistics function updates the statistics of the segment with the rows of the update that are not NULL and
  returns these rows. The analysis of a string may throw; the statistics have then seen the rows before it.
\<close>

fun stats_loop :: "('x \<Rightarrow> 's \<Rightarrow> exc + 's) \<Rightarrow> 'x list \<Rightarrow> 's \<Rightarrow> 's \<times> exc option" where
  "stats_loop f [] s = (s, None)"
| "stats_loop f (x # xs) s = (case f x s of Inl e \<Rightarrow> (s, Some e) | Inr s' \<Rightarrow> stats_loop f xs s')"

definition not_null_rows :: "'a option list \<Rightarrow> nat list" where
  "not_null_rows update = filter (\<lambda>i. update ! i \<noteq> None) [0..<length update]"

definition update_numeric :: "Payload \<Rightarrow> BaseStatistics \<Rightarrow> exc + BaseStatistics" where
  "update_numeric x s = Inr (BaseStatistics (stats_ty s) (has_null s) (has_no_null s) (distinct_count s)
     (NumericStats_Update (InternalType (stats_ty s)) (case x of NumPayload n \<Rightarrow> n | _ \<Rightarrow> 0) (numeric_data s)) (string_data s) (child_stats s))"

definition update_string :: "(8 word list \<Rightarrow> UnicodeType) \<Rightarrow> Payload \<Rightarrow> BaseStatistics \<Rightarrow> exc + BaseStatistics" where
  "update_string Analyze x s =
     bind_res (StringStats_Update Analyze (stats_ty s) (case x of StrPayload b \<Rightarrow> b | _ \<Rightarrow> []) (string_data s)) (\<lambda>d.
       Inr (BaseStatistics (stats_ty s) (has_null s) (has_no_null s) (distinct_count s) (numeric_data s) d (child_stats s)))"

definition TemplatedUpdateNumericStatistics ::
  "BaseStatistics \<Rightarrow> Payload option list \<Rightarrow> (BaseStatistics \<times> exc option) \<times> nat list" where
  "TemplatedUpdateNumericStatistics stats update =
     (let sel = not_null_rows update in (stats_loop update_numeric (map (\<lambda>i. the (update ! i)) sel) stats, sel))"

definition UpdateStringStatistics ::
  "(8 word list \<Rightarrow> UnicodeType) \<Rightarrow> BaseStatistics \<Rightarrow> Payload option list \<Rightarrow> (BaseStatistics \<times> exc option) \<times> nat list" where
  "UpdateStringStatistics Analyze stats update =
     (let sel = not_null_rows update in (stats_loop (update_string Analyze) (map (\<lambda>i. the (update ! i)) sel) stats, sel))"

subsection \<open>The update\<close>

text \<open>
  \<open>SortSelectionVector\<close> orders the rows by id and keeps one row per id. \<open>std::sort\<close> does not say which of several
  rows with one id comes first and is kept; the model takes the first of them in the selection. The facts that are
  used about the result (its ids are strictly increasing and are the ids of the selection) hold for every choice.
\<close>

definition SortSelectionVector :: "idx_t list \<Rightarrow> nat list \<Rightarrow> nat list" where
  "SortSelectionVector ids sel =
     (if \<forall>i \<in> set [1..<length sel]. \<not> ids ! (sel ! i) \<le> ids ! (sel ! (i - 1)) then sel
      else let s = sort_key (\<lambda>l. ids ! l) sel
           in s ! 0 # map (\<lambda>i. s ! i) (filter (\<lambda>i. ids ! (s ! (i - 1)) \<noteq> ids ! (s ! i)) [1..<length s]))"

definition InitializeUpdateInfo :: "idx_t \<Rightarrow> idx_t \<Rightarrow> idx_t list \<Rightarrow> nat list \<Rightarrow> 'a UpdateInfo \<Rightarrow> exc + 'a UpdateInfo" where
  "InitializeUpdateInfo vector_index vector_offset ids sel info =
     bind_res (map_res (\<lambda>idx. let t = sub_row (ids ! idx) vector_offset in if t < 2 ^ 32 then Inr t else Inl InternalException) sel)
       (\<lambda>ts. Inr (info\<lparr>info_vector_index := vector_index, tuples := ts\<rparr>))"

definition CreateUpdateInfo :: "transaction_t \<Rightarrow> idx_t \<Rightarrow> idx_t \<Rightarrow> 'a UpdateInfo" where
  "CreateUpdateInfo tid vector_index column_index =
     \<lparr>version_number = tid, info_vector_index = vector_index, info_column_index = column_index, tuples = [], tuple_data = []\<rparr>"

definition InitializeUpdateData ::
  "'a option list \<Rightarrow> 'a option list \<Rightarrow> nat list \<Rightarrow> 'a UpdateInfo \<Rightarrow> 'a UpdateInfo \<Rightarrow> exc + 'a UpdateInfo \<times> 'a UpdateInfo" where
  "InitializeUpdateData base_data update sel transaction_node info =
     bind_res (map_res (read_base update) sel) (\<lambda>new.
     bind_res (map_res (read_base base_data) (tuples transaction_node)) (\<lambda>old.
       Inr (info\<lparr>tuple_data := new\<rparr>, transaction_node\<lparr>tuple_data := old\<rparr>)))"

text \<open>
  The info of the transaction in the chain, or a new info at the front of it. Without a transaction object the new info
  lives in local memory and the base info is linked to nothing.
\<close>

fun find_info :: "transaction_t \<Rightarrow> 'a UpdateInfo list \<Rightarrow> nat option" where
  "find_info tid [] = None"
| "find_info tid (i # is) = (if version_number i = tid then Some 0 else map_option Suc (find_info tid is))"

definition update_existing ::
  "TransactionData \<Rightarrow> bool \<Rightarrow> idx_t \<Rightarrow> idx_t \<Rightarrow> idx_t \<Rightarrow> 'a option list \<Rightarrow> 'a option list \<Rightarrow> idx_t list \<Rightarrow> nat list
    \<Rightarrow> 'a UpdateNodeData \<Rightarrow> exc + 'a UpdateNodeData" where
  "update_existing transaction has_transaction column_index vector_index vector_offset update base_data ids sel nd =
     bind_res (CheckForConflicts transaction (map (\<lambda>idx. int (ids ! idx) - int vector_offset) sel) 0 (chain nd) None) (\<lambda>_.
       let k = find_info (transaction_id transaction) (chain nd);
           (k, infos, linked) = (case k of Some k \<Rightarrow> (k, chain nd, True)
             | None \<Rightarrow> (0, CreateUpdateInfo (transaction_id transaction) vector_index column_index # chain nd, has_transaction))
       in bind_res (MergeUpdateLoopInternal vector_offset base_data update ids sel (base_info nd) (infos ! k)) (\<lambda>(base, node).
            Inr \<lparr>base_info = base, chain = (if linked then infos[k := node] else [])\<rparr>))"

definition create_node ::
  "TransactionData \<Rightarrow> bool \<Rightarrow> idx_t \<Rightarrow> idx_t \<Rightarrow> idx_t \<Rightarrow> 'a option list \<Rightarrow> 'a option list \<Rightarrow> idx_t list \<Rightarrow> nat list
    \<Rightarrow> exc + 'a UpdateNodeData" where
  "create_node transaction has_transaction column_index vector_index vector_offset update base_data ids sel =
     bind_res (InitializeUpdateInfo vector_index vector_offset ids sel
         (CreateUpdateInfo (TRANSACTION_ID_START - 1) vector_index column_index)) (\<lambda>info.
     bind_res (InitializeUpdateInfo vector_index vector_offset ids sel
         (CreateUpdateInfo (transaction_id transaction) vector_index column_index)) (\<lambda>transaction_node.
     bind_res (InitializeUpdateData base_data update sel transaction_node info) (\<lambda>(info, transaction_node).
       Inr \<lparr>base_info = info, chain = (if has_transaction then [transaction_node] else [])\<rparr>)))"

definition us_Update ::
  "(BaseStatistics \<Rightarrow> 'a option list \<Rightarrow> (BaseStatistics \<times> exc option) \<times> nat list)
    \<Rightarrow> TransactionData \<Rightarrow> bool \<Rightarrow> idx_t \<Rightarrow> 'a option list \<Rightarrow> idx_t list \<Rightarrow> 'a option list \<Rightarrow> 'a UpdateSegment
    \<Rightarrow> 'a UpdateSegment \<times> exc option" where
  "us_Update statistics_update_function transaction has_transaction column_index update ids base_data seg =
     (let ((stats, ex), sel) = statistics_update_function (update_stats seg) update;
          seg = seg\<lparr>update_stats := stats\<rparr>
      in if ex \<noteq> None then (seg, ex)
         else if sel = [] then (seg, None)
         else
           let sel = SortSelectionVector ids sel;
               infos = (case root seg of None \<Rightarrow> replicate ROW_GROUP_VECTOR_COUNT None | Some infos \<Rightarrow> infos);
               seg = seg\<lparr>root := Some infos\<rparr>;
               vector_index = sub_row (ids ! (sel ! 0)) (column_start seg) div STANDARD_VECTOR_SIZE;
               vector_offset = column_start seg + vector_index * STANDARD_VECTOR_SIZE
           in case bind_res (vector_node vector_index infos) (\<lambda>n.
                case n of
                  Some nd \<Rightarrow> update_existing transaction has_transaction column_index vector_index vector_offset update base_data ids sel nd
                | None \<Rightarrow> create_node transaction has_transaction column_index vector_index vector_offset update base_data ids sel) of
                Inl e \<Rightarrow> (seg, Some e)
              | Inr nd \<Rightarrow> (put_node vector_index nd seg, None))"

section \<open>Queries\<close>

definition HasUpdates :: "'a UpdateSegment \<Rightarrow> bool" where
  "HasUpdates seg \<longleftrightarrow> root seg \<noteq> None"

definition HasUpdates_vector :: "idx_t \<Rightarrow> 'a UpdateSegment \<Rightarrow> exc + bool" where
  "HasUpdates_vector vector_index seg =
     (case root seg of None \<Rightarrow> Inr False
      | Some infos \<Rightarrow> bind_res (vector_node vector_index infos) (\<lambda>n. Inr (n \<noteq> None)))"

definition HasUncommittedUpdates :: "idx_t \<Rightarrow> 'a UpdateSegment \<Rightarrow> exc + bool" where
  "HasUncommittedUpdates vector_index seg =
     (case root seg of None \<Rightarrow> Inr False
      | Some infos \<Rightarrow> bind_res (vector_node vector_index infos) (\<lambda>n.
          Inr (case n of None \<Rightarrow> False | Some nd \<Rightarrow> chain nd \<noteq> [])))"

definition HasUpdates_range :: "idx_t \<Rightarrow> idx_t \<Rightarrow> 'a UpdateSegment \<Rightarrow> exc + bool" where
  "HasUpdates_range start_row_index end_row_index seg =
     (case root seg of None \<Rightarrow> Inr False
      | Some infos \<Rightarrow> fold_res (\<lambda>i found. if found then Inr True else bind_res (vector_node i infos) (\<lambda>n. Inr (n \<noteq> None)))
          [start_row_index div STANDARD_VECTOR_SIZE..<Suc (end_row_index div STANDARD_VECTOR_SIZE)] False)"

section \<open>What a transaction sees\<close>

definition info_ok :: "'a UpdateInfo \<Rightarrow> bool" where
  "info_ok i \<longleftrightarrow> sorted_wrt (<) (tuples i) \<and> (\<forall>t \<in> set (tuples i). t < STANDARD_VECTOR_SIZE) \<and> length (tuple_data i) = length (tuples i)"

definition over :: "'a UpdateInfo \<Rightarrow> nat \<Rightarrow> 'a option \<Rightarrow> 'a option" where
  "over i r x = (case map_of (entries i) r of None \<Rightarrow> x | Some y \<Rightarrow> y)"

definition hidden_from :: "transaction_t \<Rightarrow> transaction_t \<Rightarrow> 'a UpdateInfo \<Rightarrow> bool" where
  "hidden_from s t i \<longleftrightarrow> s < version_number i \<and> version_number i \<noteq> t"

definition view_row :: "transaction_t \<Rightarrow> transaction_t \<Rightarrow> 'a UpdateInfo list \<Rightarrow> nat \<Rightarrow> 'a option \<Rightarrow> 'a option" where
  "view_row s t infos r x = fold (\<lambda>i x. if hidden_from s t i then over i r x else x) infos x"

lemma view_row_simps [simp]:
  "view_row s t [] r x = x"
  "view_row s t (i # is) r x = view_row s t is r (if hidden_from s t i then over i r x else x)"
  "view_row s t (is @ js) r x = view_row s t js r (view_row s t is r x)"
  by (simp_all add: view_row_def)

lemma over_absent: "r \<notin> set (tuples i) \<Longrightarrow> over i r x = x"
  by (auto simp: over_def entries_def dest: map_of_SomeD in_set_zipE split: option.split)

lemma entries_fst: "info_ok i \<Longrightarrow> map fst (entries i) = tuples i"
  by (simp add: info_ok_def entries_def)

lemma map_of_entries_None: "info_ok i \<Longrightarrow> map_of (entries i) r = None \<longleftrightarrow> r \<notin> set (tuples i)"
  by (simp add: map_of_eq_None_iff entries_fst flip: set_map)

lemma over_present: "info_ok i \<Longrightarrow> r \<in> set (tuples i) \<Longrightarrow> over i r x = the (map_of (entries i) r)"
  using map_of_entries_None [of i r] by (auto simp: over_def split: option.split)

lemma view_row_unseen:
  "(\<And>i. i \<in> set is \<Longrightarrow> hidden_from s t i \<Longrightarrow> r \<notin> set (tuples i)) \<Longrightarrow> view_row s t is r x = x"
  by (induction "is") (auto simp: over_absent)

text \<open>A full info has the layout 0, 1, 2, ..., which makes the copy of its data right.\<close>

lemma sorted_wrt_less_bounded_upt:
  "sorted_wrt (<) xs \<Longrightarrow> (\<forall>x \<in> set xs. x < n) \<Longrightarrow> length xs = n \<Longrightarrow> xs = [0..<n]" for xs :: "nat list"
proof -
  assume xs: "sorted_wrt (<) xs" "\<forall>x \<in> set xs. x < n" "length xs = n"
  then have "distinct xs" by (simp add: strict_sorted_iff)
  then have "set xs = {0..<n}" using xs(2,3) by (intro card_subset_eq) (auto simp: distinct_card)
  then show ?thesis using xs(1) by (intro sorted_distinct_set_unique) (simp_all add: strict_sorted_iff)
qed

lemma map_of_zip_upt: "length ys = n \<Longrightarrow> r < n \<Longrightarrow> map_of (zip [0..<n] ys) r = Some (ys ! r)"
  by (rule map_of_is_SomeI) (auto simp: in_set_zip intro!: exI [of _ r])

lemma fold_write:
  "\<forall>e \<in> set es. fst e < length res \<Longrightarrow> distinct (map fst es) \<Longrightarrow>
    \<exists>res'. fold_res (\<lambda>e res. write_cell (fst e) (snd e) res) es res = Inr res' \<and> length res' = length res
      \<and> (\<forall>r < length res. res' ! r = (case map_of es r of None \<Rightarrow> res ! r | Some y \<Rightarrow> y))"
proof (induction es arbitrary: res)
  case (Cons e es)
  then obtain res' where "fold_res (\<lambda>e res. write_cell (fst e) (snd e) res) es (res[fst e := snd e]) = Inr res'" "length res' = length res"
      "\<forall>r < length res. res' ! r = (case map_of es r of None \<Rightarrow> res[fst e := snd e] ! r | Some y \<Rightarrow> y)"
    using Cons.IH [of "res[fst e := snd e]"] by auto
  moreover have "map_of es (fst e) = None" using Cons.prems(2) by (simp add: map_of_eq_None_iff image_iff)
  ultimately show ?case using Cons.prems(1) by (auto simp: write_cell_def nth_list_update split: option.split)
qed simp

lemma MergeUpdateInfo_ok:
  assumes i: "info_ok i" and res: "STANDARD_VECTOR_SIZE \<le> length res"
  shows "\<exists>res'. MergeUpdateInfo i res = Inr res' \<and> length res' = length res \<and> (\<forall>r < length res. res' ! r = over i r (res ! r))"
proof (cases "info_N i = STANDARD_VECTOR_SIZE")
  case True
  let ?n = STANDARD_VECTOR_SIZE
  have "tuples i = [0..<?n]" using i True by (intro sorted_wrt_less_bounded_upt) (auto simp: info_ok_def)
  moreover have "length (tuple_data i) = ?n" using i True by (simp add: info_ok_def)
  ultimately have "over i r x = (if r < ?n then tuple_data i ! r else x)" for r x
    using map_of_zip_upt [of "tuple_data i" ?n r] over_absent [of r i x] by (auto simp: over_def entries_def)
  then show ?thesis using True res \<open>length (tuple_data i) = ?n\<close>
    by (auto simp: MergeUpdateInfo_def nth_append)
next
  case False
  have "fold_res (\<lambda>j res. write_cell (tuples i ! j) (tuple_data i ! j) res) [0..<info_N i] res
      = fold_res (\<lambda>e res. write_cell (fst e) (snd e) res) (map (\<lambda>j. (tuples i ! j, tuple_data i ! j)) [0..<info_N i]) res"
    by (simp add: fold_res_map)
  also have "map (\<lambda>j. (tuples i ! j, tuple_data i ! j)) [0..<info_N i] = entries i"
    using i by (intro nth_equalityI) (simp_all add: info_ok_def entries_def)
  finally have eq: "MergeUpdateInfo i res = fold_res (\<lambda>e res. write_cell (fst e) (snd e) res) (entries i) res"
    using False by (simp add: MergeUpdateInfo_def)
  have "\<forall>e \<in> set (entries i). fst e < length res" using i res by (auto simp: info_ok_def entries_def dest!: set_zip_leftD)
  moreover have "distinct (map fst (entries i))" using i by (simp add: entries_fst) (simp add: info_ok_def strict_sorted_iff)
  ultimately show ?thesis unfolding eq over_def by (rule fold_write)
qed

lemma UpdateMergeFetch_ok:
  assumes "\<forall>i \<in> set infos. info_ok i" "STANDARD_VECTOR_SIZE \<le> length res"
  shows "\<exists>res'. UpdateMergeFetch s t infos res = Inr res' \<and> length res' = length res
    \<and> (\<forall>r < length res. res' ! r = view_row s t infos r (res ! r))"
  using assms
proof (induction infos arbitrary: res)
  case (Cons i infos)
  have "\<exists>res1. (if s < version_number i \<and> version_number i \<noteq> t then MergeUpdateInfo i res else Inr res) = Inr res1
      \<and> length res1 = length res \<and> (\<forall>r < length res. res1 ! r = (if hidden_from s t i then over i r (res ! r) else res ! r))"
    using MergeUpdateInfo_ok [of i res] Cons.prems by (cases "hidden_from s t i") (auto simp: hidden_from_def)
  then obtain res1 where r1: "(if s < version_number i \<and> version_number i \<noteq> t then MergeUpdateInfo i res else Inr res) = Inr res1"
      "length res1 = length res" "\<forall>r < length res. res1 ! r = (if hidden_from s t i then over i r (res ! r) else res ! r)" by blast
  then obtain res' where "UpdateMergeFetch s t infos res1 = Inr res'" "length res' = length res"
      "\<forall>r < length res. res' ! r = view_row s t infos r (res1 ! r)"
    using Cons.IH [of res1] Cons.prems by auto
  then show ?case using r1 by (auto simp: UpdateMergeFetch_def UpdatesForTransaction_def)
qed (simp add: UpdateMergeFetch_def UpdatesForTransaction_def)

section \<open>The loops of an update\<close>

lemma conflict_join_iff:
  "sorted_wrt (<) as \<Longrightarrow> sorted_wrt (<) bs \<Longrightarrow> as \<noteq> [] \<Longrightarrow> bs \<noteq> [] \<Longrightarrow>
    conflict_join as bs = (if set as \<inter> set bs = {} then Inr () else Inl TransactionException)"
proof (induction as bs rule: conflict_join.induct)
  case (1 a as b bs)
  consider "a = b" | "a < b" | "b < a" by linarith
  then show ?case
  proof cases
    case 2
    then have "a \<notin> set (b # bs)" using 1(4) by auto
    with 2 1 show ?thesis by (cases "as = []") (auto split: if_splits)
  next
    case 3
    then have "b \<notin> set (a # as)" using 1(3) by auto
    with 3 1 show ?thesis by (cases "bs = []") (auto split: if_splits)
  qed simp
qed simp_all

text \<open>An info conflicts with an update of a transaction when it is newer, of another transaction, and has an updated row.\<close>

definition conflicting :: "TransactionData \<Rightarrow> nat set \<Rightarrow> 'a UpdateInfo \<Rightarrow> bool" where
  "conflicting t rows i \<longleftrightarrow> hidden_from (start_time t) (transaction_id t) i \<and> set (tuples i) \<inter> rows \<noteq> {}"

lemma CheckForConflicts_iff:
  assumes "\<forall>i \<in> set infos. info_ok i \<and> tuples i \<noteq> []" "sorted_wrt (<) rows" "rows \<noteq> []"
  shows "if \<exists>i \<in> set infos. conflicting t (set rows) i
    then CheckForConflicts t (map int rows) k infos node = Inl TransactionException
    else \<exists>node'. CheckForConflicts t (map int rows) k infos node = Inr node'"
  using assms(1)
proof (induction infos arbitrary: k node)
  case (Cons i infos)
  have srt: "sorted_wrt (<) (map int rows)" "sorted_wrt (<) (map int (tuples i))"
    using assms(2) Cons.prems by (auto simp: sorted_wrt_map info_ok_def)
  have "set (map int rows) \<inter> set (map int (tuples i)) = {} \<longleftrightarrow> set (tuples i) \<inter> set rows = {}" by auto
  then have join: "conflict_join (map int rows) (map int (tuples i)) = (if set (tuples i) \<inter> set rows = {} then Inr () else Inl TransactionException)"
    using conflict_join_iff [OF srt] assms(3) Cons.prems by simp
  show ?case
  proof (cases "version_number i = transaction_id t")
    case True
    then show ?thesis using Cons.IH [of "Suc k" "Some k"] Cons.prems by (auto simp: conflicting_def hidden_from_def)
  next
    case False
    then show ?thesis using Cons.IH [of "Suc k" node] Cons.prems
      by (cases "start_time t < version_number i"; cases "set (tuples i) \<inter> set rows = {}")
        (auto simp: conflicting_def hidden_from_def join)
  qed
qed simp

abbreviation sorted_entries :: "(nat \<times> 'a option) list \<Rightarrow> bool" where
  "sorted_entries es \<equiv> sorted_wrt (<) (map fst es)"

lemma MergeLoop_ok:
  "sorted_entries as \<Longrightarrow> sorted_entries bs \<Longrightarrow>
    sorted_entries (MergeLoop as bs) \<and> fst ` set (MergeLoop as bs) = fst ` set as \<union> fst ` set bs
    \<and> (\<forall>r. map_of (MergeLoop as bs) r = (case map_of as r of Some x \<Rightarrow> Some x | None \<Rightarrow> map_of bs r))"
proof (induction as bs rule: MergeLoop.induct)
  case (1 a x as b y bs)
  consider "a = b" | "a < b" | "b < a" by linarith
  then show ?case
  proof cases
    case 1
    have "sorted_entries (MergeLoop as bs)" "fst ` set (MergeLoop as bs) = fst ` set as \<union> fst ` set bs"
      "\<forall>r. map_of (MergeLoop as bs) r = (case map_of as r of Some x \<Rightarrow> Some x | None \<Rightarrow> map_of bs r)"
      using "1.IH"(1) [OF 1] "1.prems" by simp_all
    moreover have "a < c" if "c \<in> fst ` set as \<union> fst ` set bs" for c using that 1 "1.prems" by auto
    ultimately show ?thesis using 1 by (auto split: option.split)
  next
    case 2
    then have "sorted_entries (MergeLoop as ((b, y) # bs))"
      "fst ` set (MergeLoop as ((b, y) # bs)) = fst ` set as \<union> fst ` set ((b, y) # bs)"
      "\<forall>r. map_of (MergeLoop as ((b, y) # bs)) r = (case map_of as r of Some x \<Rightarrow> Some x | None \<Rightarrow> map_of ((b, y) # bs) r)"
      using "1.IH"(2) "1.prems" by simp_all
    moreover have "a < c" if "c \<in> fst ` set as \<union> fst ` set ((b, y) # bs)" for c
      using that 2 "1.prems" by auto
    ultimately show ?thesis using 2 by (auto split: option.split)
  next
    case 3
    then have "sorted_entries (MergeLoop ((a, x) # as) bs)"
      "fst ` set (MergeLoop ((a, x) # as) bs) = fst ` set ((a, x) # as) \<union> fst ` set bs"
      "\<forall>r. map_of (MergeLoop ((a, x) # as) bs) r = (case map_of ((a, x) # as) r of Some x \<Rightarrow> Some x | None \<Rightarrow> map_of bs r)"
      using "1.IH"(3) "1.prems" by simp_all
    moreover have "\<forall>c \<in> fst ` set ((a, x) # as) \<union> fst ` set bs. b < c" using 3 "1.prems" by auto
    moreover have "map_of as b = None" using 3 "1.prems"(1) by (force simp: map_of_eq_None_iff)
    ultimately show ?thesis using 3 by (auto split: option.split)
  qed
qed (simp_all split: option.split)

text \<open>Entries that the cursors have passed do not matter for the ids that follow.\<close>

lemma sorted_dropWhile_less:
  "sorted_entries es \<Longrightarrow> sorted_entries (dropWhile (\<lambda>e. fst e < k) es) \<and> (\<forall>e \<in> set (dropWhile (\<lambda>e. fst e < k) es). k \<le> fst e)"
proof (induction es)
  case (Cons e es)
  then show ?case by (cases "fst e < k") force+
qed simp

lemma map_of_dropWhile_less: "k \<le> r \<Longrightarrow> map_of (dropWhile (\<lambda>e. fst e < k) es) r = map_of es r" for r :: nat
  by (induction es) auto

lemma map_of_takeWhile_less: "sorted_entries es \<Longrightarrow> map_of (takeWhile (\<lambda>e. fst e < k) es) r = (if r < k then map_of es r else None)"
  for r :: nat
proof (induction es)
  case (Cons e es)
  have "map_of es r = None" if "\<not> fst e < k" "r < k" using that Cons.prems by (force simp: map_of_eq_None_iff)
  with Cons show ?case by auto
qed simp

lemma around_entry:
  assumes "sorted_entries older" "\<forall>e \<in> set older. fst e < i" "sorted_entries es" "\<forall>e \<in> set es. i < fst e"
  shows "sorted_entries (older @ (i, x) # es)"
    and "map_of (older @ (i, x) # es) r = (if r < i then map_of older r else if r = i then Some x else map_of es r)"
proof -
  show "sorted_entries (older @ (i, x) # es)" using assms by (fastforce simp: sorted_wrt_append)
  have "map_of older r = None" if "i \<le> r" using that assms(2) by (force simp: map_of_eq_None_iff)
  moreover have "map_of es r = None" if "r \<le> i" using that assms(4) by (force simp: map_of_eq_None_iff)
  ultimately show "map_of (older @ (i, x) # es) r = (if r < i then map_of older r else if r = i then Some x else map_of es r)"
    by (auto simp: map_add_def split: option.split)
qed

lemma hd_at_key:
  assumes "\<forall>e \<in> set es. i \<le> fst e" "sorted_entries es"
  shows "if es \<noteq> [] \<and> fst (hd es) = i then map_of es i = Some (snd (hd es)) else map_of es i = None \<and> (\<forall>e \<in> set es. i < fst e)"
proof (cases es)
  case (Cons e es')
  then show ?thesis using assms by (cases "fst e = i") (force simp: map_of_eq_None_iff)+
qed simp

lemma hd_lookup:
  assumes "\<forall>e \<in> set es. i \<le> fst e" "sorted_entries es" "i < length base"
  shows "(if es \<noteq> [] \<and> fst (hd es) = i then Inr (snd (hd es)) else read_base base i)
    = Inr (case map_of es i of Some y \<Rightarrow> y | None \<Rightarrow> base ! i)"
  using hd_at_key [OF assms(1,2)] assms(3) by (cases "es \<noteq> [] \<and> fst (hd es) = i") (auto simp: read_base_def)

lemma merge_old_ok:
  "sorted_wrt (<) ids \<Longrightarrow> sorted_entries us \<Longrightarrow> sorted_entries bs \<Longrightarrow> \<forall>r \<in> set ids. r < length base \<Longrightarrow>
    \<exists>es. merge_old base ids us bs = Inr es \<and> sorted_entries es \<and> fst ` set es = fst ` set us \<union> set ids
      \<and> (\<forall>r. map_of es r = (case map_of us r of Some x \<Rightarrow> Some x
           | None \<Rightarrow> if r \<in> set ids then Some (case map_of bs r of Some y \<Rightarrow> y | None \<Rightarrow> base ! r) else None))"
proof (induction base ids us bs rule: merge_old.induct)
  case (2 base i ids us bs)
  let ?older = "takeWhile (\<lambda>e. fst e < i) us" and ?rest = "dropWhile (\<lambda>e. fst e < i) us" and ?brest = "dropWhile (\<lambda>e. fst e < i) bs"
  let ?old = "\<lambda>r. case map_of bs r of Some y \<Rightarrow> y | None \<Rightarrow> base ! r"
  have rest: "sorted_entries ?rest" "\<forall>e \<in> set ?rest. i \<le> fst e" and brest: "sorted_entries ?brest" "\<forall>e \<in> set ?brest. i \<le> fst e"
    using sorted_dropWhile_less "2.prems"(2,3) by blast+
  have older: "sorted_entries ?older" "\<forall>e \<in> set ?older. fst e < i"
    using "2.prems"(2) by (metis sorted_wrt_append map_append takeWhile_dropWhile_id, auto dest: set_takeWhileD)
  have us: "fst ` set us = fst ` set ?older \<union> fst ` set ?rest" by (metis image_Un set_append takeWhile_dropWhile_id)
  have us_map: "map_of us r = (if r < i then map_of ?older r else map_of ?rest r)" for r
    using map_of_takeWhile_less [OF "2.prems"(2), of i r] map_of_dropWhile_less [of i r us] by simp
  have ids: "sorted_wrt (<) ids" "\<forall>r \<in> set ids. i < r" "\<forall>r \<in> set ids. r < length base" using "2.prems" by auto
  have key: "r \<notin> set (i # ids)" if "r < i" for r using ids(2) that by auto
  show ?case
  proof (cases "?rest \<noteq> [] \<and> fst (hd ?rest) = i")
    case True
    then obtain x tl where tl: "?rest = (i, x) # tl" by (metis list.collapse prod.collapse)
    from "2.IH"(1) [OF refl refl True] obtain es where es: "merge_old base ids tl bs = Inr es" "sorted_entries es"
        "fst ` set es = fst ` set tl \<union> set ids"
        "map_of es r = (case map_of tl r of Some x \<Rightarrow> Some x | None \<Rightarrow> if r \<in> set ids then Some (?old r) else None)" for r
      using ids rest(1) "2.prems"(3) by (auto simp: tl)
    have gt: "\<forall>e \<in> set es. i < fst e"
    proof -
      have "\<forall>r \<in> fst ` set es. i < r" unfolding es(3) using rest(1) ids(2) by (auto simp: tl)
      then show ?thesis by blast
    qed
    have "merge_old base (i # ids) us bs = Inr (?older @ (i, x) # es)" using True es(1) by (simp add: tl)
    moreover have "fst ` set (?older @ (i, x) # es) = fst ` set us \<union> set (i # ids)" by (auto simp: image_Un us tl es(3))
    moreover have "map_of (?older @ (i, x) # es) r = (case map_of us r of Some x \<Rightarrow> Some x
        | None \<Rightarrow> if r \<in> set (i # ids) then Some (?old r) else None)" for r
      unfolding around_entry(2) [OF older es(2) gt] us_map using key [of r] es(4) [of r] by (auto simp: tl split: option.split)
    ultimately show ?thesis using around_entry(1) [OF older es(2) gt, of x] by blast
  next
    case False
    then have none: "map_of ?rest i = None" "\<forall>e \<in> set ?rest. i < fst e" using hd_at_key [OF rest(2,1)] by auto
    have val: "(if ?brest \<noteq> [] \<and> fst (hd ?brest) = i then Inr (snd (hd ?brest)) else read_base base i) = Inr (?old i)"
      using hd_lookup [OF brest(2,1), of base] map_of_dropWhile_less [of i i bs] "2.prems"(4) by simp
    from "2.IH"(2) [OF refl refl False refl] obtain es where es: "merge_old base ids ?rest ?brest = Inr es" "sorted_entries es"
        "fst ` set es = fst ` set ?rest \<union> set ids"
        "map_of es r = (case map_of ?rest r of Some x \<Rightarrow> Some x
           | None \<Rightarrow> if r \<in> set ids then Some (case map_of ?brest r of Some y \<Rightarrow> y | None \<Rightarrow> base ! r) else None)" for r
      using ids rest(1) brest by auto
    have gt: "\<forall>e \<in> set es. i < fst e"
    proof -
      have "\<forall>r \<in> fst ` set es. i < r" unfolding es(3) using none(2) ids(2) by auto
      then show ?thesis by blast
    qed
    have "merge_old base (i # ids) us bs = Inr (?older @ (i, ?old i) # es)"
      using False es(1) by (simp only: merge_old.simps Let_def if_False val bind_res_Inr)
    moreover have "fst ` set (?older @ (i, ?old i) # es) = fst ` set us \<union> set (i # ids)" by (auto simp: image_Un us es(3))
    moreover have "map_of (?older @ (i, ?old i) # es) r = (case map_of us r of Some x \<Rightarrow> Some x
        | None \<Rightarrow> if r \<in> set (i # ids) then Some (?old r) else None)" for r
      unfolding around_entry(2) [OF older es(2) gt] us_map
      using key [of r] es(4) [of r] none(1) map_of_dropWhile_less [of i r bs] by (auto split: option.split)
    ultimately show ?thesis using around_entry(1) [OF older es(2) gt, of "?old i"] by blast
  qed
qed (simp split: option.split)

text \<open>Sorting and removing duplicates gives strictly increasing ids, and loses none.\<close>

lemma adjacent_distinct_remdups:
  "s \<noteq> [] \<Longrightarrow> map f (s ! 0 # map (\<lambda>i. s ! i) (filter (\<lambda>i. f (s ! (i - 1)) \<noteq> f (s ! i)) [1..<length s])) = remdups_adj (map f s)"
proof (induction s)
  case (Cons x s)
  show ?case
  proof (cases s)
    case (Cons y zs)
    have upt: "[1..<length (x # s)] = 1 # map Suc [1..<length s]"
      unfolding map_Suc_upt using Cons by (simp add: upt_conv_Cons del: upt_Suc)
    have "filter (\<lambda>i. f ((x # s) ! (i - 1)) \<noteq> f ((x # s) ! i)) (map Suc [1..<length s])
        = map Suc (filter (\<lambda>i. f (s ! (i - 1)) \<noteq> f (s ! i)) [1..<length s])"
      unfolding filter_map by (intro arg_cong [where f = "map Suc"] filter_cong) (auto simp: nth_Cons')
    then have "map f (map (\<lambda>i. (x # s) ! i) (filter (\<lambda>i. f ((x # s) ! (i - 1)) \<noteq> f ((x # s) ! i)) [1..<length (x # s)]))
        = (if f x \<noteq> f y then [f y] else []) @ map f (map (\<lambda>i. s ! i) (filter (\<lambda>i. f (s ! (i - 1)) \<noteq> f (s ! i)) [1..<length s]))"
      unfolding upt using Cons by (simp add: comp_def del: upt_Suc)
    then show ?thesis using Cons.IH Cons by (auto simp del: upt_Suc)
  qed simp
qed simp

lemma sorted_remdups_adj_strict: "sorted xs \<Longrightarrow> sorted_wrt (<) (remdups_adj xs)" for xs :: "nat list"
  by (induction xs rule: remdups_adj.induct) (auto simp: order.order_iff_strict)

lemma SortSelectionVector_ok:
  assumes "sel \<noteq> []"
  shows "sorted_wrt (<) (map (\<lambda>l. ids ! l) (SortSelectionVector ids sel))"
    and "set (SortSelectionVector ids sel) \<subseteq> set sel"
    and "(\<lambda>l. ids ! l) ` set (SortSelectionVector ids sel) = (\<lambda>l. ids ! l) ` set sel"
    and "SortSelectionVector ids sel \<noteq> []"
proof -
  let ?f = "\<lambda>l. ids ! l" and ?s = "sort_key (\<lambda>l. ids ! l) sel"
  let ?r = "?s ! 0 # map (\<lambda>i. ?s ! i) (filter (\<lambda>i. ?f (?s ! (i - 1)) \<noteq> ?f (?s ! i)) [1..<length ?s])"
  have "sorted_wrt (<) (map ?f (SortSelectionVector ids sel)) \<and> set (SortSelectionVector ids sel) \<subseteq> set sel
      \<and> ?f ` set (SortSelectionVector ids sel) = ?f ` set sel \<and> SortSelectionVector ids sel \<noteq> []"
  proof (cases "\<forall>i \<in> set [1..<length sel]. \<not> ?f (sel ! i) \<le> ?f (sel ! (i - 1))")
    case True
    then have "?f (sel ! i) < ?f (sel ! Suc i)" if "Suc i < length sel" for i using that by force
    then have "sorted_wrt (<) (map ?f sel)" by (subst sorted_wrt_iff_nth_Suc_transp) auto
    moreover have "SortSelectionVector ids sel = sel" unfolding SortSelectionVector_def using True by (rule if_P)
    ultimately show ?thesis using assms by simp
  next
    case False
    have ne: "map ?f ?s \<noteq> []" using assms by (metis length_0_conv length_map length_sort)
    then have "map ?f ?r = remdups_adj (map ?f ?s)" by (intro adjacent_distinct_remdups) simp
    then have "sorted_wrt (<) (map ?f ?r)" "?f ` set ?r = ?f ` set sel"
      using sorted_remdups_adj_strict [of "map ?f ?s"] by (simp, metis remdups_adj_set set_map set_sort)
    moreover have "set ?r \<subseteq> set sel" using ne by (auto simp flip: set_sort [of ?f sel] intro!: nth_mem simp del: set_sort)
    moreover have "SortSelectionVector ids sel = ?r" unfolding SortSelectionVector_def Let_def using False by (rule if_not_P)
    ultimately show ?thesis by simp
  qed
  then show "sorted_wrt (<) (map ?f (SortSelectionVector ids sel))" "set (SortSelectionVector ids sel) \<subseteq> set sel"
    "?f ` set (SortSelectionVector ids sel) = ?f ` set sel" "SortSelectionVector ids sel \<noteq> []" by simp_all
qed

section \<open>The invariant of a chain\<close>

text \<open>
  \<open>starts\<close> gives the start time of every running transaction. An info stands above the older ones. Two infos with a
  common row belong to transactions of which the second has seen the commit of the first: the lower one is committed, before
  the upper one started when that is still running. Nothing that is put above the info of a running transaction
  was committed before that transaction started.
\<close>

definition above :: "(transaction_t \<Rightarrow> transaction_t) \<Rightarrow> 'a UpdateInfo \<Rightarrow> 'a UpdateInfo \<Rightarrow> bool" where
  "above starts i j \<longleftrightarrow> version_number i \<noteq> version_number j
     \<and> (TRANSACTION_ID_START \<le> version_number j \<longrightarrow> starts (version_number j) < version_number i)
     \<and> (set (tuples i) \<inter> set (tuples j) \<noteq> {} \<longrightarrow> version_number j < TRANSACTION_ID_START
          \<and> (if TRANSACTION_ID_START \<le> version_number i then version_number j \<le> starts (version_number i)
             else version_number j < version_number i))"

definition node_ok :: "(transaction_t \<Rightarrow> transaction_t) \<Rightarrow> 'a UpdateNodeData \<Rightarrow> bool" where
  "node_ok starts nd \<longleftrightarrow> info_ok (base_info nd) \<and> version_number (base_info nd) = TRANSACTION_ID_START - 1
     \<and> (\<forall>i \<in> set (chain nd). info_ok i \<and> tuples i \<noteq> [] \<and> set (tuples i) \<subseteq> set (tuples (base_info nd))
          \<and> (TRANSACTION_ID_START \<le> version_number i \<longrightarrow> starts (version_number i) < TRANSACTION_ID_START - 1))
     \<and> sorted_wrt (above starts) (chain nd)"

definition running :: "(transaction_t \<Rightarrow> transaction_t) \<Rightarrow> TransactionData \<Rightarrow> bool" where
  "running starts t \<longleftrightarrow> TRANSACTION_ID_START \<le> transaction_id t \<and> starts (transaction_id t) = start_time t
     \<and> start_time t < TRANSACTION_ID_START - 1"

abbreviation view :: "TransactionData \<Rightarrow> 'a UpdateNodeData \<Rightarrow> nat \<Rightarrow> 'a option \<Rightarrow> 'a option" where
  "view t nd \<equiv> view_row (start_time t) (transaction_id t) (base_info nd # chain nd)"

lemma base_version: "TRANSACTION_ID_START - 1 < TRANSACTION_ID_START"
  by (simp add: TRANSACTION_ID_START_def)

lemma running_base: "running starts t \<Longrightarrow> start_time t < TRANSACTION_ID_START" "running starts t \<Longrightarrow> TRANSACTION_ID_START - 1 \<noteq> transaction_id t"
  using base_version by (auto simp: running_def)

lemma hidden_base: "node_ok starts nd \<Longrightarrow> running starts t \<Longrightarrow> hidden_from (start_time t) (transaction_id t) (base_info nd)"
  using running_base(2) [of starts t] by (simp add: node_ok_def running_def hidden_from_def)

lemma running_less: "running starts t \<Longrightarrow> running starts t2 \<Longrightarrow> start_time t2 < transaction_id t"
  using running_base(1) [of starts t2] by (auto simp: running_def)

text \<open>The infos an update leaves: the base info with the new values, the info of the transaction with the old ones.\<close>

definition updated ::
  "nat set \<Rightarrow> (nat \<Rightarrow> 'a option) \<Rightarrow> 'a option list \<Rightarrow> 'a UpdateInfo \<Rightarrow> 'a UpdateInfo \<Rightarrow> 'a UpdateInfo \<Rightarrow> 'a UpdateInfo \<Rightarrow> bool" where
  "updated rows new data base u base' u' \<longleftrightarrow> info_ok base' \<and> info_ok u'
     \<and> version_number base' = version_number base \<and> version_number u' = version_number u
     \<and> set (tuples base') = set (tuples base) \<union> rows \<and> set (tuples u') = set (tuples u) \<union> rows
     \<and> (\<forall>r x. over base' r x = (if r \<in> rows then new r else over base r x))
     \<and> (\<forall>r x. over u' r x = (if r \<in> rows \<and> r \<notin> set (tuples u) then over base r (data ! r) else over u r x))"

lemma updated_view:
  assumes up: "updated rows new data base u base' u'" and u: "version_number u = transaction_id t"
    and base: "version_number base = TRANSACTION_ID_START - 1" and oku: "info_ok u"
    and as: "\<forall>i \<in> set as. start_time t < version_number i \<and> version_number i \<noteq> transaction_id t"
    and free: "\<forall>i \<in> set (as @ bs). \<not> conflicting t rows i"
    and run: "running starts t" "running starts t2"
  shows "view_row (start_time t2) (transaction_id t2) (base' # as @ u' # bs) r (data ! r) =
    (if transaction_id t2 = transaction_id t \<and> r \<in> rows then new r
     else view_row (start_time t2) (transaction_id t2) (base # as @ u # bs) r (data ! r))"
proof -
  let ?s = "start_time t2" and ?t = "transaction_id t2"
  have hb: "hidden_from ?s ?t base" "hidden_from ?s ?t base'"
    using run(2) base up running_base(2) [OF run(2)] by (simp_all add: hidden_from_def running_def updated_def)
  have hu: "hidden_from ?s ?t u' = hidden_from ?s ?t u" "hidden_from ?s ?t u \<longleftrightarrow> ?t \<noteq> transaction_id t"
    using u up running_less [OF run] by (auto simp: hidden_from_def updated_def)
  show ?thesis
  proof (cases "r \<in> rows")
    case False
    then show ?thesis using up hb hu by (simp add: updated_def)
  next
    case r: True
    have as_r: "r \<notin> set (tuples i)" if "i \<in> set as" for i
      using that as free r by (auto simp: conflicting_def hidden_from_def)
    have as_id: "view_row s' t' as r x = x" for s' t' x using as_r by (intro view_row_unseen) blast
    show ?thesis
    proof (cases "?t = transaction_id t")
      case True
      then have "?s = start_time t" using run by (simp add: running_def)
      then have "view_row ?s ?t bs r x = x" for x
        using free r True by (intro view_row_unseen) (auto simp: conflicting_def)
      moreover have "over base' r x = new r" for x using up r by (simp add: updated_def)
      ultimately show ?thesis using True r hb(2) hu by (simp only: view_row_simps as_id if_True if_False simp_thms)
    next
      case False
      then show ?thesis using r hb hu up over_present [OF oku] over_absent [of r u]
        by (cases "r \<in> set (tuples u)") (simp_all add: as_id updated_def)
    qed
  qed
qed

lemma updated_ok:
  assumes up: "updated rows new data (base_info nd) u base' u'" and rows: "rows \<noteq> {}"
    and u: "version_number u = transaction_id t" and free: "\<forall>i \<in> set (as @ bs). \<not> conflicting t rows i"
    and ok: "info_ok (base_info nd)" "version_number (base_info nd) = TRANSACTION_ID_START - 1"
      "\<forall>i \<in> set (as @ bs). info_ok i \<and> tuples i \<noteq> [] \<and> set (tuples i) \<subseteq> set (tuples (base_info nd))
          \<and> (TRANSACTION_ID_START \<le> version_number i \<longrightarrow> starts (version_number i) < TRANSACTION_ID_START - 1)"
      "set (tuples u) \<subseteq> set (tuples (base_info nd))" "sorted_wrt (above starts) (as @ u # bs)"
    and run: "running starts t"
  shows "node_ok starts \<lparr>base_info = base', chain = as @ u' # bs\<rparr>"
proof -
  have u': "info_ok base'" "info_ok u'" "version_number base' = TRANSACTION_ID_START - 1" "version_number u' = transaction_id t"
    "set (tuples base') = set (tuples (base_info nd)) \<union> rows" "set (tuples u') = set (tuples u) \<union> rows"
    using up u ok(2) by (simp_all add: updated_def)
  have as_u: "above starts i u'" if i: "i \<in> set as" for i
  proof -
    have ab: "above starts i u" using ok(5) i by (simp add: sorted_wrt_append)
    then have "start_time t < version_number i" "version_number i \<noteq> transaction_id t"
      using u run by (auto simp: above_def running_def)
    then have "set (tuples i) \<inter> rows = {}" using free i by (auto simp: conflicting_def hidden_from_def)
    then show ?thesis using ab u u' by (auto simp: above_def Int_Un_distrib)
  qed
  have u_bs: "above starts u' j" if j: "j \<in> set bs" for j
  proof -
    have ab: "above starts u j" using ok(5) j by (simp add: sorted_wrt_append)
    have "version_number j \<le> start_time t \<and> version_number j < TRANSACTION_ID_START" if "x \<in> rows" "x \<in> set (tuples j)" for x
    proof -
      have "\<not> conflicting t rows j" using free j by simp
      moreover have "version_number j \<noteq> transaction_id t" using ab u by (auto simp: above_def)
      ultimately show ?thesis using that running_base(1) [OF run] by (auto simp: conflicting_def hidden_from_def not_less)
    qed
    moreover have "start_time t < TRANSACTION_ID_START" "TRANSACTION_ID_START \<le> transaction_id t" "starts (transaction_id t) = start_time t"
      using running_base(1) [OF run] run by (simp_all add: running_def)
    ultimately show ?thesis using ab u u' unfolding above_def by (auto simp: Int_Un_distrib2)
  qed
  have srt: "sorted_wrt (above starts) (as @ u' # bs)" using ok(5) as_u u_bs by (auto simp: sorted_wrt_append)
  have "tuples u' \<noteq> []" using u'(6) rows by auto
  then show ?thesis unfolding node_ok_def using srt u' ok run by (auto simp: running_def)
qed

section \<open>One update\<close>

lemma strict_sorted_length_le: "sorted_wrt (<) xs \<Longrightarrow> \<forall>x \<in> set xs. x < n \<Longrightarrow> length xs \<le> n" for xs :: "nat list"
proof -
  assume "sorted_wrt (<) xs" "\<forall>x \<in> set xs. x < n"
  then have "length xs = card (set xs)" "set xs \<subseteq> {0..<n}" by (auto simp: strict_sorted_iff distinct_card)
  then show ?thesis using card_mono [of "{0..<n}" "set xs"] by simp
qed

lemma set_entries_ok:
  assumes "sorted_entries es" "\<forall>r \<in> fst ` set es. r < STANDARD_VECTOR_SIZE"
  shows "info_ok (set_entries es i)" "set (tuples (set_entries es i)) = fst ` set es" "version_number (set_entries es i) = version_number i"
    "over (set_entries es i) r x = (case map_of es r of None \<Rightarrow> x | Some y \<Rightarrow> y)" "length es \<le> STANDARD_VECTOR_SIZE"
  using assms strict_sorted_length_le [OF assms(1)] by (auto simp: info_ok_def set_entries_def over_def entries_def zip_map_fst_snd)

text \<open>The rows of an update within their vector, and the new value of a row.\<close>

definition update_rows :: "idx_t \<Rightarrow> idx_t list \<Rightarrow> nat list \<Rightarrow> nat list" where
  "update_rows vector_offset ids sel = map (\<lambda>idx. ids ! idx - vector_offset) sel"

definition new_value :: "idx_t \<Rightarrow> idx_t list \<Rightarrow> nat list \<Rightarrow> 'a option list \<Rightarrow> nat \<Rightarrow> 'a option" where
  "new_value vector_offset ids sel update r = the (map_of (zip (update_rows vector_offset ids sel) (map (\<lambda>idx. update ! idx) sel)) r)"

definition update_fits :: "idx_t \<Rightarrow> idx_t list \<Rightarrow> nat list \<Rightarrow> 'a option list \<Rightarrow> bool" where
  "update_fits vector_offset ids sel update \<longleftrightarrow> vector_offset + STANDARD_VECTOR_SIZE < 2 ^ 64
     \<and> (\<forall>idx \<in> set sel. idx < length update \<and> vector_offset \<le> ids ! idx \<and> ids ! idx < vector_offset + STANDARD_VECTOR_SIZE)"

lemma update_fits_rows:
  assumes "update_fits off ids sel update"
  shows "map (\<lambda>idx. sub_row (ids ! idx) off) sel = update_rows off ids sel"
    and "map (\<lambda>idx. int (ids ! idx) - int off) sel = map int (update_rows off ids sel)"
    and "\<forall>r \<in> set (update_rows off ids sel). r < STANDARD_VECTOR_SIZE"
    and "map_res (read_base update) sel = Inr (map (\<lambda>idx. update ! idx) sel)"
proof -
  have "sub_row (ids ! idx) off = ids ! idx - off" if "idx \<in> set sel" for idx
    using that assms by (intro sub_row_eq) (auto simp: update_fits_def)
  then show "map (\<lambda>idx. sub_row (ids ! idx) off) sel = update_rows off ids sel" by (simp add: update_rows_def)
  show "map (\<lambda>idx. int (ids ! idx) - int off) sel = map int (update_rows off ids sel)"
    using assms by (auto simp: update_fits_def update_rows_def of_nat_diff)
  show "\<forall>r \<in> set (update_rows off ids sel). r < STANDARD_VECTOR_SIZE" using assms by (auto simp: update_fits_def update_rows_def)
  show "map_res (read_base update) sel = Inr (map (\<lambda>idx. update ! idx) sel)"
    by (rule map_res_ok) (use assms in \<open>simp add: update_fits_def read_base_def\<close>)
qed

lemma new_value_cell:
  assumes "sorted_wrt (<) (update_rows off ids sel)" "r \<in> set (update_rows off ids sel)"
  shows "\<exists>idx \<in> set sel. ids ! idx - off = r \<and> map_of (zip (update_rows off ids sel) (map (\<lambda>idx. update ! idx) sel)) r = Some (update ! idx)
    \<and> new_value off ids sel update r = update ! idx"
proof -
  let ?rs = "update_rows off ids sel"
  obtain k where k: "k < length sel" "r = ?rs ! k" using assms(2) by (auto simp: in_set_conv_nth update_rows_def)
  have "map_of (zip ?rs (map (\<lambda>idx. update ! idx) sel)) r = Some (update ! (sel ! k))"
    using assms(1) k by (intro map_of_is_SomeI) (auto simp: strict_sorted_iff in_set_zip update_rows_def intro!: exI [of _ k])
  then show ?thesis using k by (intro bexI [of _ "sel ! k"]) (simp_all add: new_value_def update_rows_def)
qed

lemma MergeUpdateLoopInternal_ok:
  assumes fits: "update_fits off ids sel update" and srt: "sorted_wrt (<) (update_rows off ids sel)"
    and base: "info_ok base" and u: "info_ok u" and data: "length data = STANDARD_VECTOR_SIZE"
  shows "\<exists>base' u'. MergeUpdateLoopInternal off data update ids sel base u = Inr (base', u')
    \<and> updated (set (update_rows off ids sel)) (new_value off ids sel update) data base u base' u'"
proof -
  let ?rs = "update_rows off ids sel" and ?new = "map (\<lambda>idx. update ! idx) sel"
  note rs = update_fits_rows [OF fits]
  have es: "sorted_entries (entries base)" "sorted_entries (entries u)" "fst ` set (entries base) = set (tuples base)"
    "fst ` set (entries u) = set (tuples u)"
    using base u entries_fst [OF base] entries_fst [OF u] by (simp_all add: info_ok_def flip: set_map)
  obtain old where old: "merge_old data ?rs (entries u) (entries base) = Inr old" "sorted_entries old"
      "fst ` set old = set (tuples u) \<union> set ?rs"
      "\<forall>r. map_of old r = (case map_of (entries u) r of Some x \<Rightarrow> Some x
         | None \<Rightarrow> if r \<in> set ?rs then Some (over base r (data ! r)) else None)"
    using merge_old_ok [OF srt es(2,1), of data, unfolded data es(4), OF rs(3)] unfolding over_def by blast
  let ?m = "MergeLoop (zip ?rs ?new) (entries base)"
  have len: "length ?rs = length ?new" by (simp add: update_rows_def)
  have m: "sorted_entries ?m" "fst ` set ?m = set ?rs \<union> set (tuples base)"
      "\<forall>r. map_of ?m r = (case map_of (zip ?rs ?new) r of Some x \<Rightarrow> Some x | None \<Rightarrow> map_of (entries base) r)"
    using MergeLoop_ok [of "zip ?rs ?new" "entries base"] es srt len by (simp_all add: flip: set_map)
  have lim: "\<forall>r \<in> set (tuples u) \<union> set ?rs. r < STANDARD_VECTOR_SIZE" "\<forall>r \<in> set ?rs \<union> set (tuples base). r < STANDARD_VECTOR_SIZE"
    using base u rs(3) by (auto simp: info_ok_def)
  note so = set_entries_ok [OF old(2), unfolded old(3), OF lim(1)] and sm = set_entries_ok [OF m(1), unfolded m(2), OF lim(2)]
  have "MergeUpdateLoopInternal off data update ids sel base u = Inr (set_entries ?m base, set_entries old u)"
    using so(5) sm(5) by (simp add: MergeUpdateLoopInternal_def rs(1,4) old(1) Let_def)
  moreover have "updated (set ?rs) (new_value off ids sel update) data base u (set_entries ?m base) (set_entries old u)"
  proof -
    have "over (set_entries ?m base) r x = (if r \<in> set ?rs then new_value off ids sel update r else over base r x)" for r x
    proof (cases "r \<in> set ?rs")
      case True
      with new_value_cell [OF srt, of r update] show ?thesis unfolding sm(4) by (auto simp: m(3))
    next
      case False
      then have "map_of (zip ?rs ?new) r = None" using len by (simp add: map_of_eq_None_iff flip: set_map)
      with False show ?thesis unfolding sm(4) by (simp add: m(3) over_def)
    qed
    moreover have "over (set_entries old u) r x = (if r \<in> set ?rs \<and> r \<notin> set (tuples u) then over base r (data ! r) else over u r x)" for r x
      unfolding so(4) using map_of_entries_None [OF u, of r] by (auto simp: old(4) over_def split: option.split)
    ultimately show ?thesis unfolding updated_def using so(1-3) sm(1-3) by auto
  qed
  ultimately show ?thesis by blast
qed

lemma find_info_Some: "find_info tid is = Some k \<Longrightarrow> k < length is \<and> version_number (is ! k) = tid"
  by (induction "is" arbitrary: k) (auto split: if_splits)

lemma find_info_None: "find_info tid is = None \<Longrightarrow> i \<in> set is \<Longrightarrow> version_number i \<noteq> tid"
  by (induction "is") (auto split: if_splits)

text \<open>What the transaction \<open>t\<close> and every other transaction sees after an update of rows to new values.\<close>

definition sees_update ::
  "(transaction_t \<Rightarrow> transaction_t) \<Rightarrow> TransactionData \<Rightarrow> nat set \<Rightarrow> (nat \<Rightarrow> 'a option)
    \<Rightarrow> (TransactionData \<Rightarrow> nat \<Rightarrow> 'a option) \<Rightarrow> (TransactionData \<Rightarrow> nat \<Rightarrow> 'a option) \<Rightarrow> bool" where
  "sees_update starts t rows new before after \<longleftrightarrow> (\<forall>t2 r. running starts t2 \<longrightarrow>
     after t2 r = (if transaction_id t2 = transaction_id t \<and> r \<in> rows then new r else before t2 r))"

lemma update_existing_ok:
  fixes nd :: "'a UpdateNodeData"
  defines "rows \<equiv> \<lambda>off ids sel. set (update_rows off ids sel)"
  assumes nd: "node_ok starts nd" and run: "running starts t" and fits: "update_fits off ids sel update"
    and srt: "sorted_wrt (<) (update_rows off ids sel)" and ne: "sel \<noteq> []" and data: "length data = STANDARD_VECTOR_SIZE"
  shows "if \<exists>i \<in> set (chain nd). conflicting t (rows off ids sel) i
    then update_existing t True c v off update data ids sel nd = Inl TransactionException
    else \<exists>nd'. update_existing t True c v off update data ids sel nd = Inr nd' \<and> node_ok starts nd'
      \<and> sees_update starts t (rows off ids sel) (new_value off ids sel update)
          (\<lambda>t2 r. view t2 nd r (data ! r)) (\<lambda>t2 r. view t2 nd' r (data ! r))"
proof -
  let ?rs = "update_rows off ids sel" and ?tid = "transaction_id t"
  have chk: "if \<exists>i \<in> set (chain nd). conflicting t (set ?rs) i
      then CheckForConflicts t (map int ?rs) 0 (chain nd) None = Inl TransactionException
      else \<exists>node'. CheckForConflicts t (map int ?rs) 0 (chain nd) None = Inr node'"
    using nd ne by (intro CheckForConflicts_iff [OF _ srt]) (auto simp: node_ok_def update_rows_def)
  show ?thesis
  proof (cases "\<exists>i \<in> set (chain nd). conflicting t (set ?rs) i")
    case True
    then show ?thesis using chk by (simp add: rows_def update_existing_def update_fits_rows(2) [OF fits])
  next
    case False
    then obtain nn where nn: "CheckForConflicts t (map int ?rs) 0 (chain nd) None = Inr nn" using chk by auto
    have base: "info_ok (base_info nd)" "version_number (base_info nd) = TRANSACTION_ID_START - 1" using nd by (simp_all add: node_ok_def)
    define fresh :: "'a UpdateInfo" where "fresh = CreateUpdateInfo ?tid v c"
    have fresh: "info_ok fresh" "version_number fresh = ?tid" "tuples fresh = []" by (simp_all add: fresh_def CreateUpdateInfo_def info_ok_def)
    obtain as u bs k where chain: "(case find_info ?tid (chain nd) of Some k \<Rightarrow> (k, chain nd, True) | None \<Rightarrow> (0, fresh # chain nd, True))
          = (k, as @ u # bs, True)" "length as = k"
        and u: "version_number u = ?tid" "info_ok u" "set (tuples u) \<subseteq> set (tuples (base_info nd))"
        and srt': "sorted_wrt (above starts) (as @ u # bs)" and sub: "set (as @ bs) \<subseteq> set (chain nd)"
        and same: "\<forall>t2 r x. view_row (start_time t2) (transaction_id t2) (base_info nd # as @ u # bs) r x = view t2 nd r x"
    proof (cases "find_info ?tid (chain nd)")
      case None
      have "above starts fresh i" if "i \<in> set (chain nd)" for i
      proof -
        have "starts (version_number i) < ?tid" if "TRANSACTION_ID_START \<le> version_number i"
        proof -
          have "starts (version_number i) < TRANSACTION_ID_START - 1" using nd \<open>i \<in> set (chain nd)\<close> that by (simp add: node_ok_def)
          then show ?thesis using run base_version by (auto simp: running_def)
        qed
        then show ?thesis using find_info_None [OF None that] fresh by (simp add: above_def)
      qed
      moreover have "over fresh r x = x" for r x by (simp add: over_absent fresh)
      ultimately show ?thesis using that [of 0 "[]" fresh "chain nd"] None fresh nd by (simp add: node_ok_def)
    next
      case (Some k)
      then have k: "k < length (chain nd)" "version_number (chain nd ! k) = ?tid" using find_info_Some by blast+
      let ?as = "take k (chain nd)" and ?bs = "drop (Suc k) (chain nd)"
      have split: "?as @ chain nd ! k # ?bs = chain nd" using id_take_nth_drop [OF k(1)] by simp
      have mem: "chain nd ! k \<in> set (chain nd)" "set (?as @ ?bs) \<subseteq> set (chain nd)"
        using k(1) by (auto dest: in_set_takeD in_set_dropD)
      show ?thesis
      proof (rule that [of k ?as "chain nd ! k" ?bs])
        show "sorted_wrt (above starts) (?as @ chain nd ! k # ?bs)" unfolding split using nd by (simp add: node_ok_def)
        show "\<forall>t2 r x. view_row (start_time t2) (transaction_id t2) (base_info nd # ?as @ chain nd ! k # ?bs) r x = view t2 nd r x"
          unfolding split by simp
        show "(case find_info ?tid (chain nd) of Some k \<Rightarrow> (k, chain nd, True) | None \<Rightarrow> (0, fresh # chain nd, True))
            = (k, ?as @ chain nd ! k # ?bs, True)" unfolding split using Some by simp
      qed (use k mem nd in \<open>auto simp: node_ok_def\<close>)
    qed
    obtain base' u' where m: "MergeUpdateLoopInternal off data update ids sel (base_info nd) u = Inr (base', u')"
        "updated (set ?rs) (new_value off ids sel update) data (base_info nd) u base' u'"
      using MergeUpdateLoopInternal_ok [OF fits srt base(1) u(2) data] by blast
    let ?nd' = "\<lparr>base_info = base', chain = as @ u' # bs\<rparr>"
    have "update_existing t True c v off update data ids sel nd = Inr ?nd'"
      unfolding update_existing_def update_fits_rows(2) [OF fits] nn bind_res_Inr Let_def fresh_def [symmetric] chain(1)
      using chain(2) m(1) by (simp flip: chain(2))
    moreover have free: "\<forall>i \<in> set (as @ bs). \<not> conflicting t (set ?rs) i" using False sub by blast
    have "node_ok starts ?nd'"
      using nd sub ne by (intro updated_ok [OF m(2) _ u(1) free base _ u(3) srt' run]) (auto simp: node_ok_def update_rows_def)
    moreover have "\<forall>i \<in> set as. start_time t < version_number i \<and> version_number i \<noteq> ?tid"
      using srt' u(1) run by (auto simp: sorted_wrt_append above_def running_def)
    then have "sees_update starts t (set ?rs) (new_value off ids sel update) (\<lambda>t2 r. view t2 nd r (data ! r)) (\<lambda>t2 r. view t2 ?nd' r (data ! r))"
      using updated_view [OF m(2) u(1) base(2) u(2) _ free run] same by (simp add: sees_update_def)
    ultimately show ?thesis unfolding rows_def if_not_P [OF False] by blast
  qed
qed

lemma create_node_ok:
  fixes data :: "'a option list"
  assumes run: "running starts t" and fits: "update_fits off ids sel update"
    and srt: "sorted_wrt (<) (update_rows off ids sel)" and ne: "sel \<noteq> []" and data: "length data = STANDARD_VECTOR_SIZE"
  shows "\<exists>nd. create_node t True c v off update data ids sel = Inr nd \<and> node_ok starts nd
    \<and> sees_update starts t (set (update_rows off ids sel)) (new_value off ids sel update) (\<lambda>t2 r. data ! r) (\<lambda>t2 r. view t2 nd r (data ! r))"
proof -
  let ?rs = "update_rows off ids sel" and ?new = "map (\<lambda>idx. update ! idx) sel"
  note rs = update_fits_rows [OF fits]
  have "sub_row (ids ! idx) off < 2 ^ 32" if "idx \<in> set sel" for idx
  proof -
    have "sub_row (ids ! idx) off \<in> set ?rs" using that rs(1) by (metis image_eqI list.set_map)
    then have "sub_row (ids ! idx) off < STANDARD_VECTOR_SIZE" using rs(3) by blast
    then show ?thesis by (simp add: STANDARD_VECTOR_SIZE_def)
  qed
  then have "map_res (\<lambda>idx. let t = sub_row (ids ! idx) off in if t < 2 ^ 32 then Inr t else Inl InternalException) sel
      = Inr (map (\<lambda>idx. sub_row (ids ! idx) off) sel)" by (intro map_res_ok) simp
  then have init: "InitializeUpdateInfo v off ids sel i = Inr (i\<lparr>info_vector_index := v, tuples := ?rs\<rparr>)" for i :: "'a UpdateInfo"
    by (simp add: InitializeUpdateInfo_def rs(1))
  have old: "map_res (read_base data) ?rs = Inr (map (\<lambda>r. data ! r) ?rs)"
    by (rule map_res_ok) (use rs(3) data in \<open>simp add: read_base_def\<close>)
  let ?base = "(CreateUpdateInfo (TRANSACTION_ID_START - 1) v c)\<lparr>info_vector_index := v, tuples := ?rs, tuple_data := ?new\<rparr>"
  let ?node = "(CreateUpdateInfo (transaction_id t) v c)\<lparr>info_vector_index := v, tuples := ?rs, tuple_data := map (\<lambda>r. data ! r) ?rs\<rparr>"
  have infos: "info_ok ?base" "info_ok ?node" using srt rs(3) by (simp_all add: info_ok_def update_rows_def)
  have "create_node t True c v off update data ids sel = Inr \<lparr>base_info = ?base, chain = [?node]\<rparr>"
    by (simp add: create_node_def init InitializeUpdateData_def rs(4) old)
  moreover have "node_ok starts \<lparr>base_info = ?base, chain = [?node]\<rparr>"
    using infos ne run by (simp add: node_ok_def CreateUpdateInfo_def update_rows_def running_def)
  moreover have "sees_update starts t (set ?rs) (new_value off ids sel update) (\<lambda>t2 r. data ! r)
      (\<lambda>t2 r. view t2 \<lparr>base_info = ?base, chain = [?node]\<rparr> r (data ! r))"
  proof -
    have base: "over ?base r x = (if r \<in> set ?rs then new_value off ids sel update r else x)" for r x
    proof (cases "r \<in> set ?rs")
      case True
      with new_value_cell [OF srt, of r update] show ?thesis by (auto simp: over_def entries_def)
    qed (simp add: over_absent)
    have node: "over ?node r x = (if r \<in> set ?rs then data ! r else x)" for r x
    proof (cases "r \<in> set ?rs")
      case True
      then have "map_of (zip ?rs (map (\<lambda>r. data ! r) ?rs)) r = Some (data ! r)" by (simp add: map_of_zip_map)
      with True show ?thesis by (simp add: over_def entries_def)
    qed (simp add: over_absent)
    have "version_number ?base = TRANSACTION_ID_START - 1" "version_number ?node = transaction_id t" by (simp_all add: CreateUpdateInfo_def)
    then have hid: "hidden_from (start_time t2) (transaction_id t2) ?base" "hidden_from (start_time t2) (transaction_id t2) ?node \<longleftrightarrow> transaction_id t2 \<noteq> transaction_id t"
      if "running starts t2" for t2
      using that running_base(2) [OF that] running_less [OF run that] by (auto simp: hidden_from_def running_def)
    show ?thesis unfolding sees_update_def
    proof (intro allI impI)
      fix t2 r assume "running starts t2"
      from hid [OF this] show "view t2 \<lparr>base_info = ?base, chain = [?node]\<rparr> r (data ! r)
          = (if transaction_id t2 = transaction_id t \<and> r \<in> set ?rs then new_value off ids sel update r else data ! r)"
        by (cases "transaction_id t2 = transaction_id t") (simp_all add: base node)
    qed
  qed
  ultimately show ?thesis by blast
qed

section \<open>Update segments\<close>

definition seg_ok :: "(transaction_t \<Rightarrow> transaction_t) \<Rightarrow> 'a UpdateSegment \<Rightarrow> bool" where
  "seg_ok starts seg \<longleftrightarrow> (\<forall>infos. root seg = Some infos \<longrightarrow> length infos = ROW_GROUP_VECTOR_COUNT
     \<and> (\<forall>v < length infos. \<forall>nd. infos ! v = Some nd \<longrightarrow> node_ok starts nd))"

definition seg_node :: "idx_t \<Rightarrow> 'a UpdateSegment \<Rightarrow> 'a UpdateNodeData option" where
  "seg_node v seg = (case root seg of None \<Rightarrow> None | Some infos \<Rightarrow> infos ! v)"

text \<open>The cell of a row that a transaction sees in a vector with the given data.\<close>

definition visible_cell :: "TransactionData \<Rightarrow> idx_t \<Rightarrow> 'a option list \<Rightarrow> 'a UpdateSegment \<Rightarrow> nat \<Rightarrow> 'a option" where
  "visible_cell t v data seg r = (case seg_node v seg of None \<Rightarrow> data ! r | Some nd \<Rightarrow> view t nd r (data ! r))"

lemma us_FetchUpdates_ok:
  assumes "seg_ok starts seg" "v < ROW_GROUP_VECTOR_COUNT" "length data = STANDARD_VECTOR_SIZE"
  shows "us_FetchUpdates t v data seg = Inr (map (visible_cell t v data seg) [0..<STANDARD_VECTOR_SIZE])"
proof (cases "seg_node v seg")
  case None
  have "map (visible_cell t v data seg) [0..<STANDARD_VECTOR_SIZE] = data"
    using assms(3) None by (intro nth_equalityI) (simp_all add: visible_cell_def)
  then show ?thesis using assms(1,2) None
    by (auto simp: us_FetchUpdates_def seg_node_def seg_ok_def vector_node_def split: option.splits)
next
  case (Some nd)
  then obtain infos where infos: "root seg = Some infos" "infos ! v = Some nd" "v < length infos" "node_ok starts nd"
    using assms(1,2) by (auto simp: seg_node_def seg_ok_def split: option.splits)
  then have "\<forall>i \<in> set (base_info nd # chain nd). info_ok i" by (simp add: node_ok_def)
  then obtain res where res: "UpdateMergeFetch (start_time t) (transaction_id t) (base_info nd # chain nd) data = Inr res"
      "length res = length data" "\<forall>r < length data. res ! r = view t nd r (data ! r)"
    using UpdateMergeFetch_ok [of "base_info nd # chain nd" data "start_time t" "transaction_id t"] assms(3) by auto
  then have "res = map (visible_cell t v data seg) [0..<STANDARD_VECTOR_SIZE]"
    using assms(3) Some by (intro nth_equalityI) (simp_all add: visible_cell_def)
  then show ?thesis using infos res(1) by (simp add: us_FetchUpdates_def vector_node_def)
qed

lemma put_node_ok:
  assumes "seg_ok starts seg" "root seg = Some infos" "v < ROW_GROUP_VECTOR_COUNT" "node_ok starts nd"
  shows "seg_ok starts (put_node v nd seg)" "seg_node w (put_node v nd seg) = (if w = v then Some nd else seg_node w seg)"
  using assms by (auto simp: seg_ok_def put_node_def seg_node_def nth_list_update)

text \<open>An update of rows of the vector \<open>v\<close>, as the engine makes it.\<close>

definition proper_update :: "idx_t \<Rightarrow> idx_t list \<Rightarrow> 'a option list \<Rightarrow> 'a UpdateSegment \<Rightarrow> bool" where
  "proper_update v ids update seg \<longleftrightarrow> v < ROW_GROUP_VECTOR_COUNT
     \<and> update_fits (column_start seg + v * STANDARD_VECTOR_SIZE) ids (not_null_rows update) update"

definition updated_rows :: "idx_t \<Rightarrow> idx_t list \<Rightarrow> 'a option list \<Rightarrow> 'a UpdateSegment \<Rightarrow> nat set" where
  "updated_rows v ids update seg = set (update_rows (column_start seg + v * STANDARD_VECTOR_SIZE) ids (not_null_rows update))"

definition update_conflict :: "TransactionData \<Rightarrow> idx_t \<Rightarrow> nat set \<Rightarrow> 'a UpdateSegment \<Rightarrow> bool" where
  "update_conflict t v rows seg \<longleftrightarrow> (\<exists>nd. seg_node v seg = Some nd \<and> (\<exists>i \<in> set (chain nd). conflicting t rows i))"

abbreviation update_sel :: "idx_t list \<Rightarrow> 'a option list \<Rightarrow> nat list" where
  "update_sel ids update \<equiv> SortSelectionVector ids (not_null_rows update)"

lemma update_sel_fits:
  assumes "update_fits off ids (not_null_rows update) update" "not_null_rows update \<noteq> []"
  shows "update_fits off ids (update_sel ids update) update" "sorted_wrt (<) (update_rows off ids (update_sel ids update))"
    "set (update_rows off ids (update_sel ids update)) = set (update_rows off ids (not_null_rows update))"
    "update_sel ids update \<noteq> []"
proof -
  note so = SortSelectionVector_ok [OF assms(2), of ids]
  show fits: "update_fits off ids (update_sel ids update) update" using assms(1) so(2) by (auto simp: update_fits_def)
  have "off \<le> ids ! i" if "i \<in> set (update_sel ids update)" for i using fits that by (simp add: update_fits_def)
  then have "sorted_wrt (\<lambda>x y. ids ! x - off < ids ! y - off) (update_sel ids update)"
    using so(1) [unfolded sorted_wrt_map] by (auto intro: diff_less_mono sorted_wrt_mono_rel [rotated])
  then show "sorted_wrt (<) (update_rows off ids (update_sel ids update))" by (simp add: update_rows_def sorted_wrt_map)
  have "(\<lambda>i. ids ! i - off) ` S = (\<lambda>x. x - off) ` (\<lambda>i. ids ! i) ` S" for S by (simp add: image_image)
  then show "set (update_rows off ids (update_sel ids update)) = set (update_rows off ids (not_null_rows update))"
    by (simp add: update_rows_def so(3))
  show "update_sel ids update \<noteq> []" by (rule so(4))
qed

lemma us_Update_ok:
  fixes seg :: "'a UpdateSegment"
  assumes ok: "seg_ok starts seg" and run: "running starts t" and up: "proper_update v ids update seg" and data: "length data = STANDARD_VECTOR_SIZE"
    and f: "f (update_stats seg) update = ((stats', None), not_null_rows update)" and ne: "not_null_rows update \<noteq> []"
  defines "off \<equiv> column_start seg + v * STANDARD_VECTOR_SIZE"
  shows "if update_conflict t v (updated_rows v ids update seg) seg
    then us_Update f t True c update ids data seg = (seg\<lparr>update_stats := stats'\<rparr>, Some TransactionException)
    else \<exists>seg'. us_Update f t True c update ids data seg = (seg', None) \<and> seg_ok starts seg'
      \<and> column_start seg' = column_start seg \<and> update_stats seg' = stats'
      \<and> (\<forall>w < ROW_GROUP_VECTOR_COUNT. w \<noteq> v \<longrightarrow> seg_node w seg' = seg_node w seg)
      \<and> sees_update starts t (updated_rows v ids update seg) (new_value off ids (update_sel ids update) update)
          (\<lambda>t2 r. visible_cell t2 v data seg r) (\<lambda>t2 r. visible_cell t2 v data seg' r)"
proof -
  let ?sel = "update_sel ids update" and ?rows = "updated_rows v ids update seg"
  have fits0: "update_fits off ids (not_null_rows update) update" and v: "v < ROW_GROUP_VECTOR_COUNT"
    using up by (simp_all add: proper_update_def off_def)
  note sel = update_sel_fits [OF fits0 ne]
  have rows: "set (update_rows off ids ?sel) = ?rows" using sel(3) by (simp add: updated_rows_def off_def)
  define infos where "infos = (case root seg of None \<Rightarrow> replicate ROW_GROUP_VECTOR_COUNT None | Some infos \<Rightarrow> infos)"
  have len: "length infos = ROW_GROUP_VECTOR_COUNT" using ok by (auto simp: infos_def seg_ok_def split: option.split)
  let ?seg = "seg\<lparr>update_stats := stats', root := Some infos\<rparr>"
  have ok': "seg_ok starts ?seg"
    using ok by (auto simp: seg_ok_def infos_def split: option.splits)
  have node: "infos ! v = seg_node v seg" using v by (simp add: infos_def seg_node_def split: option.split)
  have idx: "sub_row (ids ! (?sel ! 0)) (column_start seg) div STANDARD_VECTOR_SIZE = v"
  proof -
    have "?sel ! 0 \<in> set ?sel" using sel(4) by simp
    then have b: "off \<le> ids ! (?sel ! 0)" "ids ! (?sel ! 0) < off + STANDARD_VECTOR_SIZE" "off + STANDARD_VECTOR_SIZE < 2 ^ 64"
      using sel(1) by (auto simp: update_fits_def)
    then have "sub_row (ids ! (?sel ! 0)) (column_start seg) = ids ! (?sel ! 0) - column_start seg"
      by (intro sub_row_eq) (simp_all add: off_def)
    also have "\<dots> div STANDARD_VECTOR_SIZE = v"
      using b(1,2) by (intro div_nat_eqI) (auto simp: off_def algebra_simps)
    finally show ?thesis .
  qed
  have run_up: "us_Update f t True c update ids data seg =
      (case (case seg_node v seg of Some nd \<Rightarrow> update_existing t True c v off update data ids ?sel nd
             | None \<Rightarrow> create_node t True c v off update data ids ?sel) of
         Inl e \<Rightarrow> (?seg, Some e) | Inr nd \<Rightarrow> (put_node v nd ?seg, None))"
    using f ne len v by (simp add: us_Update_def Let_def idx infos_def [symmetric] vector_node_def node off_def [symmetric] split: option.split sum.split)
  have finish: ?thesis if "\<not> update_conflict t v ?rows seg"
    and r: "(case seg_node v seg of Some nd \<Rightarrow> update_existing t True c v off update data ids ?sel nd
             | None \<Rightarrow> create_node t True c v off update data ids ?sel) = Inr nd'" and nd': "node_ok starts nd'"
    and sees: "sees_update starts t ?rows (new_value off ids ?sel update) (\<lambda>t2 r. visible_cell t2 v data seg r) (\<lambda>t2 r. view t2 nd' r (data ! r))" for nd'
  proof -
    have upd: "us_Update f t True c update ids data seg = (put_node v nd' ?seg, None)" unfolding run_up r by simp
    have put: "seg_ok starts (put_node v nd' ?seg)" "seg_node w (put_node v nd' ?seg) = (if w = v then Some nd' else infos ! w)" for w
      using put_node_ok [OF ok' _ v nd'] by (simp_all add: seg_node_def)
    have other: "infos ! w = seg_node w seg" if "w < ROW_GROUP_VECTOR_COUNT" for w
      using that by (auto simp: infos_def seg_node_def split: option.split)
    have "visible_cell t2 v data (put_node v nd' ?seg) r = view t2 nd' r (data ! r)" for t2 r
      unfolding visible_cell_def put(2) by simp
    then have "sees_update starts t ?rows (new_value off ids ?sel update) (\<lambda>t2 r. visible_cell t2 v data seg r)
        (\<lambda>t2 r. visible_cell t2 v data (put_node v nd' ?seg) r)" using sees by presburger
    then show ?thesis unfolding if_not_P [OF that(1)]
      using upd put other by (intro exI [of _ "put_node v nd' ?seg"]) (simp add: put_node_def)
  qed
  show ?thesis
  proof (cases "seg_node v seg")
    case None
    obtain nd' where nd': "create_node t True c v off update data ids ?sel = Inr nd'" "node_ok starts nd'"
        "sees_update starts t ?rows (new_value off ids ?sel update) (\<lambda>t2 r. data ! r) (\<lambda>t2 r. view t2 nd' r (data ! r))"
      using create_node_ok [OF run sel(1,2,4) data] unfolding rows by blast
    have "\<not> update_conflict t v ?rows seg" using None by (simp add: update_conflict_def)
    then show ?thesis using None nd' by (intro finish) (simp_all add: visible_cell_def)
  next
    case (Some nd)
    then have nd: "node_ok starts nd" using ok v by (auto simp: seg_node_def seg_ok_def split: option.splits)
    have ex: "if update_conflict t v ?rows seg
      then update_existing t True c v off update data ids ?sel nd = Inl TransactionException
      else \<exists>nd'. update_existing t True c v off update data ids ?sel nd = Inr nd' \<and> node_ok starts nd'
        \<and> sees_update starts t ?rows (new_value off ids ?sel update) (\<lambda>t2 r. view t2 nd r (data ! r)) (\<lambda>t2 r. view t2 nd' r (data ! r))"
      using update_existing_ok [OF nd run sel(1,2,4) data, of c v] Some unfolding rows by (simp add: update_conflict_def)
    show ?thesis
    proof (cases "update_conflict t v ?rows seg")
      case True
      moreover have "?seg = seg\<lparr>update_stats := stats'\<rparr>" using Some by (simp add: infos_def seg_node_def split: option.splits)
      ultimately show ?thesis using ex Some unfolding run_up by simp
    next
      case False
      then obtain nd' where nd': "update_existing t True c v off update data ids ?sel nd = Inr nd'" "node_ok starts nd'"
          "sees_update starts t ?rows (new_value off ids ?sel update) (\<lambda>t2 r. view t2 nd r (data ! r)) (\<lambda>t2 r. view t2 nd' r (data ! r))"
        using ex by auto
      with False Some show ?thesis by (intro finish [of nd']) (simp_all add: visible_cell_def)
    qed
  qed
qed

end
