(* ===== verification/Update_Fetch.thy ===== *)
theory Update_Fetch
  imports Update_Segment
begin

text \<open>
  The ways of reading updates agree: fetching one row (\<open>UpdateSegment::FetchRow\<close>) gives the cell that fetching its vector
  (\<open>FetchUpdates\<close>) gives, and fetching the newest values of a range of rows (\<open>FetchCommittedRange\<close>) gives the cells that
  fetching its vectors one by one (\<open>FetchCommitted\<close>) gives. The queries for updates say where there is something to fetch.
\<close>

section \<open>One row\<close>

lemma row_loop_ok:
  "sorted_entries es \<Longrightarrow> k < length res \<Longrightarrow> row_loop r k es res = Inr (case map_of es r of None \<Rightarrow> res | Some y \<Rightarrow> res[k := y])"
proof (induction r k es res rule: row_loop.induct)
  case (2 r k tuple_idx x es res)
  have "map_of es r = None" if "tuple_idx > r" using that "2.prems"(1) by (force simp: map_of_eq_None_iff)
  then show ?case using "2.IH" "2.prems" by (auto simp: write_cell_def)
qed simp

lemma TemplatedFetchRow_ok:
  "\<forall>i \<in> set infos. info_ok i \<Longrightarrow> k < length res \<Longrightarrow>
    TemplatedFetchRow s t infos r res k = Inr (res[k := view_row s t infos r (res ! k)])"
proof (induction infos arbitrary: res)
  case (Cons i infos)
  let ?y = "if hidden_from s t i then over i r (res ! k) else res ! k"
  have "sorted_entries (zip (tuples i) (tuple_data i))" using Cons.prems(1) by (simp add: info_ok_def)
  from row_loop_ok [OF this, of k res r] Cons.prems(2)
  have "(if version_number i > s \<and> version_number i \<noteq> t then row_loop r k (zip (tuples i) (tuple_data i)) res else Inr res) = Inr (res[k := ?y])"
    by (auto simp: hidden_from_def over_def entries_def split: option.split)
  then have "TemplatedFetchRow s t (i # infos) r res k = TemplatedFetchRow s t infos r (res[k := ?y]) k"
    by (simp add: TemplatedFetchRow_def UpdatesForTransaction_def)
  then show ?case using Cons by simp
qed (simp add: TemplatedFetchRow_def UpdatesForTransaction_def)

lemma us_FetchRow_ok:
  assumes "seg_ok starts seg" "v < ROW_GROUP_VECTOR_COUNT" "r < STANDARD_VECTOR_SIZE" "k < length res"
    and row: "row_id = column_start seg + v * STANDARD_VECTOR_SIZE + r" "row_id < 2 ^ 64"
  shows "us_FetchRow t row_id res k seg
    = Inr (res[k := (case seg_node v seg of None \<Rightarrow> res ! k | Some nd \<Rightarrow> view t nd r (res ! k))])"
proof -
  have sub: "sub_row row_id (column_start seg) = v * STANDARD_VECTOR_SIZE + r" using row by (subst sub_row_eq) simp_all
  have vec: "(v * STANDARD_VECTOR_SIZE + r) div STANDARD_VECTOR_SIZE = v" using assms(3) by (intro div_nat_eqI) simp_all
  have nd: "\<forall>i \<in> set (base_info nd # chain nd). info_ok i" if "seg_node v seg = Some nd" for nd
    using that assms(1,2) by (auto simp: seg_node_def seg_ok_def node_ok_def split: option.splits)
  show ?thesis
    using assms(1,2) TemplatedFetchRow_ok [OF nd assms(4)]
    by (auto simp: us_FetchRow_def sub vec vector_node_def seg_node_def seg_ok_def split: option.split)
qed

section \<open>Newest values\<close>

definition newest_cell :: "idx_t \<Rightarrow> 'a UpdateSegment \<Rightarrow> nat \<Rightarrow> 'a option \<Rightarrow> 'a option" where
  "newest_cell v seg r x = (case seg_node v seg of None \<Rightarrow> x | Some nd \<Rightarrow> over (base_info nd) r x)"

lemma base_ok: "seg_ok starts seg \<Longrightarrow> v < ROW_GROUP_VECTOR_COUNT \<Longrightarrow> seg_node v seg = Some nd \<Longrightarrow> info_ok (base_info nd)"
  by (auto simp: seg_node_def seg_ok_def node_ok_def split: option.splits)

lemma us_FetchCommitted_ok:
  assumes "seg_ok starts seg" "v < ROW_GROUP_VECTOR_COUNT" "length data = STANDARD_VECTOR_SIZE"
  shows "us_FetchCommitted v data seg = Inr (map (\<lambda>r. newest_cell v seg r (data ! r)) [0..<STANDARD_VECTOR_SIZE])"
proof (cases "seg_node v seg")
  case None
  then have "us_FetchCommitted v data seg = Inr data"
    using assms(1,2) by (auto simp: us_FetchCommitted_def vector_node_def seg_node_def seg_ok_def split: option.splits)
  then show ?thesis using None assms(3) by (auto simp: newest_cell_def intro: nth_equalityI)
next
  case (Some nd)
  have "us_FetchCommitted v data seg = MergeUpdateInfo (base_info nd) data"
    using Some assms(1,2) by (auto simp: us_FetchCommitted_def vector_node_def seg_node_def seg_ok_def split: option.splits)
  moreover obtain res where "MergeUpdateInfo (base_info nd) data = Inr res" "length res = length data"
      "\<forall>r < length data. res ! r = over (base_info nd) r (data ! r)"
    using MergeUpdateInfo_ok [OF base_ok [OF assms(1,2) Some], of data] assms(3) by auto
  ultimately show ?thesis using Some assms(3) by (auto simp: newest_cell_def intro: nth_equalityI)
qed

lemma range_loop_ok:
  "sorted_entries es \<Longrightarrow> off + b \<le> length res + a \<Longrightarrow>
    \<exists>res'. range_loop a b off es res = Inr res' \<and> length res' = length res
      \<and> (\<forall>q < length res. res' ! q = (if off \<le> q \<and> q + a < off + b
           then case map_of es (q + a - off) of None \<Rightarrow> res ! q | Some y \<Rightarrow> y else res ! q))"
proof (induction a b off es res rule: range_loop.induct)
  case (2 a b off t x es res)
  have later: "map_of es r = None" if "r \<le> t" for r using that "2.prems"(1) by (force simp: map_of_eq_None_iff)
  consider "t < a" | "b \<le> t" "a \<le> t" | "a \<le> t" "t < b" by linarith
  then show ?case
  proof cases
    case 1
    then have "t \<noteq> q + a - off" if "off \<le> q" for q using that by linarith
    then have "map_of ((t, x) # es) (q + a - off) = map_of es (q + a - off)" if "off \<le> q" for q using that by auto
    with 1 show ?thesis using "2.IH"(1) [OF 1] "2.prems" by (simp cong: if_cong conj_cong del: map_of.simps)
  next
    case 2
    have "map_of ((t, x) # es) (q + a - off) = None" if "off \<le> q" "q + a < off + b" for q
      using later [of "q + a - off"] that 2 by simp
    then show ?thesis using 2 by simp
  next
    case 3
    let ?k = "off + t - a"
    have k: "?k < length res" using 3 "2.prems"(2) by linarith
    obtain res' where res': "range_loop a b off es (res[?k := x]) = Inr res'" "length res' = length res"
        "\<forall>q < length res. res' ! q = (if off \<le> q \<and> q + a < off + b
           then case map_of es (q + a - off) of None \<Rightarrow> res[?k := x] ! q | Some y \<Rightarrow> y else res[?k := x] ! q)"
      using "2.IH"(2) [of "res[?k := x]"] 3 "2.prems" by auto
    have "range_loop a b off ((t, x) # es) res = Inr res'" using 3 k res'(1) by (simp add: write_cell_def)
    moreover have "res' ! q = (if off \<le> q \<and> q + a < off + b
        then case map_of ((t, x) # es) (q + a - off) of None \<Rightarrow> res ! q | Some y \<Rightarrow> y else res ! q)" if "q < length res" for q
    proof (cases "q = ?k")
      case True
      then have "off \<le> q" "q + a < off + b" "q + a - off = t" using 3 by linarith+
      then show ?thesis using res'(3) that True later [of t] by simp
    next
      case False
      then have "off \<le> q \<Longrightarrow> q + a - off \<noteq> t" using 3 by linarith
      then show ?thesis using res'(3) that False by (auto split: option.split)
    qed
    ultimately show ?thesis using res'(2) by simp
  qed
qed simp

lemma div_iff: "0 < n \<Longrightarrow> x div n = w \<longleftrightarrow> w * n \<le> x \<and> x < w * n + n" for x :: nat
proof
  assume "0 < n" "x div n = w"
  then show "w * n \<le> x \<and> x < w * n + n"
    using dividend_less_div_times [of n x] div_times_less_eq_dividend [of x n] by (simp add: add.commute)
qed (auto intro: div_nat_eqI simp: mult.commute)

text \<open>The part of the range within one vector, between the first vector \<open>s\<close> and the last vector \<open>e\<close>.\<close>

lemma range_of_vector:
  fixes n :: nat
  assumes s: "s * n \<le> start" "start < s * n + n" and e: "e * n < start + count" "start + count \<le> e * n + n"
    and v: "s \<le> v" "v \<le> e" and n: "0 < n"
  defines "a \<equiv> if v = s then start - s * n else 0" and "b \<equiv> if v = e then start + count - e * n else n"
  shows "v * n + a - start + b \<le> count + a"
    and "(v * n + a - start \<le> q \<and> q + a < v * n + a - start + b) \<longleftrightarrow> q < count \<and> (start + q) div n = v"
    and "v * n + a - start \<le> q \<Longrightarrow> q + a < v * n + a - start + b \<Longrightarrow> q + a - (v * n + a - start) = (start + q) mod n"
proof -
  have sv: "v \<noteq> s \<Longrightarrow> s * n + n \<le> v * n" and ve: "v \<noteq> e \<Longrightarrow> v * n + n \<le> e * n"
    using v mult_le_mono1 [of "Suc s" v n] mult_le_mono1 [of "Suc v" e n] by simp_all
  have lo: "v * n + a = max (v * n) start" using s sv by (auto simp: a_def)
  have hi: "v * n + b = min (v * n + n) (start + count)" using e ve by (auto simp: b_def)
  have ord: "v * n < start + count" using e(1) ve by (cases "v = e") auto
  have ord': "start < v * n + n" using s(2) sv by (cases "v = s") auto
  show "v * n + a - start + b \<le> count + a" using lo hi ord ord' n by linarith
  show iff: "(v * n + a - start \<le> q \<and> q + a < v * n + a - start + b) \<longleftrightarrow> q < count \<and> (start + q) div n = v" for q
    unfolding div_iff [OF n] using lo hi ord ord' n by linarith
  assume q: "v * n + a - start \<le> q" "q + a < v * n + a - start + b"
  then have "(start + q) div n = v" using iff by blast
  then have "start + q = v * n + (start + q) mod n" using div_mult_mod_eq [of "start + q" n] by simp
  then show "q + a - (v * n + a - start) = (start + q) mod n" using lo q(1) by linarith
qed

lemma FetchCommittedRange_ok:
  assumes ok: "seg_ok starts seg" and n: "0 < count" "start + count \<le> ROW_GROUP_VECTOR_COUNT * STANDARD_VECTOR_SIZE" "count \<le> length res"
  shows "\<exists>res'. FetchCommittedRange start count res seg = Inr res' \<and> length res' = length res
    \<and> (\<forall>q < length res. res' ! q = (if q < count
         then newest_cell ((start + q) div STANDARD_VECTOR_SIZE) seg ((start + q) mod STANDARD_VECTOR_SIZE) (res ! q) else res ! q))"
proof (cases "root seg")
  case None
  then show ?thesis by (simp add: FetchCommittedRange_def newest_cell_def seg_node_def)
next
  case (Some infos)
  let ?n = STANDARD_VECTOR_SIZE
  let ?s = "start div ?n" and ?e = "(start + count - 1) div ?n"
  let ?cell = "\<lambda>q. newest_cell ((start + q) div ?n) seg ((start + q) mod ?n) (res ! q)"
  define I where "I j res' \<longleftrightarrow> length res' = length res
    \<and> (\<forall>q < length res. res' ! q = (if q < count \<and> (start + q) div ?n < j then ?cell q else res ! q))" for j res'
  have pos: "0 < ?n" by (simp add: STANDARD_VECTOR_SIZE_def)
  have bound: "v < ROW_GROUP_VECTOR_COUNT" if "v \<le> ?e" for v
    using that n(1,2) by (intro le_less_trans [OF that] less_mult_imp_div_less) simp
  have se: "?s * ?n \<le> start" "start < ?s * ?n + ?n" "?e * ?n < start + count" "start + count \<le> ?e * ?n + ?n"
    using iffD1 [OF div_iff [OF pos] refl, of start] iffD1 [OF div_iff [OF pos] refl, of "start + count - 1"] n(1) by linarith+
  have len: "length infos = ROW_GROUP_VECTOR_COUNT" using ok Some by (simp add: seg_ok_def)
  define body where "body = (\<lambda>vector_idx result. bind_res (vector_node vector_idx infos) (\<lambda>n. case n of None \<Rightarrow> Inr result
     | Some nd \<Rightarrow>
         let start_in_vector = (if vector_idx = ?s then start - ?s * ?n else 0);
             end_in_vector = (if vector_idx = ?e then start + count - ?e * ?n else ?n);
             result_offset = vector_idx * ?n + start_in_vector - start
         in MergeUpdateInfoRange (base_info nd) start_in_vector end_in_vector result_offset result))"
  have "\<exists>res'. fold_res body [?s..<Suc ?e] res = Inr res' \<and> I (Suc ?e) res'"
  proof (rule fold_res_upt_rule)
    show "I ?s res" using div_le_mono [of start _ ?n] by (auto simp: I_def not_less [symmetric])
    show "?s \<le> Suc ?e" using n(1) div_le_mono [of start "start + count - 1" ?n] by linarith
    fix v r
    assume v: "?s \<le> v" "v < Suc ?e" and I: "I v r"
    then have ve: "v \<le> ?e" by simp
    have node: "vector_node v infos = Inr (seg_node v seg)" using bound [OF ve] len Some by (simp add: vector_node_def seg_node_def)
    show "\<exists>r'. body v r = Inr r' \<and> I (Suc v) r'"
    proof (cases "seg_node v seg")
      case None
      then have "body v r = Inr r" by (simp add: body_def node)
      moreover have "?cell q = res ! q" if "(start + q) div ?n = v" for q using None that by (simp add: newest_cell_def)
      ultimately show ?thesis using I by (auto simp: I_def less_Suc_eq)
    next
      case (Some nd)
      let ?a = "if v = ?s then start - ?s * ?n else 0" and ?b = "if v = ?e then start + count - ?e * ?n else ?n"
      let ?o = "v * ?n + ?a - start"
      note rv = range_of_vector [OF se v(1) ve pos]
      have es: "sorted_entries (entries (base_info nd))"
        using base_ok [OF ok bound [OF ve] Some] entries_fst [of "base_info nd"] by (simp add: info_ok_def)
      obtain r' where r': "range_loop ?a ?b ?o (entries (base_info nd)) r = Inr r'" "length r' = length r"
          "\<forall>q < length r. r' ! q = (if ?o \<le> q \<and> q + ?a < ?o + ?b
             then case map_of (entries (base_info nd)) (q + ?a - ?o) of None \<Rightarrow> r ! q | Some y \<Rightarrow> y else r ! q)"
        using range_loop_ok [OF es, of ?o ?b r ?a] rv(1) n(3) I by (auto simp: I_def)
      have "body v r = Inr r'" unfolding body_def node by (simp only: bind_res_Inr Some option.case Let_def MergeUpdateInfoRange_def entries_def [symmetric] r'(1))
      moreover have "r' ! q = (if q < count \<and> (start + q) div ?n < Suc v then ?cell q else res ! q)" if q: "q < length res" for q
      proof (cases "q < count \<and> (start + q) div ?n = v")
        case True
        then have "r' ! q = (case map_of (entries (base_info nd)) ((start + q) mod ?n) of None \<Rightarrow> r ! q | Some y \<Rightarrow> y)"
          using r'(3) rv(2) [of q] rv(3) [of q] q I by (simp add: I_def)
        moreover have "r ! q = res ! q" using I True q by (simp add: I_def)
        ultimately show ?thesis using True Some by (simp add: newest_cell_def over_def cong: option.case_cong)
      next
        case False
        then have outside: "\<not> (?o \<le> q \<and> q + ?a < ?o + ?b)" using rv(2) [of q] by blast
        have "r' ! q = r ! q" using r'(3) [rule_format, of q] q I unfolding if_not_P [OF outside] by (simp add: I_def)
        then show ?thesis using I q False by (auto simp: I_def)
      qed
      ultimately show ?thesis using r'(2) I by (simp add: I_def)
    qed
  qed
  then obtain res' where res': "fold_res body [?s..<Suc ?e] res = Inr res'" "I (Suc ?e) res'" by blast
  have "FetchCommittedRange start count res seg = fold_res body [?s..<Suc ?e] res"
    unfolding FetchCommittedRange_def Some body_def Let_def by simp
  moreover have "(start + q) div ?n < Suc ?e" if "q < count" for q
    using div_le_mono [of "start + q" "start + count - 1" ?n] that by linarith
  ultimately show ?thesis using res' by (intro exI [of _ res']) (simp add: I_def del: upt_Suc)
qed

section \<open>Queries\<close>

lemma HasUpdates_vector_ok:
  "seg_ok starts seg \<Longrightarrow> v < ROW_GROUP_VECTOR_COUNT \<Longrightarrow> HasUpdates_vector v seg = Inr (seg_node v seg \<noteq> None)"
  by (auto simp: HasUpdates_vector_def seg_node_def seg_ok_def vector_node_def split: option.split)

text \<open>A vector without an update, and a segment without a root, show every transaction the data.\<close>

lemma no_updates_no_change:
  "seg_ok starts seg \<Longrightarrow> v < ROW_GROUP_VECTOR_COUNT \<Longrightarrow> HasUpdates_vector v seg = Inr False \<Longrightarrow> visible_cell t v data seg r = data ! r"
  by (simp add: HasUpdates_vector_ok visible_cell_def)

lemma no_uncommitted_newest:
  assumes "seg_ok starts seg" "running starts t" "v < ROW_GROUP_VECTOR_COUNT" "HasUncommittedUpdates v seg = Inr False"
  shows "visible_cell t v data seg r = newest_cell v seg r (data ! r)"
proof (cases "seg_node v seg")
  case (Some nd)
  then have nd: "node_ok starts nd" "chain nd = []"
    using assms(1,3,4) by (auto simp: HasUncommittedUpdates_def seg_node_def seg_ok_def vector_node_def split: option.splits)
  show ?thesis using Some nd(2) hidden_base [OF nd(1) assms(2)] by (simp add: visible_cell_def newest_cell_def)
qed (simp add: visible_cell_def newest_cell_def)

section \<open>Properties\<close>

text \<open>A segment for examples: the rows 3 and 5 of the second vector are updated, row 5 by a transaction that runs.\<close>

definition sample_node :: "Payload UpdateNodeData" where
  "sample_node = \<lparr>base_info = \<lparr>version_number = TRANSACTION_ID_START - 1, info_vector_index = 1, info_column_index = 0,
       tuples = [3, 5], tuple_data = [Some (NumPayload 30), Some (NumPayload 50)]\<rparr>,
     chain = [\<lparr>version_number = TRANSACTION_ID_START + 1, info_vector_index = 1, info_column_index = 0,
       tuples = [5], tuple_data = [Some (NumPayload 5)]\<rparr>]\<rparr>"

definition sample_segment :: "Payload UpdateSegment" where
  "sample_segment = \<lparr>column_start = 0, root = Some ((replicate ROW_GROUP_VECTOR_COUNT None)[1 := Some sample_node]),
     update_stats = Construct (simple_type LogicalTypeId.INTEGER)\<rparr>"

definition sample_reader :: TransactionData where
  "sample_reader = \<lparr>transaction_id = TRANSACTION_ID_START + 2, start_time = 7\<rparr>"

lemma sample_sizes: "1 < ROW_GROUP_VECTOR_COUNT" "STANDARD_VECTOR_SIZE = 2048" "TRANSACTION_ID_START \<le> TRANSACTION_ID_START + 1"
  by (simp_all add: ROW_GROUP_VECTOR_COUNT_def ROW_GROUP_SIZE_def STANDARD_VECTOR_SIZE_def TRANSACTION_ID_START_def)

lemma sample_node_ok: "node_ok (\<lambda>_. 7) sample_node"
  using sample_sizes by (simp add: node_ok_def sample_node_def info_ok_def TRANSACTION_ID_START_def)

lemma sample_segment_ok: "seg_ok (\<lambda>_. 7) sample_segment"
  using sample_node_ok sample_sizes(1) by (auto simp: seg_ok_def sample_segment_def nth_list_update split: if_splits)

lemma sample_segment_node: "seg_node v sample_segment = (if v = 1 then Some sample_node else None)" if "v < ROW_GROUP_VECTOR_COUNT"
  using that sample_sizes by (simp add: seg_node_def sample_segment_def)

text \<open>
  C24: reading one row agrees with reading its vector. For a row of a vector, \<open>FetchRow\<close> puts into the result the cell that
  \<open>FetchUpdates\<close> computes for this row, whatever the transaction and the updates, committed or not; the two go through the
  infos with different loops, and \<open>FetchRow\<close> stops in each at the first id beyond the row.
\<close>

theorem FetchRow_agrees_with_FetchUpdates:
  assumes "seg_ok starts seg" "v < ROW_GROUP_VECTOR_COUNT" "r < STANDARD_VECTOR_SIZE"
    and "row_id = column_start seg + v * STANDARD_VECTOR_SIZE + r" "row_id < 2 ^ 64"
    and "length data = STANDARD_VECTOR_SIZE" "k < length res" "res ! k = data ! r"
  shows "\<exists>cells. us_FetchUpdates t v data seg = Inr cells \<and> us_FetchRow t row_id res k seg = Inr (res[k := cells ! r])"
  unfolding us_FetchUpdates_ok [OF assms(1,2,6)] us_FetchRow_ok [OF assms(1-3,7,4,5)] using assms(3,8)
  by (simp add: visible_cell_def split: option.split)

theorem FetchRow_agrees_with_FetchUpdates_witness:
  "\<exists>cells. us_FetchUpdates sample_reader 1 (replicate STANDARD_VECTOR_SIZE (Some (NumPayload 0))) sample_segment = Inr cells
     \<and> us_FetchRow sample_reader (STANDARD_VECTOR_SIZE + 5) [Some (NumPayload 9), Some (NumPayload 0)] 1 sample_segment = Inr [Some (NumPayload 9), cells ! 5]"
proof -
  have "5 < STANDARD_VECTOR_SIZE" "column_start sample_segment = 0" by (simp_all add: sample_sizes(2) sample_segment_def)
  then show ?thesis
    using FetchRow_agrees_with_FetchUpdates [OF sample_segment_ok sample_sizes(1), of 5 "STANDARD_VECTOR_SIZE + 5"
        "replicate STANDARD_VECTOR_SIZE (Some (NumPayload 0))" 1 "[Some (NumPayload 9), Some (NumPayload 0)]" sample_reader] by (simp add: STANDARD_VECTOR_SIZE_def)
qed

text \<open>
  C25: \<open>FetchCommittedRange\<close> computes what \<open>FetchCommitted\<close> computes vector by vector, for every range within a row group, also
  one that begins and ends in the middle of a vector: it never writes outside of the range, and the cell of a row is the one
  that \<open>FetchCommitted\<close> gives for the vector of that row.
\<close>

theorem FetchCommittedRange_agrees:
  assumes "seg_ok starts seg" "0 < count" "start + count \<le> ROW_GROUP_VECTOR_COUNT * STANDARD_VECTOR_SIZE" "length res = count"
  shows "\<exists>res'. FetchCommittedRange start count res seg = Inr res' \<and> length res' = count
    \<and> (\<forall>q data. q < count \<longrightarrow> length data = STANDARD_VECTOR_SIZE \<longrightarrow> data ! ((start + q) mod STANDARD_VECTOR_SIZE) = res ! q \<longrightarrow>
         (\<exists>cells. us_FetchCommitted ((start + q) div STANDARD_VECTOR_SIZE) data seg = Inr cells
            \<and> res' ! q = cells ! ((start + q) mod STANDARD_VECTOR_SIZE)))"
proof -
  obtain res' where res': "FetchCommittedRange start count res seg = Inr res'" "length res' = count"
      "\<forall>q < count. res' ! q = newest_cell ((start + q) div STANDARD_VECTOR_SIZE) seg ((start + q) mod STANDARD_VECTOR_SIZE) (res ! q)"
    using FetchCommittedRange_ok [OF assms(1-3), of res] assms(4) by auto
  have pos: "0 < STANDARD_VECTOR_SIZE" by (simp add: STANDARD_VECTOR_SIZE_def)
  have "(start + q) div STANDARD_VECTOR_SIZE < ROW_GROUP_VECTOR_COUNT" if "q < count" for q
    using assms(3) that by (intro less_mult_imp_div_less) simp
  with res' show ?thesis using pos by (auto simp: us_FetchCommitted_ok [OF assms(1)])
qed

theorem FetchCommittedRange_agrees_witness:
  "\<exists>res'. FetchCommittedRange 2040 12 (replicate 12 (Some (NumPayload 0))) sample_segment = Inr res' \<and> length res' = 12
    \<and> (\<exists>cells. us_FetchCommitted 1 (replicate STANDARD_VECTOR_SIZE (Some (NumPayload 0))) sample_segment = Inr cells \<and> res' ! 11 = cells ! 3)"
proof -
  have n: "(2040::nat) + 12 \<le> ROW_GROUP_VECTOR_COUNT * STANDARD_VECTOR_SIZE" "(2040 + 11) div STANDARD_VECTOR_SIZE = 1"
      "(2040 + 11) mod STANDARD_VECTOR_SIZE = 3" "3 < STANDARD_VECTOR_SIZE"
    by (simp_all add: ROW_GROUP_VECTOR_COUNT_def ROW_GROUP_SIZE_def STANDARD_VECTOR_SIZE_def)
  obtain res' where res': "FetchCommittedRange 2040 12 (replicate 12 (Some (NumPayload 0))) sample_segment = Inr res'" "length res' = 12"
      "\<forall>q data. q < 12 \<longrightarrow> length data = STANDARD_VECTOR_SIZE \<longrightarrow> data ! ((2040 + q) mod STANDARD_VECTOR_SIZE) = replicate 12 (Some (NumPayload 0)) ! q \<longrightarrow>
         (\<exists>cells. us_FetchCommitted ((2040 + q) div STANDARD_VECTOR_SIZE) data sample_segment = Inr cells
            \<and> res' ! q = cells ! ((2040 + q) mod STANDARD_VECTOR_SIZE))"
    using FetchCommittedRange_agrees [OF sample_segment_ok _ n(1), of "replicate 12 (Some (NumPayload 0))"]
    by (elim exE conjE meta_impE) (simp, simp, blast)
  have "replicate 12 (Some (NumPayload 0)) ! 11 = Some (NumPayload 0)" "replicate STANDARD_VECTOR_SIZE (Some (NumPayload 0)) ! 3 = Some (NumPayload 0)"
    using n(4) nth_replicate [of 11 12] nth_replicate [of 3 STANDARD_VECTOR_SIZE] by simp_all
  then show ?thesis using res'(1,2) res'(3) [rule_format, of 11 "replicate STANDARD_VECTOR_SIZE (Some (NumPayload 0))"] n(2,3) by auto
qed

end
