(* ===== verification/Update_Versions.thy ===== *)
theory Update_Versions
  imports Update_Fetch
begin

text \<open>
  The life of an update after \<open>UpdateSegment::Update\<close>: rollback (\<open>RollbackState\<close>, \<open>UpdateSegment::RollbackUpdate\<close>), commit
  (\<open>CommitState\<close>) and cleanup (\<open>CleanupState\<close>, \<open>UpdateSegment::CleanupUpdate\<close>). The theory shows what each of them does to
  what the transactions see, and that any interleaving of the operations of several transactions keeps the snapshot of every
  running one.
\<close>

section \<open>Rollback, commit and cleanup\<close>

lemma rollback_entries:
  "sorted_wrt (<) ts \<Longrightarrow> length xs = length ts \<Longrightarrow> sorted_wrt (<) (map fst es) \<Longrightarrow> fst ` set es \<subseteq> set ts \<Longrightarrow>
    (\<forall>e \<in> set es. \<forall>j < k. ts ! j < fst e) \<Longrightarrow> k \<le> length ts \<Longrightarrow>
    \<exists>k' xs'. fold_res (rollback_entry ts) es (k, xs) = Inr (k', xs') \<and> length xs' = length xs
      \<and> (\<forall>r. map_of (zip ts xs') r = (case map_of es r of Some x \<Rightarrow> Some x | None \<Rightarrow> map_of (zip ts xs) r))"
proof (induction es arbitrary: k xs)
  case (Cons e es)
  obtain i x where e: "e = (i, x)" by fastforce
  let ?k = "k + length (takeWhile (\<lambda>t. t < i) (drop k ts))"
  obtain j where j: "j < length ts" "ts ! j = i" using Cons.prems(4) by (auto simp: e in_set_conv_nth)
  have mono: "a < b \<Longrightarrow> b < length ts \<Longrightarrow> ts ! a < ts ! b" for a b using Cons.prems(1) by (simp add: sorted_wrt_nth_less)
  have "k \<le> j"
  proof (rule ccontr)
    assume "\<not> k \<le> j"
    then have "ts ! j < i" using Cons.prems(5) by (simp add: e)
    with j(2) show False by simp
  qed
  have "length (takeWhile (\<lambda>t. t < i) (drop k ts)) = j - k"
  proof -
    have "takeWhile (\<lambda>t. t < i) (drop k ts) = take (j - k) (drop k ts)"
      using \<open>k \<le> j\<close> j mono by (intro takeWhile_eq_take_P_nth) (auto simp: less_diff_conv)
    then show ?thesis using j(1) \<open>k \<le> j\<close> by simp
  qed
  then have "?k = j" using \<open>k \<le> j\<close> by simp
  then have step: "rollback_entry ts e (k, xs) = Inr (j, xs[j := x])" using j(1) by (simp add: rollback_entry_def e)
  have later: "\<forall>e' \<in> set es. i < fst e'" using Cons.prems(3) by (auto simp: e)
  have "\<forall>e' \<in> set es. \<forall>j' < j. ts ! j' < fst e'"
    using later mono j by (metis order.strict_trans)
  then obtain k' xs' where r: "fold_res (rollback_entry ts) es (j, xs[j := x]) = Inr (k', xs')" "length xs' = length xs"
      "\<forall>r. map_of (zip ts xs') r = (case map_of es r of Some x \<Rightarrow> Some x | None \<Rightarrow> map_of (zip ts (xs[j := x])) r)"
    using Cons.IH [of "xs[j := x]" j] Cons.prems j by auto
  have "map_of (zip ts (xs[j := x])) r = (if r = i then Some x else map_of (zip ts xs) r)" for r
  proof (cases "r \<in> set ts")
    case True
    then obtain m where m: "m < length ts" "r = ts ! m" by (auto simp: in_set_conv_nth)
    have dis: "distinct ts" using Cons.prems(1) by (simp add: strict_sorted_iff)
    then have "r = i \<longleftrightarrow> m = j" using m j by (metis nth_eq_iff_index_eq)
    then show ?thesis using m dis Cons.prems(2) map_of_zip_nth [of ts "xs[j := x]" m] map_of_zip_nth [of ts xs m]
      by (auto simp: nth_list_update)
  next
    case False
    then have "map_of (zip ts ys) r = None" for ys :: "'a option list"
      by (auto simp: map_of_eq_None_iff dest: set_zip_leftD)
    moreover have "r \<noteq> i" using False j by auto
    ultimately show ?thesis by simp
  qed
  moreover have "map_of es i = None" using later by (force simp: map_of_eq_None_iff)
  ultimately show ?case using step r by (auto simp: e split: option.split)
qed simp

lemma RollbackUpdate_infos_ok:
  assumes base: "info_ok base" and u: "info_ok u" and sub: "set (tuples u) \<subseteq> set (tuples base)"
  shows "\<exists>base'. RollbackUpdate_infos base u = Inr base' \<and> info_ok base' \<and> tuples base' = tuples base
    \<and> version_number base' = version_number base \<and> (\<forall>r x. over base' r x = (if r \<in> set (tuples u) then over u r x else over base r x))"
proof -
  have e: "map fst (entries u) = tuples u" using u by (rule entries_fst)
  obtain k xs where r: "fold_res (rollback_entry (tuples base)) (entries u) (0, tuple_data base) = Inr (k, xs)"
      "length xs = length (tuple_data base)"
      "\<forall>r. map_of (zip (tuples base) xs) r = (case map_of (entries u) r of Some x \<Rightarrow> Some x | None \<Rightarrow> map_of (zip (tuples base) (tuple_data base)) r)"
    using rollback_entries [of "tuples base" "tuple_data base" "entries u" 0] base u sub e by (auto simp: info_ok_def simp flip: set_map)
  have "RollbackUpdate_infos base u = Inr (base\<lparr>tuple_data := xs\<rparr>)"
    using r(1) by (simp add: RollbackUpdate_infos_def entries_def)
  moreover have "over (base\<lparr>tuple_data := xs\<rparr>) r x = (if r \<in> set (tuples u) then over u r x else over base r x)" for r x
    using map_of_entries_None [OF u, of r] by (auto simp: over_def entries_def [of base] entries_def [of "base\<lparr>tuple_data := xs\<rparr>"] r(3) split: option.split)
  ultimately show ?thesis using base r(2) by (auto simp: info_ok_def)
qed

text \<open>An info of a running transaction is the first of the chain that has its rows.\<close>

lemma uncommitted_first:
  assumes "node_ok starts nd" "chain nd = as @ u # bs" "TRANSACTION_ID_START \<le> version_number u" "i \<in> set as"
  shows "set (tuples i) \<inter> set (tuples u) = {}"
  using assms by (auto simp: node_ok_def sorted_wrt_append above_def not_less [symmetric])

lemma remove_ok:
  assumes "node_ok starts nd" "chain nd = as @ u # bs"
  shows "node_ok starts (nd\<lparr>chain := as @ bs\<rparr>)"
  using assms by (auto simp: node_ok_def sorted_wrt_append)

lemma split_chain: "k < length (chain nd) \<Longrightarrow> chain nd = take k (chain nd) @ chain nd ! k # drop (Suc k) (chain nd)"
  by (rule id_take_nth_drop)

lemma seg_node_ok: "seg_ok starts seg \<Longrightarrow> v < ROW_GROUP_VECTOR_COUNT \<Longrightarrow> seg_node v seg = Some nd \<Longrightarrow>
    node_ok starts nd \<and> (\<exists>infos. root seg = Some infos \<and> vector_node v infos = Inr (Some nd))"
  by (auto simp: seg_node_def seg_ok_def vector_node_def split: option.splits)

text \<open>
  The effect of an operation on one vector: the invariant, the other vectors, and that nobody but the transaction
  \<open>tid\<close> sees a difference.
\<close>

definition invisible_step ::
  "(transaction_t \<Rightarrow> transaction_t) \<Rightarrow> (TransactionData \<Rightarrow> bool) \<Rightarrow> idx_t \<Rightarrow> 'a UpdateSegment \<Rightarrow> 'a UpdateSegment \<Rightarrow> bool" where
  "invisible_step starts others v seg seg' \<longleftrightarrow> column_start seg' = column_start seg
     \<and> (\<forall>w < ROW_GROUP_VECTOR_COUNT. w \<noteq> v \<longrightarrow> seg_node w seg' = seg_node w seg)
     \<and> (\<forall>t data r. running starts t \<longrightarrow> others t \<longrightarrow> visible_cell t v data seg' r = visible_cell t v data seg r)"

lemma invisible_put:
  assumes "seg_ok starts seg" "v < ROW_GROUP_VECTOR_COUNT" "seg_node v seg = Some nd" "node_ok starts nd'"
    "\<And>t r x. running starts t \<Longrightarrow> others t \<Longrightarrow> view t nd' r x = view t nd r x"
  shows "invisible_step starts others v seg (put_node v nd' seg)" "seg_ok starts (put_node v nd' seg)"
    "visible_cell t v data (put_node v nd' seg) r = view t nd' r (data ! r)"
proof -
  obtain infos where infos: "root seg = Some infos" using seg_node_ok [OF assms(1-3)] by blast
  note put = put_node_ok [OF assms(1) infos assms(2,4)]
  show "seg_ok starts (put_node v nd' seg)" by (rule put(1))
  show cell: "visible_cell t v data (put_node v nd' seg) r = view t nd' r (data ! r)" for t data r
    unfolding visible_cell_def put(2) by simp
  have "visible_cell t v data (put_node v nd' seg) r = visible_cell t v data seg r" if "running starts t" "others t" for t data r
    unfolding cell assms(5) [OF that] by (simp add: visible_cell_def assms(3))
  then show "invisible_step starts others v seg (put_node v nd' seg)"
    unfolding invisible_step_def put(2) by (simp add: put_node_def)
qed

lemma us_RollbackUpdate_ok:
  assumes ok: "seg_ok starts seg" and v: "v < ROW_GROUP_VECTOR_COUNT" and nd: "seg_node v seg = Some nd"
    and k: "k < length (chain nd)" "version_number (chain nd ! k) = tid" and tid: "TRANSACTION_ID_START \<le> tid"
  shows "\<exists>seg'. us_RollbackUpdate v k seg = Inr seg' \<and> seg_ok starts seg'
    \<and> invisible_step starts (\<lambda>t. transaction_id t \<noteq> tid) v seg seg'"
proof -
  obtain infos where infos: "root seg = Some infos" "vector_node v infos = Inr (Some nd)" and n: "node_ok starts nd"
    using seg_node_ok [OF ok v nd] by blast
  let ?as = "take k (chain nd)" and ?u = "chain nd ! k" and ?bs = "drop (Suc k) (chain nd)"
  note split = split_chain [OF k(1)]
  have u: "info_ok ?u" "set (tuples ?u) \<subseteq> set (tuples (base_info nd))" "info_ok (base_info nd)"
    "version_number (base_info nd) = TRANSACTION_ID_START - 1"
    using n k(1) by (auto simp: node_ok_def)
  obtain base where base: "RollbackUpdate_infos (base_info nd) ?u = Inr base" "info_ok base" "tuples base = tuples (base_info nd)"
      "version_number base = version_number (base_info nd)"
      "over base r x = (if r \<in> set (tuples ?u) then over ?u r x else over (base_info nd) r x)" for r x
    using RollbackUpdate_infos_ok [OF u(3,1,2)] by blast
  let ?nd = "nd\<lparr>base_info := base, chain := ?as @ ?bs\<rparr>"
  have "us_RollbackUpdate v k seg = Inr (put_node v ?nd seg)"
    using infos k(1) base(1) by (simp add: us_RollbackUpdate_def CleanupUpdateInternal_def)
  moreover have nd': "node_ok starts ?nd"
    using remove_ok [OF n split] base(2-4) by (simp add: node_ok_def)
  moreover have "view t ?nd r x = view t nd r x" if t: "running starts t" "transaction_id t \<noteq> tid" for t r x
  proof -
    let ?view = "view_row (start_time t) (transaction_id t)"
    have hb: "hidden_from (start_time t) (transaction_id t) base" "hidden_from (start_time t) (transaction_id t) (base_info nd)"
      using hidden_base [OF n t(1)] base(4) by (simp_all add: hidden_from_def)
    have hu: "hidden_from (start_time t) (transaction_id t) ?u"
      using t k(2) tid running_base(1) [OF t(1)] by (auto simp: hidden_from_def)
    have "?view (base_info nd # chain nd) r x = ?view (base_info nd # ?as @ ?u # ?bs) r x" by (simp only: split [symmetric])
    also have "\<dots> = ?view (base # ?as @ ?bs) r x"
    proof (cases "r \<in> set (tuples ?u)")
      case True
      then have "?view ?as r y = y" for y
        using uncommitted_first [OF n split] k(2) tid by (intro view_row_unseen) auto
      moreover have "over ?u r (over (base_info nd) r x) = over ?u r x" using True over_present [OF u(1)] by simp
      ultimately show ?thesis using True hb hu base(5) by simp
    qed (use hb hu base(5) in \<open>simp add: over_absent\<close>)
    finally show ?thesis by simp
  qed
  ultimately show ?thesis using put_node_ok(1) [OF ok infos(1) v nd']
    by (intro exI [of _ "put_node v ?nd seg"] conjI invisible_put(1) [OF ok v nd nd']) simp_all
qed

lemma us_CleanupUpdate_ok:
  assumes ok: "seg_ok starts seg" and v: "v < ROW_GROUP_VECTOR_COUNT" and nd: "seg_node v seg = Some nd" and k: "k < length (chain nd)"
  shows "\<exists>seg'. us_CleanupUpdate v k seg = Inr seg' \<and> seg_ok starts seg'
    \<and> invisible_step starts (\<lambda>t. version_number (chain nd ! k) \<le> start_time t) v seg seg'"
proof -
  obtain infos where infos: "root seg = Some infos" "vector_node v infos = Inr (Some nd)" and n: "node_ok starts nd"
    using seg_node_ok [OF ok v nd] by blast
  let ?as = "take k (chain nd)" and ?u = "chain nd ! k" and ?bs = "drop (Suc k) (chain nd)"
  note split = split_chain [OF k]
  let ?nd = "nd\<lparr>chain := ?as @ ?bs\<rparr>"
  have "us_CleanupUpdate v k seg = Inr (put_node v ?nd seg)"
    using infos k by (simp add: us_CleanupUpdate_def CleanupUpdateInternal_def)
  moreover have nd': "node_ok starts ?nd" by (rule remove_ok [OF n split])
  moreover have "view t ?nd r x = view t nd r x" if "version_number ?u \<le> start_time t" for t r x
  proof -
    let ?view = "view_row (start_time t) (transaction_id t)"
    have "\<not> hidden_from (start_time t) (transaction_id t) ?u" using that by (auto simp: hidden_from_def)
    then have "?view (base_info nd # ?as @ ?bs) r x = ?view (base_info nd # ?as @ ?u # ?bs) r x" by simp
    also have "\<dots> = ?view (base_info nd # chain nd) r x" by (simp only: split [symmetric])
    finally show ?thesis by simp
  qed
  ultimately show ?thesis using put_node_ok(1) [OF ok infos(1) v nd']
    by (intro exI [of _ "put_node v ?nd seg"] conjI invisible_put(1) [OF ok v nd nd']) simp_all
qed

lemma commit_update_ok:
  assumes ok: "seg_ok starts seg" and v: "v < ROW_GROUP_VECTOR_COUNT" and nd: "seg_node v seg = Some nd"
    and k: "k < length (chain nd)" "version_number (chain nd ! k) = tid" and tid: "TRANSACTION_ID_START \<le> tid"
    and cid: "cid < TRANSACTION_ID_START" "\<forall>i \<in> set (chain nd). version_number i \<noteq> cid"
      "\<forall>i \<in> set (chain nd). TRANSACTION_ID_START \<le> version_number i \<longrightarrow> starts (version_number i) < cid"
  shows "\<exists>seg'. commit_update cid v k seg = Inr seg' \<and> seg_ok starts seg'
    \<and> invisible_step starts (\<lambda>t. transaction_id t \<noteq> tid \<and> start_time t < cid) v seg seg'
    \<and> (\<forall>t t2 data r. running starts t \<longrightarrow> transaction_id t = tid \<longrightarrow> running starts t2 \<longrightarrow> cid \<le> start_time t2 \<longrightarrow>
         r \<in> set (tuples (chain nd ! k)) \<longrightarrow> visible_cell t2 v data seg' r = visible_cell t v data seg r)"
proof -
  obtain infos where infos: "root seg = Some infos" "vector_node v infos = Inr (Some nd)" and n: "node_ok starts nd"
    using seg_node_ok [OF ok v nd] by blast
  let ?as = "take k (chain nd)" and ?u = "chain nd ! k" and ?bs = "drop (Suc k) (chain nd)"
  let ?u' = "?u\<lparr>version_number := cid\<rparr>"
  let ?nd = "nd\<lparr>chain := ?as @ ?u' # ?bs\<rparr>"
  note split = split_chain [OF k(1)]
  have upper: "set (tuples i) \<inter> set (tuples ?u) = {}" if "i \<in> set ?as" for i
    using uncommitted_first [OF n split] k(2) tid that by simp
  have lower: "above starts ?u j" if "j \<in> set ?bs" for j
    using n that unfolding node_ok_def by (subst (asm) split) (auto simp: sorted_wrt_append)
  have mem: "i \<in> set (chain nd)" if "i \<in> set ?as \<union> set ?bs \<union> {?u}" for i
    using that k(1) by (auto dest: in_set_takeD in_set_dropD)
  have tid_cid: "starts tid < cid" using cid(3) k tid mem [of ?u] by auto
  have "commit_update cid v k seg = Inr (put_node v ?nd seg)"
    using infos k(1) by (simp add: commit_update_def upd_conv_take_nth_drop)
  moreover have nd': "node_ok starts ?nd"
  proof -
    have "above starts i ?u'" if "i \<in> set ?as" for i
      using upper [OF that] cid(1,2) mem that by (auto simp: above_def)
    moreover have "above starts ?u' j" if "j \<in> set ?bs" for j
      using lower [OF that] cid mem [of j] that k(2) tid tid_cid by (auto simp: above_def)
    moreover have "sorted_wrt (above starts) (?as @ ?u # ?bs)" using n split by (simp add: node_ok_def)
    ultimately have "sorted_wrt (above starts) (?as @ ?u' # ?bs)" by (auto simp: sorted_wrt_append)
    then show ?thesis using n mem cid(1) by (auto simp: node_ok_def info_ok_def)
  qed
  moreover have "view t ?nd r x = view t nd r x"
    if t: "running starts t" "transaction_id t \<noteq> tid \<and> start_time t < cid" for t r x
  proof -
    let ?view = "view_row (start_time t) (transaction_id t)"
    have "hidden_from (start_time t) (transaction_id t) ?u" "hidden_from (start_time t) (transaction_id t) ?u'"
      using t k(2) tid cid(1) running_base(1) [OF t(1)] by (auto simp: hidden_from_def running_def)
    moreover have "over ?u' = over ?u" by (simp add: over_def entries_def fun_eq_iff)
    ultimately have "?view (base_info nd # ?as @ ?u' # ?bs) r x = ?view (base_info nd # ?as @ ?u # ?bs) r x" by simp
    also have "\<dots> = ?view (base_info nd # chain nd) r x" by (simp only: split [symmetric])
    finally show ?thesis by simp
  qed
  moreover have "view t2 ?nd r x = view t nd r x"
    if t: "running starts t" "transaction_id t = tid" and t2: "running starts t2" "cid \<le> start_time t2" and r: "r \<in> set (tuples ?u)" for t t2 r x
  proof -
    have low: "version_number j \<le> starts tid \<and> starts tid = start_time t" if "j \<in> set ?bs" "r \<in> set (tuples j)" for j
      using lower [OF that(1)] that(2) r k(2) tid t by (auto simp: above_def running_def)
    have "view_row (start_time t2) (transaction_id t2) ?bs r y = y" for y
      using low tid_cid t2(2) by (intro view_row_unseen) (fastforce simp: hidden_from_def)
    moreover have "view_row (start_time t) (transaction_id t) ?bs r y = y" for y
      using low by (intro view_row_unseen) (fastforce simp: hidden_from_def)
    moreover have "view_row s i ?as r y = y" for s i y
      using upper r by (intro view_row_unseen) blast
    moreover have "hidden_from (start_time t) (transaction_id t) (base_info nd)" "hidden_from (start_time t2) (transaction_id t2) (base_info nd)"
      "\<not> hidden_from (start_time t) (transaction_id t) ?u" "\<not> hidden_from (start_time t2) (transaction_id t2) ?u'"
      using hidden_base [OF n] t t2 k(2) by (auto simp: hidden_from_def)
    ultimately have "view t2 ?nd r x = view_row (start_time t) (transaction_id t) (base_info nd # ?as @ ?u # ?bs) r x" by simp
    then show ?thesis by (simp only: split [symmetric])
  qed
  moreover have "visible_cell t v data seg r = view t nd r (data ! r)" for t data r using nd by (simp add: visible_cell_def)
  ultimately show ?thesis using invisible_put [OF ok v nd nd'] by (intro exI [of _ "put_node v ?nd seg"]) simp
qed

section \<open>Statistics functions\<close>

text \<open>What an update relies on of the statistics function of its column: it selects the rows that are not NULL.\<close>

locale update_statistics =
  fixes f :: "BaseStatistics \<Rightarrow> 'a option list \<Rightarrow> (BaseStatistics \<times> exc option) \<times> nat list"
  assumes selects: "snd (f stats update) = not_null_rows update"
begin

lemma update_outcome:
  assumes ok: "seg_ok starts seg" and run: "running starts t" and up: "proper_update v ids update seg" and data: "length data = STANDARD_VECTOR_SIZE"
    and r: "us_Update f t True c update ids data seg = (seg', ex)"
  shows "seg_ok starts seg'" "column_start seg' = column_start seg"
    "w < ROW_GROUP_VECTOR_COUNT \<Longrightarrow> w \<noteq> v \<Longrightarrow> seg_node w seg' = seg_node w seg"
    "sees_update starts t (if ex = None then updated_rows v ids update seg else {})
       (new_value (column_start seg + v * STANDARD_VECTOR_SIZE) ids (update_sel ids update) update)
       (\<lambda>t2 r. visible_cell t2 v data seg r) (\<lambda>t2 r. visible_cell t2 v data seg' r)"
    "snd (fst (f (update_stats seg) update)) = None \<Longrightarrow>
       ex = (if update_conflict t v (updated_rows v ids update seg) seg then Some TransactionException else None)"
proof -
  obtain stats e where f: "f (update_stats seg) update = ((stats, e), not_null_rows update)"
    using selects [of "update_stats seg" update] by (metis prod.collapse)
  have keep: "seg_ok starts (seg\<lparr>update_stats := stats\<rparr>)" "seg_node w (seg\<lparr>update_stats := stats\<rparr>) = seg_node w seg"
    "visible_cell t2 v data (seg\<lparr>update_stats := stats\<rparr>) r = visible_cell t2 v data seg r" for w t2 r
    using ok by (simp_all add: seg_ok_def seg_node_def visible_cell_def)
  consider (err) "seg' = seg\<lparr>update_stats := stats\<rparr>" "ex \<noteq> None" "e \<noteq> None"
    | (empty) "seg' = seg\<lparr>update_stats := stats\<rparr>" "ex = None" "not_null_rows update = []"
    | (full) "e = None" "not_null_rows update \<noteq> []"
    using r f by (auto simp: us_Update_def Let_def split: if_splits)
  then have "seg_ok starts seg' \<and> column_start seg' = column_start seg
    \<and> (\<forall>w < ROW_GROUP_VECTOR_COUNT. w \<noteq> v \<longrightarrow> seg_node w seg' = seg_node w seg)
    \<and> sees_update starts t (if ex = None then updated_rows v ids update seg else {})
       (new_value (column_start seg + v * STANDARD_VECTOR_SIZE) ids (update_sel ids update) update)
       (\<lambda>t2 r. visible_cell t2 v data seg r) (\<lambda>t2 r. visible_cell t2 v data seg' r)
    \<and> (e = None \<longrightarrow> ex = (if update_conflict t v (updated_rows v ids update seg) seg then Some TransactionException else None))"
  proof cases
    case err then show ?thesis using keep by (auto simp: sees_update_def)
  next
    case empty
    then have "updated_rows v ids update seg = {}" by (simp add: updated_rows_def update_rows_def)
    then show ?thesis using empty keep by (simp add: sees_update_def update_conflict_def conflicting_def)
  next
    case full
    note u = us_Update_ok [where f = f, OF ok run up data f [unfolded full(1)] full(2), of c]
    show ?thesis
    proof (cases "update_conflict t v (updated_rows v ids update seg) seg")
      case True
      then have "seg' = seg\<lparr>update_stats := stats\<rparr>" "ex = Some TransactionException" using u r by simp_all
      then show ?thesis using True keep by (simp add: sees_update_def)
    next
      case False
      then have "ex = None" using u r by (simp only: if_not_P) auto
      then show ?thesis using False u r by simp
    qed
  qed
  then show "seg_ok starts seg'" "column_start seg' = column_start seg"
    "w < ROW_GROUP_VECTOR_COUNT \<Longrightarrow> w \<noteq> v \<Longrightarrow> seg_node w seg' = seg_node w seg"
    "sees_update starts t (if ex = None then updated_rows v ids update seg else {})
       (new_value (column_start seg + v * STANDARD_VECTOR_SIZE) ids (update_sel ids update) update)
       (\<lambda>t2 r. visible_cell t2 v data seg r) (\<lambda>t2 r. visible_cell t2 v data seg' r)"
    "snd (fst (f (update_stats seg) update)) = None \<Longrightarrow>
       ex = (if update_conflict t v (updated_rows v ids update seg) seg then Some TransactionException else None)"
    using f by simp_all
qed

end

interpretation numeric_update: update_statistics TemplatedUpdateNumericStatistics
  by unfold_locales (simp add: TemplatedUpdateNumericStatistics_def Let_def)

interpretation string_update: update_statistics "UpdateStringStatistics Analyze" for Analyze
  by unfold_locales (simp add: UpdateStringStatistics_def Let_def)

section \<open>Runs\<close>

text \<open>
  The operations of several transactions on one column, in the order in which the locks of the segment let them through.
  \<open>starts\<close> gives the start time of every transaction and \<open>data\<close> the data of the column. \<open>readers\<close> are transactions that run
  from the first operation to the last; they may update, and nobody commits or rolls them back. The transaction manager
  draws start times and commit ids from one counter, so a commit id is greater than the start of every transaction
  that runs, and new. An update is only cleaned up when every running transaction has started after its commit.
\<close>

datatype 'a update_op =
    Updated TransactionData idx_t "idx_t list" "'a option list"
  | NotUpdated TransactionData
  | RolledBack transaction_t
  | Committed transaction_t transaction_t
  | CleanedUp

inductive us_step ::
  "(BaseStatistics \<Rightarrow> 'a option list \<Rightarrow> (BaseStatistics \<times> exc option) \<times> nat list) \<Rightarrow> (transaction_t \<Rightarrow> transaction_t)
    \<Rightarrow> TransactionData set \<Rightarrow> (idx_t \<Rightarrow> 'a option list) \<Rightarrow> 'a update_op \<Rightarrow> 'a UpdateSegment \<Rightarrow> 'a UpdateSegment \<Rightarrow> bool"
  for f starts readers data where
  update: "running starts t \<Longrightarrow> proper_update v ids update seg \<Longrightarrow>
    us_Update f t True c update ids (data v) seg = (seg', None) \<Longrightarrow>
    us_step f starts readers data (Updated t v ids update) seg seg'"
| update_error: "running starts t \<Longrightarrow> proper_update v ids update seg \<Longrightarrow>
    us_Update f t True c update ids (data v) seg = (seg', Some e) \<Longrightarrow>
    us_step f starts readers data (NotUpdated t) seg seg'"
| rollback: "v < ROW_GROUP_VECTOR_COUNT \<Longrightarrow> seg_node v seg = Some nd \<Longrightarrow> k < length (chain nd) \<Longrightarrow>
    version_number (chain nd ! k) = tid \<Longrightarrow> TRANSACTION_ID_START \<le> tid \<Longrightarrow> tid \<notin> transaction_id ` readers \<Longrightarrow>
    us_RollbackUpdate v k seg = Inr seg' \<Longrightarrow>
    us_step f starts readers data (RolledBack tid) seg seg'"
| commit: "v < ROW_GROUP_VECTOR_COUNT \<Longrightarrow> seg_node v seg = Some nd \<Longrightarrow> k < length (chain nd) \<Longrightarrow>
    version_number (chain nd ! k) = tid \<Longrightarrow> TRANSACTION_ID_START \<le> tid \<Longrightarrow> tid \<notin> transaction_id ` readers \<Longrightarrow>
    cid < TRANSACTION_ID_START \<Longrightarrow> \<forall>t \<in> readers. start_time t < cid \<Longrightarrow>
    \<forall>i \<in> set (chain nd). version_number i \<noteq> cid \<and> (TRANSACTION_ID_START \<le> version_number i \<longrightarrow> starts (version_number i) < cid) \<Longrightarrow>
    commit_update cid v k seg = Inr seg' \<Longrightarrow>
    us_step f starts readers data (Committed tid cid) seg seg'"
| cleanup: "v < ROW_GROUP_VECTOR_COUNT \<Longrightarrow> seg_node v seg = Some nd \<Longrightarrow> k < length (chain nd) \<Longrightarrow>
    \<forall>t \<in> readers. version_number (chain nd ! k) \<le> start_time t \<Longrightarrow>
    us_CleanupUpdate v k seg = Inr seg' \<Longrightarrow>
    us_step f starts readers data CleanedUp seg seg'"

inductive us_steps ::
  "(BaseStatistics \<Rightarrow> 'a option list \<Rightarrow> (BaseStatistics \<times> exc option) \<times> nat list) \<Rightarrow> (transaction_t \<Rightarrow> transaction_t)
    \<Rightarrow> TransactionData set \<Rightarrow> (idx_t \<Rightarrow> 'a option list) \<Rightarrow> 'a update_op list \<Rightarrow> 'a UpdateSegment \<Rightarrow> 'a UpdateSegment \<Rightarrow> bool"
  for f starts readers data where
  none: "us_steps f starts readers data [] seg seg"
| more: "us_step f starts readers data op seg seg1 \<Longrightarrow> us_steps f starts readers data ops seg1 seg' \<Longrightarrow>
    us_steps f starts readers data (op # ops) seg seg'"

text \<open>What an operation does to a cell that a transaction sees: only its own updates change it.\<close>

definition own_effect :: "idx_t \<Rightarrow> TransactionData \<Rightarrow> idx_t \<Rightarrow> nat \<Rightarrow> 'a update_op \<Rightarrow> 'a option \<Rightarrow> 'a option" where
  "own_effect start t w r op x = (case op of
     Updated t2 v ids update \<Rightarrow>
       let off = start + v * STANDARD_VECTOR_SIZE
       in if transaction_id t2 = transaction_id t \<and> v = w \<and> r \<in> set (update_rows off ids (not_null_rows update))
          then new_value off ids (update_sel ids update) update r else x
   | _ \<Rightarrow> x)"

lemma visible_node: "seg_node w seg' = seg_node w seg \<Longrightarrow> visible_cell t w d seg' r = visible_cell t w d seg r"
  by (simp add: visible_cell_def)

lemma invisible_cell:
  "invisible_step starts others v seg seg' \<Longrightarrow> running starts t \<Longrightarrow> others t \<Longrightarrow> w < ROW_GROUP_VECTOR_COUNT \<Longrightarrow>
    visible_cell t w d seg' r = visible_cell t w d seg r"
  unfolding invisible_step_def by (cases "w = v") (blast, blast intro: visible_node)

lemma own_effect_others [simp]:
  "own_effect c t w r (NotUpdated t2) x = x" "own_effect c t w r (RolledBack tid) x = x"
  "own_effect c t w r (Committed tid cid) x = x" "own_effect c t w r CleanedUp x = x"
  by (simp_all add: own_effect_def)

text \<open>The effect of one operation: the invariant, and what the readers see.\<close>

definition step_effect ::
  "(transaction_t \<Rightarrow> transaction_t) \<Rightarrow> TransactionData set \<Rightarrow> (idx_t \<Rightarrow> 'a option list) \<Rightarrow> 'a update_op list
    \<Rightarrow> 'a UpdateSegment \<Rightarrow> 'a UpdateSegment \<Rightarrow> bool" where
  "step_effect starts readers data ops seg seg' \<longleftrightarrow> seg_ok starts seg' \<and> column_start seg' = column_start seg
     \<and> (\<forall>t \<in> readers. running starts t \<longrightarrow> (\<forall>w < ROW_GROUP_VECTOR_COUNT. \<forall>r.
          visible_cell t w (data w) seg' r = fold (own_effect (column_start seg) t w r) ops (visible_cell t w (data w) seg r)))"

lemma step_effect_invisible:
  assumes "seg_ok starts seg'" "invisible_step starts others v seg seg'" "\<And>t. t \<in> readers \<Longrightarrow> others t"
    "\<And>c t w r x. own_effect c t w r op x = x"
  shows "step_effect starts readers data [op] seg seg'"
proof -
  have "column_start seg' = column_start seg" using assms(2) by (simp add: invisible_step_def)
  then show ?thesis using assms(1,4) invisible_cell [OF assms(2) _ assms(3)] by (simp add: step_effect_def)
qed

context update_statistics
begin

lemma step_cell:
  assumes "us_step f starts readers data op seg seg'" and ok: "seg_ok starts seg"
    and len: "\<forall>v < ROW_GROUP_VECTOR_COUNT. length (data v) = STANDARD_VECTOR_SIZE"
  shows "step_effect starts readers data [op] seg seg'"
  using assms(1)
proof (cases rule: us_step.cases)
  case (update t v ids upd c)
  have d: "length (data v) = STANDARD_VECTOR_SIZE" using len update(3) by (simp add: proper_update_def)
  note o = update_outcome [OF ok update(2,3) d update(4)]
  have "visible_cell t2 w (data w) seg' r = own_effect (column_start seg) t2 w r op (visible_cell t2 w (data w) seg r)"
    if "running starts t2" "w < ROW_GROUP_VECTOR_COUNT" for t2 w r
  proof (cases "w = v")
    case True
    then show ?thesis using o(4) that(1) update(1) by (auto simp: sees_update_def own_effect_def updated_rows_def Let_def)
  next
    case False
    then show ?thesis using visible_node [OF o(3) [OF that(2) False]] update(1) by (simp add: own_effect_def Let_def)
  qed
  then show ?thesis using o(1,2) by (simp add: step_effect_def)
next
  case (update_error t v ids upd c e)
  have d: "length (data v) = STANDARD_VECTOR_SIZE" using len update_error(3) by (simp add: proper_update_def)
  note o = update_outcome [OF ok update_error(2,3) d update_error(4)]
  have "visible_cell t2 w (data w) seg' r = visible_cell t2 w (data w) seg r"
    if "running starts t2" "w < ROW_GROUP_VECTOR_COUNT" for t2 w r
  proof (cases "w = v")
    case True
    then show ?thesis using o(4) that(1) by (simp add: sees_update_def)
  next
    case False
    then show ?thesis by (rule visible_node [OF o(3) [OF that(2)]])
  qed
  then show ?thesis using o(1,2) update_error(1) by (simp add: step_effect_def)
next
  case (rollback v nd k tid)
  have i: "seg_ok starts seg'" "invisible_step starts (\<lambda>t. transaction_id t \<noteq> tid) v seg seg'"
    using us_RollbackUpdate_ok [OF ok rollback(2-6)] rollback(8) by simp_all
  show ?thesis by (rule step_effect_invisible [OF i]) (use rollback(1,7) in auto)
next
  case (commit v nd k tid cid)
  have c: "\<forall>i \<in> set (chain nd). version_number i \<noteq> cid"
      "\<forall>i \<in> set (chain nd). TRANSACTION_ID_START \<le> version_number i \<longrightarrow> starts (version_number i) < cid"
    using commit(10) by blast+
  have i: "seg_ok starts seg'" "invisible_step starts (\<lambda>t. transaction_id t \<noteq> tid \<and> start_time t < cid) v seg seg'"
    using commit_update_ok [OF ok commit(2-6,8) c] commit(11) by simp_all
  show ?thesis by (rule step_effect_invisible [OF i]) (use commit(1,7,9) in auto)
next
  case (cleanup v nd k)
  have i: "seg_ok starts seg'" "invisible_step starts (\<lambda>t. version_number (chain nd ! k) \<le> start_time t) v seg seg'"
    using us_CleanupUpdate_ok [OF ok cleanup(2-4)] cleanup(6) by simp_all
  show ?thesis by (rule step_effect_invisible [OF i]) (use cleanup(1,5) in auto)
qed

lemma steps_cell:
  assumes "us_steps f starts readers data ops seg seg'" "seg_ok starts seg"
    and len: "\<forall>v < ROW_GROUP_VECTOR_COUNT. length (data v) = STANDARD_VECTOR_SIZE"
  shows "step_effect starts readers data ops seg seg'"
  using assms(1,2)
proof (induction rule: us_steps.induct)
  case (more op seg seg1 ops seg')
  have one: "step_effect starts readers data [op] seg seg1" by (rule step_cell [OF more.hyps(1) more.prems len])
  then have "step_effect starts readers data ops seg1 seg'" by (intro more.IH) (simp add: step_effect_def)
  with one show ?case by (simp add: step_effect_def)
qed (simp add: step_effect_def)

lemma steps_fetch:
  assumes "us_steps f starts readers data ops seg seg'" "seg_ok starts seg" "\<forall>v < ROW_GROUP_VECTOR_COUNT. length (data v) = STANDARD_VECTOR_SIZE"
    and t: "t \<in> readers" "running starts t" and w: "w < ROW_GROUP_VECTOR_COUNT"
  shows "\<exists>before. us_FetchUpdates t w (data w) seg = Inr before
    \<and> us_FetchUpdates t w (data w) seg' = Inr (map (\<lambda>r. fold (own_effect (column_start seg) t w r) ops (before ! r)) [0..<STANDARD_VECTOR_SIZE])"
proof -
  have s: "step_effect starts readers data ops seg seg'" by (rule steps_cell [OF assms(1-3)])
  then have ok': "seg_ok starts seg'" by (simp add: step_effect_def)
  have d: "length (data w) = STANDARD_VECTOR_SIZE" using assms(3) w by simp
  have "visible_cell t w (data w) seg' r = fold (own_effect (column_start seg) t w r) ops (visible_cell t w (data w) seg r)" for r
    using s t w by (simp add: step_effect_def)
  then show ?thesis unfolding us_FetchUpdates_ok [OF assms(2) w d] us_FetchUpdates_ok [OF ok' w d] by simp
qed

end

section \<open>Properties\<close>

lemma numeric_statistics_total: "snd (fst (TemplatedUpdateNumericStatistics stats update)) = None"
proof -
  have "snd (stats_loop update_numeric xs s) = None" for xs s
    by (induction xs arbitrary: s) (simp_all add: update_numeric_def)
  then show ?thesis by (simp add: TemplatedUpdateNumericStatistics_def Let_def)
qed

text \<open>Transactions and updates of single rows of the example segment.\<close>

definition sample_writer :: TransactionData where
  "sample_writer = \<lparr>transaction_id = TRANSACTION_ID_START + 1, start_time = 7\<rparr>"

lemma sample_running: "running (\<lambda>_. 7) sample_reader" "running (\<lambda>_. 7) sample_writer" "transaction_id sample_reader \<noteq> transaction_id sample_writer"
  by (simp_all add: running_def sample_reader_def sample_writer_def TRANSACTION_ID_START_def)

lemma one_row [simp]: "not_null_rows [Some x] = [0]" "SortSelectionVector ids [i] = [i]"
  by (simp_all add: not_null_rows_def SortSelectionVector_def)

lemma one_row_update:
  assumes "r < STANDARD_VECTOR_SIZE" "column_start seg = 0"
  shows "proper_update 1 [STANDARD_VECTOR_SIZE + r] [Some x] seg" "updated_rows 1 [STANDARD_VECTOR_SIZE + r] [Some x] seg = {r}"
    "new_value STANDARD_VECTOR_SIZE [STANDARD_VECTOR_SIZE + r] [0] [Some x] r = Some x"
    "update_rows STANDARD_VECTOR_SIZE [STANDARD_VECTOR_SIZE + r] [0] = [r]"
  using assms sample_sizes(1,2)
  by (simp_all add: proper_update_def updated_rows_def update_fits_def update_rows_def new_value_def)

lemma sample_segment_sel [simp]: "column_start sample_segment = 0"
  by (simp add: sample_segment_def)

lemma sample_conflict: "update_conflict sample_reader 1 rows sample_segment \<longleftrightarrow> 5 \<in> rows"
  using sample_segment_node [OF sample_sizes(1)]
  by (simp add: update_conflict_def conflicting_def hidden_from_def sample_node_def sample_reader_def TRANSACTION_ID_START_def)

abbreviation zeros :: "Payload option list" where
  "zeros \<equiv> replicate STANDARD_VECTOR_SIZE (Some (NumPayload 0))"

text \<open>
  C8: the outcome of an update. \<open>UpdateSegment::Update\<close> of a numeric column either finds a row that a transaction has
  updated which is still running or has committed after the start of this one, and then throws a
  \<open>TransactionException\<close> and no transaction sees a difference; or it succeeds, the updating transaction sees the new values in
  the rows of the update and every other running transaction sees in all rows what it saw before. The invariant of the chains
  is kept in both cases, whatever the order and the repetitions of the row ids.
\<close>

theorem Update_outcome:
  assumes "seg_ok starts seg" "running starts t" "proper_update v ids update seg" "length data = STANDARD_VECTOR_SIZE"
  shows "\<exists>seg' ex. us_Update TemplatedUpdateNumericStatistics t True c update ids data seg = (seg', ex) \<and> seg_ok starts seg'
    \<and> ex = (if update_conflict t v (updated_rows v ids update seg) seg then Some TransactionException else None)
    \<and> (\<forall>t2. running starts t2 \<longrightarrow> (\<exists>cells. us_FetchUpdates t2 v data seg = Inr cells
         \<and> us_FetchUpdates t2 v data seg' = Inr (map (\<lambda>r.
             if ex = None \<and> transaction_id t2 = transaction_id t \<and> r \<in> updated_rows v ids update seg
             then new_value (column_start seg + v * STANDARD_VECTOR_SIZE) ids (update_sel ids update) update r
             else cells ! r) [0..<STANDARD_VECTOR_SIZE])))"
proof -
  obtain seg' ex where r: "us_Update TemplatedUpdateNumericStatistics t True c update ids data seg = (seg', ex)" by fastforce
  note o = numeric_update.update_outcome [OF assms r]
  have v: "v < ROW_GROUP_VECTOR_COUNT" using assms(3) by (simp add: proper_update_def)
  show ?thesis
    using r o(1) o(5) [OF numeric_statistics_total] o(4) us_FetchUpdates_ok [OF assms(1) v assms(4)] us_FetchUpdates_ok [OF o(1) v assms(4)]
    by (auto simp: sees_update_def)
qed

theorem Update_outcome_witness:
  "(\<exists>seg'. us_Update TemplatedUpdateNumericStatistics sample_reader True 0 [Some (NumPayload 31)] [STANDARD_VECTOR_SIZE + 3] zeros sample_segment = (seg', None)
      \<and> (\<exists>cells. us_FetchUpdates sample_reader 1 zeros seg' = Inr cells \<and> cells ! 3 = Some (NumPayload 31)))
   \<and> (\<exists>seg'. us_Update TemplatedUpdateNumericStatistics sample_reader True 0 [Some (NumPayload 51)] [STANDARD_VECTOR_SIZE + 5] zeros sample_segment
      = (seg', Some TransactionException))"
proof -
  have n: "3 < STANDARD_VECTOR_SIZE" "5 < STANDARD_VECTOR_SIZE" by (simp_all add: sample_sizes(2))
  have up: "proper_update 1 [STANDARD_VECTOR_SIZE + 3] [Some (NumPayload 31)] sample_segment"
      "proper_update 1 [STANDARD_VECTOR_SIZE + 5] [Some (NumPayload 51)] sample_segment"
    using one_row_update(1) n by (metis sample_segment_sel)+
  note rows = one_row_update(2) [OF n(1) sample_segment_sel] one_row_update(2) [OF n(2) sample_segment_sel]
  note o = Update_outcome [OF sample_segment_ok sample_running(1) up(1) length_replicate, of 0 "Some (NumPayload 0)"]
    Update_outcome [OF sample_segment_ok sample_running(1) up(2) length_replicate, of 0 "Some (NumPayload 0)"]
  show ?thesis
  proof
    show "\<exists>seg'. us_Update TemplatedUpdateNumericStatistics sample_reader True 0 [Some (NumPayload 31)] [STANDARD_VECTOR_SIZE + 3] zeros sample_segment = (seg', None)
        \<and> (\<exists>cells. us_FetchUpdates sample_reader 1 zeros seg' = Inr cells \<and> cells ! 3 = Some (NumPayload 31))"
      using o(1) n(1) sample_running(1) one_row_update(3) [OF n(1) sample_segment_sel] unfolding rows sample_conflict by fastforce
    show "\<exists>seg'. us_Update TemplatedUpdateNumericStatistics sample_reader True 0 [Some (NumPayload 51)] [STANDARD_VECTOR_SIZE + 5] zeros sample_segment
        = (seg', Some TransactionException)"
      using o(2) unfolding rows sample_conflict by auto
  qed
qed

text \<open>
  C9: a commit publishes an update to the transactions that start afterwards and to no other. When the info of a
  transaction gets its commit id, a transaction that starts with or after this id sees, in every row of the update, what the
  committing transaction itself saw; a transaction that started before the commit sees no difference in any row.
\<close>

theorem commit_publishes_update:
  assumes "seg_ok starts seg" "v < ROW_GROUP_VECTOR_COUNT" "seg_node v seg = Some nd" "k < length (chain nd)"
    and "version_number (chain nd ! k) = transaction_id t" "running starts t" "cid < TRANSACTION_ID_START"
    and "\<forall>i \<in> set (chain nd). version_number i \<noteq> cid \<and> (TRANSACTION_ID_START \<le> version_number i \<longrightarrow> starts (version_number i) < cid)"
    and "length data = STANDARD_VECTOR_SIZE" "running starts t2" "transaction_id t2 \<noteq> transaction_id t"
  shows "\<exists>seg' own before after. commit_update cid v k seg = Inr seg' \<and> seg_ok starts seg'
    \<and> us_FetchUpdates t v data seg = Inr own \<and> us_FetchUpdates t2 v data seg = Inr before \<and> us_FetchUpdates t2 v data seg' = Inr after
    \<and> (if start_time t2 < cid then after = before else \<forall>r \<in> set (tuples (chain nd ! k)). after ! r = own ! r)"
proof -
  have tid: "TRANSACTION_ID_START \<le> transaction_id t" using assms(6) by (simp add: running_def)
  have cid: "\<forall>i \<in> set (chain nd). version_number i \<noteq> cid"
      "\<forall>i \<in> set (chain nd). TRANSACTION_ID_START \<le> version_number i \<longrightarrow> starts (version_number i) < cid" using assms(8) by blast+
  from commit_update_ok [OF assms(1-5) tid assms(7) cid] obtain seg' where
    r: "commit_update cid v k seg = Inr seg'" "seg_ok starts seg'"
      "invisible_step starts (\<lambda>u. transaction_id u \<noteq> transaction_id t \<and> start_time u < cid) v seg seg'"
    and pub: "\<forall>u u2 data r. running starts u \<longrightarrow> transaction_id u = transaction_id t \<longrightarrow> running starts u2 \<longrightarrow> cid \<le> start_time u2 \<longrightarrow>
         r \<in> set (tuples (chain nd ! k)) \<longrightarrow> visible_cell u2 v data seg' r = visible_cell u v data seg r" by blast
  have rows: "r < STANDARD_VECTOR_SIZE" if "r \<in> set (tuples (chain nd ! k))" for r
    using that seg_node_ok [OF assms(1-3)] assms(4) by (auto simp: node_ok_def info_ok_def)
  note fetch = us_FetchUpdates_ok [OF assms(1,2,9)] us_FetchUpdates_ok [OF r(2) assms(2,9)]
  show ?thesis
  proof (cases "start_time t2 < cid")
    case True
    then have "visible_cell t2 v data seg' q = visible_cell t2 v data seg q" for q
      using assms(2,10,11) by (intro invisible_cell [OF r(3)]) simp_all
    then show ?thesis using r(1,2) fetch True by simp
  next
    case False
    then have "visible_cell t2 v data seg' q = visible_cell t v data seg q" if "q \<in> set (tuples (chain nd ! k))" for q
      using pub assms(6,10) that by simp
    then show ?thesis using r(1,2) fetch False rows by simp
  qed
qed

theorem commit_publishes_update_witness:
  "\<exists>seg' own after. commit_update 9 1 0 sample_segment = Inr seg' \<and> us_FetchUpdates sample_writer 1 zeros sample_segment = Inr own
    \<and> us_FetchUpdates \<lparr>transaction_id = TRANSACTION_ID_START + 2, start_time = 12\<rparr> 1 zeros seg' = Inr after \<and> after ! 5 = own ! 5"
proof -
  define starts :: "transaction_t \<Rightarrow> transaction_t" where "starts i = (if i = TRANSACTION_ID_START + 2 then 12 else 7)" for i
  let ?t2 = "\<lparr>transaction_id = TRANSACTION_ID_START + 2, start_time = 12\<rparr>"
  have "node_ok starts sample_node"
    using sample_sizes(2) by (simp add: node_ok_def sample_node_def info_ok_def starts_def TRANSACTION_ID_START_def)
  then have "seg_ok starts sample_segment"
    using sample_sizes(1) by (auto simp: seg_ok_def sample_segment_def nth_list_update split: if_splits)
  moreover have "running starts sample_writer" "running starts ?t2" "transaction_id ?t2 \<noteq> transaction_id sample_writer"
    by (simp_all add: running_def sample_writer_def starts_def TRANSACTION_ID_START_def)
  moreover have "seg_node 1 sample_segment = Some sample_node" using sample_segment_node [OF sample_sizes(1)] by simp
  moreover have "\<forall>i \<in> set (chain sample_node). version_number i \<noteq> 9 \<and> (TRANSACTION_ID_START \<le> version_number i \<longrightarrow> starts (version_number i) < 9)"
    by (simp add: sample_node_def starts_def TRANSACTION_ID_START_def)
  moreover have "0 < length (chain sample_node)" "version_number (chain sample_node ! 0) = transaction_id sample_writer"
      "(9::transaction_t) < TRANSACTION_ID_START" "tuples (chain sample_node ! 0) = [5]"
    by (simp_all add: sample_node_def sample_writer_def TRANSACTION_ID_START_def)
  ultimately show ?thesis
    using commit_publishes_update [of starts sample_segment 1 sample_node 0 sample_writer 9 zeros ?t2] sample_sizes(1) by auto
qed

text \<open>
  C7: snapshot isolation of updates. Over any interleaving of updates, failed updates, rollbacks, commits and cleanups of any
  number of transactions on a numeric column, a transaction that runs throughout reads from every vector what it read before
  the first of these operations, changed by its own successful updates in their order and by nothing else.
\<close>

theorem update_isolation:
  assumes "us_steps TemplatedUpdateNumericStatistics starts readers data ops seg seg'" "seg_ok starts seg"
    and "\<forall>v < ROW_GROUP_VECTOR_COUNT. length (data v) = STANDARD_VECTOR_SIZE" "t \<in> readers" "running starts t" "w < ROW_GROUP_VECTOR_COUNT"
  shows "\<exists>before. us_FetchUpdates t w (data w) seg = Inr before
    \<and> us_FetchUpdates t w (data w) seg' = Inr (map (\<lambda>r. fold (own_effect (column_start seg) t w r) ops (before ! r)) [0..<STANDARD_VECTOR_SIZE])"
  using assms by (rule numeric_update.steps_fetch)

theorem update_isolation_witness:
  "\<exists>seg' before. us_steps TemplatedUpdateNumericStatistics (\<lambda>_. 7) {sample_reader} (\<lambda>_. zeros)
       [Committed (TRANSACTION_ID_START + 1) 9, Updated sample_reader 1 [STANDARD_VECTOR_SIZE + 3] [Some (NumPayload 31)]] sample_segment seg'
    \<and> us_FetchUpdates sample_reader 1 zeros sample_segment = Inr before
    \<and> us_FetchUpdates sample_reader 1 zeros seg' = Inr (before[3 := Some (NumPayload 31)])"
proof -
  have node: "seg_node 1 sample_segment = Some sample_node" using sample_segment_node [OF sample_sizes(1)] by simp
  let ?nd = "sample_node\<lparr>chain := (chain sample_node)[0 := (chain sample_node ! 0)\<lparr>version_number := 9\<rparr>]\<rparr>"
  let ?seg = "put_node 1 ?nd sample_segment"
  have ch: "chain sample_node \<noteq> []" "version_number (chain sample_node ! 0) = TRANSACTION_ID_START + 1"
      "\<forall>i \<in> set (chain sample_node). version_number i \<noteq> 9"
    by (simp_all add: sample_node_def TRANSACTION_ID_START_def)
  have small: "(9::transaction_t) < TRANSACTION_ID_START" "(7::transaction_t) < 9" "TRANSACTION_ID_START + 1 \<noteq> transaction_id sample_reader"
      "start_time sample_reader = 7"
    by (simp_all add: TRANSACTION_ID_START_def sample_reader_def)
  have com: "commit_update 9 1 0 sample_segment = Inr ?seg"
    using ch(1) sample_sizes(1) by (simp add: commit_update_def sample_segment_def vector_node_def)
  have s1: "us_step TemplatedUpdateNumericStatistics (\<lambda>_. 7) {sample_reader} (\<lambda>_. zeros) (Committed (TRANSACTION_ID_START + 1) 9) sample_segment ?seg"
    using ch small sample_sizes(1,3) by (intro us_step.commit [OF sample_sizes(1) node _ _ _ _ _ _ _ com]) auto
  have ok1: "seg_ok (\<lambda>_. 7) ?seg" using numeric_update.step_cell [OF s1 sample_segment_ok] by (simp add: step_effect_def)
  have start1: "column_start ?seg = 0" by (simp add: put_node_def)
  have n: "3 < STANDARD_VECTOR_SIZE" by (simp add: sample_sizes(2))
  note row = one_row_update [OF n start1]
  obtain seg' ex where up: "us_Update TemplatedUpdateNumericStatistics sample_reader True 0 [Some (NumPayload 31)] [STANDARD_VECTOR_SIZE + 3] zeros ?seg = (seg', ex)"
    by fastforce
  have "seg_node 1 ?seg = Some ?nd" using sample_sizes(1) by (simp add: put_node_def seg_node_def sample_segment_def)
  then have "\<not> update_conflict sample_reader 1 {3} ?seg" by (simp add: update_conflict_def conflicting_def sample_node_def)
  then have "ex = None"
    using numeric_update.update_outcome(5) [OF ok1 sample_running(1) row(1) length_replicate up numeric_statistics_total] unfolding row(2) by simp
  then have s2: "us_step TemplatedUpdateNumericStatistics (\<lambda>_. 7) {sample_reader} (\<lambda>_. zeros)
      (Updated sample_reader 1 [STANDARD_VECTOR_SIZE + 3] [Some (NumPayload 31)]) ?seg seg'"
    using up by (intro us_step.update [OF sample_running(1) row(1)]) simp
  note run = us_steps.more [OF s1 us_steps.more [OF s2 us_steps.none]]
  obtain before where before: "us_FetchUpdates sample_reader 1 zeros sample_segment = Inr before"
      "us_FetchUpdates sample_reader 1 zeros seg' = Inr (map (\<lambda>r. fold (own_effect 0 sample_reader 1 r)
         [Committed (TRANSACTION_ID_START + 1) 9, Updated sample_reader 1 [STANDARD_VECTOR_SIZE + 3] [Some (NumPayload 31)]] (before ! r)) [0..<STANDARD_VECTOR_SIZE])"
    using update_isolation [OF run sample_segment_ok _ _ sample_running(1) sample_sizes(1)] by auto
  have len: "length before = STANDARD_VECTOR_SIZE"
    using before(1) us_FetchUpdates_ok [OF sample_segment_ok sample_sizes(1) length_replicate] by auto
  have "map (\<lambda>r. fold (own_effect 0 sample_reader 1 r)
         [Committed (TRANSACTION_ID_START + 1) 9, Updated sample_reader 1 [STANDARD_VECTOR_SIZE + 3] [Some (NumPayload 31)]] (before ! r)) [0..<STANDARD_VECTOR_SIZE]
      = before[3 := Some (NumPayload 31)]"
    using len row(3,4) by (intro nth_equalityI) (auto simp: own_effect_def Let_def nth_list_update)
  then show ?thesis using run before by auto
qed

end
