(* ===== verification/Spec2Isabelle.thy ===== *)
theory Spec2Isabelle
  imports Sketch_SIMD Base_Statistics Row_Group_Collection String_Type Filter_Selection Sketch_Filter Update_Versions
begin

text \<open>
  A verification development for the storage layer of the engine under \<^verbatim>\<open>src/src/storage\<close> and its access
  paths: which rows a scan may skip, which rows it returns, and what appending, deleting, updating and committing
  do to them.

  \<^bold>\<open>The parts of the program and how they interact.\<close> A table is a collection of row groups in a segment
  tree (\<^verbatim>\<open>row_group_collection.cpp\<close>, \<^verbatim>\<open>segment_tree.hpp\<close>). A row group has the version information of its
  rows, one entry per vector of 2048 rows (\<^verbatim>\<open>row_group.cpp\<close>, \<^verbatim>\<open>row_version_manager.cpp\<close>,
  \<^verbatim>\<open>chunk_info.cpp\<close>), and its columns, whose segments carry statistics (\<^verbatim>\<open>src/src/storage/statistics\<close>).
  A scan gets table filters (\<^verbatim>\<open>src/src/planner/filter\<close>). It asks the statistics of a segment (the zone map) or
  the column sketch of a vector (\<^verbatim>\<open>column_sketch.hpp\<close>) whether the filter can hold, reads the rows its
  transaction can see into a selection vector (\<^verbatim>\<open>selection_vector.hpp\<close>), and narrows the selection with the
  filters (\<^verbatim>\<open>column_segment.cpp\<close>). Statistics, deletes and validity masks are written to and read from byte
  streams (\<^verbatim>\<open>memory_stream.cpp\<close>).

  \<^bold>\<open>Conventions.\<close> Code that can fail returns a value of a sum type: the left side is an error of the type
  \<open>exc\<close> of \<open>Prelude\<close>, the right side the result. \<open>OutOfBounds\<close>, \<open>Uninitialised\<close>, \<open>NullPointer\<close> and \<open>BadCast\<close> stand
  for undefined behaviour of the source, the other errors for its exceptions (\<open>duckdb::vector\<close> checks its indexes and
  throws an \<open>InternalException\<close>; arrays, \<open>std::vector\<close> and dangling pointers are not checked), so a theorem that an operation
  returns a result also says that it does not read or write outside its buffers. Stateful code takes and returns
  its state, a record with the fields of the class. Loops are recursive functions with a termination proof; a
  loop that may not end (the searches and walks of the segment tree and of the row groups) is a
  \<^theory_text>\<open>partial_function (option)\<close>, and the theorems state that it returns. No loop of the model has fuel. Indexes
  of type \<open>idx_t\<close> are natural numbers where the code stays far below \<open>2 ^ 64\<close>; where it relies on a width or can
  wrap (codes and base values of the sketches, masks, the binary search of the segment tree, the differences
  written with \<open>sub_row\<close>, the capacity of a memory stream, serialized integers) the width is written out. Debug assertions are not part of the
  model. Locks make the operations they protect atomic.

  \<^bold>\<open>The theories.\<close>

  \<^item> \<open>Prelude\<close>: errors, the error monad with its loops (\<open>bind_res\<close>, \<open>fold_res\<close>, \<open>map_res\<close>), 64-bit masks.

  \<^item> \<open>Selection_Vector\<close>: \<open>SelectionVector\<close> and \<open>ManagedSelection\<close> with \<open>BitmaskToSelection\<close>. The locale \<open>row_sink\<close>
  is the interface of a buffer that rows are pushed to.

  \<^item> \<open>Column_Sketch\<close>, \<open>Sketch_SIMD\<close>: the class template \<open>ColumnSketch\<close> with its scalar, AVX2 and AVX-512 routines.
  The constructor establishes the invariant \<open>sketch_inv\<close>; the locales \<open>order_preserving_code\<close> and
  \<open>separating_code\<close> say what the codes promise. The routines are exact under stated conditions on the number of
  distinct values; counterexamples show that the conditions are needed.

  \<^item> \<open>Logical_Types\<close>, \<open>Numeric_Stats\<close>, \<open>String_Stats\<close>, \<open>Base_Statistics\<close>: types, values and comparisons, and the
  statistics of a column: update, merge, zone map checks (locale \<open>zonemap\<close>), serialization. A check that prunes is
  sound for every value the statistics contain, and every operation keeps what they contain.

  \<^item> \<open>String_Type\<close>: the layout of \<open>string_t\<close> and its comparisons on words, which are the lexicographic order.

  \<^item> \<open>Byte_Stream\<close>, \<open>Validity_Mask\<close>: streams and masks with their round trips; the locale \<open>bit_buffer\<close>.

  \<^item> \<open>Chunk_Info\<close>, \<open>Version_Steps\<close>: the version information of a vector (locale \<open>version_info\<close>), and a step relation
  on which snapshot isolation is proved for every interleaving of transactions.

  \<^item> \<open>Row_Version_Manager\<close>, \<open>Row_Group_Versions\<close>: the version information of a row group with deletes, commits,
  rollbacks by undo entries, and the round trip of checkpointed deletes.

  \<^item> \<open>Segment_Tree\<close>, \<open>Row_Group_Collection\<close>: segment trees (locale \<open>segment_index\<close>) and the row groups of a table.
  Appending, committing, reverting, merging, deleting and fetching refine operations on the list of the
  row versions of the table.

  \<^item> \<open>Table_Filter\<close>, \<open>Filter_Selection\<close>, \<open>Sketch_Filter\<close>: filter trees; their evaluation on statistics, on the rows of
  a vector and on column sketches.

  \<^item> \<open>Update_Segment\<close>, \<open>Update_Fetch\<close>, \<open>Update_Versions\<close>: the updates of a column (\<^verbatim>\<open>update_segment.cpp\<close>,
  \<^verbatim>\<open>update_info.hpp\<close>) with the undo entries that commit, roll back and clean them up. The invariant \<open>seg_ok\<close> says when
  two infos of a chain may have a common row; \<open>visible_cell\<close> is what a transaction sees. The ways of reading updates
  agree, an update conflicts or is seen by its own transaction only, a commit publishes it, and over every interleaving of
  operations a transaction keeps its snapshot. The locale \<open>update_statistics\<close> is the interface of the statistics functions.


  \<^bold>\<open>Bounds.\<close> The theorems assume what the engine guarantees by construction: vectors of at most 2048 rows, row groups
  of at most \<open>ROW_GROUP_SIZE\<close> rows, fewer than \<open>2 ^ 63\<close> segments in a tree, streams of at most \<open>2 ^ 63\<close> bytes, row
  numbers below \<open>2 ^ 64\<close>, transaction ids at or above
  \<open>TRANSACTION_ID_START\<close> and commit ids below it. Sketched columns are shorter than 32768 rows because the fill
  loops of the SIMD routines count in a 16-bit integer.

  \<^bold>\<open>Not modelled.\<close> The compression functions and the buffer manager (the bytes of a segment are the concern of
  another layer), the write-ahead log and checkpoints apart from deletes, statistics and masks, indexes, ALTER TABLE,
  vacuum, and everything above the storage layer: the parser, binder, optimizer and execution operators,
  the catalog, the function library, the client interfaces, extensions and third-party code. Files that only
  declare, print or convert enumerations to strings have no behaviour to verify.
\<close>

end
